(* ===== verification/Prelude.thy ===== *)
theory Prelude
  imports Main "HOL-Library.Word"
begin

text \<open>
  Shared vocabulary of the masala development.

  Bytes are 8-bit words, identifiers (node ids, host ids, session ids, lookup ids) are
  byte lists of length \<open>SHA_DIGEST_LENGTH\<close> = 20. A computation of the C code that can go
  wrong returns a value of \<open>'a res\<close>: \<open>Inr\<close> the result, or \<open>Inl\<close> a fault that names what the
  process does instead of returning: dereference NULL, access memory outside an object,
  follow a pointer to freed memory, terminate through \<open>log_err\<close>/\<open>log_crit\<close> (both call
  \<open>exit( 1 )\<close>), or use up the fuel that bounds a loop of the model. \<open>OutOfFuel\<close> for every
  amount of fuel means that the C loop does not end.
\<close>

unbundle bit_operations_syntax

section \<open>Types\<close>

type_synonym u8 = "8 word"
type_synonym u16 = "16 word"
type_synonym u32 = "32 word"
type_synonym u64 = "64 word"
type_synonym bytes = "8 word list"
type_synonym addr = nat

datatype fault = NullDeref | OutOfBounds | UseAfterFree | ExitFailure | OutOfFuel

type_synonym 'a res = "fault + 'a"

text \<open>Sequencing of computations that may fault: a fault ends the computation.\<close>

definition bindr :: "'a res \<Rightarrow> ('a \<Rightarrow> 'b res) \<Rightarrow> 'b res" where
  "bindr m f = (case m of Inl e \<Rightarrow> Inl e | Inr x \<Rightarrow> f x)"

named_theorems res_simps \<open>simplification of fault-propagating computations\<close>
named_theorems wf_intros \<open>introduction rules for well-formedness invariants\<close>
named_theorems frame_simps \<open>fields an operation does not write\<close>

lemma bindr_Inr [simp, res_simps]: "bindr (Inr x) f = f x"
  by (simp add: bindr_def)

lemma bindr_Inl [simp, res_simps]: "bindr (Inl e) f = Inl e"
  by (simp add: bindr_def)

lemma bindr_eq_Inr [res_simps]: "bindr m f = Inr y \<longleftrightarrow> (\<exists>x. m = Inr x \<and> f x = Inr y)"
  by (cases m) auto

lemma bindr_eq_Inl: "bindr m f = Inl e \<longleftrightarrow> m = Inl e \<or> (\<exists>x. m = Inr x \<and> f x = Inl e)"
  by (cases m) auto

lemma bindr_cong [fundef_cong]:
  "m = m' \<Longrightarrow> (\<And>x. m' = Inr x \<Longrightarrow> f x = g x) \<Longrightarrow> bindr m f = bindr m' g"
  by (cases m') auto

lemma bindr_assoc: "bindr (bindr m f) g = bindr m (\<lambda>x. bindr (f x) g)"
  by (cases m) simp_all

lemma bindr_return [simp]: "bindr m Inr = m"
  by (cases m) simp_all

section \<open>Reading memory\<close>

text \<open>An object of the C program is a byte list; reading outside it is a fault.\<close>

definition rd :: "'a list \<Rightarrow> nat \<Rightarrow> 'a res" where
  "rd mem p = (if p < length mem then Inr (mem ! p) else Inl OutOfBounds)"

lemma rd_Inr [simp]: "p < length mem \<Longrightarrow> rd mem p = Inr (mem ! p)"
  by (simp add: rd_def)

lemma rd_eq_Inr [simp]: "rd mem p = Inr c \<longleftrightarrow> p < length mem \<and> c = mem ! p"
  by (auto simp: rd_def)

lemma rd_at_length [simp]: "rd (pre @ c # post) (length pre) = Inr c"
  by (simp add: rd_def)

section \<open>Writing memory\<close>

text \<open>Writing bytes at a position, and reading several (\<open>memcpy\<close>).\<close>

definition wr :: "bytes \<Rightarrow> nat \<Rightarrow> bytes \<Rightarrow> bytes res" where
  "wr mem i xs = (if i + length xs \<le> length mem
     then Inr (take i mem @ xs @ drop (i + length xs) mem) else Inl OutOfBounds)"

definition rds :: "bytes \<Rightarrow> nat \<Rightarrow> nat \<Rightarrow> bytes res" where
  "rds mem p n = (if p + n \<le> length mem then Inr (take n (drop p mem)) else Inl OutOfBounds)"

lemma wr_wr: "bindr (wr mem p xs) (\<lambda>mem'. wr mem' (p + length xs) ys) = wr mem p (xs @ ys)"
  by (auto simp: wr_def ac_simps)

lemma wr_take: "i + length xs \<le> length mem \<Longrightarrow>
    \<exists>mem'. wr mem i xs = Inr mem' \<and> length mem' = length mem \<and> take (i + length xs) mem' = take i mem @ xs"
  by (simp add: wr_def)

lemma drop_nth: "drop p mem = c # r \<Longrightarrow> p < length mem \<and> mem ! p = c \<and> drop (Suc p) mem = r"
  by (metis Cons_nth_drop_Suc drop_eq_Nil2 list.distinct(1) list.inject not_le)

lemma rds_drop:
  assumes "drop p mem = xs @ r" "p \<le> length mem"
  shows "rds mem p (length xs) = Inr xs"
proof -
  have "length mem - p = length xs + length r" using assms(1) by (metis length_append length_drop)
  then show ?thesis using assms by (auto simp: rds_def)
qed

text \<open>Filling zeroed memory from the front.\<close>

lemma wr_zeros: "wr (xs @ replicate (length ys + k) 0) (length xs) ys = Inr (xs @ ys @ replicate k 0)"
  by (simp add: wr_def)

section \<open>Byte strings\<close>

definition SHA_DIGEST_LENGTH :: nat where "SHA_DIGEST_LENGTH = 20"

definition is_id :: "bytes \<Rightarrow> bool" where
  "is_id b \<longleftrightarrow> length b = SHA_DIGEST_LENGTH"

lemma length_id: "is_id b \<Longrightarrow> length b = 20"
  by (simp add: is_id_def SHA_DIGEST_LENGTH_def)

text \<open>
  \<open>memcmp\<close> of the C library on two objects of the same size: the sign of the first
  difference, bytes compared as unsigned characters.
\<close>

fun memcmp :: "bytes \<Rightarrow> bytes \<Rightarrow> int" where
  "memcmp (x # xs) (y # ys) = (if x < y then - 1 else if y < x then 1 else memcmp xs ys)"
| "memcmp _ _ = 0"

lemma memcmp_refl [simp]: "memcmp xs xs = 0"
  by (induction xs) auto

lemma memcmp_eq_0: "length xs = length ys \<Longrightarrow> memcmp xs ys = 0 \<longleftrightarrow> xs = ys"
  by (induction xs ys rule: memcmp.induct) (auto simp: less_le)

text \<open>A byte string read as a big-endian number.\<close>

definition be_nat :: "bytes \<Rightarrow> nat" where
  "be_nat bs = foldl (\<lambda>n b. n * 256 + unat b) 0 bs"

lemma foldl_be: "foldl (\<lambda>n (b::u8). n * 256 + unat b) k bs = k * 256 ^ length bs + be_nat bs"
  unfolding be_nat_def
proof (induction bs arbitrary: k)
  case (Cons b bs)
  have "foldl (\<lambda>n (b::u8). n * 256 + unat b) k (b # bs)
      = (k * 256 + unat b) * 256 ^ length bs + foldl (\<lambda>n b. n * 256 + unat b) 0 bs"
    by (simp add: Cons[of "k * 256 + unat b"])
  also have "\<dots> = k * 256 ^ length (b # bs)
      + (unat b * 256 ^ length bs + foldl (\<lambda>n b. n * 256 + unat b) 0 bs)"
    by (simp add: algebra_simps)
  also have "unat b * 256 ^ length bs + foldl (\<lambda>n b. n * 256 + unat b) 0 bs
      = foldl (\<lambda>n b. n * 256 + unat b) 0 (b # bs)"
    by (simp add: Cons[of "unat b"])
  finally show ?case .
qed simp

lemma be_nat_Nil [simp]: "be_nat [] = 0"
  by (simp add: be_nat_def)

lemma be_nat_Cons [simp]: "be_nat (b # bs) = unat b * 256 ^ length bs + be_nat bs"
  using foldl_be[of "unat b" bs] by (simp add: be_nat_def)

lemma be_nat_append: "be_nat (as @ bs) = be_nat as * 256 ^ length bs + be_nat bs"
  by (induction as) (simp_all add: power_add algebra_simps)

lemma be_nat_replicate [simp]: "be_nat (replicate n 0) = 0"
  by (induction n) simp_all

lemma unat_u8_less [simp]: "unat (b :: u8) < 256"
  using unsigned_less[of b, where ?'a = nat] by simp

lemma be_nat_less: "be_nat bs < 256 ^ length bs"
proof (induction bs)
  case (Cons b bs)
  have "unat b * 256 ^ length bs + be_nat bs < (unat b + 1) * 256 ^ length bs"
    using Cons by simp
  also have "\<dots> \<le> 256 * 256 ^ length bs"
  proof (rule mult_right_mono)
    show "unat b + 1 \<le> 256" using unat_u8_less[of b] by linarith
  qed simp
  finally show ?case by simp
qed simp

text \<open>On objects of one size, \<open>memcmp\<close> orders byte strings as big-endian numbers.\<close>

lemma be_nat_Cons_less:
  assumes "length bs = length cs" and "b < c"
  shows "be_nat (b # bs) < be_nat (c # cs)"
proof -
  have "be_nat (b # bs) < (unat b + 1) * 256 ^ length bs"
    using be_nat_less[of bs] by simp
  also have "\<dots> \<le> unat c * 256 ^ length bs"
    using assms(2) by (intro mult_right_mono) (simp_all add: word_less_nat_alt)
  finally show ?thesis using assms(1) by simp
qed

lemma memcmp_be_nat:
  "length xs = length ys \<Longrightarrow> memcmp xs ys < 0 \<longleftrightarrow> be_nat xs < be_nat ys"
proof (induction xs ys rule: memcmp.induct)
  case (1 x xs y ys)
  then have len: "length xs = length ys" by simp
  consider "x < y" | "y < x" | "x = y" by (rule linorder_cases)
  then show ?case
  proof cases
    case 1
    then show ?thesis using be_nat_Cons_less[OF len 1] by simp
  next
    case 2
    then show ?thesis using be_nat_Cons_less[OF len[symmetric] 2] by auto
  next
    case 3
    then show ?thesis using "1.IH" len by simp
  qed
qed auto

lemma be_nat_inject: "length xs = length ys \<Longrightarrow> be_nat xs = be_nat ys \<longleftrightarrow> xs = ys"
proof (induction xs ys rule: memcmp.induct)
  case (1 x xs y ys)
  then have len: "length xs = length ys" by simp
  consider "x < y" | "y < x" | "x = y" by (rule linorder_cases)
  then show ?case
  proof cases
    case 1
    then show ?thesis using be_nat_Cons_less[OF len 1] by auto
  next
    case 2
    then show ?thesis using be_nat_Cons_less[OF len[symmetric] 2] by auto
  next
    case 3
    then show ?thesis using "1.IH" len by simp
  qed
qed auto

section \<open>Association lists keyed by addresses\<close>

text \<open>
  The nodes of a linked list seen from above: the address of every item with the payload it
  carries, in list order. The three facts below are what every component that stores item
  addresses needs.
\<close>

lemma map_of_snoc: "a \<notin> fst ` set xs \<Longrightarrow> map_of (xs @ [(a, v)]) b = (if b = a then Some v else map_of xs b)"
  by (induction xs) auto

lemma map_of_remove: "map_of (filter (\<lambda>p. fst p \<noteq> a) xs) b = (if b = a then None else map_of xs b)"
  by (induction xs) auto

lemma distinct_remove: "distinct (map fst xs) \<Longrightarrow> distinct (map fst (filter P xs))"
  by (induction xs) auto

section \<open>Character codes and decimal numerals\<close>

text \<open>The ASCII codes the wire format uses, as bytes.\<close>

abbreviation CH_d :: u8 where "CH_d \<equiv> 100"
abbreviation CH_e :: u8 where "CH_e \<equiv> 101"
abbreviation CH_i :: u8 where "CH_i \<equiv> 105"
abbreviation CH_l :: u8 where "CH_l \<equiv> 108"
abbreviation CH_colon :: u8 where "CH_colon \<equiv> 58"
abbreviation CH_minus :: u8 where "CH_minus \<equiv> 45"

definition is_digit :: "u8 \<Rightarrow> bool" where
  "is_digit c \<longleftrightarrow> 48 \<le> c \<and> c \<le> 57"

lemma is_digit_not [simp]:
  "\<not> is_digit 100" "\<not> is_digit 101" "\<not> is_digit 105" "\<not> is_digit 108" "\<not> is_digit 58"
  "\<not> is_digit 45" "\<not> is_digit 0"
  by (simp_all add: is_digit_def)

lemma is_digit_neq:
  "is_digit c \<Longrightarrow> c \<noteq> 100 \<and> c \<noteq> 101 \<and> c \<noteq> 105 \<and> c \<noteq> 108 \<and> c \<noteq> 58 \<and> c \<noteq> 45 \<and> c \<noteq> 0"
  by auto

text \<open>What \<open>printf\<close> writes for a number that is not negative.\<close>

fun dec_digits :: "nat \<Rightarrow> bytes" where
  "dec_digits n = (if n < 10 then [of_nat (48 + n)] else dec_digits (n div 10) @ [of_nat (48 + n mod 10)])"

declare dec_digits.simps [simp del]

text \<open>
  \<open>atol\<close> on a string of digits (every caller copies digits only into a zeroed buffer): the
  number, or \<open>LONG_MAX\<close> when it does not fit a 64-bit \<open>long\<close>.
\<close>

definition LONG_MAX :: nat where "LONG_MAX = 9223372036854775807"

definition digits_val :: "bytes \<Rightarrow> nat" where
  "digits_val ds = foldl (\<lambda>n d. n * 10 + (unat d - 48)) 0 ds"

definition atol :: "bytes \<Rightarrow> nat" where
  "atol ds = min (digits_val ds) LONG_MAX"

lemma is_digit_of_nat: "k < 10 \<Longrightarrow> is_digit (of_nat (48 + k))"
  by (auto simp: is_digit_def word_le_nat_alt unat_of_nat simp del: of_nat_add)

lemma unat_digit: "k < 10 \<Longrightarrow> unat (of_nat (48 + k) :: u8) - 48 = k"
  by (subst unat_of_nat) simp

lemma dec_digits_all: "\<forall>d \<in> set (dec_digits n). is_digit d"
proof (induction n rule: dec_digits.induct)
  case (1 n)
  then show ?case by (subst dec_digits.simps) (auto simp: is_digit_of_nat simp del: of_nat_add)
qed

lemma dec_digits_val: "digits_val (dec_digits n) = n"
proof (induction n rule: dec_digits.induct)
  case (1 n)
  then show ?case
    by (subst dec_digits.simps) (auto simp: digits_val_def unat_digit simp del: of_nat_add)
qed

lemma dec_digits_nonempty [simp]: "dec_digits n \<noteq> []"
  by (subst dec_digits.simps) simp

lemma dec_digits_length: "n < 10 ^ k \<Longrightarrow> 0 < k \<Longrightarrow> length (dec_digits n) \<le> k"
proof (induction n arbitrary: k rule: dec_digits.induct)
  case (1 n)
  show ?case
  proof (cases "n < 10")
    case True
    with "1.prems" show ?thesis by (subst dec_digits.simps) simp
  next
    case False
    have "k \<noteq> 1" using "1.prems" False by auto
    then have "k = Suc (k - 1)" "0 < k - 1" using "1.prems" by simp_all
    then obtain j where k: "k = Suc j" "0 < j" by blast
    have "n div 10 < 10 ^ j" using "1.prems" k by (simp add: less_mult_imp_div_less mult.commute)
    with "1.IH" False k show ?thesis by (subst dec_digits.simps) simp
  qed
qed

lemma atol_dec_digits: "n \<le> LONG_MAX \<Longrightarrow> atol (dec_digits n) = n"
  by (simp add: atol_def dec_digits_val)

end
