(* ===== verification/Ben.thy ===== *)
theory Ben
  imports Prelude
begin

text \<open>
  Bencode objects and the encoder of \<open>src/src/ben.c\<close>. A node is a tree: \<open>BStr\<close> carries the
  \<open>struct obj_str\<close> (\<open>None\<close> is the NULL that \<open>ben_init\<close> stores before \<open>ben_str\<close>), \<open>BInt\<close> the 64-bit
  \<open>unsigned long\<close>, \<open>BList\<close> and \<open>BDict\<close> the payloads of their lists in order. A constructor function
  that is misused calls \<open>log_err\<close>, which exits the process.
\<close>

section \<open>Data\<close>

datatype ben_type = BEN_STR | BEN_INT | BEN_LIST | BEN_DICT

datatype ben =
    BStr "bytes option"
  | BInt u64
  | BList "ben list"
  | BDict "obj_tuple list"
and obj_tuple = Tuple ben ben

fun ben_t :: "ben \<Rightarrow> ben_type" where
  "ben_t (BStr _) = BEN_STR"
| "ben_t (BInt _) = BEN_INT"
| "ben_t (BList _) = BEN_LIST"
| "ben_t (BDict _) = BEN_DICT"

definition ben_init :: "ben_type \<Rightarrow> ben" where
  "ben_init type = (case type of BEN_STR \<Rightarrow> BStr None | BEN_INT \<Rightarrow> BInt 0
     | BEN_DICT \<Rightarrow> BDict [] | BEN_LIST \<Rightarrow> BList [])"

section \<open>Building objects\<close>

fun ben_dict :: "ben \<Rightarrow> ben \<Rightarrow> ben option \<Rightarrow> ben res" where
  "ben_dict (BDict d) key val =
    (if ben_t key \<noteq> BEN_STR then Inl ExitFailure
     else case val of None \<Rightarrow> Inl ExitFailure | Some v \<Rightarrow> Inr (BDict (d @ [Tuple key v])))"
| "ben_dict _ key val = Inl ExitFailure"

fun ben_list :: "ben \<Rightarrow> ben option \<Rightarrow> ben res" where
  "ben_list (BList l) val = (case val of None \<Rightarrow> Inl ExitFailure | Some v \<Rightarrow> Inr (BList (l @ [v])))"
| "ben_list _ val = Inl ExitFailure"

text \<open>\<open>ben_str\<close> copies the \<open>len\<close> bytes at \<open>str\<close>; the argument is those bytes.\<close>

definition ben_str :: "ben \<Rightarrow> bytes \<Rightarrow> ben res" where
  "ben_str node s = (if ben_t node \<noteq> BEN_STR then Inl ExitFailure
     else if length s = 0 then Inl ExitFailure else Inr (BStr (Some s)))"

definition ben_int :: "ben \<Rightarrow> u64 \<Rightarrow> ben res" where
  "ben_int node i = (if ben_t node \<noteq> BEN_INT then Inl ExitFailure else Inr (BInt i))"

section \<open>Encoding\<close>

text \<open>\<open>printf( "%li" )\<close> of a 64-bit long.\<close>

definition print_li :: "u64 \<Rightarrow> bytes" where
  "print_li i = (if sint i < 0 then CH_minus # dec_digits (nat (- sint i)) else dec_digits (nat (sint i)))"

text \<open>\<open>ben_enc_size\<close> adds up the sizes of the parts; \<open>ben_enc_rec\<close> writes them. The model of the
  latter returns the bytes it writes, in order.\<close>

fun ben_enc_size :: "ben \<Rightarrow> nat res"
  and enc_size_items :: "ben list \<Rightarrow> nat res"
  and enc_size_tuples :: "obj_tuple list \<Rightarrow> nat res" where
  "ben_enc_size (BDict d) = bindr (enc_size_tuples d) (\<lambda>n. Inr (2 + n))"
| "ben_enc_size (BList l) = bindr (enc_size_items l) (\<lambda>n. Inr (2 + n))"
| "ben_enc_size (BInt i) = Inr (length (CH_i # print_li i @ [CH_e]))"
| "ben_enc_size (BStr s) = (case s of None \<Rightarrow> Inl NullDeref
     | Some b \<Rightarrow> Inr (length (dec_digits (length b) @ [CH_colon]) + length b))"
| "enc_size_items [] = Inr 0"
| "enc_size_items (x # xs) =
     bindr (ben_enc_size x) (\<lambda>n. bindr (enc_size_items xs) (\<lambda>m. Inr (n + m)))"
| "enc_size_tuples [] = Inr 0"
| "enc_size_tuples (Tuple k v # xs) =
     bindr (ben_enc_size k) (\<lambda>n. bindr (ben_enc_size v) (\<lambda>m.
     bindr (enc_size_tuples xs) (\<lambda>r. Inr (n + m + r))))"

fun ben_enc_rec :: "ben \<Rightarrow> bytes res"
  and enc_rec_items :: "ben list \<Rightarrow> bytes res"
  and enc_rec_tuples :: "obj_tuple list \<Rightarrow> bytes res" where
  "ben_enc_rec (BDict d) = bindr (enc_rec_tuples d) (\<lambda>p. Inr (CH_d # p @ [CH_e]))"
| "ben_enc_rec (BList l) = bindr (enc_rec_items l) (\<lambda>p. Inr (CH_l # p @ [CH_e]))"
| "ben_enc_rec (BInt i) = Inr (CH_i # print_li i @ [CH_e])"
| "ben_enc_rec (BStr s) = (case s of None \<Rightarrow> Inl NullDeref
     | Some b \<Rightarrow> Inr (dec_digits (length b) @ CH_colon # b))"
| "enc_rec_items [] = Inr []"
| "enc_rec_items (x # xs) =
     bindr (ben_enc_rec x) (\<lambda>p. bindr (enc_rec_items xs) (\<lambda>q. Inr (p @ q)))"
| "enc_rec_tuples [] = Inr []"
| "enc_rec_tuples (Tuple k v # xs) =
     bindr (ben_enc_rec k) (\<lambda>p. bindr (ben_enc_rec v) (\<lambda>q.
     bindr (enc_rec_tuples xs) (\<lambda>r. Inr (p @ q @ r))))"

text \<open>
  \<open>ben_enc\<close> allocates \<open>ben_enc_size\<close> bytes, lets \<open>ben_enc_rec\<close> write into them (past the end is
  \<open>OutOfBounds\<close>), and returns NULL when the size is not positive or was not used exactly.
\<close>

definition ben_enc :: "ben \<Rightarrow> bytes option res" where
  "ben_enc node = bindr (ben_enc_size node) (\<lambda>size.
     if size \<le> 0 then Inr None
     else bindr (ben_enc_rec node) (\<lambda>code.
       if size < length code then Inl OutOfBounds
       else if length code \<noteq> size then Inr None else Inr (Some code)))"

section \<open>Inspecting objects\<close>

definition ben_is_dict :: "ben option \<Rightarrow> bool" where
  "ben_is_dict node \<longleftrightarrow> (case node of None \<Rightarrow> False | Some n \<Rightarrow> ben_t n = BEN_DICT)"

definition ben_is_list :: "ben option \<Rightarrow> bool" where
  "ben_is_list node \<longleftrightarrow> (case node of None \<Rightarrow> False | Some n \<Rightarrow> ben_t n = BEN_LIST)"

definition ben_is_str :: "ben option \<Rightarrow> bool" where
  "ben_is_str node \<longleftrightarrow> (case node of None \<Rightarrow> False | Some n \<Rightarrow> ben_t n = BEN_STR)"

definition ben_is_int :: "ben option \<Rightarrow> bool" where
  "ben_is_int node \<longleftrightarrow> (case node of None \<Rightarrow> False | Some n \<Rightarrow> ben_t n = BEN_INT)"

definition ben_str_size :: "ben option \<Rightarrow> nat res" where
  "ben_str_size node = (if \<not> ben_is_str node then Inr 0
     else case node of Some (BStr (Some s)) \<Rightarrow> Inr (length s) | _ \<Rightarrow> Inl NullDeref)"

text \<open>\<open>ben_searchDictKey\<close>: the value of the first tuple whose key has the same bytes.\<close>

fun str_bytes :: "ben \<Rightarrow> bytes res" where
  "str_bytes (BStr (Some s)) = Inr s"
| "str_bytes _ = Inl NullDeref"

fun search_tuples :: "obj_tuple list \<Rightarrow> bytes \<Rightarrow> ben option res" where
  "search_tuples [] key = Inr None"
| "search_tuples (Tuple thiskey v # rest) key = bindr (str_bytes thiskey) (\<lambda>k.
     if length k = length key \<and> memcmp k key = 0 then Inr (Some v) else search_tuples rest key)"

definition ben_searchDictKey :: "ben option \<Rightarrow> ben option \<Rightarrow> ben option res" where
  "ben_searchDictKey node key = (case (node, key) of
     (Some (BDict d), Some (BStr k)) \<Rightarrow>
       (if d = [] then Inr None else bindr (str_bytes (BStr k)) (search_tuples d))
   | _ \<Rightarrow> Inr None)"

definition ben_searchDictStr :: "ben option \<Rightarrow> bytes \<Rightarrow> ben option res" where
  "ben_searchDictStr node buffer =
     bindr (ben_str (ben_init BEN_STR) buffer) (\<lambda>key. ben_searchDictKey node (Some key))"

section \<open>Well-formed objects\<close>

text \<open>
  What \<open>ben_validate\<close> lets through and \<open>ben_dec\<close> builds: strings of 1 to 33554432 bytes, string
  keys, no \<open>LONG_MIN\<close>.
\<close>

definition BEN_STR_MAXSIZE :: nat where "BEN_STR_MAXSIZE = 33554432"
definition BEN_STR_MAXLEN :: nat where "BEN_STR_MAXLEN = 10"
definition BEN_INT_MAXLEN :: nat where "BEN_INT_MAXLEN = 19"

fun ben_ok :: "ben \<Rightarrow> bool" and ben_ok_items :: "ben list \<Rightarrow> bool"
  and ben_ok_tuples :: "obj_tuple list \<Rightarrow> bool" where
  "ben_ok (BStr s) \<longleftrightarrow> (case s of None \<Rightarrow> False | Some b \<Rightarrow> b \<noteq> [] \<and> length b \<le> BEN_STR_MAXSIZE)"
| "ben_ok (BInt i) \<longleftrightarrow> - int LONG_MAX \<le> sint i"
| "ben_ok (BList l) \<longleftrightarrow> ben_ok_items l"
| "ben_ok (BDict d) \<longleftrightarrow> ben_ok_tuples d"
| "ben_ok_items [] \<longleftrightarrow> True"
| "ben_ok_items (x # xs) \<longleftrightarrow> ben_ok x \<and> ben_ok_items xs"
| "ben_ok_tuples [] \<longleftrightarrow> True"
| "ben_ok_tuples (Tuple k v # xs) \<longleftrightarrow> ben_t k = BEN_STR \<and> ben_ok k \<and> ben_ok v \<and> ben_ok_tuples xs"

section \<open>The encoder\<close>

text \<open>The objects on which the encoder faults: a string that was never filled in.\<close>

lemma enc_size_rec:
  "ben_enc_size n = map_sum id length (ben_enc_rec n)"
  "enc_size_items l = map_sum id length (enc_rec_items l)"
  "enc_size_tuples d = map_sum id length (enc_rec_tuples d)"
proof (induction n and l and d rule: ben_enc_size_enc_size_items_enc_size_tuples.induct)
  case (6 x xs)
  then show ?case by (cases "ben_enc_rec x"; cases "enc_rec_items xs") auto
next
  case (8 k v xs)
  then show ?case
    by (cases "ben_enc_rec k"; cases "ben_enc_rec v"; cases "enc_rec_tuples xs") auto
next
  case (1 d)
  then show ?case by (cases "enc_rec_tuples d") auto
next
  case (2 l)
  then show ?case by (cases "enc_rec_items l") auto
qed (auto split: option.splits)

lemma enc_rec_pos: "ben_enc_rec n = Inr p \<Longrightarrow> p \<noteq> []"
  by (cases n) (auto simp: bindr_eq_Inr split: option.splits)

lemma ben_enc_rec_enc: "ben_enc_rec n = Inr code \<Longrightarrow> ben_enc n = Inr (Some code)"
  using enc_rec_pos[of n code] by (simp add: ben_enc_def enc_size_rec)

lemma ben_ok_encodes:
  "ben_ok n \<Longrightarrow> \<exists>p. ben_enc_rec n = Inr p"
  "ben_ok_items l \<Longrightarrow> \<exists>p. enc_rec_items l = Inr p"
  "ben_ok_tuples d \<Longrightarrow> \<exists>p. enc_rec_tuples d = Inr p"
  by (induction n and l and d rule: ben_ok_ben_ok_items_ben_ok_tuples.induct)
    (auto split: option.splits)

lemma enc_rec_no_overflow:
  "ben_enc_rec n = Inl e \<Longrightarrow> e \<noteq> OutOfBounds"
  "enc_rec_items l = Inl e \<Longrightarrow> e \<noteq> OutOfBounds"
  "enc_rec_tuples d = Inl e \<Longrightarrow> e \<noteq> OutOfBounds"
  by (induction n and l and d rule: ben_enc_rec_enc_rec_items_enc_rec_tuples.induct)
    (auto simp: bindr_eq_Inl split: option.splits)

text \<open>The buffer that ben_enc allocates from ben_enc_size is exactly what ben_enc_rec writes:
  the size computed equals the length written for every object (both fault on the same
  objects, those with an unset string), so ben_enc never writes past its buffer and returns
  NULL for no object the encoder accepts.\<close>
lemma ben_enc_fits:
  "ben_enc_size node = map_sum id length (ben_enc_rec node) \<and>
   ben_enc node = map_sum id Some (ben_enc_rec node) \<and> ben_enc node \<noteq> Inl OutOfBounds"
proof (cases "ben_enc_rec node")
  case (Inr p)
  then show ?thesis using ben_enc_rec_enc[OF Inr] by (simp add: enc_size_rec)
next
  case (Inl e)
  then have "e \<noteq> OutOfBounds" by (rule enc_rec_no_overflow(1))
  with Inl show ?thesis by (simp add: enc_size_rec ben_enc_def)
qed

end
