(* ===== verification/BenValidate.thy ===== *)
theory BenValidate
  imports Ben
begin

text \<open>
  \<open>ben_validate\<close> of \<open>src/src/ben.c\<close> with its helpers. A \<open>struct obj_raw\<close> is the memory at
  \<open>code\<close> (which may be longer than the packet), the declared size \<open>sz\<close> and the offset \<open>p\<close> of the
  cursor; each function returns its verdict and the new offset. Every read goes through
  \<open>rd\<close>, so a read outside the memory would be a fault. The fuel counts calls and iterations
  of the mutually recursive functions; \<open>2 * sz + 1\<close> is always enough (\<open>validate_enough\<close>).
\<close>

section \<open>Strings and integers\<close>

text \<open>The scanning loop of \<open>ben_validate_s\<close>: \<open>i\<close> digits read since \<open>start\<close>.\<close>

function validate_s_loop :: "bytes \<Rightarrow> nat \<Rightarrow> nat \<Rightarrow> nat \<Rightarrow> nat \<Rightarrow> (bool \<times> nat) res" where
  "validate_s_loop code sz start i p =
    (if p < sz then
       bindr (rd code p) (\<lambda>c.
         if is_digit c then validate_s_loop code sz start (Suc i) (Suc p)
         else if c = CH_colon then
           (if i = 0 \<or> BEN_STR_MAXLEN < i then Inr (False, p)
            else let l = atol (take i (drop start code))
                 in if l = 0 \<or> BEN_STR_MAXSIZE < l then Inr (False, p)
                    else Inr (True, p + l + 1))
         else Inr (False, p))
     else Inr (True, p))"
  by pat_completeness auto
termination by (relation "measure (\<lambda>(code, sz, start, i, p). sz - p)") auto

declare validate_s_loop.simps [simp del]

definition ben_validate_s :: "bytes \<Rightarrow> nat \<Rightarrow> nat \<Rightarrow> (bool \<times> nat) res" where
  "ben_validate_s code sz p =
    (if sz \<le> p then Inr (False, p)
     else bindr (validate_s_loop code sz p 0 p) (\<lambda>(ok, p').
       if \<not> ok then Inr (False, p')
       else if sz < p' then Inr (False, p') else Inr (True, p')))"

function validate_i_loop :: "bytes \<Rightarrow> nat \<Rightarrow> nat \<Rightarrow> nat \<Rightarrow> nat \<Rightarrow> (bool \<times> nat) res" where
  "validate_i_loop code sz start i p =
    (if p < sz then
       bindr (rd code p) (\<lambda>c.
         if is_digit c then validate_i_loop code sz start (Suc i) (Suc p)
         else if c = CH_e then
           (if i = 0 \<or> BEN_INT_MAXLEN < i then Inr (False, p)
            else let result = atol (take i (drop start code))
                 in if LONG_MAX < result then Inr (False, p) else Inr (True, Suc p))
         else Inr (False, p))
     else Inr (True, p))"
  by pat_completeness auto
termination by (relation "measure (\<lambda>(code, sz, start, i, p). sz - p)") auto

declare validate_i_loop.simps [simp del]

definition ben_validate_i :: "bytes \<Rightarrow> nat \<Rightarrow> nat \<Rightarrow> (bool \<times> nat) res" where
  "ben_validate_i code sz p =
    (if sz \<le> Suc p then Inr (False, Suc p)
     else bindr (rd code (Suc p)) (\<lambda>c.
       let start = (if c = CH_minus then Suc (Suc p) else Suc p)
       in if c = CH_minus \<and> sz \<le> start then Inr (False, start)
          else bindr (validate_i_loop code sz start 0 start) (\<lambda>(ok, p').
            if \<not> ok then Inr (False, p')
            else if sz < p' then Inr (False, p') else Inr (True, p'))))"

section \<open>Lists, dictionaries and the dispatcher\<close>

function (sequential) ben_validate_r :: "nat \<Rightarrow> bytes \<Rightarrow> nat \<Rightarrow> nat \<Rightarrow> (bool \<times> nat) res"
  and validate_d_loop :: "nat \<Rightarrow> bytes \<Rightarrow> nat \<Rightarrow> nat \<Rightarrow> (bool \<times> nat) res"
  and validate_l_loop :: "nat \<Rightarrow> bytes \<Rightarrow> nat \<Rightarrow> nat \<Rightarrow> (bool \<times> nat) res" where
  "ben_validate_r 0 code sz p = Inl OutOfFuel"
| "ben_validate_r (Suc fuel) code sz p =
    (if sz < 1 then Inr (False, p)
     else if sz \<le> p then Inr (False, p)
     else bindr (rd code p) (\<lambda>c.
       if c = CH_d then
         (if sz \<le> Suc p then Inr (False, Suc p) else validate_d_loop fuel code sz (Suc p))
       else if c = CH_l then
         (if sz \<le> Suc p then Inr (False, Suc p) else validate_l_loop fuel code sz (Suc p))
       else if c = CH_i then ben_validate_i code sz p
       else if is_digit c then ben_validate_s code sz p
       else Inr (False, p)))"
| "validate_d_loop 0 code sz p = Inl OutOfFuel"
| "validate_d_loop (Suc fuel) code sz p =
    bindr (rd code p) (\<lambda>c.
      if c = CH_e then Inr (Suc p \<le> sz, Suc p)
      else bindr (ben_validate_s code sz p) (\<lambda>(ok, p1).
        if \<not> ok then Inr (False, p1)
        else bindr (ben_validate_r fuel code sz p1) (\<lambda>(ok, p2).
          if \<not> ok then Inr (False, p2)
          else if sz \<le> p2 then Inr (False, p2)
          else validate_d_loop fuel code sz p2)))"
| "validate_l_loop 0 code sz p = Inl OutOfFuel"
| "validate_l_loop (Suc fuel) code sz p =
    bindr (rd code p) (\<lambda>c.
      if c = CH_e then Inr (Suc p \<le> sz, Suc p)
      else bindr (ben_validate_r fuel code sz p) (\<lambda>(ok, p2).
          if \<not> ok then Inr (False, p2)
          else if sz \<le> p2 then Inr (False, p2)
          else validate_l_loop fuel code sz p2))"
  by pat_completeness auto
termination
  by (relation "measure (\<lambda>x. case x of Inl (fuel, _) \<Rightarrow> fuel
        | Inr (Inl (fuel, _)) \<Rightarrow> fuel | Inr (Inr (fuel, _)) \<Rightarrow> fuel)") auto

definition ben_validate :: "bytes \<Rightarrow> nat \<Rightarrow> bool res" where
  "ben_validate code sz = bindr (ben_validate_r (2 * sz + 1) code sz 0) (\<lambda>(ok, p). Inr ok)"

section \<open>Scanning\<close>

text \<open>
  A maximal run of digits from \<open>p\<close>: where it ends below \<open>sz\<close>, the byte there decides.
\<close>

lemma validate_s_loop_total:
  "sz \<le> length code \<Longrightarrow> p \<le> sz \<Longrightarrow>
     \<exists>ok p'. validate_s_loop code sz start i p = Inr (ok, p') \<and> (ok \<longrightarrow> p \<le> p')"
proof (induction code sz start i p rule: validate_s_loop.induct)
  case (1 code sz start i p)
  show ?case
  proof (cases "p < sz \<and> is_digit (code ! p)")
    case True
    with "1.prems" have "\<exists>ok p'. validate_s_loop code sz start (Suc i) (Suc p) = Inr (ok, p') \<and>
        (ok \<longrightarrow> Suc p \<le> p')"
      by (intro "1.IH") auto
    with True "1.prems" show ?thesis by (subst validate_s_loop.simps) auto
  next
    case False
    with "1.prems" show ?thesis by (subst validate_s_loop.simps) (auto simp: Let_def)
  qed
qed

lemma validate_i_loop_total:
  "sz \<le> length code \<Longrightarrow> p \<le> sz \<Longrightarrow>
     \<exists>ok p'. validate_i_loop code sz start i p = Inr (ok, p') \<and> (ok \<longrightarrow> p \<le> p')"
proof (induction code sz start i p rule: validate_i_loop.induct)
  case (1 code sz start i p)
  show ?case
  proof (cases "p < sz \<and> is_digit (code ! p)")
    case True
    with "1.prems" have "\<exists>ok p'. validate_i_loop code sz start (Suc i) (Suc p) = Inr (ok, p') \<and>
        (ok \<longrightarrow> Suc p \<le> p')"
      by (intro "1.IH") auto
    with True "1.prems" show ?thesis by (subst validate_i_loop.simps) auto
  next
    case False
    with "1.prems" show ?thesis by (subst validate_i_loop.simps) (auto simp: Let_def)
  qed
qed

text \<open>
  \<open>answers sz p r\<close>: the computation \<open>r\<close>, started at offset \<open>p\<close>, gives a verdict, and an accepting
  one moved the cursor forward and not beyond \<open>sz\<close>.
\<close>

definition answers :: "nat \<Rightarrow> nat \<Rightarrow> (bool \<times> nat) res \<Rightarrow> bool" where
  "answers sz p r \<longleftrightarrow> (case r of Inl _ \<Rightarrow> False | Inr (ok, p') \<Rightarrow> ok \<longrightarrow> p < p' \<and> p' \<le> sz)"

lemma answers_Inr [simp]: "answers sz p (Inr (ok, p')) \<longleftrightarrow> (ok \<longrightarrow> p < p' \<and> p' \<le> sz)"
  by (simp add: answers_def)

lemma answers_obtain:
  assumes "answers sz p r"
  obtains ok p' where "r = Inr (ok, p')" "ok \<Longrightarrow> p < p' \<and> p' \<le> sz"
  using assms by (auto simp: answers_def split: sum.splits)

lemma answers_weaken: "answers sz p r \<Longrightarrow> q \<le> p \<Longrightarrow> answers sz q r"
  by (auto simp: answers_def split: sum.splits)

lemma answers_bind:
  assumes "answers sz p r" and "\<And>p'. p < p' \<Longrightarrow> p' \<le> sz \<Longrightarrow> answers sz q (f (True, p'))"
    and "\<And>p'. answers sz q (f (False, p'))"
  shows "answers sz q (bindr r f)"
  using assms(1)
proof (rule answers_obtain)
  fix ok p'
  assume "r = Inr (ok, p')" "ok \<Longrightarrow> p < p' \<and> p' \<le> sz"
  then show ?thesis using assms(2,3) by (cases ok) auto
qed

text \<open>A scan that starts on a colon fails, so an accepted string takes at least one byte.\<close>

lemma validate_s_answers:
  assumes "sz \<le> length code"
  shows "answers sz p (ben_validate_s code sz p)"
proof (cases "p < sz")
  case True
  show ?thesis
  proof (cases "is_digit (code ! p)")
    case digit: True
    have step: "validate_s_loop code sz p 0 p = validate_s_loop code sz p 1 (Suc p)"
      using True assms digit by (subst validate_s_loop.simps) simp
    from validate_s_loop_total[OF assms, of "Suc p" p 1] True
    show ?thesis by (auto simp: ben_validate_s_def step)
  next
    case False
    with True assms show ?thesis
      by (auto simp: ben_validate_s_def validate_s_loop.simps[of code sz p 0 p])
  qed
qed (simp add: ben_validate_s_def)

lemma validate_i_answers:
  assumes "sz \<le> length code"
  shows "answers sz p (ben_validate_i code sz p)"
proof (cases "sz \<le> Suc p \<or> code ! Suc p = CH_minus \<and> sz \<le> Suc (Suc p)")
  case True
  then show ?thesis using assms by (cases "sz \<le> Suc p") (auto simp: ben_validate_i_def Let_def)
next
  case False
  let ?start = "if code ! Suc p = CH_minus then Suc (Suc p) else Suc p"
  have "?start \<le> sz" using False by auto
  from validate_i_loop_total[OF assms this, of ?start 0]
  obtain ok p' where r: "validate_i_loop code sz ?start 0 ?start = Inr (ok, p')" "ok \<longrightarrow> ?start \<le> p'"
    by blast
  have "p < ?start" by simp
  then have "ok \<longrightarrow> p < p'" using r(2) by linarith
  moreover have "Suc p < length code" using False assms by simp
  ultimately show ?thesis using False r(1) by (simp add: ben_validate_i_def Let_def)
qed

section \<open>The validator always answers\<close>

lemma validate_enough:
  assumes "sz \<le> length code"
  shows "2 * (sz - p) + 1 \<le> fuel \<Longrightarrow> answers sz p (ben_validate_r fuel code sz p)"
    and "p < sz \<Longrightarrow> 2 * (sz - p) + 2 \<le> fuel \<Longrightarrow> answers sz p (validate_d_loop fuel code sz p)"
    and "p < sz \<Longrightarrow> 2 * (sz - p) + 2 \<le> fuel \<Longrightarrow> answers sz p (validate_l_loop fuel code sz p)"
proof (induction fuel arbitrary: p)
  case (Suc fuel)
  note IH = Suc.IH
  {
    case 1
    show ?case
    proof (cases "p < sz")
      case True
      then have "Suc p < sz \<Longrightarrow> answers sz p (validate_d_loop fuel code sz (Suc p))"
        "Suc p < sz \<Longrightarrow> answers sz p (validate_l_loop fuel code sz (Suc p))"
        using 1 by (auto intro!: answers_weaken[of sz "Suc p"] IH)
      with True assms validate_s_answers[OF assms, of p] validate_i_answers[OF assms, of p]
      show ?thesis by simp
    qed simp
  next
    case 2
    have "answers sz p (validate_d_loop fuel code sz q)" if "p < q'" "q' < q" "q \<le> sz" "sz \<noteq> q" for q q'
      using IH(2)[of q] 2 that by (auto intro: answers_weaken[of sz q])
    moreover have "answers sz q (ben_validate_r fuel code sz q)" if "p < q" "q \<le> sz" for q
      using IH(1)[of q] 2 that by auto
    ultimately show ?case using 2 assms
      by (auto intro!: answers_bind[OF validate_s_answers[OF assms]]
          answers_bind[where r = "ben_validate_r _ _ _ _"])
  next
    case 3
    have "answers sz p (validate_l_loop fuel code sz q)" if "p < q" "q < sz" for q
      using IH(3)[of q] 3 that by (auto intro: answers_weaken[of sz q])
    moreover have "answers sz p (ben_validate_r fuel code sz p)"
      using IH(1)[of p] 3 by auto
    ultimately show ?case using 3 assms
      by (auto intro!: answers_bind[where r = "ben_validate_r _ _ _ _"])
  }
qed simp_all

lemma validate_total:
  assumes "sz \<le> length code"
  shows "\<exists>ok. ben_validate code sz = Inr ok"
proof -
  have "answers sz 0 (ben_validate_r (2 * sz + 1) code sz 0)"
    by (rule validate_enough(1)[OF assms]) simp
  then obtain ok p' where "ben_validate_r (2 * sz + 1) code sz 0 = Inr (ok, p')"
    by (rule answers_obtain)
  then show ?thesis by (simp add: ben_validate_def del: ben_validate_r.simps)
qed

text \<open>C27: ben_validate is memory-safe and total: for every packet and every declared size that
  does not exceed the buffer it returns a verdict, reads no byte outside the buffer, and
  its recursion over nested lists and dictionaries ends.\<close>
theorem ben_validate_total:
  assumes "sz \<le> length code"
  shows "\<exists>ok. ben_validate code sz = Inr ok"
  by (rule validate_total[OF assms])

theorem ben_validate_total_witness:
  "\<exists>ok. ben_validate [CH_d, 49, CH_colon, 97, CH_i, 49, CH_e, CH_e, 0] 8 = Inr ok"
  by (rule ben_validate_total) simp

end
