(* ===== verification/BenDecode.thy ===== *)
theory BenDecode
  imports BenValidate
begin

text \<open>
  The decoder \<open>ben_dec\<close> of \<open>src/src/ben.c\<close>. It takes no notice of the declared size: the cursor
  runs over the memory at \<open>code\<close> until the object is complete, and a scan for the end of a
  number neither moves nor stops on a byte that is not expected. Each iteration of a scan,
  each call and each iteration of a container loop takes one unit of fuel, so \<open>OutOfFuel\<close> for
  every fuel is a decoder that never returns. The theorem: a validated list or dictionary
  decodes without any fault. Round trip and divergence are in \<open>BenRoundTrip\<close>.
\<close>

section \<open>The decoder\<close>

text \<open>The scans return the number of digits and the offset of the terminator.\<close>

fun dec_scan :: "u8 \<Rightarrow> nat \<Rightarrow> bytes \<Rightarrow> nat \<Rightarrow> nat \<Rightarrow> (nat \<times> nat) res" where
  "dec_scan stop 0 code i p = Inl OutOfFuel"
| "dec_scan stop (Suc fuel) code i p =
    bindr (rd code p) (\<lambda>c.
      if is_digit c then dec_scan stop fuel code (Suc i) (Suc p)
      else if c = stop then Inr (i, p)
      else dec_scan stop fuel code i p)"

definition ben_dec_s :: "nat \<Rightarrow> bytes \<Rightarrow> nat \<Rightarrow> (ben \<times> nat) res" where
  "ben_dec_s fuel code p =
    bindr (dec_scan CH_colon fuel code 0 p) (\<lambda>(i, q).
      let l = atol (take i (drop p code))
      in if length code < Suc q + l then Inl OutOfBounds
         else bindr (ben_str (ben_init BEN_STR) (take l (drop (Suc q) code)))
           (\<lambda>node. Inr (node, Suc q + l)))"

definition ben_dec_i :: "nat \<Rightarrow> bytes \<Rightarrow> nat \<Rightarrow> (ben \<times> nat) res" where
  "ben_dec_i fuel code p =
    bindr (rd code (Suc p)) (\<lambda>c.
      let neg = (c = CH_minus); start = (if neg then Suc (Suc p) else Suc p)
      in bindr (dec_scan CH_e fuel code 0 start) (\<lambda>(i, q).
        let result = (of_nat (atol (take i (drop start code))) :: u64)
        in bindr (ben_int (ben_init BEN_INT) (if neg then - result else result))
           (\<lambda>node. Inr (node, Suc q))))"

function (sequential) ben_dec_r :: "nat \<Rightarrow> bytes \<Rightarrow> nat \<Rightarrow> (ben option \<times> nat) res"
  and dec_d_loop :: "nat \<Rightarrow> bytes \<Rightarrow> ben \<Rightarrow> nat \<Rightarrow> (ben \<times> nat) res"
  and dec_l_loop :: "nat \<Rightarrow> bytes \<Rightarrow> ben \<Rightarrow> nat \<Rightarrow> (ben \<times> nat) res" where
  "ben_dec_r 0 code p = Inl OutOfFuel"
| "ben_dec_r (Suc fuel) code p =
    bindr (rd code p) (\<lambda>c.
      if c = CH_d then
        bindr (dec_d_loop fuel code (ben_init BEN_DICT) (Suc p)) (\<lambda>(node, p'). Inr (Some node, p'))
      else if c = CH_l then
        bindr (dec_l_loop fuel code (ben_init BEN_LIST) (Suc p)) (\<lambda>(node, p'). Inr (Some node, p'))
      else if c = CH_i then bindr (ben_dec_i fuel code p) (\<lambda>(node, p'). Inr (Some node, p'))
      else if is_digit c then bindr (ben_dec_s fuel code p) (\<lambda>(node, p'). Inr (Some node, p'))
      else Inr (None, p))"
| "dec_d_loop 0 code dict p = Inl OutOfFuel"
| "dec_d_loop (Suc fuel) code dict p =
    bindr (rd code p) (\<lambda>c.
      if c = CH_e then Inr (dict, Suc p)
      else bindr (ben_dec_s fuel code p) (\<lambda>(key, p1).
        bindr (ben_dec_r fuel code p1) (\<lambda>(val, p2).
        bindr (ben_dict dict key val) (\<lambda>dict'. dec_d_loop fuel code dict' p2))))"
| "dec_l_loop 0 code list p = Inl OutOfFuel"
| "dec_l_loop (Suc fuel) code list p =
    bindr (rd code p) (\<lambda>c.
      if c = CH_e then Inr (list, Suc p)
      else bindr (ben_dec_r fuel code p) (\<lambda>(val, p2).
        bindr (ben_list list val) (\<lambda>list'. dec_l_loop fuel code list' p2)))"
  by pat_completeness auto
termination
  by (relation "measure (\<lambda>x. case x of Inl (fuel, _) \<Rightarrow> fuel
        | Inr (Inl (fuel, _)) \<Rightarrow> fuel | Inr (Inr (fuel, _)) \<Rightarrow> fuel)") auto

definition ben_dec :: "nat \<Rightarrow> bytes \<Rightarrow> ben option res" where
  "ben_dec fuel code = bindr (ben_dec_r fuel code 0) (\<lambda>(node, p). Inr node)"

section \<open>Scanning digits\<close>

definition digits_at :: "bytes \<Rightarrow> nat \<Rightarrow> nat \<Rightarrow> bool" where
  "digits_at code p q \<longleftrightarrow> (\<forall>j \<in> {p..<q}. is_digit (code ! j))"

lemma digits_at_refl [simp]: "digits_at code p p"
  by (simp add: digits_at_def)

lemma digits_at_step: "p < q \<Longrightarrow> digits_at code p q \<longleftrightarrow> is_digit (code ! p) \<and> digits_at code (Suc p) q"
  by (auto simp: digits_at_def Suc_le_eq le_less)

lemma dec_scan_digits:
  "digits_at code p q \<Longrightarrow> p \<le> q \<Longrightarrow> q < length code \<Longrightarrow> \<not> is_digit (code ! q) \<Longrightarrow> code ! q = stop \<Longrightarrow>
    q - p < fuel \<Longrightarrow> dec_scan stop fuel code i p = Inr (i + (q - p), q)"
proof (induction stop fuel code i p rule: dec_scan.induct)
  case (2 stop fuel code i p)
  show ?case
  proof (cases "p = q")
    case False
    with "2.prems" have "is_digit (code ! p)" "digits_at code (Suc p) q"
      by (simp_all add: digits_at_step)
    with False "2.prems" "2.IH"(1)[of "code ! p"] show ?thesis by simp
  qed (use "2.prems" in simp)
qed simp

text \<open>What an accepting scan of the validator has seen.\<close>

lemma validate_s_loop_accept:
  "validate_s_loop code sz start i p = Inr (True, p') \<Longrightarrow> sz \<le> length code \<Longrightarrow> p \<le> sz \<Longrightarrow>
    (\<exists>q. p \<le> q \<and> q < sz \<and> digits_at code p q \<and> code ! q = CH_colon \<and>
       0 < atol (take (i + (q - p)) (drop start code)) \<and>
       atol (take (i + (q - p)) (drop start code)) \<le> BEN_STR_MAXSIZE \<and>
       p' = Suc q + atol (take (i + (q - p)) (drop start code)))
    \<or> p' = sz \<and> digits_at code p sz"
proof (induction code sz start i p rule: validate_s_loop.induct)
  case (1 code sz start i p)
  show ?case
  proof (cases "p < sz")
    case True
    show ?thesis
    proof (cases "is_digit (code ! p)")
      case digit: True
      with True "1.prems" have "validate_s_loop code sz start (Suc i) (Suc p) = Inr (True, p')"
        by (simp add: validate_s_loop.simps[of code sz start i p])
      from "1.IH"[OF True _ digit this] digit True "1.prems"(2) consider
        (hit) q where "Suc p \<le> q" "q < sz" "digits_at code (Suc p) q" "code ! q = CH_colon"
          "0 < atol (take (Suc i + (q - Suc p)) (drop start code))"
          "atol (take (Suc i + (q - Suc p)) (drop start code)) \<le> BEN_STR_MAXSIZE"
          "p' = Suc q + atol (take (Suc i + (q - Suc p)) (drop start code))"
        | (tail) "p' = sz" "digits_at code (Suc p) sz" by auto
      then show ?thesis
      proof cases
        case hit
        then have "Suc i + (q - Suc p) = i + (q - p)" "p < q" by simp_all
        with hit digit show ?thesis
          by (intro disjI1 exI[of _ q]) (simp add: digits_at_step)
      next
        case tail
        with digit True show ?thesis by (simp add: digits_at_step)
      qed
    next
      case False
      with True "1.prems" show ?thesis
        by (intro disjI1 exI[of _ p])
          (simp add: validate_s_loop.simps[of code sz start i p] Let_def split: if_splits)
    qed
  next
    case False
    with "1.prems" show ?thesis by (simp add: validate_s_loop.simps[of code sz start i p])
  qed
qed

lemma validate_i_loop_accept:
  "validate_i_loop code sz start i p = Inr (True, p') \<Longrightarrow> sz \<le> length code \<Longrightarrow> p \<le> sz \<Longrightarrow>
    (\<exists>q. p \<le> q \<and> q < sz \<and> digits_at code p q \<and> code ! q = CH_e \<and> p' = Suc q) \<or>
    p' = sz \<and> digits_at code p sz"
proof (induction code sz start i p rule: validate_i_loop.induct)
  case (1 code sz start i p)
  show ?case
  proof (cases "p < sz")
    case True
    show ?thesis
    proof (cases "is_digit (code ! p)")
      case digit: True
      with True "1.prems" have "validate_i_loop code sz start (Suc i) (Suc p) = Inr (True, p')"
        by (simp add: validate_i_loop.simps[of code sz start i p])
      from "1.IH"[OF True _ digit this] digit True "1.prems"(2) consider
        (hit) q where "Suc p \<le> q" "q < sz" "digits_at code (Suc p) q" "code ! q = CH_e" "p' = Suc q"
        | (tail) "p' = sz" "digits_at code (Suc p) sz" by auto
      then show ?thesis
      proof cases
        case hit
        with digit show ?thesis by (intro disjI1 exI[of _ q]) (simp add: digits_at_step)
      next
        case tail
        with digit True show ?thesis by (simp add: digits_at_step)
      qed
    next
      case False
      with True "1.prems" show ?thesis
        by (intro disjI1 exI[of _ p])
          (simp add: validate_i_loop.simps[of code sz start i p] Let_def split: if_splits)
    qed
  next
    case False
    with "1.prems" show ?thesis by (simp add: validate_i_loop.simps[of code sz start i p])
  qed
qed

section \<open>Validated strings and integers decode\<close>

lemma ben_validate_s_dec_or:
  assumes "ben_validate_s code sz p = Inr (True, p')" "sz \<le> length code" "sz - p \<le> fuel"
  shows "(\<exists>s. ben_dec_s fuel code p = Inr (BStr (Some s), p') \<and> ben_ok (BStr (Some s))) \<or>
    p' = sz \<and> digits_at code p sz"
proof -
  from assms have p: "p < sz" "p' \<le> sz" and loop: "validate_s_loop code sz p 0 p = Inr (True, p')"
    by (auto simp: ben_validate_s_def bindr_eq_Inr split: if_splits)
  from validate_s_loop_accept[OF loop assms(2) less_imp_le[OF p(1)]] show ?thesis
  proof (elim disjE exE)
    fix q
    assume "p \<le> q \<and> q < sz \<and> digits_at code p q \<and> code ! q = CH_colon \<and>
       0 < atol (take (0 + (q - p)) (drop p code)) \<and>
       atol (take (0 + (q - p)) (drop p code)) \<le> BEN_STR_MAXSIZE \<and>
       p' = Suc q + atol (take (0 + (q - p)) (drop p code))"
    then have q: "p \<le> q" "q < sz" "digits_at code p q" "code ! q = CH_colon"
      "0 < atol (take (q - p) (drop p code))"
      "atol (take (q - p) (drop p code)) \<le> BEN_STR_MAXSIZE"
      "p' = Suc q + atol (take (q - p) (drop p code))" by auto
    have "dec_scan CH_colon fuel code 0 p = Inr (q - p, q)"
      using dec_scan_digits[of code p q CH_colon fuel 0] q assms by simp
    with q assms p show ?thesis
      by (auto simp: ben_dec_s_def ben_str_def ben_init_def Let_def)
  qed simp_all
qed

lemma ben_validate_s_dec:
  assumes "ben_validate_s code sz p = Inr (True, p')" "sz \<le> length code" "p' < sz" "sz - p \<le> fuel"
  shows "\<exists>s. ben_dec_s fuel code p = Inr (BStr (Some s), p') \<and> ben_ok (BStr (Some s))"
  using ben_validate_s_dec_or[OF assms(1,2,4)] assms(3) by blast

lemma sint_of_nat_LONG_MAX:
  "n \<le> LONG_MAX \<Longrightarrow> sint (of_nat n :: u64) = int n \<and> sint (- (of_nat n) :: u64) = - int n"
proof
  assume n: "n \<le> LONG_MAX"
  then show "sint (of_nat n :: u64) = int n"
    by (simp add: LONG_MAX_def signed_of_nat signed_take_bit_int_eq_self)
  have "sint (word_of_int (- int n) :: u64) = - int n"
    using n by (subst signed_of_int) (simp add: LONG_MAX_def signed_take_bit_int_eq_self)
  then show "sint (- (of_nat n) :: u64) = - int n" by simp
qed

lemma atol_le [simp]: "atol ds \<le> LONG_MAX"
  by (simp add: atol_def)

lemma ben_validate_i_dec_or:
  assumes "ben_validate_i code sz p = Inr (True, p')" "sz \<le> length code" "sz - p \<le> fuel"
  shows "(\<exists>i. ben_dec_i fuel code p = Inr (BInt i, p') \<and> ben_ok (BInt i)) \<or>
    Suc p < sz \<and> p' = sz \<and> (if code ! Suc p = CH_minus then Suc (Suc p) else Suc p) \<le> sz \<and>
    digits_at code (if code ! Suc p = CH_minus then Suc (Suc p) else Suc p) sz"
proof -
  let ?start = "if code ! Suc p = CH_minus then Suc (Suc p) else Suc p"
  from assms have p: "Suc p < sz" and s: "?start \<le> sz"
    and loop: "validate_i_loop code sz ?start 0 ?start = Inr (True, p')"
    by (auto simp: ben_validate_i_def Let_def bindr_eq_Inr split: if_splits)
  from validate_i_loop_accept[OF loop assms(2) s] show ?thesis
  proof (elim disjE exE)
    fix q
    assume "?start \<le> q \<and> q < sz \<and> digits_at code ?start q \<and> code ! q = CH_e \<and> p' = Suc q"
    then have q: "?start \<le> q" "q < sz" "digits_at code ?start q" "code ! q = CH_e" "p' = Suc q" by blast+
    have "dec_scan CH_e fuel code 0 ?start = Inr (q - ?start, q)"
      using dec_scan_digits[of code ?start q CH_e fuel 0] q assms p by (simp split: if_splits)
    with q(5) assms(2) p show ?thesis
      by (simp add: ben_dec_i_def ben_int_def ben_init_def Let_def sint_of_nat_LONG_MAX
          order_trans[of "- _" 0])
  qed (use p s in simp)
qed

lemma ben_validate_i_dec:
  assumes "ben_validate_i code sz p = Inr (True, p')" "sz \<le> length code" "p' < sz" "sz - p \<le> fuel"
  shows "\<exists>i. ben_dec_i fuel code p = Inr (BInt i, p') \<and> ben_ok (BInt i)"
  using ben_validate_i_dec_or[OF assms(1,2,4)] assms(3) by blast


section \<open>Validated containers decode\<close>

lemma ben_dict_snoc:
  "ben_ok (BStr (Some s)) \<Longrightarrow> ben_dict (BDict d) (BStr (Some s)) (Some v) = Inr (BDict (d @ [Tuple (BStr (Some s)) v]))"
  by simp

lemma ben_ok_items_append [simp]: "ben_ok_items (a @ b) \<longleftrightarrow> ben_ok_items a \<and> ben_ok_items b"
  by (induction a) auto

lemma ben_ok_tuples_append [simp]: "ben_ok_tuples (a @ b) \<longleftrightarrow> ben_ok_tuples a \<and> ben_ok_tuples b"
proof (induction a)
  case (Cons t a)
  then show ?case by (cases t) auto
qed simp

text \<open>
  The decoder follows the validator step by step. A bare number is the only object whose
  validation can succeed at the very end of the packet without a terminator.
\<close>

lemma validated_decodes:
  assumes len: "sz \<le> length code"
  shows "ben_validate_r fuel code sz p = Inr (True, p') \<Longrightarrow>
      p' < sz \<or> code ! p = CH_d \<or> code ! p = CH_l \<Longrightarrow> 2 * (sz - p) + 1 \<le> fuel \<Longrightarrow>
      \<exists>n. ben_dec_r fuel code p = Inr (Some n, p') \<and> ben_ok n"
    and "validate_d_loop fuel code sz p = Inr (True, p') \<Longrightarrow> p < sz \<Longrightarrow> 2 * (sz - p) + 2 \<le> fuel \<Longrightarrow>
      ben_ok_tuples d \<Longrightarrow> \<exists>d'. dec_d_loop fuel code (BDict d) p = Inr (BDict d', p') \<and> ben_ok_tuples d'"
    and "validate_l_loop fuel code sz p = Inr (True, p') \<Longrightarrow> p < sz \<Longrightarrow> 2 * (sz - p) + 2 \<le> fuel \<Longrightarrow>
      ben_ok_items l \<Longrightarrow> \<exists>l'. dec_l_loop fuel code (BList l) p = Inr (BList l', p') \<and> ben_ok_items l'"
proof (induction fuel arbitrary: p p' d l)
  case (Suc fuel)
  note IH = Suc.IH
  {
    case 1
    then have p: "p < sz" by (auto split: if_splits)
    consider "code ! p = CH_d" | "code ! p = CH_l" | "code ! p = CH_i" | "is_digit (code ! p)"
      using 1 p len by (auto split: if_splits)
    then show ?case
    proof cases
      case k: 1
      with 1 p len have "Suc p < sz" "validate_d_loop fuel code sz (Suc p) = Inr (True, p')"
        by (auto split: if_splits)
      moreover have "2 * (sz - Suc p) + 2 \<le> fuel" using 1(3) p by simp
      ultimately show ?thesis using IH(2)[of "Suc p" p' "[]"] k p len
        by (auto simp: ben_init_def)
    next
      case k: 2
      with 1 p len have "Suc p < sz" "validate_l_loop fuel code sz (Suc p) = Inr (True, p')"
        by (auto split: if_splits)
      moreover have "2 * (sz - Suc p) + 2 \<le> fuel" using 1(3) p by simp
      ultimately show ?thesis using IH(3)[of "Suc p" p' "[]"] k p len
        by (auto simp: ben_init_def)
    next
      case k: 3
      with 1 p len have "ben_validate_i code sz p = Inr (True, p')" "p' < sz"
        by (auto split: if_splits)
      from ben_validate_i_dec[OF this(1) len this(2), of fuel] 1(3) k p len show ?thesis
        by (auto simp del: ben_ok.simps)
    next
      case k: 4
      note nd = is_digit_neq[OF k]
      with k 1 p len have "ben_validate_s code sz p = Inr (True, p')" "p' < sz"
        by (auto split: if_splits)
      from ben_validate_s_dec[OF this(1) len this(2), of fuel] 1(3) k nd p len show ?thesis
        by (auto simp del: ben_ok.simps)
    qed
  next
    case 2
    show ?case
    proof (cases "code ! p = CH_e")
      case False
      with 2 len obtain p1 p2 where s: "ben_validate_s code sz p = Inr (True, p1)"
        and r: "ben_validate_r fuel code sz p1 = Inr (True, p2)" and p2: "p2 < sz"
        and d: "validate_d_loop fuel code sz p2 = Inr (True, p')"
        by (auto simp: bindr_eq_Inr split: if_splits)
      have "p < p1" "p1 \<le> sz" using validate_s_answers[OF len, of p] s by simp_all
      have fuel: "2 * (sz - p1) + 1 \<le> fuel" using \<open>p < p1\<close> 2 by simp
      have "p1 < p2" using validate_enough(1)[OF len fuel] r by simp
      from ben_validate_s_dec[OF s len, of fuel] \<open>p1 < p2\<close> p2 2 obtain s' where
        s': "ben_dec_s fuel code p = Inr (BStr (Some s'), p1)" "ben_ok (BStr (Some s'))"
        by auto
      from IH(1)[OF r _ fuel] p2 obtain n where
        n: "ben_dec_r fuel code p1 = Inr (Some n, p2)" "ben_ok n" by blast
      have "ben_ok_tuples (d @ [Tuple (BStr (Some s')) n])"
        using 2(4) s'(2) n(2) by simp
      moreover have "2 * (sz - p2) + 2 \<le> fuel" using \<open>p < p1\<close> \<open>p1 < p2\<close> p2 2(3) by linarith
      ultimately obtain d' where
        "dec_d_loop fuel code (BDict (d @ [Tuple (BStr (Some s')) n])) p2 = Inr (BDict d', p')"
        "ben_ok_tuples d'" using IH(2)[OF d p2] by blast
      then show ?thesis using False 2(2) len s'(1) n(1) by simp
    qed (use 2 len in \<open>auto simp: bindr_eq_Inr\<close>)
  next
    case 3
    show ?case
    proof (cases "code ! p = CH_e")
      case False
      with 3 len obtain p2 where r: "ben_validate_r fuel code sz p = Inr (True, p2)" and p2: "p2 < sz"
        and d: "validate_l_loop fuel code sz p2 = Inr (True, p')"
        by (auto simp: bindr_eq_Inr split: if_splits)
      have fuel: "2 * (sz - p) + 1 \<le> fuel" using 3 by simp
      have "p < p2" using validate_enough(1)[OF len fuel] r by simp
      from IH(1)[OF r _ fuel] p2 obtain n where
        n: "ben_dec_r fuel code p = Inr (Some n, p2)" "ben_ok n" by blast
      have "ben_ok_items (l @ [n])" using 3(4) n(2) by simp
      moreover have "2 * (sz - p2) + 2 \<le> fuel" using \<open>p < p2\<close> p2 3(3) by linarith
      ultimately obtain l' where
        "dec_l_loop fuel code (BList (l @ [n])) p2 = Inr (BList l', p')"
        "ben_ok_items l'" using IH(3)[OF d p2] by blast
      then show ?thesis using False 3(2) len n(1) by simp
    qed (use 3 len in \<open>auto simp: bindr_eq_Inr\<close>)
  }
qed simp_all

lemma container_decodes:
  assumes "sz \<le> length code" "ben_validate code sz = Inr True"
    and "code ! 0 = CH_d \<or> code ! 0 = CH_l"
  shows "\<exists>n. ben_dec (2 * sz + 1) code = Inr (Some n) \<and> ben_ok n"
proof -
  from assms(2) obtain p' where v: "ben_validate_r (2 * sz + 1) code sz 0 = Inr (True, p')"
    unfolding ben_validate_def by (auto simp: bindr_eq_Inr simp del: ben_validate_r.simps)
  have "p' < sz \<or> code ! 0 = CH_d \<or> code ! 0 = CH_l" using assms(3) by blast
  from validated_decodes(1)[OF assms(1) v this] show ?thesis
    by (auto simp: ben_dec_def simp del: ben_dec_r.simps)
qed

text \<open>A validated packet of another kind decodes to a string or an integer, or the decoder does not
  return; with a 0 byte behind the packet it does not leave the memory.\<close>

lemma dec_scan_stuck:
  "digits_at code p q \<Longrightarrow> p \<le> q \<Longrightarrow> q < length code \<Longrightarrow> \<not> is_digit (code ! q) \<Longrightarrow> code ! q \<noteq> stop \<Longrightarrow>
    dec_scan stop fuel code i p = Inl OutOfFuel"
proof (induction stop fuel code i p rule: dec_scan.induct)
  case (2 stop fuel code i p)
  show ?case
  proof (cases "p = q")
    case False
    with "2.prems" have "is_digit (code ! p)" "digits_at code (Suc p) q"
      by (simp_all add: digits_at_step)
    with False "2.prems" "2.IH"(1)[of "code ! p"] show ?thesis by simp
  qed (use "2.prems" "2.IH"(2)[of "code ! p"] in simp)
qed simp

lemma scalar_decodes:
  assumes "sz < length code" "code ! sz = 0" "ben_validate code sz = Inr True"
    and "code ! 0 \<noteq> CH_d" "code ! 0 \<noteq> CH_l"
  shows "ben_dec (2 * sz + 1) code = Inl OutOfFuel \<or>
    (\<exists>n. ben_dec (2 * sz + 1) code = Inr (Some n) \<and> ben_t n \<noteq> BEN_DICT)"
proof -
  have len: "sz \<le> length code" "0 < length code" using assms(1) by linarith+
  have zero: "\<not> is_digit (code ! sz)" "code ! sz \<noteq> CH_colon" "code ! sz \<noteq> CH_e"
    using assms(2) by (simp_all add: is_digit_def)
  from assms(3) obtain p' where v: "ben_validate_r (Suc (2 * sz)) code sz 0 = Inr (True, p')"
    unfolding ben_validate_def by (auto simp: bindr_eq_Inr simp del: ben_validate_r.simps)
  then have "0 < sz" by (auto split: if_splits)
  with v assms(4,5) len consider (int) "code ! 0 = CH_i" "ben_validate_i code sz 0 = Inr (True, p')"
    | (str) "code ! 0 \<noteq> CH_i" "is_digit (code ! 0)" "ben_validate_s code sz 0 = Inr (True, p')"
    by (auto split: if_splits)
  then show ?thesis
  proof cases
    case int
    let ?start = "if code ! Suc 0 = CH_minus then Suc (Suc 0) else Suc 0"
    from ben_validate_i_dec_or[OF int(2) len(1), of "2 * sz"] consider
      (ok) i where "ben_dec_i (2 * sz) code 0 = Inr (BInt i, p')"
      | (tail) "Suc 0 < sz" "?start \<le> sz" "digits_at code ?start sz" by auto
    then show ?thesis
    proof cases
      case ok
      with int assms(4,5) len show ?thesis by (simp add: ben_dec_def)
    next
      case tail
      have "dec_scan CH_e (2 * sz) code 0 ?start = Inl OutOfFuel"
        by (rule dec_scan_stuck[OF tail(3,2) assms(1) zero(1,3)])
      then have "ben_dec_i (2 * sz) code 0 = Inl OutOfFuel"
        using tail(1) assms(1) by (simp add: ben_dec_i_def Let_def)
      with int assms(4,5) len show ?thesis by (simp add: ben_dec_def)
    qed
  next
    case str
    from ben_validate_s_dec_or[OF str(3) len(1), of "2 * sz"] consider
      (ok) s where "ben_dec_s (2 * sz) code 0 = Inr (BStr (Some s), p')" | (tail) "digits_at code 0 sz" by auto
    then show ?thesis
    proof cases
      case ok
      with str assms(4,5) len show ?thesis by (simp add: ben_dec_def)
    next
      case tail
      have "dec_scan CH_colon (2 * sz) code 0 0 = Inl OutOfFuel"
        by (rule dec_scan_stuck[OF tail _ assms(1) zero(1,2)]) simp
      with str assms(4,5) len show ?thesis by (simp add: ben_dec_def ben_dec_s_def)
    qed
  qed
qed

text \<open>C13: Validation makes decoding safe: when ben_validate accepts a packet that begins with a
  dictionary or a list, ben_dec returns a well-formed object without reading outside the
  memory, without log_err and within the fuel bound, even though the decoder never looks
  at the packet's size.\<close>
theorem validated_container_decodes:
  assumes "sz \<le> length code" "ben_validate code sz = Inr True"
    and "code ! 0 = CH_d \<or> code ! 0 = CH_l"
  shows "\<exists>n. ben_dec (2 * sz + 1) code = Inr (Some n) \<and> ben_ok n"
  by (rule container_decodes[OF assms])

theorem validated_container_decodes_witness:
  "\<exists>n. ben_dec (2 * 2 + 1) [CH_l, CH_e, 0] = Inr (Some n) \<and> ben_ok n"
  by (rule validated_container_decodes) (simp_all add: ben_validate_def numeral_eq_Suc)

end
