(* ===== verification/BenRoundTrip.thy ===== *)
theory BenRoundTrip
  imports BenDecode
begin

text \<open>
  Encoder against decoder and validator (\<open>src/src/ben.c\<close>): every well-formed object survives
  \<open>ben_enc\<close>, \<open>ben_validate\<close> and \<open>ben_dec\<close>; and the packets on which the three disagree, validated
  numbers without an end mark, on which the decoder never returns.
\<close>

section \<open>Encoded objects\<close>

lemma rd_prefix: "p \<noteq> [] \<Longrightarrow> rd (pre @ p @ post) (length pre) = Inr (hd p)"
  by (cases p) simp_all

lemma digits_at_middle:
  "\<forall>d \<in> set ds. is_digit d \<Longrightarrow> digits_at (pre @ ds @ post) (length pre) (length pre + length ds)"
  by (auto simp: digits_at_def nth_append)

lemma dec_scan_middle:
  assumes "\<forall>d \<in> set ds. is_digit d" "\<not> is_digit stop" "length ds < fuel"
  shows "dec_scan stop fuel (pre @ ds @ stop # post) 0 (length pre) = Inr (length ds, length pre + length ds)"
  using dec_scan_digits[OF digits_at_middle[OF assms(1), of pre "stop # post"], of stop fuel 0] assms
  by simp

lemma hd_dec_digits [simp]: "is_digit (hd (dec_digits n))"
  using dec_digits_all[of n] hd_in_set[OF dec_digits_nonempty] by blast

lemma dec_s_encoded:
  assumes "s \<noteq> []" "length s \<le> BEN_STR_MAXSIZE" "length (dec_digits (length s)) < fuel"
  shows "ben_dec_s fuel (pre @ dec_digits (length s) @ CH_colon # s @ post) (length pre)
    = Inr (BStr (Some s), length pre + length (dec_digits (length s)) + 1 + length s)"
proof -
  have "length s \<le> LONG_MAX" using assms(2) by (simp add: BEN_STR_MAXSIZE_def LONG_MAX_def)
  then show ?thesis
    using dec_scan_middle[OF dec_digits_all _ assms(3), of CH_colon pre "s @ post"] assms
    by (simp add: ben_dec_s_def atol_dec_digits ben_str_def ben_init_def Let_def)
qed

lemma sint_bounds: "- (2 ^ 63) \<le> sint (i :: u64) \<and> sint i < 2 ^ 63"
  using sint_range_size[of i] by (simp add: word_size)

lemma of_nat_abs_sint: "of_nat (nat \<bar>sint i\<bar>) = (if sint i < 0 then - i else i :: u64)"
proof -
  have "of_nat (nat \<bar>sint i\<bar>) = (of_int \<bar>sint i\<bar> :: u64)" by (subst of_nat_nat) simp_all
  then show ?thesis by (simp add: abs_if)
qed

lemma dec_i_encoded:
  assumes "- int LONG_MAX \<le> sint i" "length (print_li i) < fuel"
  shows "ben_dec_i fuel (pre @ CH_i # print_li i @ CH_e # post) (length pre)
    = Inr (BInt i, length pre + 1 + length (print_li i) + 1)"
proof -
  let ?n = "nat \<bar>sint i\<bar>"
  have n: "?n \<le> LONG_MAX" using assms(1) sint_bounds[of i] by (simp add: LONG_MAX_def)
  show ?thesis
  proof (cases "sint i < 0")
    case True
    have "of_nat ?n = (- i :: u64)"
      using True by (simp add: of_nat_abs_sint)
    moreover have "dec_scan CH_e fuel ((pre @ [CH_i, CH_minus]) @ dec_digits ?n @ CH_e # post) 0
        (length (pre @ [CH_i, CH_minus])) = Inr (length (dec_digits ?n), length pre + 2 + length (dec_digits ?n))"
      using True assms(2) dec_scan_middle[OF dec_digits_all, of CH_e ?n fuel "pre @ [CH_i, CH_minus]" post]
      by (simp add: print_li_def)
    ultimately show ?thesis using True n atol_dec_digits[OF n]
      by (simp add: ben_dec_i_def print_li_def nth_append ben_int_def ben_init_def rd_def)
  next
    case False
    have "of_nat ?n = (i :: u64)"
      using False by (simp add: of_nat_abs_sint)
    moreover have "dec_scan CH_e fuel ((pre @ [CH_i]) @ dec_digits ?n @ CH_e # post) 0
        (length (pre @ [CH_i])) = Inr (length (dec_digits ?n), length pre + 1 + length (dec_digits ?n))"
      using False assms(2) dec_scan_middle[OF dec_digits_all, of CH_e ?n fuel "pre @ [CH_i]" post]
      by (simp add: print_li_def)
    moreover have "hd (dec_digits ?n) \<noteq> CH_minus" using is_digit_neq[OF hd_dec_digits] by blast
    moreover have "rd ((pre @ [CH_i]) @ dec_digits ?n @ CH_e # post) (length (pre @ [CH_i])) = Inr (hd (dec_digits ?n))"
      by (rule rd_prefix) simp
    ultimately show ?thesis using False n atol_dec_digits[OF n]
      by (simp add: ben_dec_i_def print_li_def ben_int_def ben_init_def)
  qed
qed

lemma enc_hd: "ben_enc_rec n = Inr p \<Longrightarrow> p \<noteq> [] \<and> hd p \<noteq> CH_e"
  using is_digit_neq[OF hd_dec_digits]
  by (cases n) (auto simp: bindr_eq_Inr split: option.splits)

lemma enc_pos: "ben_enc_rec n = Inr p \<Longrightarrow> 0 < length p"
  using enc_hd by auto


text \<open>Decoding what was encoded, at any offset and before any continuation.\<close>

lemma decode_encoded:
  "ben_ok n \<Longrightarrow> ben_enc_rec n = Inr p \<Longrightarrow> 2 * length p + 1 \<le> fuel \<Longrightarrow>
     ben_dec_r fuel (pre @ p @ post) (length pre) = Inr (Some n, length pre + length p)"
  "ben_ok_items l \<Longrightarrow> enc_rec_items l = Inr p \<Longrightarrow> 2 * length p + 2 \<le> fuel \<Longrightarrow>
     dec_l_loop fuel (pre @ p @ CH_e # post) (BList l0) (length pre)
       = Inr (BList (l0 @ l), length pre + length p + 1)"
  "ben_ok_tuples d \<Longrightarrow> enc_rec_tuples d = Inr p \<Longrightarrow> 2 * length p + 2 \<le> fuel \<Longrightarrow>
     dec_d_loop fuel (pre @ p @ CH_e # post) (BDict d0) (length pre)
       = Inr (BDict (d0 @ d), length pre + length p + 1)"
proof (induction n and l and d arbitrary: fuel p pre post and fuel p pre post l0 and fuel p pre post d0
    rule: ben_ok_ben_ok_items_ben_ok_tuples.induct)
  case (1 s)
  then obtain b f where b: "s = Some b" "p = dec_digits (length b) @ CH_colon # b"
    and f: "fuel = Suc f" "length p \<le> f" by (cases fuel) (auto split: option.splits)
  have "p \<noteq> []" using b by simp
  from rd_prefix[OF this, of pre post] b
  have "rd (pre @ p @ post) (length pre) = Inr (hd (dec_digits (length b)))" by simp
  moreover have "ben_dec_s f (pre @ p @ post) (length pre) = Inr (BStr s, length pre + length p)"
    using dec_s_encoded[of b f pre post] 1 b f by simp
  moreover note is_digit_neq[OF hd_dec_digits[of "length b"]] hd_dec_digits[of "length b"]
  ultimately show ?case using f(1) by (simp del: rd_eq_Inr)
next
  case (2 i)
  then obtain f where p: "p = CH_i # print_li i @ [CH_e]" and f: "fuel = Suc f" "length p \<le> f"
    by (cases fuel) auto
  then have "ben_dec_i f (pre @ p @ post) (length pre) = Inr (BInt i, length pre + length p)"
    using dec_i_encoded[of i f pre post] 2 by simp
  moreover have "rd (pre @ p @ post) (length pre) = Inr CH_i" using p by simp
  ultimately show ?case using f(1) by (simp del: rd_eq_Inr)
next
  case (3 l)
  then obtain f q where p: "p = CH_l # q @ [CH_e]" "enc_rec_items l = Inr q"
    and f: "fuel = Suc f" "2 * length q + 2 \<le> f" by (cases fuel) (auto simp: bindr_eq_Inr)
  from "3.IH"[OF _ p(2) f(2), of "pre @ [CH_l]" post "[]"] "3.prems"(1) p f
  show ?case by (simp add: ben_init_def)
next
  case (4 d)
  then obtain f q where p: "p = CH_d # q @ [CH_e]" "enc_rec_tuples d = Inr q"
    and f: "fuel = Suc f" "2 * length q + 2 \<le> f" by (cases fuel) (auto simp: bindr_eq_Inr)
  from "4.IH"[OF _ p(2) f(2), of "pre @ [CH_d]" post "[]"] "4.prems"(1) p f
  show ?case by (simp add: ben_init_def)
next
  case (6 x xs)
  then obtain f px q where p: "p = px @ q" "ben_enc_rec x = Inr px" "enc_rec_items xs = Inr q"
    and f: "fuel = Suc f" "2 * length p + 1 \<le> f" by (cases fuel) (auto simp: bindr_eq_Inr)
  note hx = enc_hd[OF p(2)] and ok = "6.prems"(1)
  have len: "0 < length px" using enc_pos[OF p(2)] .
  have x: "ben_dec_r f (pre @ px @ q @ CH_e # post) (length pre) = Inr (Some x, length pre + length px)"
    by (rule "6.IH"(1)) (use ok p f in auto)
  have "dec_l_loop f ((pre @ px) @ q @ CH_e # post) (BList (l0 @ [x])) (length (pre @ px))
     = Inr (BList ((l0 @ [x]) @ xs), length (pre @ px) + length q + 1)"
  proof (rule "6.IH"(2))
    show "2 * length q + 2 \<le> f" using f(2) len unfolding p(1) length_append length_Cons by presburger
  qed (use ok p in auto)
  then show ?case using x f(1) hx rd_prefix[of px pre "q @ CH_e # post"] p(1) by simp
next
  case (8 k v xs)
  then obtain f b pv q where kb: "k = BStr (Some b)" "b \<noteq> []" "length b \<le> BEN_STR_MAXSIZE"
    and p: "p = dec_digits (length b) @ CH_colon # b @ pv @ q"
      "ben_enc_rec v = Inr pv" "enc_rec_tuples xs = Inr q"
    and f: "fuel = Suc f" "2 * length p + 1 \<le> f"
    by (cases fuel; cases k) (auto simp: bindr_eq_Inr split: option.splits)
  let ?pk = "dec_digits (length b) @ CH_colon # b"
  note ok = "8.prems"(1)
  have len: "0 < length pv" using enc_pos[OF p(2)] .
  have k: "ben_dec_s f (pre @ ?pk @ pv @ q @ CH_e # post) (length pre) = Inr (k, length (pre @ ?pk))"
    using dec_s_encoded[of b f pre "pv @ q @ CH_e # post"] kb f(2) p(1) by simp
  have v: "ben_dec_r f ((pre @ ?pk) @ pv @ q @ CH_e # post) (length (pre @ ?pk))
      = Inr (Some v, length (pre @ ?pk) + length pv)"
    by (rule "8.IH"(2)) (use ok p f in auto)
  have "dec_d_loop f ((pre @ ?pk @ pv) @ q @ CH_e # post) (BDict (d0 @ [Tuple k v])) (length (pre @ ?pk @ pv))
     = Inr (BDict ((d0 @ [Tuple k v]) @ xs), length (pre @ ?pk @ pv) + length q + 1)"
  proof (rule "8.IH"(3))
    show "2 * length q + 2 \<le> f" using f(2) len unfolding p(1) length_append length_Cons by presburger
  qed (use ok p in auto)
  moreover have "rd (pre @ p @ CH_e # post) (length pre) = Inr (hd (dec_digits (length b)))"
    using rd_prefix[of p pre "CH_e # post"] p(1) by simp
  moreover note is_digit_neq[OF hd_dec_digits[of "length b"]] hd_dec_digits[of "length b"]
  ultimately show ?case using k v f(1) kb(1) p(1) by (simp del: rd_eq_Inr add: add.assoc)
next
  case 5
  then show ?case by (cases fuel) auto
next
  case 7
  then show ?case by (cases fuel) auto
qed


text \<open>The validator on the same bytes.\<close>

lemma validate_s_loop_digits:
  "digits_at code p q \<Longrightarrow> p \<le> q \<Longrightarrow> q \<le> sz \<Longrightarrow> sz \<le> length code \<Longrightarrow>
    validate_s_loop code sz start i p = validate_s_loop code sz start (i + (q - p)) q"
proof (induction "q - p" arbitrary: i p)
  case (Suc n)
  then have "p < q" "i + (q - p) = Suc i + (q - Suc p)" by simp_all
  with Suc.hyps(1)[of "Suc p" "Suc i"] Suc.hyps(2) Suc.prems show ?case
    by (subst validate_s_loop.simps) (simp add: digits_at_step del: diff_Suc_eq_diff_pred)
qed simp

lemma validate_i_loop_digits:
  "digits_at code p q \<Longrightarrow> p \<le> q \<Longrightarrow> q \<le> sz \<Longrightarrow> sz \<le> length code \<Longrightarrow>
    validate_i_loop code sz start i p = validate_i_loop code sz start (i + (q - p)) q"
proof (induction "q - p" arbitrary: i p)
  case (Suc n)
  then have "p < q" "i + (q - p) = Suc i + (q - Suc p)" by simp_all
  with Suc.hyps(1)[of "Suc p" "Suc i"] Suc.hyps(2) Suc.prems show ?case
    by (subst validate_i_loop.simps) (simp add: digits_at_step)
qed simp

lemma validate_s_encoded:
  assumes "s \<noteq> []" "length s \<le> BEN_STR_MAXSIZE"
    and "code = pre @ dec_digits (length s) @ CH_colon # s @ post"
    and "length pre + length (dec_digits (length s)) + 1 + length s \<le> sz" "sz \<le> length code"
  shows "ben_validate_s code sz (length pre)
    = Inr (True, length pre + length (dec_digits (length s)) + 1 + length s)"
proof -
  let ?n = "length (dec_digits (length s))" and ?q = "length pre + length (dec_digits (length s))"
  have le: "length s \<le> LONG_MAX" using assms(2) by (simp add: BEN_STR_MAXSIZE_def LONG_MAX_def)
  have "length s < 10 ^ 8" using assms(2) by (simp add: BEN_STR_MAXSIZE_def)
  then have n8: "?n \<le> 8" by (rule dec_digits_length) simp
  have n0: "?n \<noteq> 0" by simp
  have "digits_at code (length pre) ?q"
    unfolding assms(3) by (rule digits_at_middle[OF dec_digits_all])
  then have "validate_s_loop code sz (length pre) 0 (length pre)
      = validate_s_loop code sz (length pre) ?n ?q"
    using validate_s_loop_digits[of code "length pre" ?q sz "length pre" 0] assms(4,5) by simp
  also have "\<dots> = Inr (True, ?q + length s + 1)"
  proof -
    have "rd code ?q = Inr CH_colon" unfolding assms(3) by (simp add: rd_def nth_append)
    moreover have "take ?n (drop (length pre) code) = dec_digits (length s)" unfolding assms(3) by simp
    moreover have "?q < sz" using assms(4) by simp
    ultimately show ?thesis using n0 n8 assms(1,2) atol_dec_digits[OF le]
      by (subst validate_s_loop.simps) (simp add: BEN_STR_MAXLEN_def Let_def del: length_0_conv rd_eq_Inr)
  qed
  finally have "validate_s_loop code sz (length pre) 0 (length pre) = Inr (True, ?q + length s + 1)" .
  then show ?thesis using assms(4) by (simp add: ben_validate_s_def)
qed

lemma validate_i_encoded:
  assumes "- int LONG_MAX \<le> sint i"
    and "code = pre @ CH_i # print_li i @ CH_e # post"
    and "length pre + 1 + length (print_li i) + 1 \<le> sz" "sz \<le> length code"
  shows "ben_validate_i code sz (length pre) = Inr (True, length pre + 1 + length (print_li i) + 1)"
proof -
  let ?m = "nat \<bar>sint i\<bar>"
  let ?ds = "dec_digits (nat \<bar>sint i\<bar>)"
  let ?start = "length pre + (if sint i < 0 then 2 else 1)"
  let ?q = "?start + length ?ds"
  have m: "?m \<le> LONG_MAX" using assms(1) sint_bounds[of i] by (simp add: LONG_MAX_def)
  have "?m < 10 ^ 19" using m by (simp add: LONG_MAX_def)
  then have n19: "length ?ds \<le> 19" by (rule dec_digits_length) simp
  have n0: "length ?ds \<noteq> 0" by simp
  obtain pre' where pre': "code = pre' @ ?ds @ CH_e # post" "length pre' = ?start"
    using that[of "pre @ [CH_i, CH_minus]"] that[of "pre @ [CH_i]"] assms(2)
    by (cases "sint i < 0") (auto simp: print_li_def)
  have c: "rd code (Suc (length pre)) = Inr (hd (print_li i))"
    using rd_prefix[of "print_li i" "pre @ [CH_i]" "CH_e # post"] assms(2) by (simp add: print_li_def)
  have neg: "hd (print_li i) = CH_minus \<longleftrightarrow> sint i < 0"
    using is_digit_neq[OF hd_dec_digits[of "nat (sint i)"]] by (auto simp: print_li_def)
  have q: "?q + 1 \<le> sz" using assms(3) by (simp add: print_li_def split: if_splits)
  have "digits_at code (length pre') (length pre' + length ?ds)"
    unfolding pre'(1) by (rule digits_at_middle[OF dec_digits_all])
  then have "digits_at code ?start ?q" unfolding pre'(2) .
  then have "validate_i_loop code sz ?start 0 ?start = validate_i_loop code sz ?start (length ?ds) ?q"
    using validate_i_loop_digits[of code ?start ?q sz ?start 0] q assms(4) by simp
  also have "\<dots> = Inr (True, ?q + 1)"
  proof -
    have "rd code ?q = Inr CH_e" unfolding pre'(2)[symmetric] pre'(1) by (simp add: rd_def nth_append)
    moreover have "take (length ?ds) (drop ?start code) = ?ds" unfolding pre'(2)[symmetric] pre'(1) by simp
    moreover have "?q < sz" using q by simp
    ultimately show ?thesis using n0 n19 atol_dec_digits[OF m] m
      by (subst validate_i_loop.simps) (simp add: BEN_INT_MAXLEN_def del: length_0_conv rd_eq_Inr)
  qed
  finally have "validate_i_loop code sz ?start 0 ?start = Inr (True, ?q + 1)" .
  then show ?thesis using q c neg n0 assms(3)
    by (simp add: ben_validate_i_def Let_def print_li_def split: if_splits del: rd_eq_Inr length_0_conv)
qed


lemma validate_encoded:
  "ben_ok n \<Longrightarrow> ben_enc_rec n = Inr p \<Longrightarrow> 2 * length p + 1 \<le> fuel \<Longrightarrow> code = pre @ p @ post \<Longrightarrow>
     length pre + length p \<le> sz \<Longrightarrow> sz \<le> length code \<Longrightarrow>
     ben_validate_r fuel code sz (length pre) = Inr (True, length pre + length p)"
  "ben_ok_items l \<Longrightarrow> enc_rec_items l = Inr p \<Longrightarrow> 2 * length p + 2 \<le> fuel \<Longrightarrow>
     code = pre @ p @ CH_e # post \<Longrightarrow> length pre + length p + 1 \<le> sz \<Longrightarrow> sz \<le> length code \<Longrightarrow>
     validate_l_loop fuel code sz (length pre) = Inr (True, length pre + length p + 1)"
  "ben_ok_tuples d \<Longrightarrow> enc_rec_tuples d = Inr p \<Longrightarrow> 2 * length p + 2 \<le> fuel \<Longrightarrow>
     code = pre @ p @ CH_e # post \<Longrightarrow> length pre + length p + 1 \<le> sz \<Longrightarrow> sz \<le> length code \<Longrightarrow>
     validate_d_loop fuel code sz (length pre) = Inr (True, length pre + length p + 1)"
proof (induction n and l and d arbitrary: fuel p pre post and fuel p pre post and fuel p pre post
    rule: ben_ok_ben_ok_items_ben_ok_tuples.induct)
  case (1 s)
  then obtain b f where b: "s = Some b" "p = dec_digits (length b) @ CH_colon # b"
    and f: "fuel = Suc f" by (cases fuel) (auto split: option.splits)
  have "p \<noteq> []" using b by simp
  from rd_prefix[OF this, of pre post] b "1.prems"(4)
  have "rd code (length pre) = Inr (hd (dec_digits (length b)))" by simp
  moreover have "ben_validate_s code sz (length pre) = Inr (True, length pre + length p)"
    using validate_s_encoded[of b code pre post sz] 1 b by simp
  moreover note is_digit_neq[OF hd_dec_digits[of "length b"]] hd_dec_digits[of "length b"]
  moreover have "length pre < sz" using "1.prems"(5) b by simp
  ultimately show ?case using f by (simp del: rd_eq_Inr)
next
  case (2 i)
  then obtain f where p: "p = CH_i # print_li i @ [CH_e]" and f: "fuel = Suc f"
    by (cases fuel) auto
  then have "ben_validate_i code sz (length pre) = Inr (True, length pre + length p)"
    using validate_i_encoded[of i code pre post sz] 2 by simp
  moreover have "rd code (length pre) = Inr CH_i" using p "2.prems"(4) by simp
  ultimately show ?case using f "2.prems"(5) p by (simp del: rd_eq_Inr)
next
  case (3 l)
  then obtain f q where p: "p = CH_l # q @ [CH_e]" "enc_rec_items l = Inr q"
    and f: "fuel = Suc f" "2 * length q + 2 \<le> f" by (cases fuel) (auto simp: bindr_eq_Inr)
  have "rd code (length pre) = Inr CH_l" using p "3.prems"(4) by simp
  with "3.IH"[OF _ p(2) f(2), of "pre @ [CH_l]" post] "3.prems" p f
  show ?case by (simp del: rd_eq_Inr)
next
  case (4 d)
  then obtain f q where p: "p = CH_d # q @ [CH_e]" "enc_rec_tuples d = Inr q"
    and f: "fuel = Suc f" "2 * length q + 2 \<le> f" by (cases fuel) (auto simp: bindr_eq_Inr)
  have "rd code (length pre) = Inr CH_d" using p "4.prems"(4) by simp
  with "4.IH"[OF _ p(2) f(2), of "pre @ [CH_d]" post] "4.prems" p f
  show ?case by (simp del: rd_eq_Inr)
next
  case 5
  then show ?case by (cases fuel) auto
next
  case (6 x xs)
  then obtain f px q where p: "p = px @ q" "ben_enc_rec x = Inr px" "enc_rec_items xs = Inr q"
    and f: "fuel = Suc f" "2 * length p + 1 \<le> f" by (cases fuel) (auto simp: bindr_eq_Inr)
  note hx = enc_hd[OF p(2)] and ok = "6.prems"
  have len: "0 < length px" using enc_pos[OF p(2)] .
  have x: "ben_validate_r f code sz (length pre) = Inr (True, length pre + length px)"
    by (rule "6.IH"(1)[of px f pre "q @ CH_e # post"]) (use ok p f in auto)
  have "validate_l_loop f code sz (length (pre @ px)) = Inr (True, length (pre @ px) + length q + 1)"
  proof (rule "6.IH"(2)[of q f "pre @ px" post])
    show "2 * length q + 2 \<le> f" using f(2) len unfolding p(1) length_append by presburger
  qed (use ok p in auto)
  moreover have "rd code (length pre) = Inr (hd px)"
    using hx rd_prefix[of px pre "q @ CH_e # post"] p(1) ok(4) by simp
  ultimately show ?case using x f(1) hx p(1) ok(5) by (simp del: rd_eq_Inr)
next
  case 7
  then show ?case by (cases fuel) auto
next
  case (8 k v xs)
  then obtain f b pv q where kb: "k = BStr (Some b)" "b \<noteq> []" "length b \<le> BEN_STR_MAXSIZE"
    and p: "p = dec_digits (length b) @ CH_colon # b @ pv @ q"
      "ben_enc_rec v = Inr pv" "enc_rec_tuples xs = Inr q"
    and f: "fuel = Suc f" "2 * length p + 1 \<le> f"
    by (cases fuel; cases k) (auto simp: bindr_eq_Inr split: option.splits)
  let ?pk = "dec_digits (length b) @ CH_colon # b"
  note ok = "8.prems"
  have len: "0 < length pv" using enc_pos[OF p(2)] .
  have k: "ben_validate_s code sz (length pre) = Inr (True, length (pre @ ?pk))"
    using validate_s_encoded[of b code pre "pv @ q @ CH_e # post" sz] kb f(2) p(1) ok by simp
  have v: "ben_validate_r f code sz (length (pre @ ?pk)) = Inr (True, length (pre @ ?pk) + length pv)"
    by (rule "8.IH"(2)[of pv f "pre @ ?pk" "q @ CH_e # post"]) (use ok p f in auto)
  have "validate_d_loop f code sz (length (pre @ ?pk @ pv)) = Inr (True, length (pre @ ?pk @ pv) + length q + 1)"
  proof (rule "8.IH"(3)[of q f "pre @ ?pk @ pv" post])
    show "2 * length q + 2 \<le> f" using f(2) len unfolding p(1) length_append length_Cons by presburger
  qed (use ok p in auto)
  moreover have "rd code (length pre) = Inr (hd (dec_digits (length b)))"
    using rd_prefix[of p pre "CH_e # post"] p(1) ok(4) by simp
  moreover note is_digit_neq[OF hd_dec_digits[of "length b"]]
  ultimately show ?case using k v f(1) kb(1) p(1) ok(5) by (simp del: rd_eq_Inr add: add.assoc)
qed

lemma round_trip:
  assumes "ben_ok n"
  shows "\<exists>code. ben_enc n = Inr (Some code) \<and>
    ben_validate (code @ rest) (length code) = Inr True \<and>
    ben_dec (2 * length code + 1) (code @ rest) = Inr (Some n)"
proof -
  obtain p where p: "ben_enc_rec n = Inr p" using ben_ok_encodes(1)[OF assms] by blast
  have "ben_validate (p @ rest) (length p) = Inr True"
    using validate_encoded(1)[OF assms p, of "2 * length p + 1" "p @ rest" "[]" rest "length p"]
    by (simp add: ben_validate_def del: ben_validate_r.simps)
  moreover have "ben_dec (2 * length p + 1) (p @ rest) = Inr (Some n)"
    using decode_encoded(1)[OF assms p, of "2 * length p + 1" "[]" rest]
    by (simp add: ben_dec_def del: ben_dec_r.simps)
  ultimately show ?thesis using ben_enc_rec_enc[OF p] by blast
qed

text \<open>C1: Encoding and decoding are inverse: every well-formed object is encoded without fault,
  ben_validate accepts the bytes (whatever memory follows them), and ben_dec returns exactly
  the object.\<close>
theorem ben_round_trip:
  assumes "ben_ok n"
  shows "\<exists>code. ben_enc n = Inr (Some code) \<and>
    ben_validate (code @ rest) (length code) = Inr True \<and>
    ben_dec (2 * length code + 1) (code @ rest) = Inr (Some n)"
  using assms by (rule round_trip)

theorem ben_round_trip_witness:
  "\<exists>code. ben_enc (BDict [Tuple (BStr (Some [113])) (BList [BInt (- 7), BStr (Some [0])])]) = Inr (Some code) \<and>
    ben_validate (code @ [0, 0]) (length code) = Inr True \<and>
    ben_dec (2 * length code + 1) (code @ [0, 0])
      = Inr (Some (BDict [Tuple (BStr (Some [113])) (BList [BInt (- 7), BStr (Some [0])])]))"
  by (rule ben_round_trip) (simp add: BEN_STR_MAXSIZE_def LONG_MAX_def)

section \<open>The packet that stops the decoder\<close>

lemma dec_hangs:
  assumes "ds \<noteq> []" "\<forall>d \<in> set ds. is_digit d"
    and "packet = ds \<or> packet = CH_i # ds"
  shows "ben_validate (packet @ 0 # rest) (length packet) = Inr True \<and>
    ben_dec fuel (packet @ 0 # rest) = Inl OutOfFuel"
proof (cases "packet = ds")
  case True
  let ?code = "ds @ 0 # rest"
  have d: "digits_at ?code 0 (length ds)" using digits_at_middle[OF assms(2), of "[]"] by simp
  have hd: "rd ?code 0 = Inr (hd ds)" using rd_prefix[OF assms(1), of "[]"] by simp
  have hdd: "is_digit (hd ds)" using assms(1,2) by simp
  have "validate_s_loop ?code (length ds) 0 0 0 = Inr (True, length ds)"
    using validate_s_loop_digits[OF d, of "length ds" 0 0] by (simp add: validate_s_loop.simps)
  moreover have "ben_dec_s f ?code 0 = Inl OutOfFuel" for f
    using dec_scan_stuck[OF d] by (simp add: ben_dec_s_def)
  ultimately show ?thesis using True hd hdd is_digit_neq[OF hdd] assms(1)
    by (cases fuel) (auto simp: ben_validate_def ben_validate_s_def ben_dec_def Suc_le_eq simp del: rd_eq_Inr)
next
  case False
  with assms(3) have packet: "packet = CH_i # ds" by blast
  let ?code = "CH_i # ds @ 0 # rest"
  have d: "digits_at ?code 1 (Suc (length ds))" using digits_at_middle[OF assms(2), of "[CH_i]"] by simp
  have hd: "rd ?code 1 = Inr (hd ds)" using rd_prefix[OF assms(1), of "[CH_i]"] by simp
  have hdd: "is_digit (hd ds)" using assms(1,2) by simp
  have "validate_i_loop ?code (Suc (length ds)) 1 0 1 = Inr (True, Suc (length ds))"
    using validate_i_loop_digits[OF d, of "Suc (length ds)" 1 0] by (simp add: validate_i_loop.simps)
  moreover have "ben_dec_i f ?code 0 = Inl OutOfFuel" for f
    using dec_scan_stuck[OF d] hd is_digit_neq[OF hdd] by (simp add: ben_dec_i_def del: rd_eq_Inr)
  ultimately show ?thesis using packet hd hdd is_digit_neq[OF hdd] assms(1)
    by (cases fuel) (auto simp: ben_validate_def ben_validate_i_def ben_dec_def Suc_le_eq simp del: rd_eq_Inr)
qed

text \<open>A datagram that consists of decimal digits only passes ben_validate, and ben_dec never
  returns on it: udp receives into a zero-filled buffer one byte larger than any datagram, so
  the scan for the colon meets a 0 byte, on which it neither moves nor stops. The same holds
  for an integer that lacks its end mark.\<close>
lemma ben_dec_hangs:
  assumes "ds \<noteq> []" "\<forall>d \<in> set ds. is_digit d"
    and "packet = ds \<or> packet = CH_i # ds"
  shows "ben_validate (packet @ 0 # rest) (length packet) = Inr True \<and>
    ben_dec fuel (packet @ 0 # rest) = Inl OutOfFuel"
  by (rule dec_hangs[OF assms])

lemma ben_dec_hangs_example:
  "ben_validate ([49] @ 0 # [0]) (length [49 :: u8]) = Inr True \<and>
    ben_dec 100 ([49] @ 0 # [0]) = Inl OutOfFuel"
  by (rule ben_dec_hangs[of "[49]"]) (simp_all add: is_digit_def)

end
