(* ===== verification/Linklist.thy ===== *)
theory Linklist
  imports Prelude
begin

text \<open>
  The doubly linked list of \<open>src/src/list.c\<close>, pointer by pointer. A heap maps the address of
  every live \<open>ITEM\<close> to its fields; an address that is not mapped is freed (or was never
  allocated), so following it is \<open>UseAfterFree\<close>, and following NULL (\<open>None\<close>) is \<open>NullDeref\<close>.
  The address that \<open>malloc\<close> hands out is the argument \<open>new\<close>; that it is not in use is a
  hypothesis of the lemmas. \<open>counter\<close> is a 64-bit \<open>long int\<close>.

  The relation \<open>linked h L xs\<close> says that \<open>L\<close> represents the list \<open>xs\<close> of (address, payload)
  pairs; the lemmas show each operation as an operation on \<open>xs\<close>. \<open>threaded\<close> is the same
  without the claim about the \<open>stop\<close> pointer, which is what \<open>list_ins\<close> leaves behind when it
  appends.
\<close>

section \<open>Data\<close>

record 'v ITEM =
  i_val :: 'v
  i_next :: "addr option"
  i_prev :: "addr option"

record LIST =
  l_start :: "addr option"
  l_stop :: "addr option"
  l_counter :: "64 word"

type_synonym 'v heap = "addr \<Rightarrow> 'v ITEM option"

definition deref :: "'v heap \<Rightarrow> addr option \<Rightarrow> 'v ITEM res" where
  "deref h p = (case p of None \<Rightarrow> Inl NullDeref
     | Some a \<Rightarrow> (case h a of None \<Rightarrow> Inl UseAfterFree | Some it \<Rightarrow> Inr it))"

definition set_next :: "'v heap \<Rightarrow> addr option \<Rightarrow> addr option \<Rightarrow> 'v heap res" where
  "set_next h p n = bindr (deref h p) (\<lambda>it. Inr (h(the p := Some (it\<lparr>i_next := n\<rparr>))))"

definition set_prev :: "'v heap \<Rightarrow> addr option \<Rightarrow> addr option \<Rightarrow> 'v heap res" where
  "set_prev h p n = bindr (deref h p) (\<lambda>it. Inr (h(the p := Some (it\<lparr>i_prev := n\<rparr>))))"

section \<open>Operations\<close>

definition list_init :: LIST where
  "list_init = \<lparr>l_start = None, l_stop = None, l_counter = 0\<rparr>"

definition list_put :: "'v heap \<Rightarrow> LIST \<Rightarrow> addr \<Rightarrow> 'v \<Rightarrow> ('v heap \<times> LIST \<times> addr option) res" where
  "list_put h L new payload =
    (if sint (l_counter L + 1) \<le> 0 then Inr (h, L, None)
     else if l_start L = None then
       Inr (h(new := Some \<lparr>i_val = payload, i_next = None, i_prev = None\<rparr>),
            \<lparr>l_start = Some new, l_stop = Some new, l_counter = l_counter L + 1\<rparr>, Some new)
     else bindr (set_next (h(new := Some \<lparr>i_val = payload, i_next = None, i_prev = l_stop L\<rparr>))
                   (l_stop L) (Some new))
       (\<lambda>h'. Inr (h', L\<lparr>l_stop := Some new, l_counter := l_counter L + 1\<rparr>, Some new)))"

definition list_ins ::
  "'v heap \<Rightarrow> LIST \<Rightarrow> addr option \<Rightarrow> addr \<Rightarrow> 'v \<Rightarrow> ('v heap \<times> LIST \<times> addr option) res" where
  "list_ins h L here new payload =
    (if sint (l_counter L + 1) \<le> 0 then Inr (h, L, None)
     else if sint (l_counter L) \<le> 1 then list_put h L new payload
     else bindr (deref h here) (\<lambda>it.
       let next = i_next it;
           h1 = h(new := Some \<lparr>i_val = payload, i_next = next, i_prev = here\<rparr>)
       in bindr (set_next h1 here (Some new)) (\<lambda>h2.
          bindr (if next = None then Inr h2 else set_prev h2 next (Some new)) (\<lambda>h3.
            Inr (h3, L\<lparr>l_counter := l_counter L + 1\<rparr>, Some new)))))"

definition list_del ::
  "'v heap \<Rightarrow> LIST \<Rightarrow> addr option \<Rightarrow> ('v heap \<times> LIST \<times> addr option) res" where
  "list_del h L item =
    (if item = None then Inr (h, L, None)
     else if sint (l_counter L) \<le> 0 then Inr (h, L, None)
     else bindr (deref h item) (\<lambda>it.
       let prev = i_prev it; next = i_next it
       in bindr (if prev = None then Inr (h, L\<lparr>l_start := next\<rparr>)
                 else bindr (set_next h prev next) (\<lambda>h1. Inr (h1, L))) (\<lambda>(h1, L1).
          bindr (if next = None then Inr (h1, L1\<lparr>l_stop := prev\<rparr>)
                 else bindr (set_prev h1 next prev) (\<lambda>h2. Inr (h2, L1))) (\<lambda>(h2, L2).
            Inr (h2(the item := None), L2\<lparr>l_counter := l_counter L2 - 1\<rparr>, next)))))"

definition list_next :: "'v heap \<Rightarrow> addr option \<Rightarrow> addr option res" where
  "list_next h item = bindr (deref h item) (\<lambda>it. Inr (i_next it))"

text \<open>The body of \<open>list_prev\<close> is \<open>return NULL\<close>, whatever the item.\<close>

definition list_prev :: "'v heap \<Rightarrow> addr option \<Rightarrow> addr option res" where
  "list_prev h item = Inr None"

fun list_free :: "nat \<Rightarrow> 'v heap \<Rightarrow> LIST \<Rightarrow> 'v heap res" where
  "list_free 0 h L = Inl OutOfFuel"
| "list_free (Suc fuel) h L =
    (if l_start L = None then Inr h
     else bindr (list_del h L (l_start L)) (\<lambda>(h', L', _). list_free fuel h' L'))"

text \<open>\<open>list_clear\<close> frees the payload of every item; the result is what it passes to \<open>myfree\<close>.\<close>

fun list_clear_from :: "nat \<Rightarrow> 'v heap \<Rightarrow> addr option \<Rightarrow> 'v list res" where
  "list_clear_from 0 h item = Inl OutOfFuel"
| "list_clear_from (Suc fuel) h item =
    (if item = None then Inr []
     else bindr (deref h item) (\<lambda>it.
          bindr (list_next h item) (\<lambda>next.
          bindr (list_clear_from fuel h next) (\<lambda>vs. Inr (i_val it # vs)))))"

definition list_clear :: "nat \<Rightarrow> 'v heap \<Rightarrow> LIST \<Rightarrow> 'v list res" where
  "list_clear fuel h L = list_clear_from fuel h (l_start L)"

definition list_swap ::
  "'v heap \<Rightarrow> LIST \<Rightarrow> addr option \<Rightarrow> addr option \<Rightarrow> ('v heap \<times> LIST) res" where
  "list_swap h L item1 item2 =
    bindr (deref h item1) (\<lambda>it1. bindr (deref h item2) (\<lambda>it2.
      let prev1 = i_prev it1; next1 = i_next it1; prev2 = i_prev it2; next2 = i_next it2
      in bindr (set_prev h item1 prev2) (\<lambda>h1. bindr (set_next h1 item1 next2) (\<lambda>h2.
         bindr (set_prev h2 item2 prev1) (\<lambda>h3. bindr (set_next h3 item2 next1) (\<lambda>h4.
         let L1 = (if l_start L = item1 then L\<lparr>l_start := item2\<rparr>
                   else if l_start L = item2 then L\<lparr>l_start := item1\<rparr> else L);
             L2 = (if l_stop L1 = item1 then L1\<lparr>l_stop := item2\<rparr>
                   else if l_stop L1 = item2 then L1\<lparr>l_stop := item1\<rparr> else L1)
         in Inr (h4, L2)))))))"

section \<open>Paths through the heap\<close>

text \<open>
  \<open>seg h p x xs q y\<close>: starting at \<open>x\<close> with predecessor \<open>p\<close>, the \<open>next\<close> pointers run through
  the items \<open>xs\<close> and end at \<open>y\<close>, whose predecessor is \<open>q\<close>; every \<open>prev\<close> pointer on the way
  points back.
\<close>

fun seg :: "'v heap \<Rightarrow> addr option \<Rightarrow> addr option \<Rightarrow> (addr \<times> 'v) list \<Rightarrow> addr option \<Rightarrow> addr option \<Rightarrow> bool" where
  "seg h p x [] q y \<longleftrightarrow> x = y \<and> p = q"
| "seg h p x ((a, v) # xs) q y \<longleftrightarrow> x = Some a \<and>
     (\<exists>it. h a = Some it \<and> i_val it = v \<and> i_prev it = p \<and> seg h (Some a) (i_next it) xs q y)"

definition linked :: "'v heap \<Rightarrow> LIST \<Rightarrow> (addr \<times> 'v) list \<Rightarrow> bool" where
  "linked h L xs \<longleftrightarrow> seg h None (l_start L) xs (l_stop L) None \<and> distinct (map fst xs) \<and>
     l_counter L = of_nat (length xs) \<and> length xs < 2 ^ 63"

definition threaded :: "'v heap \<Rightarrow> LIST \<Rightarrow> (addr \<times> 'v) list \<Rightarrow> bool" where
  "threaded h L xs \<longleftrightarrow> (\<exists>q. seg h None (l_start L) xs q None) \<and> distinct (map fst xs) \<and>
     l_counter L = of_nat (length xs) \<and> length xs < 2 ^ 63"

lemma linked_threaded: "linked h L xs \<Longrightarrow> threaded h L xs"
  by (auto simp: linked_def threaded_def)

lemma seg_append [simp]:
  "seg h p x (as @ bs) q y \<longleftrightarrow> (\<exists>m z. seg h p x as m z \<and> seg h m z bs q y)"
proof (induction as arbitrary: p x)
  case (Cons c as)
  then show ?case by (cases c) auto
qed auto

lemma seg_upd [simp]: "b \<notin> fst ` set xs \<Longrightarrow> seg (h(b := w)) p x xs q y = seg h p x xs q y"
proof (induction xs arbitrary: p x)
  case (Cons c xs)
  then show ?case by (cases c) auto
qed auto

lemma seg_dom: "seg h p x xs q y \<Longrightarrow> a \<in> fst ` set xs \<Longrightarrow> h a \<noteq> None"
proof (induction xs arbitrary: p x)
  case (Cons c xs)
  then show ?case by (cases c) auto
qed auto

lemma seg_last: "seg h p x xs q y \<Longrightarrow> xs \<noteq> [] \<Longrightarrow> q = Some (fst (last xs))"
proof (induction xs arbitrary: p x)
  case (Cons c xs)
  then show ?case by (cases c; cases xs) auto
qed auto

lemma seg_first: "seg h p x xs q y \<Longrightarrow> x = (case xs of [] \<Rightarrow> y | c # _ \<Rightarrow> Some (fst c))"
  by (cases xs) auto

text \<open>Arithmetic of the counter below \<open>LONG_MAX\<close>.\<close>

lemma sint_of_nat_64: "n < 2 ^ 63 \<Longrightarrow> sint (of_nat n :: 64 word) = int n"
  by (simp add: signed_of_nat signed_take_bit_eq_if_positive take_bit_nat_eq_self
      take_bit_int_eq_self bit_iff_odd)

lemma counter_room: "n < 2 ^ 63 - 1 \<Longrightarrow> sint (of_nat n + 1 :: 64 word) = int n + 1"
  using sint_of_nat_64[of "Suc n"] by (simp add: add.commute)

lemma threaded_counter: "threaded h L xs \<Longrightarrow> sint (l_counter L) = int (length xs)"
  by (auto simp: threaded_def sint_of_nat_64)

lemma threaded_room:
  "threaded h L xs \<Longrightarrow> length xs < 2 ^ 63 - 1 \<Longrightarrow> \<not> sint (l_counter L + 1) \<le> 0"
  by (auto simp: threaded_def counter_room)

lemma fresh_notin: "seg h p x xs q y \<Longrightarrow> h new = None \<Longrightarrow> new \<notin> fst ` set xs"
  using seg_dom by fastforce

section \<open>list_put appends\<close>

lemma linked_init: "linked h list_init []"
  by (simp add: linked_def list_init_def)

lemma list_put_linked:
  assumes L: "linked h L xs" and new: "h new = None" and room: "length xs < 2 ^ 63 - 1"
  shows "\<exists>h' L'. list_put h L new v = Inr (h', L', Some new) \<and> linked h' L' (xs @ [(new, v)])"
proof -
  note ok = threaded_room[OF linked_threaded[OF L] room]
  have notin: "new \<notin> fst ` set xs"
    using L new by (metis fresh_notin linked_def)
  show ?thesis
  proof (cases "xs = []")
    case True
    with L ok show ?thesis by (auto simp: list_put_def linked_def)
  next
    case False
    then obtain ys s w where xs: "xs = ys @ [(s, w)]" by (cases xs rule: rev_cases) auto
    from L obtain it where it: "h s = Some it" "i_val it = w" "i_next it = None"
      and stop: "l_stop L = Some s" and pre: "seg h None (l_start L) ys (i_prev it) (Some s)"
      by (auto simp: linked_def xs)
    from pre have start: "l_start L \<noteq> None" by (auto dest: seg_first split: list.splits)
    from L notin have dist: "s \<noteq> new" "s \<notin> fst ` set ys" "new \<notin> fst ` set ys"
      by (auto simp: linked_def xs)
    with ok it stop start pre L room show ?thesis
      by (auto simp: list_put_def set_next_def deref_def linked_def xs)
  qed
qed

section \<open>list_ins\<close>

text \<open>
  With at least two items \<open>list_ins\<close> threads the new item in behind \<open>here\<close>. The \<open>stop\<close>
  pointer is not written: the list stays well-formed exactly when \<open>here\<close> was not the last
  item.
\<close>

lemma list_ins_seg:
  assumes L: "threaded h L (xs @ (here, w) # ys)" and new: "h new = None"
    and two: "2 \<le> length (xs @ (here, w) # ys)"
    and room: "length (xs @ (here, w) # ys) < 2 ^ 63 - 1"
  shows "\<exists>h' L'. list_ins h L (Some here) new v = Inr (h', L', Some new) \<and>
     threaded h' L' (xs @ (here, w) # (new, v) # ys) \<and> l_stop L' = l_stop L \<and>
     (\<forall>q. ys \<noteq> [] \<longrightarrow> seg h None (l_start L) (xs @ (here, w) # ys) q None \<longrightarrow>
          seg h' None (l_start L') (xs @ (here, w) # (new, v) # ys) q None)"
proof -
  note ok = threaded_room[OF L room] and cnt = threaded_counter[OF L]
  have notin: "new \<notin> fst ` set (xs @ (here, w) # ys)"
    using L new fresh_notin by (metis threaded_def)
  from L obtain it p q where it: "h here = Some it" "i_val it = w" "i_prev it = p"
    and pre: "seg h None (l_start L) xs p (Some here)"
    and post: "seg h (Some here) (i_next it) ys q None"
    by (auto simp: threaded_def)
  show ?thesis
  proof (cases ys)
    case Nil
    with it pre post ok cnt two notin L room show ?thesis
      by (auto simp: list_ins_def deref_def set_next_def threaded_def Let_def)
  next
    case (Cons c zs)
    then obtain b u where ys: "ys = (b, u) # zs" by (cases c) auto
    with post obtain ib where ib: "i_next it = Some b" "h b = Some ib" "i_val ib = u"
      "i_prev ib = Some here" "seg h (Some b) (i_next ib) zs q None"
      by auto
    from L notin have dist: "b \<noteq> here" "b \<noteq> new" "here \<noteq> new" "b \<notin> fst ` set xs"
      "b \<notin> fst ` set zs" "here \<notin> fst ` set xs" "here \<notin> fst ` set zs" "new \<notin> fst ` set xs"
      "new \<notin> fst ` set zs"
      by (auto simp: threaded_def ys)
    with it pre post ib ok cnt two L room show ?thesis
      by (auto simp: list_ins_def deref_def set_next_def set_prev_def threaded_def Let_def ys)
  qed
qed

lemma list_ins_middle:
  assumes L: "linked h L (xs @ (here, w) # ys)" and new: "h new = None" and ys: "ys \<noteq> []"
    and room: "length (xs @ (here, w) # ys) < 2 ^ 63 - 1"
  shows "\<exists>h' L'. list_ins h L (Some here) new v = Inr (h', L', Some new) \<and>
     linked h' L' (xs @ (here, w) # (new, v) # ys)"
proof -
  have two: "2 \<le> length (xs @ (here, w) # ys)" using ys by (cases ys) auto
  from list_ins_seg[OF linked_threaded[OF L] new two room] obtain h' L' where
    r: "list_ins h L (Some here) new v = Inr (h', L', Some new)"
    "threaded h' L' (xs @ (here, w) # (new, v) # ys)" "l_stop L' = l_stop L"
    and seg: "\<forall>q. ys \<noteq> [] \<longrightarrow> seg h None (l_start L) (xs @ (here, w) # ys) q None \<longrightarrow>
          seg h' None (l_start L') (xs @ (here, w) # (new, v) # ys) q None"
    by blast
  from L have "seg h None (l_start L) (xs @ (here, w) # ys) (l_stop L) None"
    by (simp add: linked_def)
  with seg ys r(3) have "seg h' None (l_start L') (xs @ (here, w) # (new, v) # ys) (l_stop L') None"
    by auto
  with r show ?thesis by (auto simp: linked_def threaded_def)
qed

section \<open>list_del unlinks one item\<close>

lemma list_del_linked:
  assumes L: "linked h L (xs @ (a, v) # ys)"
  shows "\<exists>h' L'. list_del h L (Some a) = Inr (h', L', (case ys of [] \<Rightarrow> None | c # _ \<Rightarrow> Some (fst c))) \<and>
     linked h' L' (xs @ ys) \<and> h' a = None"
proof -
  have cnt: "\<not> sint (l_counter L) \<le> 0" using threaded_counter[OF linked_threaded[OF L]] by simp
  have cnt': "l_counter L - 1 = of_nat (length (xs @ ys))" using L by (simp add: linked_def)
  from L obtain it p where it: "h a = Some it" "i_val it = v" "i_prev it = p"
    and pre: "seg h None (l_start L) xs p (Some a)"
    and post: "seg h (Some a) (i_next it) ys (l_stop L) None"
    by (auto simp: linked_def)
  have stop: "ys = [] \<Longrightarrow> l_stop L = Some a" using post by auto
  from L have dist: "distinct (map fst (xs @ ys))" "a \<notin> fst ` set xs" "a \<notin> fst ` set ys"
    by (auto simp: linked_def)
  consider "xs = []" "ys = []" | b u zs where "xs = []" "ys = (b, u) # zs"
    | ws c t where "xs = ws @ [(c, t)]" "ys = []"
    | ws c t b u zs where "xs = ws @ [(c, t)]" "ys = (b, u) # zs"
    by (cases xs rule: rev_cases; cases ys) (auto simp: split_paired_all)
  then show ?thesis
  proof cases
    case 1
    with L it post cnt stop show ?thesis by (auto simp: list_del_def deref_def linked_def Let_def)
  next
    case 2
    from post 2 obtain ib where ib: "i_next it = Some b" "h b = Some ib" "i_val ib = u"
      "seg h (Some b) (i_next ib) zs (l_stop L) None" by auto
    have b: "b \<noteq> a" "b \<notin> fst ` set zs" "a \<notin> fst ` set zs" using dist 2 by auto
    have "p = None" "l_start L = Some a" using pre 2 by auto
    with it cnt ib b have "list_del h L (Some a) =
        Inr ((h(b := Some (ib\<lparr>i_prev := None\<rparr>)))(a := None),
             L\<lparr>l_start := Some b, l_counter := l_counter L - 1\<rparr>, Some b)"
      by (simp add: list_del_def deref_def set_prev_def Let_def)
    with ib b L dist cnt' 2 show ?thesis by (simp add: linked_def)
  next
    case 3
    from pre 3 obtain ic where ic: "p = Some c" "h c = Some ic" "i_val ic = t"
      "seg h None (l_start L) ws (i_prev ic) (Some c)" by auto
    have b: "c \<noteq> a" "c \<notin> fst ` set ws" "a \<notin> fst ` set ws" using dist 3 by auto
    have "i_next it = None" using post 3 by auto
    with it cnt ic b have "list_del h L (Some a) =
        Inr ((h(c := Some (ic\<lparr>i_next := None\<rparr>)))(a := None),
             L\<lparr>l_stop := Some c, l_counter := l_counter L - 1\<rparr>, None)"
      by (simp add: list_del_def deref_def set_next_def Let_def)
    with ic b L dist cnt' 3 show ?thesis by (simp add: linked_def)
  next
    case 4
    from post 4 obtain ib where ib: "i_next it = Some b" "h b = Some ib" "i_val ib = u"
      "seg h (Some b) (i_next ib) zs (l_stop L) None" by auto
    from pre 4 obtain ic where ic: "p = Some c" "h c = Some ic" "i_val ic = t"
      "seg h None (l_start L) ws (i_prev ic) (Some c)" by auto
    have b: "c \<noteq> a" "c \<notin> fst ` set ws" "a \<notin> fst ` set ws" "b \<noteq> a" "b \<noteq> c"
      "b \<notin> fst ` set zs" "a \<notin> fst ` set zs" "b \<notin> fst ` set ws" "c \<notin> fst ` set zs"
      using dist 4 by auto
    with it cnt ib ic have "list_del h L (Some a) =
        Inr (h(c := Some (ic\<lparr>i_next := Some b\<rparr>), b := Some (ib\<lparr>i_prev := Some c\<rparr>), a := None),
             L\<lparr>l_counter := l_counter L - 1\<rparr>, Some b)"
      by (simp add: list_del_def deref_def set_next_def set_prev_def Let_def)
    with ib ic b L dist cnt' 4 show ?thesis by (simp add: linked_def)
  qed
qed

section \<open>Walking, freeing and clearing a list\<close>

lemma list_next_linked:
  assumes "linked h L (xs @ (a, v) # ys)"
  shows "list_next h (Some a) = Inr (case ys of [] \<Rightarrow> None | c # _ \<Rightarrow> Some (fst c))"
  using assms by (auto simp: list_next_def deref_def linked_def dest!: seg_first split: list.splits)

lemma set_next_keeps_free: "set_next h p n = Inr h' \<Longrightarrow> h a = None \<Longrightarrow> h' a = None"
  by (auto simp: set_next_def deref_def split: option.splits)

lemma set_prev_keeps_free: "set_prev h p n = Inr h' \<Longrightarrow> h a = None \<Longrightarrow> h' a = None"
  by (auto simp: set_prev_def deref_def split: option.splits)

lemma list_del_keeps_free: "list_del h L p = Inr (h', L', r) \<Longrightarrow> h a = None \<Longrightarrow> h' a = None"
  by (auto simp: list_del_def bindr_eq_Inr Let_def split: if_splits
      dest!: set_next_keeps_free set_prev_keeps_free)

lemma list_free_keeps_free: "list_free fuel h L = Inr h' \<Longrightarrow> h a = None \<Longrightarrow> h' a = None"
proof (induction fuel arbitrary: h L)
  case (Suc fuel)
  then show ?case by (auto simp: bindr_eq_Inr split: if_splits dest: list_del_keeps_free)
qed simp

lemma list_free_linked:
  "linked h L xs \<Longrightarrow> length xs < fuel \<Longrightarrow>
     \<exists>h'. list_free fuel h L = Inr h' \<and> (\<forall>a \<in> fst ` set xs. h' a = None)"
proof (induction xs arbitrary: fuel h L)
  case Nil
  then show ?case by (cases fuel) (auto simp: linked_def)
next
  case (Cons c xs)
  obtain a v where c: "c = (a, v)" by (cases c)
  obtain n where n: "fuel = Suc n" "length xs < n" using Cons.prems(2) by (cases fuel) auto
  have start: "l_start L = Some a" using Cons.prems(1) by (simp add: linked_def c)
  obtain h1 L1 r where d: "list_del h L (Some a) = Inr (h1, L1, r)" "linked h1 L1 xs" "h1 a = None"
    using list_del_linked[of h L "[]" a v xs] Cons.prems(1) c by auto
  from Cons.IH[OF d(2) n(2)] obtain h2 where
    h2: "list_free n h1 L1 = Inr h2" "\<forall>a \<in> fst ` set xs. h2 a = None" by blast
  have "h2 a = None" using h2(1) d(3) by (rule list_free_keeps_free)
  with d h2 n start c show ?case by auto
qed

lemma list_clear_linked:
  "seg h p x xs q None \<Longrightarrow> length xs < fuel \<Longrightarrow> list_clear_from fuel h x = Inr (map snd xs)"
proof (induction xs arbitrary: fuel p x)
  case Nil
  then show ?case by (cases fuel) auto
next
  case (Cons c xs)
  then show ?case by (cases c; cases fuel) (auto simp: deref_def list_next_def)
qed

section \<open>What the pointers determine\<close>

lemma seg_unique: "seg h p x xs q None \<Longrightarrow> seg h p x ys q' None \<Longrightarrow> xs = ys \<and> q = q'"
proof (induction xs arbitrary: p x ys)
  case Nil
  then show ?case by (cases ys) auto
next
  case (Cons c xs)
  then show ?case by (cases c; cases ys) auto
qed

lemma seg_no_self_loop:
  assumes "seg h p x zs q None" and "distinct (map fst zs)" and "h b = Some it" and "i_next it = Some b"
  shows "b \<notin> fst ` set zs"
proof
  assume "b \<in> fst ` set zs"
  then obtain us v ws where zs: "zs = us @ (b, v) # ws" by (force dest: split_list)
  with assms(1,3,4) have "seg h (Some b) (Some b) ws q None" by auto
  then have "b \<in> fst ` set ws" by (cases ws) auto
  with assms(2) show False by (auto simp: zs)
qed

section \<open>Properties of list.c\<close>

text \<open>On a well-formed list below LONG_MAX items, list_put appends: it does not fault, returns
  the new item, and the list is then the old one with the payload at the end, all next and prev
  pointers, the start and stop pointers and the counter agreeing.\<close>
lemma list_put_refines:
  assumes "linked h L xs" and "h new = None" and "length xs < 2 ^ 63 - 1"
  shows "\<exists>h' L'. list_put h L new v = Inr (h', L', Some new) \<and> linked h' L' (xs @ [(new, v)])"
  by (rule list_put_linked[OF assms])

definition h3 :: "nat heap" where
  "h3 = (\<lambda>_. None)(1 := Some \<lparr>i_val = 10, i_next = Some 2, i_prev = None\<rparr>,
     2 := Some \<lparr>i_val = 20, i_next = Some 3, i_prev = Some 1\<rparr>,
     3 := Some \<lparr>i_val = 30, i_next = None, i_prev = Some 2\<rparr>)"

definition L3 :: LIST where
  "L3 = \<lparr>l_start = Some 1, l_stop = Some 3, l_counter = 3\<rparr>"

lemma linked_h3: "linked h3 L3 [(1, 10), (2, 20), (3, 30)]"
  by (simp add: linked_def h3_def L3_def)

lemma list_put_refines_example:
  "\<exists>h' L'. list_put h3 L3 4 40 = Inr (h', L', Some 4) \<and>
     linked h' L' [(1, 10), (2, 20), (3, 30), (4, 40)]"
  using list_put_refines[OF linked_h3, of 4 40] by (simp add: h3_def)

text \<open>\<open>list_del\<close> of any item of a well-formed list does not fault, frees exactly that item,
  returns the item that followed it, and leaves a well-formed list of the other items in order.\<close>
lemma list_del_refines:
  assumes "linked h L (xs @ (a, v) # ys)"
  shows "\<exists>h' L'. list_del h L (Some a) = Inr (h', L', (case ys of [] \<Rightarrow> None | c # _ \<Rightarrow> Some (fst c))) \<and>
     linked h' L' (xs @ ys) \<and> h' a = None"
  by (rule list_del_linked[OF assms])

lemma list_del_refines_example:
  "\<exists>h' L'. list_del h3 L3 (Some 2) = Inr (h', L', Some 3) \<and>
     linked h' L' [(1, 10), (3, 30)] \<and> h' 2 = None"
  using list_del_refines[of h3 L3 "[(1, 10)]" 2 20 "[(3, 30)]"] linked_h3 by simp

text \<open>list_ins behind the last item of a list with two or more items links the new item in
  but leaves the stop pointer on the old last item, so afterwards the structure is well-formed
  for no list at all (list_ins behind any earlier item keeps it well-formed, lemma
  list_ins_middle).\<close>
lemma list_ins_at_end_stale_stop:
  assumes "linked h L (xs @ [(here, w)])" and "xs \<noteq> []" and "h new = None"
    and "length xs < 2 ^ 63 - 2"
  shows "\<exists>h' L'. list_ins h L (Some here) new v = Inr (h', L', Some new) \<and>
     threaded h' L' (xs @ [(here, w), (new, v)]) \<and> l_stop L' = Some here \<and>
     (\<forall>zs. \<not> linked h' L' zs)"
proof -
  have two: "2 \<le> length (xs @ [(here, w)])" using assms(2) by (cases xs) auto
  have room: "length (xs @ [(here, w)]) < 2 ^ 63 - 1" using assms(4) by simp
  obtain h' L' where r: "list_ins h L (Some here) new v = Inr (h', L', Some new)"
      "threaded h' L' (xs @ [(here, w), (new, v)])" "l_stop L' = l_stop L"
    using list_ins_seg[OF linked_threaded[OF assms(1)] assms(3) two room, of v] by auto
  have stop: "l_stop L = Some here" using assms(1) by (auto simp: linked_def)
  have new: "here \<noteq> new" using r(2) by (auto simp: threaded_def)
  have "\<not> linked h' L' zs" for zs
  proof
    assume "linked h' L' zs"
    then have zs: "seg h' None (l_start L') zs (Some here) None"
      using r(3) stop by (simp add: linked_def)
    from r(2) obtain q where q: "seg h' None (l_start L') (xs @ [(here, w), (new, v)]) q None"
      unfolding threaded_def by blast
    have "q = Some new" using seg_last[OF q] by simp
    with seg_unique[OF q zs] new show False by simp
  qed
  with r stop show ?thesis by auto
qed

lemma list_ins_at_end_stale_stop_example:
  "\<exists>h' L'. list_ins h3 L3 (Some 3) 4 40 = Inr (h', L', Some 4) \<and>
     threaded h' L' [(1, 10), (2, 20), (3, 30), (4, 40)] \<and> l_stop L' = Some 3 \<and>
     (\<forall>zs. \<not> linked h' L' zs)"
  using list_ins_at_end_stale_stop[of h3 L3 "[(1, 10), (2, 20)]" 3 30 4 40] linked_h3
  by (simp add: h3_def)

text \<open>list_swap of two neighbouring items, the only way it is called, never yields a
  well-formed list of the same items: it makes the next pointer of the second item point to
  itself, so that item is on no well-formed list afterwards (it is lost, or a walk from the
  start never ends).\<close>
lemma list_swap_breaks_neighbours:
  assumes "linked h L (xs @ (a, v) # (b, w) # ys)"
  shows "\<exists>h' L'. list_swap h L (Some a) (Some b) = Inr (h', L') \<and>
     list_next h' (Some b) = Inr (Some b) \<and> (\<forall>zs. threaded h' L' zs \<longrightarrow> b \<notin> fst ` set zs)"
proof -
  from assms obtain ia ib where i: "h a = Some ia" "h b = Some ib" "i_next ia = Some b" and ab: "a \<noteq> b"
    by (auto simp: linked_def)
  then obtain h' L' where r: "list_swap h L (Some a) (Some b) = Inr (h', L')"
    and b: "h' b = Some (ib\<lparr>i_prev := i_prev ia, i_next := Some b\<rparr>)"
    by (simp add: list_swap_def deref_def set_prev_def set_next_def Let_def)
  have "b \<notin> fst ` set zs" if z: "threaded h' L' zs" for zs
  proof -
    from z obtain q where "seg h' None (l_start L') zs q None" "distinct (map fst zs)"
      by (auto simp: threaded_def)
    then show ?thesis using b by (rule seg_no_self_loop) simp
  qed
  with r b show ?thesis by (auto simp: list_next_def deref_def)
qed

lemma list_swap_breaks_neighbours_example:
  "\<exists>h' L'. list_swap h3 L3 (Some 1) (Some 2) = Inr (h', L') \<and>
     list_next h' (Some 2) = Inr (Some 2) \<and> (\<forall>zs. threaded h' L' zs \<longrightarrow> 2 \<notin> fst ` set zs)"
  using list_swap_breaks_neighbours[of h3 L3 "[]" 1 10 2 20 "[(3, 30)]"] linked_h3 by simp

text \<open>list_free of a well-formed list ends, never touches freed memory, and frees every item.\<close>
lemma list_free_frees_all:
  assumes "linked h L xs" and "length xs < fuel"
  shows "\<exists>h'. list_free fuel h L = Inr h' \<and> (\<forall>a \<in> fst ` set xs. h' a = None)"
  by (rule list_free_linked[OF assms])

lemma list_free_frees_all_example:
  "\<exists>h'. list_free 4 h3 L3 = Inr h' \<and> (\<forall>a \<in> {1, 2, 3}. h' a = None)"
  using list_free_frees_all[OF linked_h3, of 4] by simp

section \<open>The sequence view\<close>

text \<open>
  Components above see a well-formed list as the sequence of its (address, payload) pairs.
  \<open>list_put_refines\<close> and \<open>list_del_refines\<close> justify the two operations they use.
\<close>

definition seq_put :: "(addr \<times> 'v) list \<Rightarrow> addr \<Rightarrow> 'v \<Rightarrow> (addr \<times> 'v) list" where
  "seq_put xs a v = xs @ [(a, v)]"

definition seq_del :: "(addr \<times> 'v) list \<Rightarrow> addr \<Rightarrow> (addr \<times> 'v) list" where
  "seq_del xs a = filter (\<lambda>p. fst p \<noteq> a) xs"

lemma seq_del_split:
  assumes "distinct (map fst (xs @ (a, v) # ys))"
  shows "seq_del (xs @ (a, v) # ys) a = xs @ ys"
proof -
  have "filter (\<lambda>p. fst p \<noteq> a) xs = xs" "filter (\<lambda>p. fst p \<noteq> a) ys = ys"
    using assms by (auto intro!: filter_True)
  then show ?thesis by (simp add: seq_del_def)
qed

end
