(* ===== verification/Bucket.thy ===== *)
theory Bucket
  imports Prelude
begin

text \<open>
  The buckets of the distributed hash table: \<open>src/src/bucket.c\<close>. The bucket list is the sequence
  of its payloads together with the position of the item that \<open>stop\<close> points to; an
  \<open>ITEM *\<close> into it is a position (\<open>None\<close> is NULL), and \<open>counter\<close> is the number of items. The
  position of \<open>stop\<close> is part of the state because \<open>list_ins\<close> does not move it
  (\<open>Linklist.list_ins_at_end_stale_stop\<close>). Nodes are only referenced from the list of their
  bucket, so that list is a list of values.
\<close>

section \<open>Data\<close>

record IP =
  sin6_family :: u16
  sin6_port :: bytes
  sin6_flowinfo :: u32
  sin6_addr :: bytes
  sin6_scope_id :: u32

record NODE =
  n_addr :: IP
  n_id :: bytes
  n_time_ping :: int
  n_time_find :: int
  n_pinged :: int

record BUCK =
  b_id :: bytes
  b_nodes :: "NODE list"

record BLIST =
  bl_items :: "BUCK list"
  bl_stop :: "nat option"

definition node_equal :: "bytes \<Rightarrow> bytes \<Rightarrow> bool" where
  "node_equal node_a node_b \<longleftrightarrow> memcmp node_a node_b = 0"

definition node_me :: "bytes \<Rightarrow> bytes \<Rightarrow> bool" where
  "node_me self node_id \<longleftrightarrow> node_equal node_id self"

section \<open>The bucket list as a list\<close>

definition bl_put :: "BLIST \<Rightarrow> BUCK \<Rightarrow> BLIST" where
  "bl_put l b = \<lparr>bl_items = bl_items l @ [b], bl_stop = Some (length (bl_items l))\<rparr>"

text \<open>\<open>list_ins( l, here, b )\<close>: up to one item it is \<open>list_put\<close>, otherwise the item goes behind
  \<open>here\<close>, and \<open>stop\<close> keeps pointing to the item it pointed to.\<close>

definition bl_ins :: "BLIST \<Rightarrow> nat \<Rightarrow> BUCK \<Rightarrow> BLIST" where
  "bl_ins l here b =
    (if length (bl_items l) \<le> 1 then bl_put l b
     else \<lparr>bl_items = take (Suc here) (bl_items l) @ b # drop (Suc here) (bl_items l),
           bl_stop = map_option (\<lambda>s. if here < s then Suc s else s) (bl_stop l)\<rparr>)"

definition bl_set_nodes :: "BLIST \<Rightarrow> nat \<Rightarrow> NODE list \<Rightarrow> BLIST" where
  "bl_set_nodes l i ns = l\<lparr>bl_items := (bl_items l)[i := (bl_items l ! i)\<lparr>b_nodes := ns\<rparr>]\<rparr>"

definition bl_nodes :: "BLIST \<Rightarrow> nat \<Rightarrow> NODE list" where
  "bl_nodes l i = b_nodes (bl_items l ! i)"

section \<open>Operations\<close>

definition bckt_init :: BLIST where
  "bckt_init = bl_put \<lparr>bl_items = [], bl_stop = None\<rparr>
     \<lparr>b_id = replicate SHA_DIGEST_LENGTH 0, b_nodes = []\<rparr>"

text \<open>The loop of \<open>bckt_find_best_match\<close> from the item at position \<open>i\<close>; \<open>None\<close>: no early return.\<close>

fun best_match_from :: "BUCK list \<Rightarrow> nat \<Rightarrow> bytes \<Rightarrow> nat option" where
  "best_match_from (item # next # rest) i nid =
    (if memcmp nid (b_id next) < 0 then Some i else best_match_from (next # rest) (Suc i) nid)"
| "best_match_from _ i nid = None"

definition bckt_find_best_match :: "BLIST \<Rightarrow> bytes \<Rightarrow> nat option" where
  "bckt_find_best_match thislist nid =
    (case best_match_from (bl_items thislist) 0 nid of Some i \<Rightarrow> Some i | None \<Rightarrow> bl_stop thislist)"

text \<open>The value of the item an \<open>ITEM *\<close> points to.\<close>

definition item_val :: "BLIST \<Rightarrow> nat option \<Rightarrow> BUCK res" where
  "item_val l i = (case i of None \<Rightarrow> Inl NullDeref | Some k \<Rightarrow> rd (bl_items l) k)"

text \<open>\<open>list_prev\<close> returns NULL for every item.\<close>

definition bl_prev :: "nat option \<Rightarrow> nat option" where
  "bl_prev i = None"

fun any_match_loop :: "nat \<Rightarrow> BLIST \<Rightarrow> nat option \<Rightarrow> nat option res" where
  "any_match_loop 0 thislist i = Inr None"
| "any_match_loop (Suc n) thislist i = bindr (item_val thislist i) (\<lambda>b.
     if b_nodes b \<noteq> [] then Inr i else any_match_loop n thislist (bl_prev i))"

definition bckt_find_any_match :: "BLIST \<Rightarrow> bytes \<Rightarrow> nat option res" where
  "bckt_find_any_match thislist nid =
    (let i = bckt_find_best_match thislist nid
     in bindr (item_val thislist i) (\<lambda>b.
        if b_nodes b \<noteq> [] then Inr i
        else any_match_loop (length (bl_items thislist)) thislist i))"

fun find_node_in :: "NODE list \<Rightarrow> nat \<Rightarrow> bytes \<Rightarrow> nat option" where
  "find_node_in [] i nid = None"
| "find_node_in (n # ns) i nid = (if node_equal (n_id n) nid then Some i else find_node_in ns (Suc i) nid)"

text \<open>\<open>bckt_find_node\<close>: the bucket and the position in it of the node with this id.\<close>

definition bckt_find_node :: "BLIST \<Rightarrow> bytes \<Rightarrow> (nat \<times> nat) option" where
  "bckt_find_node thislist nid = (case bckt_find_best_match thislist nid of None \<Rightarrow> None
     | Some k \<Rightarrow> map_option (\<lambda>j. (k, j)) (find_node_in (bl_nodes thislist k) 0 nid))"

definition bckt_put :: "BLIST \<Rightarrow> NODE option \<Rightarrow> BLIST res" where
  "bckt_put l node = (case node of None \<Rightarrow> Inr l
     | Some n \<Rightarrow> (case bckt_find_best_match l (n_id n) of None \<Rightarrow> Inl ExitFailure
         | Some k \<Rightarrow> if bckt_find_node l (n_id n) \<noteq> None then Inr l
                     else Inr (bl_set_nodes l k (bl_nodes l k @ [n]))))"

text \<open>\<open>list_del\<close> on the nodes of a bucket, at the position that \<open>bckt_find_node\<close> returned.\<close>

definition del_at :: "nat \<Rightarrow> 'a list \<Rightarrow> 'a list" where
  "del_at j xs = take j xs @ drop (Suc j) xs"

definition bckt_del :: "BLIST \<Rightarrow> NODE option \<Rightarrow> BLIST res" where
  "bckt_del l node = (case node of None \<Rightarrow> Inr l
     | Some n \<Rightarrow> (case bckt_find_best_match l (n_id n) of None \<Rightarrow> Inl ExitFailure
         | Some k \<Rightarrow> (case bckt_find_node l (n_id n) of None \<Rightarrow> Inr l
             | Some (_, j) \<Rightarrow> Inr (bl_set_nodes l k (del_at j (bl_nodes l k))))))"

section \<open>Splitting\<close>

fun last_byte :: "bytes \<Rightarrow> nat \<Rightarrow> nat option" where
  "last_byte nid 0 = None"
| "last_byte nid (Suc i) = (if nid ! i \<noteq> 0 then Some i else last_byte nid i)"

fun last_bit :: "u8 \<Rightarrow> nat \<Rightarrow> int" where
  "last_bit c 0 = - 1"
| "last_bit c (Suc j) = (if c AND drop_bit j 0x80 \<noteq> 0 then int j else last_bit c j)"

definition bckt_significant_bit :: "bytes \<Rightarrow> int" where
  "bckt_significant_bit nid = (case last_byte nid SHA_DIGEST_LENGTH of None \<Rightarrow> - 1
     | Some i \<Rightarrow> 8 * int i + last_bit (nid ! i) 8)"

definition bl_next :: "BLIST \<Rightarrow> nat \<Rightarrow> nat option" where
  "bl_next l i = (if Suc i < length (bl_items l) then Some (Suc i) else None)"

definition set_bit_at :: "bytes \<Rightarrow> nat \<Rightarrow> bytes" where
  "set_bit_at nid pos = nid[pos div 8 := (nid ! (pos div 8)) OR drop_bit (pos mod 8) 0x80]"

definition bckt_compute_id :: "BLIST \<Rightarrow> nat \<Rightarrow> bytes option res" where
  "bckt_compute_id thislist item_b =
    bindr (item_val thislist (Some item_b)) (\<lambda>b.
    bindr (if Some item_b \<noteq> bl_stop thislist
           then bindr (item_val thislist (bl_next thislist item_b)) (\<lambda>b_next. Inr (Some b_next))
           else Inr None) (\<lambda>b_next.
      let bit1 = bckt_significant_bit (b_id b);
          bit2 = (case b_next of Some b' \<Rightarrow> bckt_significant_bit (b_id b') | None \<Rightarrow> - 1);
          bit = (if bit2 \<le> bit1 then bit1 else bit2) + 1
      in if int (SHA_DIGEST_LENGTH * 8) \<le> bit then Inr None
         else Inr (Some (set_bit_at (b_id b) (nat bit)))))"

text \<open>The nodes of the split bucket, one after the other, go into the bucket that now matches
  best.\<close>

fun place_nodes :: "BLIST \<Rightarrow> NODE list \<Rightarrow> BLIST res" where
  "place_nodes l [] = Inr l"
| "place_nodes l (n # ns) = (case bckt_find_best_match l (n_id n) of None \<Rightarrow> Inl NullDeref
     | Some s \<Rightarrow> place_nodes (bl_set_nodes l s (bl_nodes l s @ [n])) ns)"

definition bckt_split :: "BLIST \<Rightarrow> bytes \<Rightarrow> (BLIST \<times> bool) res" where
  "bckt_split thislist nid =
    (case bckt_find_best_match thislist nid of None \<Rightarrow> Inr (thislist, False)
     | Some item_b \<Rightarrow>
         if length (bl_nodes thislist item_b) \<le> 8 then Inr (thislist, False)
         else bindr (bckt_compute_id thislist item_b) (\<lambda>res. case res of None \<Rightarrow> Inr (thislist, False)
           | Some id_new \<Rightarrow>
               let l1 = bl_ins thislist item_b \<lparr>b_id = id_new, b_nodes = []\<rparr>;
                   list_n = bl_nodes l1 item_b;
                   l2 = bl_set_nodes l1 item_b []
               in bindr (place_nodes l2 list_n) (\<lambda>l3. Inr (l3, True))))"

text \<open>\<open>nbhd_split\<close> of \<open>neighborhood.c\<close>: split the bucket of the own id until nothing is split.\<close>

fun nbhd_split :: "nat \<Rightarrow> BLIST \<Rightarrow> bytes \<Rightarrow> BLIST res" where
  "nbhd_split 0 nbhd self = Inl OutOfFuel"
| "nbhd_split (Suc fuel) nbhd self = bindr (bckt_split nbhd self) (\<lambda>(nbhd', again).
     if \<not> again then Inr nbhd' else nbhd_split fuel nbhd' self)"

end
