(* ===== verification/BucketId.thy ===== *)
theory BucketId
  imports Bucket
begin

text \<open>
  The bit arithmetic of \<open>bckt_significant_bit\<close> and \<open>bckt_compute_id\<close> (\<open>src/src/bucket.c\<close>): an
  identifier is a 160-bit number, its significant bit is the lowest one that is set, and the
  identifier of a new bucket adds the bit below.
\<close>

section \<open>Identifiers as 160-bit numbers\<close>

text \<open>Bit \<open>pos\<close> of an identifier, counted from the most significant one as \<open>bucket.c\<close> does, is bit
  \<open>159 - pos\<close> of the number.\<close>

lemma bit_be_nat_Cons:
  "bit (be_nat (b # bs)) n \<longleftrightarrow>
    (if n < 8 * length bs then bit (be_nat bs) n else bit b (n - 8 * length bs))"
proof -
  let ?k = "8 * length bs"
  have k: "(256 :: nat) ^ length bs = 2 ^ ?k" by (simp add: power_mult)
  have y: "be_nat bs < 2 ^ ?k" using be_nat_less[of bs] by (simp add: k)
  show ?thesis
  proof (cases "n < ?k")
    case True
    then have "(2 :: nat) ^ ?k = 2 ^ (?k - n) * 2 ^ n" "?k - n \<noteq> 0"
      by (simp_all flip: power_add)
    then have "be_nat (b # bs) div 2 ^ n = unat b * 2 ^ (?k - n) + be_nat bs div 2 ^ n"
      unfolding be_nat_Cons k
      by (metis (no_types, lifting) div_mult_self3 mult.assoc power_not_zero zero_neq_numeral)
    with True \<open>?k - n \<noteq> 0\<close> show ?thesis by (simp add: bit_iff_odd del: be_nat_Cons)
  next
    case False
    then have "(2 :: nat) ^ n = 2 ^ ?k * 2 ^ (n - ?k)" by (simp flip: power_add)
    then have "be_nat (b # bs) div 2 ^ n = unat b div 2 ^ (n - ?k)"
      using y by (simp add: k div_mult2_eq)
    then have "bit (be_nat (b # bs)) n \<longleftrightarrow> bit (unat b) (n - ?k)" by (simp only: bit_iff_odd)
    with False show ?thesis by (simp add: bit_unsigned_iff)
  qed
qed


lemma bit_be_nat_nth:
  "n < 8 * length x \<Longrightarrow> bit (be_nat x) n \<longleftrightarrow> bit (x ! (length x - 1 - n div 8)) (n mod 8)"
proof (induction x)
  case (Cons b bs)
  show ?case
  proof (cases "n < 8 * length bs")
    case True
    then have "n div 8 < length bs" by (simp add: less_mult_imp_div_less mult.commute)
    then have "length (b # bs) - 1 - n div 8 = Suc (length bs - 1 - n div 8)" by simp
    with Cons.IH[OF True] True show ?thesis by (simp add: bit_be_nat_Cons del: be_nat_Cons)
  next
    case False
    then obtain k where k: "n = length bs * 8 + k" "k < 8"
      using Cons.prems by (auto intro: that[of "n - 8 * length bs"])
    then have "n div 8 = length bs" "n mod 8 = n - 8 * length bs" by simp_all
    with False show ?thesis by (simp add: bit_be_nat_Cons del: be_nat_Cons)
  qed
qed simp

definition id_bit :: "bytes \<Rightarrow> nat \<Rightarrow> bool" where
  "id_bit x p \<longleftrightarrow> bit (x ! (p div 8)) (7 - p mod 8)"

lemma position_split:
  assumes "(p :: nat) < 160"
  shows "(159 - p) div 8 = 19 - p div 8" "(159 - p) mod 8 = 7 - p mod 8" "p div 8 < 20"
proof -
  define i j where "i = p div 8" and "j = p mod 8"
  then have ij: "p = i * 8 + j" "i = p div 8" "j = p mod 8" by simp_all
  have "j < 8" "i < 20" using assms ij(2,3) by auto
  then obtain k where k: "159 - p = (19 - i) * 8 + k" "k = 7 - j" "k < 8" unfolding ij(1) by simp
  then show "(159 - p) div 8 = 19 - p div 8" "(159 - p) mod 8 = 7 - p mod 8"
    unfolding ij(2,3)[symmetric] k(1) k(2)[symmetric] by simp_all
  show "p div 8 < 20" using ij(2) \<open>i < 20\<close> by simp
qed

lemma position_eq:
  "q = p \<longleftrightarrow> q div 8 = p div 8 \<and> 7 - q mod 8 = 7 - (p :: nat) mod 8"
proof
  assume *: "q div 8 = p div 8 \<and> 7 - q mod 8 = 7 - p mod 8"
  have "q mod 8 < 8" "p mod 8 < 8" by simp_all
  with * have "q mod 8 = p mod 8" by linarith
  with * show "q = p" by (metis div_mult_mod_eq)
qed simp

lemma bit_id:
  assumes "is_id x" and "p < 160"
  shows "bit (be_nat x) (159 - p) \<longleftrightarrow> id_bit x p"
proof -
  have "length x - 1 - (159 - p) div 8 = p div 8"
    using position_split[OF assms(2)] length_id[OF assms(1)] by simp
  with bit_be_nat_nth[of "159 - p" x] position_split(2)[OF assms(2)] assms length_id[OF assms(1)]
  show ?thesis by (simp add: id_bit_def)
qed

lemma be_nat_id_less: "is_id x \<Longrightarrow> be_nat x < 2 ^ 160"
  using be_nat_less[of x] by (simp add: length_id flip: power_mult[of 2 8, simplified])

lemma bit_id_high:
  assumes "is_id x" "160 \<le> n"
  shows "\<not> bit (be_nat x) n"
proof -
  have "(2 :: nat) ^ 160 \<le> 2 ^ n" using assms(2) by (intro power_increasing) simp_all
  with be_nat_id_less[OF assms(1)] have "be_nat x div 2 ^ n = 0" by simp
  then show ?thesis by (simp only: bit_iff_odd) simp
qed

lemma mask_0x80: "j < 8 \<Longrightarrow> drop_bit j (0x80 :: u8) = 2 ^ (7 - j)"
proof -
  assume "j < 8"
  then have "j \<in> {0, 1, 2, 3, 4, 5, 6, 7}" by auto
  then show ?thesis by (auto simp: drop_bit_eq_div)
qed

lemma and_mask_0x80: "j < 8 \<Longrightarrow> c AND drop_bit j (0x80 :: u8) \<noteq> 0 \<longleftrightarrow> bit c (7 - j)"
  by (simp add: mask_0x80 and_exp_eq_0_iff_not_bit)

section \<open>bckt_significant_bit and set_bit_at\<close>

lemma last_byte_spec:
  "case last_byte (x :: bytes) i of None \<Rightarrow> \<forall>k<i. x ! k = 0
   | Some j \<Rightarrow> j < i \<and> x ! j \<noteq> 0 \<and> (\<forall>k. j < k \<longrightarrow> k < i \<longrightarrow> x ! k = 0)"
  by (induction i) (auto split: option.splits simp: less_Suc_eq)

lemma last_bit_spec:
  "i \<le> 8 \<Longrightarrow> - 1 \<le> last_bit c i \<and> last_bit c i < int i \<and>
    (0 \<le> last_bit c i \<longrightarrow> bit c (7 - nat (last_bit c i))) \<and>
    (\<forall>j<i. last_bit c i < int j \<longrightarrow> \<not> bit c (7 - j))"
  by (induction i) (auto simp: and_mask_0x80 less_Suc_eq)

lemma byte_nonzero: "c \<noteq> (0 :: u8) \<Longrightarrow> \<exists>j<8. bit c (7 - j)"
proof -
  assume "c \<noteq> 0"
  then obtain n where "bit c n" by (auto simp: bit_eq_iff)
  then have "n < 8" using bit_imp_le_length by fastforce
  with \<open>bit c n\<close> show ?thesis by (intro exI[of _ "7 - n"]) auto
qed

lemma significant_bit_spec:
  assumes "is_id x"
  shows "- 1 \<le> bckt_significant_bit x \<and> bckt_significant_bit x < 160 \<and>
    (0 \<le> bckt_significant_bit x \<longrightarrow> id_bit x (nat (bckt_significant_bit x))) \<and>
    (\<forall>p<160. bckt_significant_bit x < int p \<longrightarrow> \<not> id_bit x p)"
proof (cases "last_byte x 20")
  case None
  then have z: "\<forall>k<20. x ! k = 0" using last_byte_spec[where x = x and i = 20] by simp
  have "\<not> id_bit x p" if "p < 160" for p
    using z that by (auto simp: id_bit_def dest!: spec[of _ "p div 8"])
  with None show ?thesis by (simp add: bckt_significant_bit_def SHA_DIGEST_LENGTH_def)
next
  case (Some i)
  then have i: "i < 20" "x ! i \<noteq> 0" "\<And>k. i < k \<Longrightarrow> k < 20 \<Longrightarrow> x ! k = 0"
    using last_byte_spec[where x = x and i = 20] by auto
  define j where "j = last_bit (x ! i) 8"
  have j: "- 1 \<le> j" "j < 8" "0 \<le> j \<Longrightarrow> bit (x ! i) (7 - nat j)" "\<And>k. k < 8 \<Longrightarrow> j < int k \<Longrightarrow> \<not> bit (x ! i) (7 - k)"
    using last_bit_spec[of 8 "x ! i"] by (auto simp: j_def)
  obtain k where "k < 8" "bit (x ! i) (7 - k)" using byte_nonzero[OF i(2)] by blast
  with j(4) have j0: "0 \<le> j" by force
  have s: "bckt_significant_bit x = 8 * int i + j"
    by (simp add: bckt_significant_bit_def SHA_DIGEST_LENGTH_def Some j_def)
  have div: "nat (8 * int i + j) div 8 = i" "nat (8 * int i + j) mod 8 = nat j"
  proof -
    have "nat (8 * int i + j) = i * 8 + nat j" "nat j < 8" using j0 j(2) by auto
    then show "nat (8 * int i + j) div 8 = i" "nat (8 * int i + j) mod 8 = nat j" by simp_all
  qed
  have "\<not> id_bit x p" if p: "p < 160" "8 * int i + j < int p" for p
  proof (cases "p div 8 = i")
    case True
    define r where "r = p mod 8"
    then have "p = i * 8 + r" using True by auto
    then have "j < int r" using p(2) by simp
    then have "j < int (p mod 8)" by (simp add: r_def)
    with j(4)[of "p mod 8"] True show ?thesis by (simp add: id_bit_def)
  next
    case False
    define k r where "k = p div 8" and "r = p mod 8"
    then have k: "p = k * 8 + r" "r < 8" by simp_all
    have "k \<noteq> i" using False by (simp add: k_def)
    then have "i < k" "k < 20" using p j0 k by linarith+
    with i(3) show ?thesis by (simp add: id_bit_def k_def)
  qed
  with s j j0 i(1) show ?thesis by (simp add: div id_bit_def)
qed

lemma significant_bit_unique:
  assumes "is_id x" "p < 160" "id_bit x p" "\<And>q. p < q \<Longrightarrow> q < 160 \<Longrightarrow> \<not> id_bit x q"
  shows "bckt_significant_bit x = int p"
proof -
  note s = significant_bit_spec[OF assms(1)]
  have "int p \<le> bckt_significant_bit x" using s assms(2,3) by force
  moreover have "bckt_significant_bit x \<le> int p"
  proof (rule ccontr)
    assume "\<not> ?thesis"
    then have "p < nat (bckt_significant_bit x)" "nat (bckt_significant_bit x) < 160"
      "0 \<le> bckt_significant_bit x" using s by auto
    with assms(4) s show False by blast
  qed
  ultimately show ?thesis by simp
qed

lemma is_id_set_bit [simp]: "is_id (set_bit_at x p) \<longleftrightarrow> is_id x"
  by (simp add: set_bit_at_def is_id_def)

lemma id_bit_set:
  assumes "is_id x" "p < 160" "q < 160"
  shows "id_bit (set_bit_at x p) q \<longleftrightarrow> id_bit x q \<or> q = p"
proof -
  have len: "p div 8 < length x" using position_split[OF assms(2)] length_id[OF assms(1)] by simp
  have "7 - p mod 8 < 8" by simp
  then have mask: "bit (drop_bit (p mod 8) (0x80 :: u8)) (7 - q mod 8) \<longleftrightarrow> 7 - q mod 8 = 7 - p mod 8"
    by (subst mask_0x80) (auto simp: bit_exp_iff)
  show ?thesis
    unfolding position_eq[of q p] id_bit_def set_bit_at_def
    using len mask by (cases "p div 8 = q div 8") (auto simp: bit_or_iff)
qed

lemma be_nat_set_bit:
  assumes "is_id x" "p < 160" "\<not> id_bit x p"
  shows "be_nat (set_bit_at x p) = be_nat x + 2 ^ (159 - p)"
proof -
  have "be_nat (set_bit_at x p) = be_nat x OR 2 ^ (159 - p)"
  proof (rule bit_eqI)
    fix n
    show "bit (be_nat (set_bit_at x p)) n \<longleftrightarrow> bit (be_nat x OR 2 ^ (159 - p)) n"
    proof (cases "n < 160")
      case True
      then have n: "n = 159 - (159 - n)" "159 - n < 160" by simp_all
      have "bit (be_nat (set_bit_at x p)) n \<longleftrightarrow> id_bit (set_bit_at x p) (159 - n)"
        using bit_id[of "set_bit_at x p" "159 - n"] n assms(1) by simp
      also have "\<dots> \<longleftrightarrow> id_bit x (159 - n) \<or> 159 - n = p" by (rule id_bit_set) (use assms n in auto)
      also have "\<dots> \<longleftrightarrow> bit (be_nat x) n \<or> n = 159 - p"
        using bit_id[OF assms(1) n(2)] n assms(2) True by auto
      finally show ?thesis by (auto simp: bit_or_iff bit_exp_iff)
    next
      case False
      then show ?thesis using bit_id_high[of x n] bit_id_high[of "set_bit_at x p" n] assms(1,2)
        by (auto simp: bit_or_iff bit_exp_iff)
    qed
  qed
  also have "\<dots> = be_nat x + 2 ^ (159 - p)"
    using bit_id[OF assms(1,2)] assms(3) by (subst disjunctive_add) (auto simp: bit_exp_iff)
  finally show ?thesis .
qed

lemma significant_bit_set:
  assumes "is_id x" "p < 160" "bckt_significant_bit x < int p"
  shows "bckt_significant_bit (set_bit_at x p) = int p"
proof (rule significant_bit_unique)
  fix q
  assume "p < q" "q < 160"
  then show "\<not> id_bit (set_bit_at x p) q"
    using significant_bit_spec[OF assms(1)] assms by (auto simp: id_bit_set)
qed (use assms in \<open>auto simp: id_bit_set\<close>)

text \<open>An identifier is a multiple of the value of its significant bit.\<close>

lemma significant_bit_dvd:
  assumes "is_id x" "p < 160" "bckt_significant_bit x \<le> int p"
  shows "2 ^ (159 - p) dvd be_nat x"
proof -
  have "\<not> bit (be_nat x) n" if "n < 159 - p" for n
  proof -
    have "\<not> id_bit x (159 - n)" using significant_bit_spec[OF assms(1)] assms that by auto
    with bit_id[OF assms(1), of "159 - n"] that show ?thesis by auto
  qed
  then have "take_bit (159 - p) (be_nat x) = 0" by (auto simp: bit_eq_iff bit_take_bit_iff)
  then show ?thesis by (simp add: take_bit_eq_0_iff)
qed

lemma significant_bit_zero:
  assumes "is_id x" "bckt_significant_bit x = - 1"
  shows "be_nat x = 0"
proof (rule bit_eqI)
  fix n
  show "bit (be_nat x) n \<longleftrightarrow> bit (0 :: nat) n"
  proof (cases "n < 160")
    case True
    then show ?thesis
      using bit_id[OF assms(1), of "159 - n"] significant_bit_spec[OF assms(1)] assms(2) by simp
  qed (use bit_id_high[OF assms(1)] in simp)
qed

text \<open>Two different multiples of \<open>d\<close> are at least \<open>d\<close> apart.\<close>

lemma dvd_gap: "a < b \<Longrightarrow> d dvd a \<and> d dvd b \<Longrightarrow> a + d \<le> (b :: nat)"
proof -
  assume "a < b" "d dvd a \<and> d dvd b"
  then have "d dvd b - a" "0 < b - a" by auto
  then have "d \<le> b - a" by (rule dvd_imp_le)
  then show ?thesis using \<open>a < b\<close> by simp
qed

end
