(* ===== verification/BucketInv.thy ===== *)
theory BucketInv
  imports BucketId
begin

text \<open>
  The bucket list of \<open>src/src/bucket.c\<close> as a partition of the identifier space: bucket \<open>k\<close> is for
  the identifiers from its own up to the next bucket's. \<open>bl_inv\<close> says that the identifiers
  increase from zero, that \<open>stop\<close> is the last item, and that every node is in the bucket that
  \<open>bckt_find_best_match\<close> gives for it. Under it the find, put and delete operations act on the
  set of all nodes.
\<close>

section \<open>Invariant\<close>

definition bl_shape :: "BLIST \<Rightarrow> bool" where
  "bl_shape l \<longleftrightarrow> bl_items l \<noteq> [] \<and> bl_stop l = Some (length (bl_items l) - 1) \<and>
     (\<forall>b \<in> set (bl_items l). is_id (b_id b)) \<and> be_nat (b_id (bl_items l ! 0)) = 0 \<and>
     sorted_wrt (\<lambda>a b. be_nat (b_id a) < be_nat (b_id b)) (bl_items l)"

definition bl_inv :: "BLIST \<Rightarrow> bool" where
  "bl_inv l \<longleftrightarrow> bl_shape l \<and> (\<forall>k < length (bl_items l). distinct (map n_id (bl_nodes l k)) \<and>
     (\<forall>n \<in> set (bl_nodes l k). is_id (n_id n) \<and> bckt_find_best_match l (n_id n) = Some k))"

definition all_nodes :: "BLIST \<Rightarrow> NODE set" where
  "all_nodes l = (\<Union>k < length (bl_items l). set (bl_nodes l k))"

definition in_bucket :: "BLIST \<Rightarrow> bytes \<Rightarrow> nat \<Rightarrow> bool" where
  "in_bucket l nid k \<longleftrightarrow> k < length (bl_items l) \<and> be_nat (b_id (bl_items l ! k)) \<le> be_nat nid \<and>
     (Suc k < length (bl_items l) \<longrightarrow> be_nat nid < be_nat (b_id (bl_items l ! Suc k)))"

section \<open>The best matching bucket\<close>

lemma memcmp_ids: "is_id x \<Longrightarrow> is_id y \<Longrightarrow> memcmp x y < 0 \<longleftrightarrow> be_nat x < be_nat y"
  by (simp add: memcmp_be_nat length_id)

lemma memcmp_ids_ge: "is_id x \<Longrightarrow> is_id y \<Longrightarrow> 0 \<le> memcmp x y \<longleftrightarrow> be_nat y \<le> be_nat x"
  using memcmp_ids[of x y] by linarith

lemma node_equal_iff: "is_id x \<Longrightarrow> is_id y \<Longrightarrow> node_equal x y \<longleftrightarrow> x = y"
  by (simp add: node_equal_def memcmp_eq_0 length_id)

lemma best_match_from_spec:
  "case best_match_from bs i nid of
     Some k \<Rightarrow> \<exists>j. k = i + j \<and> Suc j < length bs \<and> memcmp nid (b_id (bs ! Suc j)) < 0 \<and>
       (\<forall>m<j. \<not> memcmp nid (b_id (bs ! Suc m)) < 0)
   | None \<Rightarrow> \<forall>j. Suc j < length bs \<longrightarrow> \<not> memcmp nid (b_id (bs ! Suc j)) < 0"
proof (induction bs i nid rule: best_match_from.induct)
  case (1 item nxt rest i nid)
  show ?case
  proof (cases "memcmp nid (b_id nxt) < 0")
    case False
    note IH = "1.IH"[OF False]
    show ?thesis
    proof (cases "best_match_from (nxt # rest) (Suc i) nid")
      case None
      with IH False show ?thesis by (auto simp: nth_Cons split: nat.splits)
    next
      case (Some k)
      with IH obtain j where "k = Suc i + j" "Suc j < length (nxt # rest)"
        "memcmp nid (b_id ((nxt # rest) ! Suc j)) < 0"
        "\<forall>m<j. \<not> memcmp nid (b_id ((nxt # rest) ! Suc m)) < 0" by auto
      with False have "k = i + Suc j \<and> Suc (Suc j) < length (item # nxt # rest) \<and>
        memcmp nid (b_id ((item # nxt # rest) ! Suc (Suc j))) < 0 \<and>
        (\<forall>m<Suc j. \<not> memcmp nid (b_id ((item # nxt # rest) ! Suc m)) < 0)"
        by (simp add: All_less_Suc2)
      then show ?thesis using Some False by (simp del: nth_Cons_Suc)
    qed
  qed auto
qed auto

lemma best_match_cases:
  obtains (early) k where "bckt_find_best_match l nid = Some k" "Suc k < length (bl_items l)"
      "memcmp nid (b_id (bl_items l ! Suc k)) < 0"
      "\<And>m. m < k \<Longrightarrow> \<not> memcmp nid (b_id (bl_items l ! Suc m)) < 0"
  | (end_of_list) "bckt_find_best_match l nid = bl_stop l"
      "\<And>j. Suc j < length (bl_items l) \<Longrightarrow> \<not> memcmp nid (b_id (bl_items l ! Suc j)) < 0"
proof (cases "best_match_from (bl_items l) 0 nid")
  case None
  then show thesis using best_match_from_spec[where bs = "bl_items l" and i = 0 and nid = nid]
    by (intro end_of_list) (auto simp: bckt_find_best_match_def)
next
  case (Some k)
  then show thesis using best_match_from_spec[where bs = "bl_items l" and i = 0 and nid = nid]
    by (intro early[of k]) (auto simp: bckt_find_best_match_def)
qed

lemma shape_less:
  "bl_shape l \<Longrightarrow> i < j \<Longrightarrow> j < length (bl_items l) \<Longrightarrow>
     be_nat (b_id (bl_items l ! i)) < be_nat (b_id (bl_items l ! j))"
  by (simp add: bl_shape_def sorted_wrt_iff_nth_less)

lemma shape_id: "bl_shape l \<Longrightarrow> i < length (bl_items l) \<Longrightarrow> is_id (b_id (bl_items l ! i))"
  by (simp add: bl_shape_def)

lemma in_bucket_unique:
  assumes "bl_shape l" "in_bucket l nid i" "in_bucket l nid j"
  shows "i = j"
proof (rule ccontr)
  assume "i \<noteq> j"
  have False if *: "in_bucket l nid i" "in_bucket l nid j" "i < j" for i j
  proof -
    have "be_nat (b_id (bl_items l ! Suc i)) \<le> be_nat (b_id (bl_items l ! j))"
      using shape_less[OF assms(1), of "Suc i" j] * by (cases "Suc i = j") (auto simp: in_bucket_def)
    with * show False by (auto simp: in_bucket_def)
  qed
  with assms(2,3) \<open>i \<noteq> j\<close> show False by (meson nat_neq_iff)
qed

lemma best_match_in_bucket:
  assumes "bl_shape l" "is_id nid"
  shows "\<exists>k. bckt_find_best_match l nid = Some k \<and> in_bucket l nid k"
proof (rule best_match_cases[of l nid])
  fix k
  assume "bckt_find_best_match l nid = Some k" and k: "Suc k < length (bl_items l)"
    "memcmp nid (b_id (bl_items l ! Suc k)) < 0"
    "\<And>m. m < k \<Longrightarrow> \<not> memcmp nid (b_id (bl_items l ! Suc m)) < 0"
  moreover have "be_nat (b_id (bl_items l ! k)) \<le> be_nat nid"
    using k(3)[of "k - 1"] k(1) assms
    by (cases k) (auto simp: bl_shape_def memcmp_ids_ge shape_id[OF assms(1)] not_less)
  ultimately show ?thesis using assms by (auto simp: in_bucket_def memcmp_ids shape_id)
next
  assume stop: "bckt_find_best_match l nid = bl_stop l"
    and all: "\<And>j. Suc j < length (bl_items l) \<Longrightarrow> \<not> memcmp nid (b_id (bl_items l ! Suc j)) < 0"
  obtain k where k: "length (bl_items l) = Suc k" using assms(1)
    by (cases "bl_items l") (auto simp: bl_shape_def)
  have "be_nat (b_id (bl_items l ! k)) \<le> be_nat nid"
    using all[of "k - 1"] k assms
    by (cases k) (auto simp: bl_shape_def memcmp_ids_ge shape_id[OF assms(1)] not_less)
  with stop k assms(1) show ?thesis by (auto simp: in_bucket_def bl_shape_def)
qed

lemma best_match_iff:
  assumes "bl_shape l" "is_id nid"
  shows "bckt_find_best_match l nid = Some k \<longleftrightarrow> in_bucket l nid k"
  using best_match_in_bucket[OF assms] in_bucket_unique[OF assms(1)] by force

section \<open>Writing the nodes of a bucket\<close>

lemma set_nodes_facts [simp]:
  "length (bl_items (bl_set_nodes l k ns)) = length (bl_items l)"
  "bl_stop (bl_set_nodes l k ns) = bl_stop l"
  by (simp_all add: bl_set_nodes_def)

lemma set_nodes_id [simp]: "b_id (bl_items (bl_set_nodes l k ns) ! i) = b_id (bl_items l ! i)"
proof (cases "k < length (bl_items l)")
  case True
  then show ?thesis by (cases "i = k") (simp_all add: bl_set_nodes_def)
qed (simp add: bl_set_nodes_def list_update_beyond not_less)

lemma set_nodes_nodes [simp]:
  "k < length (bl_items l) \<Longrightarrow> bl_nodes (bl_set_nodes l k ns) i = (if i = k then ns else bl_nodes l i)"
  by (simp add: bl_set_nodes_def bl_nodes_def nth_list_update)

text \<open>Two lists with the same identifiers and the same \<open>stop\<close> match alike.\<close>

definition same_ids :: "BLIST \<Rightarrow> BLIST \<Rightarrow> bool" where
  "same_ids l l' \<longleftrightarrow> map b_id (bl_items l) = map b_id (bl_items l') \<and> bl_stop l = bl_stop l'"

lemma same_ids_refl [simp]: "same_ids l l"
  by (simp add: same_ids_def)

lemma same_ids_trans: "same_ids l l' \<Longrightarrow> same_ids l' l'' \<Longrightarrow> same_ids l l''"
  by (simp add: same_ids_def)

lemma same_ids_set_nodes [simp]: "same_ids l (bl_set_nodes l k ns)"
  by (auto simp: same_ids_def intro!: nth_equalityI)

lemma same_ids_facts:
  assumes "same_ids l l'"
  shows "length (bl_items l') = length (bl_items l)" "bl_stop l' = bl_stop l"
    "i < length (bl_items l) \<Longrightarrow> b_id (bl_items l' ! i) = b_id (bl_items l ! i)"
proof -
  show len: "length (bl_items l') = length (bl_items l)"
    using assms by (auto simp: same_ids_def dest: map_eq_imp_length_eq)
  show "bl_stop l' = bl_stop l" using assms by (simp add: same_ids_def)
  assume "i < length (bl_items l)"
  then show "b_id (bl_items l' ! i) = b_id (bl_items l ! i)"
    using assms len nth_map[of i "bl_items l" b_id] nth_map[of i "bl_items l'" b_id]
    by (simp add: same_ids_def)
qed

lemma same_ids_best_from:
  "map b_id bs = map b_id bs' \<Longrightarrow> best_match_from bs i nid = best_match_from bs' i nid"
proof (induction bs arbitrary: i bs')
  case (Cons b bs)
  then obtain b' bs'' where bs': "bs' = b' # bs''" "b_id b' = b_id b" "map b_id bs = map b_id bs''"
    by (auto simp: Cons_eq_map_conv)
  with Cons.IH[OF bs'(3)] show ?case by (cases bs; cases bs'') auto
qed simp

lemma same_ids_best:
  "same_ids l l' \<Longrightarrow> bckt_find_best_match l' nid = bckt_find_best_match l nid"
  using same_ids_best_from[of "bl_items l" "bl_items l'" 0 nid]
  by (auto simp: same_ids_def bckt_find_best_match_def split: option.splits)

lemma same_ids_shape:
  assumes "same_ids l l'"
  shows "bl_shape l' \<longleftrightarrow> bl_shape l"
proof -
  note f = same_ids_facts[OF assms]
  have "sorted_wrt (\<lambda>a b. be_nat (b_id a) < be_nat (b_id b)) (bl_items l') \<longleftrightarrow>
      sorted_wrt (\<lambda>a b. be_nat (b_id a) < be_nat (b_id b)) (bl_items l)"
    using f(1,3) by (simp add: sorted_wrt_iff_nth_less)
  then show ?thesis using f by (auto simp: bl_shape_def all_set_conv_all_nth simp flip: length_greater_0_conv)
qed


section \<open>Finding, adding and deleting nodes\<close>

lemma find_node_in_None: "find_node_in ns i nid = None \<longleftrightarrow> (\<forall>n \<in> set ns. \<not> node_equal (n_id n) nid)"
  by (induction ns arbitrary: i) auto

lemma find_node_in_Some:
  "find_node_in ns i nid = Some j \<Longrightarrow> i \<le> j \<and> j - i < length ns \<and> node_equal (n_id (ns ! (j - i))) nid"
proof (induction ns arbitrary: i)
  case (Cons n ns)
  show ?case
  proof (cases "node_equal (n_id n) nid")
    case False
    with Cons have "Suc i \<le> j" "j - Suc i < length ns" "node_equal (n_id (ns ! (j - Suc i))) nid"
      by auto
    moreover from this have "j - i = Suc (j - Suc i)" by simp
    ultimately show ?thesis by simp
  qed (use Cons in auto)
qed simp

lemma inv_best:
  assumes "bl_inv l" "is_id nid"
  obtains k where "bckt_find_best_match l nid = Some k" "k < length (bl_items l)"
  using best_match_in_bucket[of l nid] assms by (auto simp: bl_inv_def in_bucket_def)

lemma inv_node:
  "bl_inv l \<Longrightarrow> k < length (bl_items l) \<Longrightarrow> n \<in> set (bl_nodes l k) \<Longrightarrow>
    is_id (n_id n) \<and> bckt_find_best_match l (n_id n) = Some k"
  by (simp add: bl_inv_def)

lemma in_all_nodes:
  assumes "bl_inv l" "is_id nid" "bckt_find_best_match l nid = Some k"
  shows "nid \<in> n_id ` all_nodes l \<longleftrightarrow> nid \<in> n_id ` set (bl_nodes l k)"
proof
  assume "nid \<in> n_id ` all_nodes l"
  then obtain n i where n: "n_id n = nid" "i < length (bl_items l)" "n \<in> set (bl_nodes l i)"
    by (auto simp: all_nodes_def)
  with inv_node[OF assms(1) n(2,3)] assms(3) show "nid \<in> n_id ` set (bl_nodes l k)" by auto
next
  assume "nid \<in> n_id ` set (bl_nodes l k)"
  moreover have "k < length (bl_items l)"
    using best_match_iff[of l nid k] assms by (simp add: bl_inv_def in_bucket_def)
  ultimately show "nid \<in> n_id ` all_nodes l" by (auto simp: all_nodes_def)
qed

lemma find_node_cases:
  assumes "bl_inv l" "is_id nid"
  obtains (absent) k where "bckt_find_best_match l nid = Some k" "k < length (bl_items l)"
      "bckt_find_node l nid = None" "nid \<notin> n_id ` all_nodes l" "nid \<notin> n_id ` set (bl_nodes l k)"
  | (present) k j where "bckt_find_best_match l nid = Some k" "k < length (bl_items l)"
      "bckt_find_node l nid = Some (k, j)" "j < length (bl_nodes l k)" "n_id (bl_nodes l k ! j) = nid"
proof -
  obtain k where k: "bckt_find_best_match l nid = Some k" "k < length (bl_items l)"
    using inv_best[OF assms] .
  have eq: "node_equal (n_id n) nid \<longleftrightarrow> n_id n = nid" if "n \<in> set (bl_nodes l k)" for n
    using inv_node[OF assms(1) k(2) that] assms(2) by (simp add: node_equal_iff)
  show thesis
  proof (cases "find_node_in (bl_nodes l k) 0 nid")
    case None
    then have "nid \<notin> n_id ` set (bl_nodes l k)" using eq by (auto simp: find_node_in_None)
    with None show thesis using in_all_nodes[OF assms k(1)] k
      by (intro absent[OF k]) (auto simp: bckt_find_node_def)
  next
    case (Some j)
    from find_node_in_Some[OF this] have "j < length (bl_nodes l k)" "node_equal (n_id (bl_nodes l k ! j)) nid"
      by simp_all
    with Some show thesis using k eq by (intro present[OF k, of j]) (auto simp: bckt_find_node_def)
  qed
qed

lemma set_nodes_inv:
  assumes "bl_inv l" "k < length (bl_items l)" "distinct (map n_id ns)"
    and "\<forall>n \<in> set ns. is_id (n_id n) \<and> bckt_find_best_match l (n_id n) = Some k"
  shows "bl_inv (bl_set_nodes l k ns)"
  using assms same_ids_shape[OF same_ids_set_nodes[of l k ns]] same_ids_best[OF same_ids_set_nodes[of l k ns]]
  by (simp add: bl_inv_def)

lemma all_nodes_set:
  assumes "k < length (bl_items l)"
  shows "all_nodes (bl_set_nodes l k ns)
     = set ns \<union> (\<Union>i \<in> {..<length (bl_items l)} - {k}. set (bl_nodes l i))"
  using assms by (auto simp: all_nodes_def split: if_splits)

lemma all_nodes_split:
  "k < length (bl_items l) \<Longrightarrow>
    all_nodes l = set (bl_nodes l k) \<union> (\<Union>i \<in> {..<length (bl_items l)} - {k}. set (bl_nodes l i))"
  by (auto simp: all_nodes_def)

lemma bckt_put_new:
  assumes "bl_inv l" "is_id (n_id n)" "n_id n \<notin> n_id ` all_nodes l"
  shows "\<exists>l'. bckt_put l (Some n) = Inr l' \<and> bl_inv l' \<and> same_ids l l' \<and> all_nodes l' = insert n (all_nodes l)"
  using assms(1,2)
proof (cases rule: find_node_cases)
  case (absent k)
  let ?l = "bl_set_nodes l k (bl_nodes l k @ [n])"
  have "bl_inv ?l"
    using absent assms inv_node[OF assms(1) absent(2)]
    by (intro set_nodes_inv) (auto simp: bl_inv_def)
  moreover have "all_nodes ?l = insert n (all_nodes l)"
    using absent(2) all_nodes_split[OF absent(2)] by (auto simp: all_nodes_set)
  ultimately show ?thesis using absent by (simp add: bckt_put_def)
next
  case (present k j)
  have "n_id n \<in> n_id ` set (bl_nodes l k)"
    using imageI[OF nth_mem[OF present(4)], of n_id] unfolding present(5) .
  then show ?thesis using in_all_nodes[OF assms(1,2) present(1)] assms(3) by blast
qed

lemma bckt_put_known:
  assumes "bl_inv l" "is_id (n_id n)" "n_id n \<in> n_id ` all_nodes l"
  shows "bckt_put l (Some n) = Inr l"
  using assms(1,2)
proof (cases rule: find_node_cases)
  case (absent k)
  with assms(3) show ?thesis by blast
qed (simp add: bckt_put_def)

lemma set_del_at:
  assumes "distinct (map f xs)" "j < length xs"
  shows "set (del_at j xs) = set xs - {xs ! j}" "distinct (map f (del_at j xs))"
    "f ` set (del_at j xs) = f ` set xs - {f (xs ! j)}"
proof -
  define as where "as = take j xs"
  define bs where "bs = drop (Suc j) xs"
  have xs: "xs = as @ xs ! j # bs" unfolding as_def bs_def using assms(2) by (rule id_take_nth_drop)
  have del: "del_at j xs = as @ bs" by (simp add: del_at_def as_def bs_def)
  have d: "distinct (map f (as @ xs ! j # bs))" using assms(1) xs by simp
  then show "distinct (map f (del_at j xs))" by (simp add: del)
  have "set xs = insert (xs ! j) (set as \<union> set bs)" by (subst xs) simp
  moreover have "f (xs ! j) \<notin> f ` (set as \<union> set bs)" using d by auto
  ultimately show "set (del_at j xs) = set xs - {xs ! j}"
    "f ` set (del_at j xs) = f ` set xs - {f (xs ! j)}" by (auto simp: del)
qed

lemma bckt_del_known:
  assumes "bl_inv l" "is_id (n_id n)" "n_id n \<in> n_id ` all_nodes l"
  shows "\<exists>l'. bckt_del l (Some n) = Inr l' \<and> bl_inv l' \<and> same_ids l l' \<and>
     all_nodes l' = {m \<in> all_nodes l. n_id m \<noteq> n_id n}"
  using assms(1,2)
proof (cases rule: find_node_cases)
  case (absent k)
  with assms(3) show ?thesis by blast
next
  case (present k j)
  let ?l = "bl_set_nodes l k (del_at j (bl_nodes l k))"
  have d: "distinct (map n_id (bl_nodes l k))" using assms(1) present(2) by (simp add: bl_inv_def)
  note del = set_del_at[OF d present(4)]
  have "bl_inv ?l"
    using present(2) del inv_node[OF assms(1) present(2)] by (intro set_nodes_inv[OF assms(1)]) auto
  moreover have "set (del_at j (bl_nodes l k)) = {m \<in> set (bl_nodes l k). n_id m \<noteq> n_id n}"
    using del(1,3) present(5) by (auto simp del: set_map)
  moreover have "n_id m \<noteq> n_id n" if "i \<noteq> k" "i < length (bl_items l)" "m \<in> set (bl_nodes l i)" for i m
    using inv_node[OF assms(1) that(2,3)] present(1) that(1) by auto
  ultimately show ?thesis using present
    by (auto simp: bckt_del_def all_nodes_set all_nodes_split[OF present(2)])
qed


lemma bckt_del_unknown:
  assumes "bl_inv l" "is_id (n_id n)" "n_id n \<notin> n_id ` all_nodes l"
  shows "bckt_del l (Some n) = Inr l"
  using assms(1,2)
proof (cases rule: find_node_cases)
  case (present k j)
  have "n_id n \<in> n_id ` set (bl_nodes l k)"
    using imageI[OF nth_mem[OF present(4)], of n_id] unfolding present(5) .
  then show ?thesis using in_all_nodes[OF assms(1,2) present(1)] assms(3) by blast
qed (simp add: bckt_del_def)

lemma bckt_init_inv [wf_intros]: "bl_inv bckt_init"
  by (auto simp: bl_inv_def bl_shape_def bckt_init_def bl_put_def is_id_def bl_nodes_def
      be_nat_replicate SHA_DIGEST_LENGTH_def)

section \<open>Properties of the bucket list\<close>

text \<open>The best match is the bucket whose interval contains the identifier: on a well-formed
  bucket list bckt_find_best_match returns the only bucket k whose identifier is not above the
  wanted one while the identifier of the next bucket, if there is one, is above it.\<close>
lemma bckt_find_best_match_interval:
  assumes "bl_inv l" "is_id nid"
  shows "bckt_find_best_match l nid = Some k \<longleftrightarrow> k < length (bl_items l) \<and>
    be_nat (b_id (bl_items l ! k)) \<le> be_nat nid \<and>
    (Suc k < length (bl_items l) \<longrightarrow> be_nat nid < be_nat (b_id (bl_items l ! Suc k)))"
  using best_match_iff[of l nid k] assms by (simp add: bl_inv_def in_bucket_def)

text \<open>C17: bckt_find_node finds a node by its identifier whenever the table holds one, in any
  bucket, and only then; bckt_put adds a node exactly when its identifier is not yet there, and
  bckt_del removes exactly the node with that identifier; both keep the table well formed and
  neither exits through log_err.\<close>
theorem bckt_put_del_table:
  assumes "bl_inv l" "is_id (n_id n)"
  shows "(bckt_find_node l (n_id n) \<noteq> None \<longleftrightarrow> n_id n \<in> n_id ` all_nodes l) \<and>
    (\<exists>l'. bckt_put l (Some n) = Inr l' \<and> bl_inv l' \<and>
       all_nodes l' = (if n_id n \<in> n_id ` all_nodes l then all_nodes l else insert n (all_nodes l))) \<and>
    (\<exists>l'. bckt_del l (Some n) = Inr l' \<and> bl_inv l' \<and>
       all_nodes l' = {m \<in> all_nodes l. n_id m \<noteq> n_id n})"
proof -
  have "bckt_find_node l (n_id n) \<noteq> None \<longleftrightarrow> n_id n \<in> n_id ` all_nodes l"
    using assms
  proof (cases rule: find_node_cases)
    case (present k j)
    have "n_id n \<in> n_id ` set (bl_nodes l k)"
      using imageI[OF nth_mem[OF present(4)], of n_id] unfolding present(5) .
    with present in_all_nodes[OF assms present(1)] show ?thesis by blast
  qed simp
  moreover have "\<exists>l'. bckt_put l (Some n) = Inr l' \<and> bl_inv l' \<and>
      all_nodes l' = (if n_id n \<in> n_id ` all_nodes l then all_nodes l else insert n (all_nodes l))"
    using bckt_put_new[OF assms] bckt_put_known[OF assms] assms(1) by auto
  moreover have "\<exists>l'. bckt_del l (Some n) = Inr l' \<and> bl_inv l' \<and>
      all_nodes l' = {m \<in> all_nodes l. n_id m \<noteq> n_id n}"
  proof (cases "n_id n \<in> n_id ` all_nodes l")
    case True
    then show ?thesis using bckt_del_known[OF assms] by blast
  next
    case False
    then have "{m \<in> all_nodes l. n_id m \<noteq> n_id n} = all_nodes l" unfolding image_iff by auto
    with False show ?thesis using bckt_del_unknown[OF assms] assms(1) by auto
  qed
  ultimately show ?thesis by blast
qed

text \<open>bckt_find_any_match, which every FIND, LOOKUP and ANNOUNCE packet runs, dereferences
  NULL as soon as the bucket that matches best is empty and there is more than one bucket:
  list_prev gives NULL, where the loop expects the previous bucket. With a single bucket it
  returns NULL, and otherwise it returns the best match.\<close>
lemma bckt_find_any_match_crash:
  assumes "bl_inv l" "is_id nid" "bckt_find_best_match l nid = Some k"
  shows "bckt_find_any_match l nid =
    (if bl_nodes l k \<noteq> [] then Inr (Some k)
     else if length (bl_items l) = 1 then Inr None else Inl NullDeref)"
proof -
  have k: "k < length (bl_items l)"
    using best_match_iff[of l nid k] assms by (simp add: bl_inv_def in_bucket_def)
  then obtain n where n: "length (bl_items l) = Suc n" by (cases "length (bl_items l)") auto
  show ?thesis
    using k n assms(3)
    by (cases n) (auto simp: bckt_find_any_match_def item_val_def bl_nodes_def bl_prev_def)
qed


text \<open>A table with two buckets, of which the upper one is empty.\<close>

definition no_addr :: IP where
  "no_addr = \<lparr>sin6_family = 10, sin6_port = [31, 64], sin6_flowinfo = 0,
     sin6_addr = replicate 16 0, sin6_scope_id = 0\<rparr>"

definition node_of :: "bytes \<Rightarrow> NODE" where
  "node_of nid = \<lparr>n_addr = no_addr, n_id = nid, n_time_ping = 0, n_time_find = 0, n_pinged = 0\<rparr>"

definition two_buckets :: BLIST where
  "two_buckets = \<lparr>bl_items = [\<lparr>b_id = replicate 20 0, b_nodes = [node_of (replicate 20 7)]\<rparr>,
     \<lparr>b_id = 128 # replicate 19 0, b_nodes = []\<rparr>], bl_stop = Some 1\<rparr>"

lemma two_buckets_inv: "bl_inv two_buckets"
proof -
  have "bl_shape two_buckets"
    by (simp add: bl_shape_def two_buckets_def is_id_def SHA_DIGEST_LENGTH_def)
  moreover have "bckt_find_best_match two_buckets (replicate 20 7) = Some 0" by code_simp
  ultimately show ?thesis
    by (simp add: bl_inv_def two_buckets_def node_of_def is_id_def SHA_DIGEST_LENGTH_def bl_nodes_def
        less_Suc_eq all_conj_distrib)
qed

lemma two_buckets_best: "bckt_find_best_match two_buckets (replicate 20 200) = Some 1"
  by code_simp

lemma is_id_200: "is_id (replicate 20 200)"
  by (simp add: is_id_def SHA_DIGEST_LENGTH_def)

lemma bckt_find_best_match_interval_example:
  "be_nat (128 # replicate 19 0) \<le> be_nat (replicate 20 200) \<and>
    bckt_find_best_match two_buckets (replicate 20 200) = Some 1"
  using bckt_find_best_match_interval[OF two_buckets_inv is_id_200, of 1] two_buckets_best
  by (simp add: two_buckets_def)

theorem bckt_put_del_table_witness:
  "\<exists>l'. bckt_put two_buckets (Some (node_of (replicate 20 200))) = Inr l' \<and> bl_inv l'"
  using bckt_put_del_table[OF two_buckets_inv, of "node_of (replicate 20 200)"] is_id_200
  by (auto simp: node_of_def)

lemma bckt_find_any_match_crash_example:
  "bckt_find_any_match two_buckets (replicate 20 200) = Inl NullDeref"
  using bckt_find_any_match_crash[OF two_buckets_inv is_id_200 two_buckets_best]
  by (simp add: two_buckets_def bl_nodes_def)

end
