(* ===== verification/BucketSplit.thy ===== *)
theory BucketSplit
  imports BucketInv
begin

text \<open>
  \<open>bckt_split\<close> and \<open>nbhd_split\<close> (\<open>src/src/bucket.c\<close>, \<open>src/src/neighborhood.c\<close>). The identifier of a
  new bucket lies strictly between its neighbours', and splitting a bucket that is not the last
  of several keeps the invariant and all nodes, within 160 splits. Splitting the last of several
  buckets goes wrong, because \<open>list_ins\<close> behind the last item leaves \<open>stop\<close> where it was: every
  node stays in the bucket, the new one stays empty, and \<open>nbhd_split\<close> repeats the same step.
\<close>

section \<open>Redistributing nodes\<close>

lemma place_nodes_spec:
  assumes "\<forall>n \<in> set ns. \<exists>k < length (bl_items l). bckt_find_best_match l (n_id n) = Some k"
  shows "\<exists>l'. place_nodes l ns = Inr l' \<and> same_ids l l' \<and>
    (\<forall>k < length (bl_items l). bl_nodes l' k
       = bl_nodes l k @ filter (\<lambda>n. bckt_find_best_match l (n_id n) = Some k) ns)"
  using assms
proof (induction ns arbitrary: l)
  case (Cons n ns)
  then obtain s where s: "s < length (bl_items l)" "bckt_find_best_match l (n_id n) = Some s" by auto
  let ?l = "bl_set_nodes l s (bl_nodes l s @ [n])"
  note best = same_ids_best[OF same_ids_set_nodes[of l s "bl_nodes l s @ [n]"]]
  have "\<forall>n \<in> set ns. \<exists>k < length (bl_items ?l). bckt_find_best_match ?l (n_id n) = Some k"
    using Cons.prems by (simp add: best)
  from Cons.IH[OF this] obtain l' where l': "place_nodes ?l ns = Inr l'" "same_ids ?l l'"
    "\<forall>k < length (bl_items l). bl_nodes l' k
       = bl_nodes ?l k @ filter (\<lambda>n. bckt_find_best_match l (n_id n) = Some k) ns"
    by (auto simp: best)
  have "same_ids l l'" using same_ids_trans[OF same_ids_set_nodes l'(2)] .
  moreover have "bl_nodes l' k = bl_nodes l k @ filter (\<lambda>n. bckt_find_best_match l (n_id n) = Some k) (n # ns)"
    if "k < length (bl_items l)" for k
    using l'(3) that s by auto
  ultimately show ?case using l'(1) s by auto
qed auto

section \<open>The identifier of the new bucket\<close>

lemma compute_id_spec:
  assumes "bl_shape l" "k < length (bl_items l)" "bckt_compute_id l k = Inr (Some c)"
  shows "is_id c \<and> be_nat (b_id (bl_items l ! k)) < be_nat c \<and>
    (Suc k < length (bl_items l) \<longrightarrow> be_nat c < be_nat (b_id (bl_items l ! Suc k)) \<and>
       bckt_significant_bit (b_id (bl_items l ! Suc k)) < bckt_significant_bit c) \<and>
    bckt_significant_bit (b_id (bl_items l ! k)) < bckt_significant_bit c"
proof -
  let ?x = "b_id (bl_items l ! k)" and ?y = "b_id (bl_items l ! Suc k)"
  let ?last = "Suc k = length (bl_items l)"
  have x: "is_id ?x" using shape_id[OF assms(1,2)] .
  have stop: "bl_stop l = Some k \<longleftrightarrow> ?last" using assms(1,2) by (auto simp: bl_shape_def)
  define bit where "bit = (if ?last then bckt_significant_bit ?x
     else max (bckt_significant_bit ?x) (bckt_significant_bit ?y)) + 1"
  have y: "is_id ?y" if "\<not> ?last" using shape_id[OF assms(1), of "Suc k"] assms(2) that by simp
  have "bckt_compute_id l k = (if 160 \<le> bit then Inr None else Inr (Some (set_bit_at ?x (nat bit))))"
    using assms(2) stop significant_bit_spec[OF x]
    by (auto simp: bckt_compute_id_def item_val_def bl_next_def bit_def Let_def SHA_DIGEST_LENGTH_def max_def)
  with assms(3) have c: "c = set_bit_at ?x (nat bit)" and b160: "bit < 160" by (auto split: if_splits)
  have b: "0 \<le> bit" "bckt_significant_bit ?x < bit" "\<not> ?last \<Longrightarrow> bckt_significant_bit ?y < bit"
    using significant_bit_spec[OF x] by (auto simp: bit_def)
  define p where "p = nat bit"
  have p: "p < 160" "bckt_significant_bit ?x < int p" "bit = int p"
    "\<not> ?last \<Longrightarrow> bckt_significant_bit ?y < int p" using b b160 by (auto simp: p_def)
  have nb: "\<not> id_bit ?x p" using significant_bit_spec[OF x] p by simp
  have val: "be_nat c = be_nat ?x + 2 ^ (159 - p)"
    unfolding c p_def[symmetric] by (rule be_nat_set_bit[OF x p(1) nb])
  have sig: "bckt_significant_bit c = int p"
    unfolding c p_def[symmetric] by (rule significant_bit_set[OF x p(1,2)])
  have "be_nat c < be_nat ?y" if nl: "\<not> ?last"
  proof -
    have "be_nat ?x < be_nat ?y" using shape_less[OF assms(1), of k "Suc k"] assms(2) nl by simp
    moreover have "2 ^ (159 - p + 1) dvd be_nat ?x \<and> 2 ^ (159 - p + 1) dvd be_nat ?y"
    proof (cases p)
      case 0
      then have "bckt_significant_bit ?x = - 1" "bckt_significant_bit ?y = - 1"
        using p(2) p(4)[OF nl] significant_bit_spec[OF x] significant_bit_spec[OF y[OF nl]] by auto
      then have "be_nat ?x = 0" "be_nat ?y = 0"
        using significant_bit_zero x y[OF nl] by blast+
      then show ?thesis by simp
    next
      case (Suc q)
      then have "159 - p + 1 = 159 - q" using p(1) by simp
      with significant_bit_dvd[OF x, of q] significant_bit_dvd[OF y[OF nl], of q] p Suc nl
      show ?thesis by simp
    qed
    ultimately have "be_nat ?x + 2 ^ (159 - p + 1) \<le> be_nat ?y" by (meson dvd_gap)
    moreover have "(2 :: nat) ^ (159 - p) < 2 ^ (159 - p + 1)" by simp
    ultimately show ?thesis using val by linarith
  qed
  with c x val sig p(2,4) assms(2) show ?thesis by auto
qed


section \<open>Inserting the new bucket\<close>

lemma ins_items:
  assumes "bl_items l \<noteq> []" "k < length (bl_items l)"
  shows "bl_items (bl_ins l k b) = take (Suc k) (bl_items l) @ b # drop (Suc k) (bl_items l)"
  using assms by (cases "length (bl_items l) \<le> 1") (auto simp: bl_ins_def bl_put_def)

lemma ins_nth:
  assumes "bl_items l \<noteq> []" "k < length (bl_items l)"
  shows "i \<le> length (bl_items l) \<Longrightarrow> bl_items (bl_ins l k b) ! i =
    (if i \<le> k then bl_items l ! i else if i = Suc k then b else bl_items l ! (i - 1))"
    and "length (bl_items (bl_ins l k b)) = Suc (length (bl_items l))"
proof -
  show "length (bl_items (bl_ins l k b)) = Suc (length (bl_items l))"
    using assms by (auto simp: ins_items)
  assume i: "i \<le> length (bl_items l)"
  consider "i \<le> k" | "i = Suc k" | j where "i = Suc (Suc k) + j"
    by (cases "Suc (Suc k) \<le> i") (auto dest: le_Suc_ex simp: not_le less_Suc_eq)
  then show "bl_items (bl_ins l k b) ! i =
    (if i \<le> k then bl_items l ! i else if i = Suc k then b else bl_items l ! (i - 1))"
    using assms i by cases (auto simp: ins_items nth_append min_def)
qed

lemma ins_stop:
  assumes "bl_shape l" "k < length (bl_items l)" "Suc k < length (bl_items l) \<or> length (bl_items l) = 1"
  shows "bl_stop (bl_ins l k b) = Some (length (bl_items l))"
  using assms by (auto simp: bl_ins_def bl_put_def bl_shape_def)

lemma ins_shape:
  assumes l: "bl_shape l" and k: "k < length (bl_items l)"
    and room: "Suc k < length (bl_items l) \<or> length (bl_items l) = 1"
    and b: "is_id (b_id b)" "be_nat (b_id (bl_items l ! k)) < be_nat (b_id b)"
      "Suc k < length (bl_items l) \<Longrightarrow> be_nat (b_id b) < be_nat (b_id (bl_items l ! Suc k))"
  shows "bl_shape (bl_ins l k b)"
proof -
  have ne: "bl_items l \<noteq> []" using k by auto
  note n = ins_nth[OF ne k]
  have lt: "be_nat (b_id (bl_items (bl_ins l k b) ! i)) < be_nat (b_id (bl_items (bl_ins l k b) ! Suc i))"
    if "Suc i < Suc (length (bl_items l))" for i
  proof (cases "i \<le> k")
    case True
    then show ?thesis using that b(2) shape_less[OF l, of i "Suc i"] k by (cases "i = k") (auto simp: n)
  next
    case False
    then show ?thesis using that b(3) shape_less[OF l, of "i - 1" i] by (cases "i = Suc k") (auto simp: n)
  qed
  have "transp (\<lambda>a b. be_nat (b_id a) < be_nat (b_id b))" by (auto intro: transpI)
  then have "sorted_wrt (\<lambda>a b. be_nat (b_id a) < be_nat (b_id b)) (bl_items (bl_ins l k b))"
    by (subst sorted_wrt_iff_nth_Suc_transp) (use lt n(2) in auto)
  moreover have "set (bl_items (bl_ins l k b)) \<subseteq> insert b (set (bl_items l))"
    by (auto simp: ins_items[OF ne k] dest: in_set_takeD in_set_dropD)
  ultimately show ?thesis
    using l b(1) ins_stop[OF l k room] n(1)[of 0 b] n(2)
    by (auto simp: bl_shape_def simp flip: length_greater_0_conv)
qed

lemma ins_nodes:
  assumes "bl_items l \<noteq> []" "k < length (bl_items l)"
  shows "i \<le> length (bl_items l) \<Longrightarrow> bl_nodes (bl_ins l k \<lparr>b_id = c, b_nodes = []\<rparr>) i =
    (if i \<le> k then bl_nodes l i else if i = Suc k then [] else bl_nodes l (i - 1))"
  using ins_nth[OF assms] by (simp add: bl_nodes_def)

text \<open>Where an identifier goes after the insertion.\<close>

lemma ins_best:
  assumes l: "bl_shape l" and l1: "bl_shape (bl_ins l k b)" and k: "k < length (bl_items l)"
    and x: "is_id x" and i: "bckt_find_best_match l x = Some i"
  shows "bckt_find_best_match (bl_ins l k b) x = Some
    (if i < k then i else if k < i then Suc i
     else if be_nat (b_id b) \<le> be_nat x then Suc k else k)"
proof -
  have ne: "bl_items l \<noteq> []" using k by auto
  note n = ins_nth[OF ne k]
  have i': "in_bucket l x i" using best_match_iff[OF l x, of i] i by blast
  consider "i < k" | "i = k" | "k < i" by (rule linorder_cases)
  then show ?thesis
    unfolding best_match_iff[OF l1 x] using i' k by cases (auto simp: in_bucket_def n)
qed


section \<open>Splitting a bucket that is not the last of several\<close>

definition splittable :: "BLIST \<Rightarrow> nat \<Rightarrow> bool" where
  "splittable l k \<longleftrightarrow> Suc k < length (bl_items l) \<or> length (bl_items l) = 1"

text \<open>The result of a successful split: the bucket list with the new bucket in it, and the nodes of
  bucket \<open>k\<close> sorted into the two halves.\<close>

lemma split_result:
  assumes l: "bl_inv l" and x: "is_id x" and best: "bckt_find_best_match l x = Some k"
    and room: "splittable l k" and many: "8 < length (bl_nodes l k)"
    and c: "bckt_compute_id l k = Inr (Some c)"
  shows "\<exists>l'. bckt_split l x = Inr (l', True) \<and> same_ids (bl_ins l k \<lparr>b_id = c, b_nodes = []\<rparr>) l' \<and>
    bl_shape l' \<and> bl_inv l' \<and> all_nodes l' = all_nodes l"
proof -
  have sh: "bl_shape l" using l by (simp add: bl_inv_def)
  have k: "k < length (bl_items l)" using best_match_iff[OF sh x, of k] best by (simp add: in_bucket_def)
  then have ne: "bl_items l \<noteq> []" by auto
  let ?b = "\<lparr>b_id = c, b_nodes = []\<rparr>"
  let ?l1 = "bl_ins l k ?b"
  let ?l2 = "bl_set_nodes ?l1 k []"
  note cs = compute_id_spec[OF sh k c]
  have sh1: "bl_shape ?l1" by (rule ins_shape[OF sh k]) (use room cs in \<open>auto simp: splittable_def\<close>)
  have len1: "length (bl_items ?l1) = Suc (length (bl_items l))" by (rule ins_nth(2)[OF ne k])
  note nodes1 = ins_nodes[OF ne k, of _ c]
  have same12: "same_ids ?l1 ?l2" by simp
  note best2 = same_ids_best[OF same12]
  have half: "bckt_find_best_match ?l2 (n_id n) = Some (if be_nat c \<le> be_nat (n_id n) then Suc k else k)"
    if "n \<in> set (bl_nodes l k)" for n
    using ins_best[OF sh sh1 k, of "n_id n" k] inv_node[OF l k that] by (simp add: best2)
  have "\<forall>n \<in> set (bl_nodes l k). \<exists>i < length (bl_items ?l2). bckt_find_best_match ?l2 (n_id n) = Some i"
    using half k len1 by simp
  from place_nodes_spec[OF this] obtain l' where place: "place_nodes ?l2 (bl_nodes l k) = Inr l'"
    and same2: "same_ids ?l2 l'"
    and nodes': "\<And>i. i \<le> length (bl_items l) \<Longrightarrow> bl_nodes l' i = bl_nodes ?l2 i @
      filter (\<lambda>n. bckt_find_best_match ?l2 (n_id n) = Some i) (bl_nodes l k)"
    using len1 by (auto simp: less_Suc_eq_le)
  have same: "same_ids ?l1 l'" using same_ids_trans[OF same12 same2] .
  have split: "bckt_split l x = Inr (l', True)"
    using best many c place nodes1[of k] k by (simp add: bckt_split_def Let_def)
  have len': "length (bl_items l') = Suc (length (bl_items l))"
    using same_ids_facts(1)[OF same] len1 by simp
  have best': "bckt_find_best_match l' y = bckt_find_best_match ?l1 y" for y
    by (rule same_ids_best[OF same])
  have kept: "bl_nodes l' i = (if i < k then bl_nodes l i else if Suc k < i then bl_nodes l (i - 1)
     else filter (\<lambda>n. be_nat c \<le> be_nat (n_id n) \<longleftrightarrow> i = Suc k) (bl_nodes l k))"
    if i: "i \<le> length (bl_items l)" for i
  proof -
    have "filter (\<lambda>n. bckt_find_best_match ?l2 (n_id n) = Some i) (bl_nodes l k)
        = (if i = k \<or> i = Suc k then filter (\<lambda>n. be_nat c \<le> be_nat (n_id n) \<longleftrightarrow> i = Suc k) (bl_nodes l k) else [])"
      by (auto simp: half cong: filter_cong)
    moreover have "bl_nodes ?l2 i = (if i = k then [] else bl_nodes ?l1 i)"
      using len1 k by simp
    ultimately show ?thesis using nodes'[OF i] nodes1[OF i] by auto
  qed
  have inv': "bl_inv l'"
    unfolding bl_inv_def
  proof (intro conjI allI impI ballI)
    show "bl_shape l'" using same_ids_shape[OF same] sh1 by simp
  next
    fix i
    assume "i < length (bl_items l')"
    then have i: "i \<le> length (bl_items l)" using len' by simp
    have d: "distinct (map n_id (bl_nodes l j))" if "j < length (bl_items l)" for j
      using l that by (simp add: bl_inv_def)
    show "distinct (map n_id (bl_nodes l' i))"
      using kept[OF i] d[of i] d[of "i - 1"] d[OF k] i k by (auto simp: distinct_map_filter)
    fix n
    assume n: "n \<in> set (bl_nodes l' i)"
    define j where "j = (if i \<le> k then i else i - 1)"
    have j: "j < length (bl_items l)" "n \<in> set (bl_nodes l j)"
      using n kept[OF i] i k by (auto simp: j_def split: if_splits)
    note nj = inv_node[OF l j]
    then show "is_id (n_id n)" by simp
    from ins_best[OF sh sh1 k _ conjunct2[OF nj]] nj n kept[OF i]
    show "bckt_find_best_match l' (n_id n) = Some i"
      by (auto simp: best' j_def split: if_splits)
  qed
  have "all_nodes l' = all_nodes l"
  proof -
    have "\<exists>i \<le> length (bl_items l). n \<in> set (bl_nodes l' i)" if "j < length (bl_items l)" "n \<in> set (bl_nodes l j)" for j n
    proof -
      let ?i = "if j < k then j else if k < j then Suc j else if be_nat c \<le> be_nat (n_id n) then Suc k else k"
      have "n \<in> set (bl_nodes l' ?i)" using that kept[of ?i] k by auto
      then show ?thesis using that k by (intro exI[of _ ?i]) auto
    qed
    moreover have "\<exists>j < length (bl_items l). n \<in> set (bl_nodes l j)" if "i \<le> length (bl_items l)" "n \<in> set (bl_nodes l' i)" for i n
      using that kept[of i] k by (intro exI[of _ "if i \<le> k then i else i - 1"]) (auto split: if_splits)
    ultimately show ?thesis using len' by (force simp: all_nodes_def less_Suc_eq_le)
  qed
  then show ?thesis using split same inv' by (auto simp: bl_inv_def)
qed


lemma bckt_split_unsplit:
  assumes "bckt_find_best_match l x = Some k"
    and "length (bl_nodes l k) \<le> 8 \<or> bckt_compute_id l k = Inr None"
  shows "bckt_split l x = Inr (l, False)"
  using assms by (auto simp: bckt_split_def)

text \<open>The depth of the own bucket: the significant bit of its interval.\<close>

definition depth :: "BLIST \<Rightarrow> nat \<Rightarrow> int" where
  "depth l k = (let x = b_id (bl_items l ! k)
     in if Suc k < length (bl_items l)
        then max (bckt_significant_bit x) (bckt_significant_bit (b_id (bl_items l ! Suc k)))
        else bckt_significant_bit x)"

lemma depth_bounds:
  assumes "bl_shape l" "k < length (bl_items l)"
  shows "- 1 \<le> depth l k \<and> depth l k < 160"
  using significant_bit_spec[OF shape_id[OF assms(1), of k]] assms(2)
    significant_bit_spec[OF shape_id[OF assms(1), of "Suc k"]] by (auto simp: depth_def Let_def)

lemma compute_id_total:
  assumes "bl_shape l" "k < length (bl_items l)"
  shows "\<exists>r. bckt_compute_id l k = Inr r"
proof (cases "Suc k < length (bl_items l)")
  case True
  then show ?thesis by (simp add: bckt_compute_id_def item_val_def bl_next_def Let_def)
next
  case False
  then have "bl_stop l = Some k" using assms by (auto simp: bl_shape_def)
  then show ?thesis using assms(2) by (simp add: bckt_compute_id_def item_val_def Let_def)
qed

text \<open>The first split of a table cuts it at the most significant bit.\<close>

lemma compute_id_first:
  assumes "bl_shape l" "length (bl_items l) = 1"
  shows "\<exists>c. bckt_compute_id l 0 = Inr (Some c) \<and> be_nat c = 2 ^ 159 \<and> bckt_significant_bit c = 0"
proof -
  let ?x = "b_id (bl_items l ! 0)"
  have x: "is_id ?x" "be_nat ?x = 0" and stop: "bl_stop l = Some 0"
    using assms(1,2) shape_id[OF assms(1), of 0] by (auto simp: bl_shape_def)
  have sig: "bckt_significant_bit ?x = - 1"
  proof (rule ccontr)
    assume "\<not> ?thesis"
    then have "id_bit ?x (nat (bckt_significant_bit ?x))" "nat (bckt_significant_bit ?x) < 160"
      using significant_bit_spec[OF x(1)] by auto
    with bit_id[OF x(1)] x(2) show False by fastforce
  qed
  then have "bckt_compute_id l 0 = Inr (Some (set_bit_at ?x 0))"
    using assms stop by (simp add: bckt_compute_id_def item_val_def Let_def SHA_DIGEST_LENGTH_def)
  moreover have "\<not> id_bit ?x 0" using significant_bit_spec[OF x(1)] sig by simp
  ultimately show ?thesis
    using be_nat_set_bit[OF x(1), of 0] x(2) significant_bit_set[OF x(1), of 0] sig by simp
qed

text \<open>\<open>low self l\<close>: the own identifier is not in the last of several buckets. A node whose
  identifier starts with a 0 bit stays in this situation for ever.\<close>

definition low :: "bytes \<Rightarrow> BLIST \<Rightarrow> bool" where
  "low self l \<longleftrightarrow> bl_inv l \<and> is_id self \<and> be_nat self < 2 ^ 159 \<and>
     (length (bl_items l) = 1 \<or> be_nat self < be_nat (b_id (last (bl_items l))))"

lemma low_best:
  assumes "low self l"
  obtains k where "bckt_find_best_match l self = Some k" "k < length (bl_items l)" "splittable l k"
proof -
  have l: "bl_inv l" "is_id self" using assms by (simp_all add: low_def)
  obtain k where k: "bckt_find_best_match l self = Some k" "k < length (bl_items l)"
    using inv_best[OF l] .
  have "in_bucket l self k" using best_match_iff[of l self k] l k by (simp add: bl_inv_def)
  moreover have "last (bl_items l) = bl_items l ! k" if "Suc k = length (bl_items l)"
    using that by (metis diff_Suc_1 last_conv_nth length_0_conv nat.distinct(1))
  ultimately have "splittable l k"
    using assms by (cases "Suc k = length (bl_items l)") (auto simp: low_def splittable_def in_bucket_def)
  with k show thesis by (rule that)
qed

lemma low_split:
  assumes l: "low self l" and best: "bckt_find_best_match l self = Some k"
    and many: "8 < length (bl_nodes l k)" and c: "bckt_compute_id l k = Inr (Some c)"
  shows "\<exists>l' k'. bckt_split l self = Inr (l', True) \<and> low self l' \<and> all_nodes l' = all_nodes l \<and>
    bckt_find_best_match l' self = Some k' \<and> depth l k < depth l' k'"
proof -
  have inv: "bl_inv l" and sh: "bl_shape l" and x: "is_id self" using l by (simp_all add: low_def bl_inv_def)
  obtain k0 where "bckt_find_best_match l self = Some k0" "k0 < length (bl_items l)" "splittable l k0"
    using low_best[OF l] .
  with best have k: "k < length (bl_items l)" and room: "splittable l k" by simp_all
  then have ne: "bl_items l \<noteq> []" by auto
  let ?b = "\<lparr>b_id = c, b_nodes = []\<rparr>"
  let ?l1 = "bl_ins l k ?b"
  obtain l' where l': "bckt_split l self = Inr (l', True)" "same_ids ?l1 l'" "bl_shape l'" "bl_inv l'"
    "all_nodes l' = all_nodes l"
    using split_result[OF inv x best room many c] by blast
  note f = same_ids_facts[OF l'(2)] and n = ins_nth[OF ne k, where b = ?b]
  have len': "length (bl_items l') = Suc (length (bl_items l))" using f(1) n(2) by simp
  have ids': "b_id (bl_items l' ! i) = (if i \<le> k then b_id (bl_items l ! i) else if i = Suc k then c
      else b_id (bl_items l ! (i - 1)))" if "i \<le> length (bl_items l)" for i
    using f(3)[of i] n(1)[OF that] n(2) that by simp
  have sh1: "bl_shape ?l1" using same_ids_shape[OF l'(2)] l'(3) by simp
  define k' where "k' = (if be_nat c \<le> be_nat self then Suc k else k)"
  have best': "bckt_find_best_match l' self = Some k'"
    using ins_best[OF sh sh1 k x best] same_ids_best[OF l'(2)] by (simp add: k'_def)
  note cs = compute_id_spec[OF sh k c]
  have "depth l' k' = bckt_significant_bit c"
    using cs k by (auto simp: depth_def Let_def k'_def len' ids' max_def)
  moreover have "depth l k < bckt_significant_bit c" using cs by (auto simp: depth_def Let_def)
  moreover have "low self l'"
  proof -
    have "be_nat self < be_nat (b_id (last (bl_items l')))"
    proof (cases "length (bl_items l) = 1")
      case True
      then have "k = 0" using k by simp
      then show ?thesis
        using compute_id_first[OF sh True] c l len' ids'[of 1] True
        by (simp add: low_def last_conv_nth flip: length_greater_0_conv)
    next
      case False
      then have "Suc k < length (bl_items l)" using room by (simp add: splittable_def)
      then show ?thesis
        using l False len' ids'[of "length (bl_items l)"]
        by (simp add: low_def last_conv_nth flip: length_greater_0_conv)
    qed
    then show ?thesis using l l'(4) by (simp add: low_def)
  qed
  ultimately show ?thesis using l' best' by auto
qed

lemma nbhd_split_enough:
  "low self l \<Longrightarrow> bckt_find_best_match l self = Some k \<Longrightarrow> 160 - depth l k \<le> int fuel \<Longrightarrow>
    \<exists>l'. nbhd_split fuel l self = Inr l' \<and> low self l' \<and> all_nodes l' = all_nodes l \<and>
      bckt_split l' self = Inr (l', False)"
proof (induction fuel arbitrary: l k)
  case 0
  obtain k0 where "bckt_find_best_match l self = Some k0" "k0 < length (bl_items l)"
    using low_best[OF "0.prems"(1)] .
  with 0 depth_bounds[of l k] show ?case by (simp add: low_def bl_inv_def)
next
  case (Suc fuel)
  obtain k0 where "bckt_find_best_match l self = Some k0" "k0 < length (bl_items l)"
    using low_best[OF Suc.prems(1)] .
  with Suc.prems(2) have k: "k < length (bl_items l)" by simp
  have sh: "bl_shape l" using Suc.prems(1) by (simp add: low_def bl_inv_def)
  obtain r where r: "bckt_compute_id l k = Inr r" using compute_id_total[OF sh k] by blast
  show ?case
  proof (cases "8 < length (bl_nodes l k) \<and> r \<noteq> None")
    case True
    then obtain c where c: "bckt_compute_id l k = Inr (Some c)" "8 < length (bl_nodes l k)"
      using r by blast
    from low_split[OF Suc.prems(1,2) c(2,1)] obtain l' k' where
      l': "bckt_split l self = Inr (l', True)" "low self l'" "all_nodes l' = all_nodes l"
      "bckt_find_best_match l' self = Some k'" "depth l k < depth l' k'" by blast
    from l'(5) Suc.prems(3) have "160 - depth l' k' \<le> int fuel" by simp
    from Suc.IH[OF l'(2,4) this] l'(1,3) show ?thesis by simp
  next
    case False
    then have "bckt_split l self = Inr (l, False)"
      using r by (intro bckt_split_unsplit[OF Suc.prems(2)]) auto
    with Suc.prems(1) show ?thesis by simp
  qed
qed


section \<open>Splitting the last of several buckets\<close>

text \<open>
  \<open>stuck self l s c\<close>: \<open>stop\<close> is bucket \<open>s\<close>, not the first one; own identifier and all nodes
  of bucket \<open>s\<close>, more than 8, match \<open>s\<close>; whatever follows it has the identifier \<open>c\<close> that the
  next split computes.
\<close>

definition stuck :: "bytes \<Rightarrow> BLIST \<Rightarrow> nat \<Rightarrow> bytes \<Rightarrow> bool" where
  "stuck self l s c \<longleftrightarrow> 0 < s \<and> s < length (bl_items l) \<and> bl_stop l = Some s \<and>
     bckt_compute_id l s = Inr (Some c) \<and>
     (\<forall>j. s < j \<longrightarrow> j < length (bl_items l) \<longrightarrow> b_id (bl_items l ! j) = c) \<and>
     8 < length (bl_nodes l s) \<and> bckt_find_best_match l self = Some s \<and>
     (\<forall>n \<in> set (bl_nodes l s). bckt_find_best_match l (n_id n) = Some s)"

lemma stuck_best:
  assumes st: "stuck self l s c" and x: "bckt_find_best_match l x = Some s"
  shows "bckt_find_best_match (bl_ins l s \<lparr>b_id = c, b_nodes = []\<rparr>) x = Some s"
proof -
  let ?l1 = "bl_ins l s \<lparr>b_id = c, b_nodes = []\<rparr>"
  have s: "0 < s" "s < length (bl_items l)" "bl_stop l = Some s"
    and after: "\<And>j. s < j \<Longrightarrow> j < length (bl_items l) \<Longrightarrow> b_id (bl_items l ! j) = c"
    using st by (simp_all add: stuck_def)
  have ne: "bl_items l \<noteq> []" using s(2) by auto
  note n = ins_nth[OF ne s(2), where b = "\<lparr>b_id = c, b_nodes = []\<rparr>"]
  have stop1: "bl_stop ?l1 = Some s" using s by (simp add: bl_ins_def)
  have ids1: "b_id (bl_items ?l1 ! i) = (if i \<le> s then b_id (bl_items l ! i) else c)"
    if "i \<le> length (bl_items l)" for i
    using n(1)[OF that] after[of "i - 1"] that by auto
  have not_before: "\<not> memcmp x (b_id (bl_items l ! Suc m)) < 0" if "m < s" for m
  proof (rule best_match_cases[of l x])
    fix k
    assume "bckt_find_best_match l x = Some k"
      "\<And>m. m < k \<Longrightarrow> \<not> memcmp x (b_id (bl_items l ! Suc m)) < 0"
    then show ?thesis using x that by simp
  next
    assume "\<And>j. Suc j < length (bl_items l) \<Longrightarrow> \<not> memcmp x (b_id (bl_items l ! Suc j)) < 0"
    then show ?thesis using that s(2) by simp
  qed
  show ?thesis
  proof (rule best_match_cases[of ?l1 x])
    fix k
    assume k: "bckt_find_best_match ?l1 x = Some k" "Suc k < length (bl_items ?l1)"
      "memcmp x (b_id (bl_items ?l1 ! Suc k)) < 0"
      "\<And>m. m < k \<Longrightarrow> \<not> memcmp x (b_id (bl_items ?l1 ! Suc m)) < 0"
    have "\<not> k < s" using k(2,3) not_before[of k] ids1[of "Suc k"] n(2) by auto
    moreover have "\<not> s < k" using k(2,3) k(4)[of s] ids1[of "Suc k"] ids1[of "Suc s"] n(2) s(2) by auto
    ultimately show ?thesis using k(1) by simp
  next
    assume "bckt_find_best_match ?l1 x = bl_stop ?l1"
    then show ?thesis using stop1 by simp
  qed
qed

lemma compute_id_stop:
  assumes "s < length (bl_items l)" "s < length (bl_items l')" "bl_stop l = Some s" "bl_stop l' = Some s"
    and "b_id (bl_items l' ! s) = b_id (bl_items l ! s)"
  shows "bckt_compute_id l' s = bckt_compute_id l s"
  using assms by (simp add: bckt_compute_id_def item_val_def Let_def)

lemma stuck_split:
  assumes st: "stuck self l s c"
  shows "\<exists>l'. bckt_split l self = Inr (l', True) \<and> stuck self l' s c"
proof -
  let ?l1 = "bl_ins l s \<lparr>b_id = c, b_nodes = []\<rparr>"
  let ?l2 = "bl_set_nodes ?l1 s []"
  have s: "0 < s" "s < length (bl_items l)" "bl_stop l = Some s"
    and c: "bckt_compute_id l s = Inr (Some c)" and many: "8 < length (bl_nodes l s)"
    and self: "bckt_find_best_match l self = Some s"
    and nodes: "\<And>n. n \<in> set (bl_nodes l s) \<Longrightarrow> bckt_find_best_match l (n_id n) = Some s"
    and after: "\<And>j. s < j \<Longrightarrow> j < length (bl_items l) \<Longrightarrow> b_id (bl_items l ! j) = c"
    using st by (simp_all add: stuck_def)
  have ne: "bl_items l \<noteq> []" using s(2) by auto
  note n = ins_nth[OF ne s(2), where b = "\<lparr>b_id = c, b_nodes = []\<rparr>"]
  have stop1: "bl_stop ?l1 = Some s" using s by (simp add: bl_ins_def)
  have same12: "same_ids ?l1 ?l2" by simp
  note best2 = same_ids_best[OF same12]
  have half: "bckt_find_best_match ?l2 (n_id n) = Some s" if "n \<in> set (bl_nodes l s)" for n
    using stuck_best[OF st nodes[OF that]] by (simp add: best2)
  have "\<forall>n \<in> set (bl_nodes l s). \<exists>i < length (bl_items ?l2). bckt_find_best_match ?l2 (n_id n) = Some i"
    using half s(2) n(2) by simp
  from place_nodes_spec[OF this] obtain l' where place: "place_nodes ?l2 (bl_nodes l s) = Inr l'"
    and same2: "same_ids ?l2 l'"
    and nodes': "bl_nodes l' s = bl_nodes ?l2 s @
      filter (\<lambda>n. bckt_find_best_match ?l2 (n_id n) = Some s) (bl_nodes l s)"
    using s(2) n(2) by auto
  have same: "same_ids ?l1 l'" using same_ids_trans[OF same12 same2] .
  note f = same_ids_facts[OF same]
  have "filter (\<lambda>n. bckt_find_best_match ?l2 (n_id n) = Some s) (bl_nodes l s) = bl_nodes l s"
    using half by (simp add: filter_id_conv)
  then have keep: "bl_nodes l' s = bl_nodes l s" using nodes' s(2) n(2) by simp
  have best': "bckt_find_best_match l' y = bckt_find_best_match ?l1 y" for y
    by (rule same_ids_best[OF same])
  have ids': "b_id (bl_items l' ! i) = (if i \<le> s then b_id (bl_items l ! i) else c)"
    if "i \<le> length (bl_items l)" for i
    using f(3)[of i] n(1)[OF that] n(2) after[of "i - 1"] that by auto
  have "bckt_split l self = Inr (l', True)"
    using self many c place ins_nodes[OF ne s(2), of s c] s(2)
    by (simp add: bckt_split_def Let_def)
  moreover have "bckt_compute_id l' s = Inr (Some c)"
    using compute_id_stop[of s l l'] c s(2,3) f(1,2) stop1 n(2) ids'[of s] by simp
  moreover have "b_id (bl_items l' ! j) = c" if "s < j" "j < length (bl_items l')" for j
    using ids'[of j] that f(1) n(2) by simp
  ultimately show ?thesis
    using s f(1,2) n(2) stop1 keep many self stuck_best[OF st self] stuck_best[OF st nodes]
    by (auto simp: stuck_def best')
qed

lemma stuck_diverges: "stuck self l s c \<Longrightarrow> nbhd_split fuel l self = Inl OutOfFuel"
proof (induction fuel arbitrary: l)
  case (Suc fuel)
  from stuck_split[OF Suc.prems] Suc.IH show ?case by auto
qed simp

lemma two_buckets_stuck:
  assumes l: "bl_inv l" and two: "1 < length (bl_items l)" and x: "is_id self"
    and best: "bckt_find_best_match l self = bl_stop l" and stop: "bl_stop l = Some s"
    and many: "8 < length (bl_nodes l s)" and bit: "bckt_significant_bit (b_id (bl_items l ! s)) < 159"
  shows "\<exists>c. stuck self l s c"
proof -
  have sh: "bl_shape l" using l by (simp add: bl_inv_def)
  have s: "s = length (bl_items l) - 1" using sh stop by (simp add: bl_shape_def)
  have sig: "- 1 \<le> bckt_significant_bit (b_id (bl_items l ! s))"
    using significant_bit_spec[OF shape_id[OF sh, of s]] two s by simp
  obtain c where "bckt_compute_id l s = Inr (Some c)"
    using two s stop bit sig by (auto simp: bckt_compute_id_def item_val_def Let_def SHA_DIGEST_LENGTH_def)
  then show ?thesis
    using two s stop best many inv_node[OF l, of s] by (auto simp: stuck_def)
qed


section \<open>Properties of splitting\<close>

lemma card_bucket:
  assumes l: "bl_inv l" and k: "k < length (bl_items l)"
    and A: "\<And>n. n \<in> A \<Longrightarrow> n \<in> all_nodes l \<and> bckt_find_best_match l (n_id n) = Some k"
  shows "card A \<le> length (bl_nodes l k)"
proof -
  have "A \<subseteq> set (bl_nodes l k)"
  proof
    fix n
    assume "n \<in> A"
    with A obtain i where i: "i < length (bl_items l)" "n \<in> set (bl_nodes l i)"
      "bckt_find_best_match l (n_id n) = Some k" by (auto simp: all_nodes_def)
    with inv_node[OF l i(1,2)] show "n \<in> set (bl_nodes l k)" by simp
  qed
  then have "card A \<le> card (set (bl_nodes l k))" by (intro card_mono) simp_all
  also have "\<dots> \<le> length (bl_nodes l k)" by (rule card_length)
  finally show ?thesis .
qed

text \<open>C14: Splitting is correct for a node whose own identifier starts with a 0 bit: nbhd_split
  returns after at most 160 splits, loses and duplicates no node, keeps every node in its best
  bucket and the bucket list well formed, and stops only when the own bucket has at most 8 nodes
  or its identifier cannot be refined; 161 units of fuel are always enough.\<close>
theorem nbhd_split_low:
  assumes "bl_inv l" "is_id self" "be_nat self < 2 ^ 159"
    and "length (bl_items l) = 1 \<or> be_nat self < be_nat (b_id (last (bl_items l)))"
    and "161 \<le> fuel"
  shows "\<exists>l'. nbhd_split fuel l self = Inr l' \<and> bl_inv l' \<and> all_nodes l' = all_nodes l \<and>
    (length (bl_items l') = 1 \<or> be_nat self < be_nat (b_id (last (bl_items l')))) \<and>
    (\<exists>k. bckt_find_best_match l' self = Some k \<and>
       (length (bl_nodes l' k) \<le> 8 \<or> bckt_compute_id l' k = Inr None))"
proof -
  have low: "low self l" using assms by (simp add: low_def)
  obtain k where k: "bckt_find_best_match l self = Some k" "k < length (bl_items l)"
    using low_best[OF low] .
  have "160 - depth l k \<le> int fuel"
    using depth_bounds[of l k] k(2) assms(1,5) by (simp add: bl_inv_def)
  from nbhd_split_enough[OF low k(1) this] obtain l' where
    l': "nbhd_split fuel l self = Inr l'" "low self l'" "all_nodes l' = all_nodes l"
    "bckt_split l' self = Inr (l', False)" by blast
  obtain k' where k': "bckt_find_best_match l' self = Some k'" "k' < length (bl_items l')"
    using low_best[OF l'(2)] .
  have "length (bl_nodes l' k') \<le> 8 \<or> bckt_compute_id l' k' = Inr None"
  proof (rule ccontr)
    assume *: "\<not> ?thesis"
    have "bl_shape l'" using l'(2) by (simp add: low_def bl_inv_def)
    from compute_id_total[OF this k'(2)] * obtain c where
      "bckt_compute_id l' k' = Inr (Some c)" "8 < length (bl_nodes l' k')" by auto
    from low_split[OF l'(2) k'(1) this(2,1)] l'(4) show False by auto
  qed
  then show ?thesis using l' k' by (auto simp: low_def)
qed

text \<open>C37: Splitting never ends for a node whose own identifier starts with a 1 bit: as soon as
  more than 8 known nodes start with a 1 bit, nbhd_split on the initial single bucket makes one
  good split and then inserts empty buckets for ever behind the last one, because list_ins does
  not move the stop pointer and bckt_find_best_match keeps returning the same bucket.\<close>
theorem nbhd_split_high_diverges:
  assumes "bl_inv l" "length (bl_items l) = 1" "is_id self" "2 ^ 159 \<le> be_nat self"
    and "8 < card {n \<in> all_nodes l. 2 ^ 159 \<le> be_nat (n_id n)}"
  shows "nbhd_split fuel l self = Inl OutOfFuel"
proof (cases fuel)
  case (Suc fuel')
  have sh: "bl_shape l" using assms(1) by (simp add: bl_inv_def)
  have best: "bckt_find_best_match l self = Some 0"
    using best_match_iff[OF sh assms(3), of 0] assms(2) sh by (simp add: in_bucket_def bl_shape_def)
  let ?A = "{n \<in> all_nodes l. 2 ^ 159 \<le> be_nat (n_id n)}"
  have only: "n \<in> set (bl_nodes l 0)" if "n \<in> all_nodes l" for n
    using that assms(2) by (auto simp: all_nodes_def)
  have "card ?A \<le> length (bl_nodes l 0)"
    by (rule card_bucket[OF assms(1)]) (use assms(2) only inv_node[OF assms(1), of 0] in auto)
  with assms(5) have many: "8 < length (bl_nodes l 0)" by linarith
  obtain c where c: "bckt_compute_id l 0 = Inr (Some c)" "be_nat c = 2 ^ 159" "bckt_significant_bit c = 0"
    using compute_id_first[OF sh assms(2)] by blast
  have room: "splittable l 0" using assms(2) by (simp add: splittable_def)
  obtain l' where l': "bckt_split l self = Inr (l', True)"
    "same_ids (bl_ins l 0 \<lparr>b_id = c, b_nodes = []\<rparr>) l'" "bl_shape l'" "bl_inv l'" "all_nodes l' = all_nodes l"
    using split_result[OF assms(1,3) best room many c(1)] by blast
  have ne: "bl_items l \<noteq> []" "0 < length (bl_items l)" using assms(2) by auto
  note f = same_ids_facts[OF l'(2)] and n = ins_nth[OF ne, where b = "\<lparr>b_id = c, b_nodes = []\<rparr>"]
  have len: "length (bl_items l') = 2" using f(1) n(2) assms(2) by simp
  have id1: "b_id (bl_items l' ! 1) = c" using f(3)[of 1] n assms(2) by simp
  have stop: "bl_stop l' = Some 1" using l'(3) len by (simp add: bl_shape_def)
  have high: "bckt_find_best_match l' x = Some 1" if "is_id x" "2 ^ 159 \<le> be_nat x" for x
    unfolding best_match_iff[OF l'(3) that(1)] using that(2) len id1 c(2) by (simp add: in_bucket_def)
  have "card ?A \<le> length (bl_nodes l' 1)"
  proof (rule card_bucket[OF l'(4)])
    fix n
    assume "n \<in> ?A"
    then show "n \<in> all_nodes l' \<and> bckt_find_best_match l' (n_id n) = Some 1"
      using high[of "n_id n"] only inv_node[OF assms(1), of 0] assms(2) l'(5) by auto
  qed (simp add: len)
  with assms(5) have "8 < length (bl_nodes l' 1)" by linarith
  from two_buckets_stuck[OF l'(4) _ assms(3) _ stop this] high[OF assms(3,4)] stop id1 c(3) len
  obtain c' where "stuck self l' 1 c'" by auto
  from stuck_diverges[OF this] l'(1) Suc show ?thesis by simp
qed simp


text \<open>Nine nodes that start with a 1 bit, in the initial bucket.\<close>

definition nine_ids :: "bytes list" where
  "nine_ids = map (\<lambda>i. i # replicate 19 0) [128, 129, 130, 131, 132, 133, 134, 135, 136]"

definition nine_nodes :: BLIST where
  "nine_nodes = \<lparr>bl_items = [\<lparr>b_id = replicate 20 0, b_nodes = map node_of nine_ids\<rparr>], bl_stop = Some 0\<rparr>"

lemma nine_nodes_inv: "bl_inv nine_nodes"
  by (auto simp: bl_inv_def bl_shape_def nine_nodes_def nine_ids_def bl_nodes_def node_of_def is_id_def
      SHA_DIGEST_LENGTH_def bckt_find_best_match_def)

lemma all_nodes_nine: "all_nodes nine_nodes = node_of ` set nine_ids"
  by (simp add: all_nodes_def nine_nodes_def bl_nodes_def lessThan_Suc)

lemma card_nine: "card {n \<in> all_nodes nine_nodes. 2 ^ 159 \<le> be_nat (n_id n)} = 9"
proof -
  have "2 ^ 159 \<le> be_nat x" if "x \<in> set nine_ids" for x
    using that by (auto simp: nine_ids_def)
  then have "{n \<in> all_nodes nine_nodes. 2 ^ 159 \<le> be_nat (n_id n)} = node_of ` set nine_ids"
    by (auto simp: all_nodes_nine node_of_def)
  moreover have "inj node_of" by (auto simp: inj_def node_of_def)
  then have "card (node_of ` set nine_ids) = card (set nine_ids)"
    by (intro card_image) (auto intro: inj_on_subset)
  moreover have "distinct nine_ids" by (simp add: nine_ids_def)
  then have "card (set nine_ids) = 9" by (simp add: distinct_card) (simp add: nine_ids_def)
  ultimately show ?thesis by simp
qed

theorem nbhd_split_high_diverges_witness:
  "nbhd_split 1000 nine_nodes (128 # replicate 19 7) = Inl OutOfFuel"
proof (rule nbhd_split_high_diverges[OF nine_nodes_inv])
  show "8 < card {n \<in> all_nodes nine_nodes. 2 ^ 159 \<le> be_nat (n_id n)}" by (simp only: card_nine)
  show "2 ^ 159 \<le> be_nat (128 # replicate 19 7)"
  proof -
    have "(2 :: nat) ^ 159 = 128 * 256 ^ 19" by simp
    then show ?thesis by (simp only: be_nat_Cons) simp
  qed
qed (simp_all add: nine_nodes_def is_id_def SHA_DIGEST_LENGTH_def)

theorem nbhd_split_low_witness:
  "\<exists>l'. nbhd_split 161 nine_nodes (replicate 20 0) = Inr l' \<and> bl_inv l' \<and>
    all_nodes l' = node_of ` set nine_ids"
  using nbhd_split_low[OF nine_nodes_inv, of "replicate 20 0" 161] all_nodes_nine
  by (auto simp: nine_nodes_def is_id_def SHA_DIGEST_LENGTH_def)

text \<open>The identifier of a new bucket separates its neighbours: on a well-formed bucket list
  bckt_compute_id yields a 20-byte identifier strictly above that of the bucket to split and
  strictly below that of the next bucket, one bit deeper than both.\<close>
lemma bckt_compute_id_between:
  assumes "bl_inv l" "k < length (bl_items l)" "bckt_compute_id l k = Inr (Some c)"
  shows "is_id c \<and> be_nat (b_id (bl_items l ! k)) < be_nat c \<and>
    bckt_significant_bit (b_id (bl_items l ! k)) < bckt_significant_bit c \<and>
    (Suc k < length (bl_items l) \<longrightarrow> be_nat c < be_nat (b_id (bl_items l ! Suc k)) \<and>
       bckt_significant_bit (b_id (bl_items l ! Suc k)) < bckt_significant_bit c)"
  using compute_id_spec[OF _ assms(2,3)] assms(1) by (auto simp: bl_inv_def)

lemma bckt_compute_id_between_example:
  "be_nat (b_id (bl_items two_buckets ! 0)) < be_nat (64 # replicate 19 0) \<and>
    be_nat (64 # replicate 19 0) < be_nat (b_id (bl_items two_buckets ! Suc 0))"
proof -
  have c: "bckt_compute_id two_buckets 0 = Inr (Some (64 # replicate 19 0))" by code_simp
  have len: "Suc 0 < length (bl_items two_buckets)" "0 < length (bl_items two_buckets)"
    by (simp_all add: two_buckets_def)
  from bckt_compute_id_between[OF two_buckets_inv len(2) c] len(1) show ?thesis by blast
qed

end
