(* ===== verification/BucketHeap.thy ===== *)
theory BucketHeap
  imports Linklist BucketSplit
begin

text \<open>
  The bucket list of \<open>Bucket\<close> against the pointer structure of \<open>Linklist\<close>: \<open>represents\<close> relates a
  \<open>LIST\<close> of buckets in the heap to a \<open>BLIST\<close>, including which item \<open>stop\<close> points to. The two
  operations that \<open>bucket.c\<close> uses on it, \<open>list_put\<close> and \<open>list_ins\<close>, act as \<open>bl_put\<close> and
  \<open>bl_ins\<close>.
\<close>

definition represents :: "BUCK heap \<Rightarrow> LIST \<Rightarrow> addr list \<Rightarrow> BLIST \<Rightarrow> bool" where
  "represents h L as l \<longleftrightarrow> length as = length (bl_items l) \<and> threaded h L (zip as (bl_items l)) \<and>
     (case bl_stop l of None \<Rightarrow> bl_items l = [] \<and> l_stop L = None
      | Some s \<Rightarrow> s < length as \<and> l_stop L = Some (as ! s))"

lemma represents_linked:
  assumes "represents h L as l" "bl_stop l = (case as of [] \<Rightarrow> None | _ \<Rightarrow> Some (length as - 1))"
  shows "linked h L (zip as (bl_items l))"
proof -
  from assms(1) obtain q where q: "seg h None (l_start L) (zip as (bl_items l)) q None"
    by (auto simp: represents_def threaded_def)
  have "l_stop L = q"
  proof (cases as)
    case Nil
    then show ?thesis using assms q by (auto simp: represents_def split: option.splits)
  next
    case (Cons a as')
    then have ne: "zip as (bl_items l) \<noteq> []" using assms(1) by (cases "bl_items l") (auto simp: represents_def)
    have "q = Some (fst (last (zip as (bl_items l))))" by (rule seg_last[OF q ne])
    also have "last (zip as (bl_items l)) = (last as, last (bl_items l))"
      using ne assms(1) by (subst last_zip) (auto simp: represents_def)
    finally show ?thesis using assms Cons by (auto simp: represents_def last_conv_nth)
  qed
  then show ?thesis using q assms(1) by (auto simp: represents_def threaded_def linked_def)
qed

lemma linked_represents:
  assumes "linked h L (zip as (bl_items l))" "length as = length (bl_items l)"
    and "bl_stop l = (case as of [] \<Rightarrow> None | _ \<Rightarrow> Some (length as - 1))"
  shows "represents h L as l"
proof (cases as)
  case Nil
  then show ?thesis using assms by (auto simp: represents_def linked_def threaded_def)
next
  case (Cons a as')
  then have ne: "zip as (bl_items l) \<noteq> []" using assms(2) by (cases "bl_items l") auto
  have "l_stop L = Some (fst (last (zip as (bl_items l))))"
    using seg_last[OF _ ne] assms(1) by (auto simp: linked_def)
  also have "last (zip as (bl_items l)) = (last as, last (bl_items l))"
    using ne assms(2) by (subst last_zip) auto
  finally have "l_stop L = Some (last as)" by simp
  moreover have "last as = as ! (length as - 1)" "length as - 1 < length as"
    using Cons by (simp_all add: last_conv_nth)
  moreover have "bl_stop l = Some (length as - 1)" using assms(3) Cons by simp
  ultimately show ?thesis using assms(2) linked_threaded[OF assms(1)]
    unfolding represents_def by simp
qed

lemma zip_insert:
  assumes "length as = length bs" "k < length as"
  shows "zip as bs = zip (take k as) (take k bs) @ (as ! k, bs ! k) # zip (drop (Suc k) as) (drop (Suc k) bs)"
    and "zip (take (Suc k) as @ a # drop (Suc k) as) (take (Suc k) bs @ b # drop (Suc k) bs)
      = zip (take k as) (take k bs) @ (as ! k, bs ! k) # (a, b) # zip (drop (Suc k) as) (drop (Suc k) bs)"
proof -
  have "as = take k as @ as ! k # drop (Suc k) as" "bs = take k bs @ bs ! k # drop (Suc k) bs"
    using assms by (simp_all add: id_take_nth_drop)
  then show "zip as bs = zip (take k as) (take k bs) @ (as ! k, bs ! k) # zip (drop (Suc k) as) (drop (Suc k) bs)"
    using assms by (metis (no_types, lifting) length_take zip_Cons_Cons zip_append)
  show "zip (take (Suc k) as @ a # drop (Suc k) as) (take (Suc k) bs @ b # drop (Suc k) bs)
      = zip (take k as) (take k bs) @ (as ! k, bs ! k) # (a, b) # zip (drop (Suc k) as) (drop (Suc k) bs)"
    using assms by (simp add: take_Suc_conv_app_nth)
qed

text \<open>C25: The bucket list of the model is the pointer list of list.c: list_ins on the heap, behind
  the item of bucket k, gives exactly the bucket list that bl_ins computes, with the stop pointer
  on the item that the model says, in particular not moved when the new bucket becomes the last
  one of at least three.\<close>
theorem list_ins_refines_bl_ins:
  assumes "represents h L as l" "k < length as" "h new = None" "length as < 2 ^ 63 - 1"
  shows "\<exists>h' L'. list_ins h L (Some (as ! k)) new b = Inr (h', L', Some new) \<and>
    represents h' L' (take (Suc k) as @ new # drop (Suc k) as) (bl_ins l k b)"
proof (cases "length as \<le> 1")
  case True
  then have len: "length as = 1" "k = 0" "length (bl_items l) = 1"
    using assms(1,2) by (auto simp: represents_def)
  then obtain a v where av: "as = [a]" "bl_items l = [v]"
    by (auto simp: length_Suc_conv)
  have "bl_stop l = Some 0" using assms(1) av by (auto simp: represents_def split: option.splits)
  then have linked: "linked h L (zip as (bl_items l))"
    using represents_linked[OF assms(1)] av by simp
  have ct: "l_counter L = 1" using linked by (simp add: linked_def av)
  obtain h' L' where put: "list_put h L new b = Inr (h', L', Some new)"
    "linked h' L' (zip as (bl_items l) @ [(new, b)])"
    using list_put_linked[OF linked assms(3), of b] av by auto
  have "list_ins h L (Some (as ! k)) new b = list_put h L new b"
    by (simp add: list_ins_def ct list_put_def)
  moreover have "represents h' L' [a, new] (bl_ins l k b)"
    by (rule linked_represents) (use put(2) av in \<open>simp_all add: bl_ins_def bl_put_def\<close>)
  ultimately show ?thesis using put(1) av len by simp
next
  case False
  have len: "length as = length (bl_items l)" and thr: "threaded h L (zip as (bl_items l))"
    using assms(1) by (simp_all add: represents_def)
  note z = zip_insert[OF len assms(2)]
  let ?zs = "zip (take k as) (take k (bl_items l)) @ (as ! k, bl_items l ! k) #
      zip (drop (Suc k) as) (drop (Suc k) (bl_items l))"
  have "length ?zs = length as" unfolding z(1)[symmetric] using len by simp
  then have bounds: "2 \<le> length ?zs" "length ?zs < 2 ^ 63 - 1" using False assms(4) by linarith+
  have "threaded h L ?zs" using thr z(1) by simp
  from list_ins_seg[OF this assms(3) bounds, of b] obtain h' L' where
    "list_ins h L (Some (as ! k)) new b = Inr (h', L', Some new)"
    "threaded h' L' (zip (take k as) (take k (bl_items l)) @ (as ! k, bl_items l ! k) # (new, b) #
      zip (drop (Suc k) as) (drop (Suc k) (bl_items l)))" "l_stop L' = l_stop L"
    by blast
  moreover have "bl_items (bl_ins l k b) = take (Suc k) (bl_items l) @ b # drop (Suc k) (bl_items l)"
    "bl_stop (bl_ins l k b) = map_option (\<lambda>s. if k < s then Suc s else s) (bl_stop l)"
    using False len by (simp_all add: bl_ins_def)
  moreover obtain s where s: "bl_stop l = Some s" "s < length as" "l_stop L = Some (as ! s)"
    using assms(1,2) len by (auto simp: represents_def split: option.splits)
  moreover have "(take (Suc k) as @ new # drop (Suc k) as) ! (if k < s then Suc s else s) = as ! s"
    using s(2) assms(2) by (auto simp: nth_append min_def Suc_diff_le)
  moreover have "(if k < s then Suc s else s) < Suc (length as)" using s(2) by simp
  ultimately show ?thesis
    using assms(2) len z(2)[of new b] by (simp add: represents_def)
qed


theorem list_ins_refines_bl_ins_witness:
  "\<exists>h L h' L'. represents h L [1, 2] two_buckets \<and>
     list_ins h L (Some ([1, 2] ! 1)) 9 \<lparr>b_id = replicate 20 192, b_nodes = []\<rparr> = Inr (h', L', Some 9) \<and>
     l_stop L' = Some 2"
proof -
  let ?b = "bl_items two_buckets"
  let ?h = "[1 \<mapsto> \<lparr>i_val = ?b ! 0, i_next = Some 2, i_prev = None\<rparr>,
             2 \<mapsto> \<lparr>i_val = ?b ! 1, i_next = None, i_prev = Some 1\<rparr>] :: BUCK heap"
  let ?L = "\<lparr>l_start = Some 1, l_stop = Some 2, l_counter = 2\<rparr>"
  have rep: "represents ?h ?L [1, 2] two_buckets"
    by (simp add: represents_def threaded_def two_buckets_def)
  from list_ins_refines_bl_ins[OF rep, of 1 9 "\<lparr>b_id = replicate 20 192, b_nodes = []\<rparr>"]
  obtain h' L' where *: "list_ins ?h ?L (Some ([1, 2] ! 1)) 9 \<lparr>b_id = replicate 20 192, b_nodes = []\<rparr>
      = Inr (h', L', Some 9)"
    "represents h' L' [1, 2, 9] (bl_ins two_buckets 1 \<lparr>b_id = replicate 20 192, b_nodes = []\<rparr>)"
    by auto
  then have "l_stop L' = Some 2" by (simp add: represents_def bl_ins_def two_buckets_def)
  with rep * show ?thesis by blast
qed

end
