(* ===== verification/Hashmap.thy ===== *)
theory Hashmap
  imports Prelude
begin

text \<open>
  The hash table of \<open>src/src/hash.c\<close>: an array of \<open>count\<close> buckets, each an array of
  (key, value) pairs, indexed by the djb2 hash of the key modulo \<open>count\<close>. A key is the
  \<open>keysize\<close> bytes the key pointer addresses, so the \<open>keysize\<close> field is the length of the key;
  the table stores the pointer and not a copy, and every caller passes a pointer to an id field
  that is never written again, so the stored bytes do not change. The maps, keys and values
  that callers pass are never NULL (\<open>hash_put\<close> stores item or buffer pointers only), which is
  what the NULL tests of the C functions check. The number of buckets is not zero
  (\<open>hash_init\<close> is called with 100 and 4096), else \<open>% map->count\<close> would divide by zero.

  \<open>bytes_map\<close> is the interface the components above use: a finite map from byte strings.
\<close>

section \<open>The interface\<close>

locale bytes_map =
  fixes get :: "'m \<Rightarrow> bytes \<Rightarrow> 'v option"
    and put :: "'m \<Rightarrow> bytes \<Rightarrow> 'v \<Rightarrow> 'm"
    and del :: "'m \<Rightarrow> bytes \<Rightarrow> 'm"
    and inv :: "'m \<Rightarrow> bool"
  assumes get_put: "inv m \<Longrightarrow> get (put m k v) = (get m)(k := Some v)"
    and get_del: "inv m \<Longrightarrow> get (del m k) = (get m)(k := None)"
    and inv_put: "inv m \<Longrightarrow> inv (put m k v)"
    and inv_del: "inv m \<Longrightarrow> inv (del m k)"

section \<open>Data\<close>

record 'v PAIR =
  p_key :: bytes
  p_value :: 'v

record 'v HASH =
  h_count :: nat
  h_buckets :: "'v PAIR list list"

section \<open>Operations\<close>

definition hash_this :: "bytes \<Rightarrow> u64" where
  "hash_this p = foldl (\<lambda>result b. (push_bit 5 result + result) + ucast b) 5381 p"

definition hash_init :: "nat \<Rightarrow> 'v HASH" where
  "hash_init capacity = \<lparr>h_count = capacity, h_buckets = replicate capacity []\<rparr>"

text \<open>\<open>hash_getpair\<close> returns a pointer to a pair of the bucket: here, its index.\<close>

fun getpair_from :: "nat \<Rightarrow> 'v PAIR list \<Rightarrow> bytes \<Rightarrow> nat option" where
  "getpair_from i [] key = None"
| "getpair_from i (pair # pairs) key =
    (if length (p_key pair) = length key \<and> memcmp (p_key pair) key = 0 then Some i
     else getpair_from (Suc i) pairs key)"

definition hash_getpair :: "'v PAIR list \<Rightarrow> bytes \<Rightarrow> nat option" where
  "hash_getpair bucket key = getpair_from 0 bucket key"

definition hash_index :: "'v HASH \<Rightarrow> bytes \<Rightarrow> nat" where
  "hash_index m key = unat (hash_this key) mod h_count m"

definition hash_get :: "'v HASH \<Rightarrow> bytes \<Rightarrow> 'v option" where
  "hash_get m key =
    (let bucket = h_buckets m ! hash_index m key
     in case hash_getpair bucket key of None \<Rightarrow> None | Some i \<Rightarrow> Some (p_value (bucket ! i)))"

definition hash_exists :: "'v HASH \<Rightarrow> bytes \<Rightarrow> bool" where
  "hash_exists m key \<longleftrightarrow> hash_get m key \<noteq> None"

definition hash_put :: "'v HASH \<Rightarrow> bytes \<Rightarrow> 'v \<Rightarrow> 'v HASH" where
  "hash_put m key value =
    (let index = hash_index m key; bucket = h_buckets m ! index
     in case hash_getpair bucket key of
          Some i \<Rightarrow> m\<lparr>h_buckets := (h_buckets m)[index :=
                      bucket[i := (bucket ! i)\<lparr>p_value := value\<rparr>]]\<rparr>
        | None \<Rightarrow> m\<lparr>h_buckets := (h_buckets m)[index :=
                      bucket @ [\<lparr>p_key = key, p_value = value\<rparr>]]\<rparr>)"

text \<open>The copy loop of \<open>hash_del\<close>: every pair except the one at index \<open>this\<close>.\<close>

fun copy_except :: "nat \<Rightarrow> nat \<Rightarrow> 'v PAIR list \<Rightarrow> 'v PAIR list" where
  "copy_except i this [] = []"
| "copy_except i this (p_old # rest) =
    (if i \<noteq> this then p_old # copy_except (Suc i) this rest else copy_except (Suc i) this rest)"

definition hash_del :: "'v HASH \<Rightarrow> bytes \<Rightarrow> 'v HASH" where
  "hash_del m key =
    (let index = hash_index m key; bucket = h_buckets m ! index
     in case hash_getpair bucket key of
          None \<Rightarrow> m
        | Some thispair \<Rightarrow>
           (if length bucket = 1 then m\<lparr>h_buckets := (h_buckets m)[index := []]\<rparr>
            else m\<lparr>h_buckets := (h_buckets m)[index := copy_except 0 thispair bucket]\<rparr>))"

section \<open>Invariant\<close>

definition bucket_ok :: "'v HASH \<Rightarrow> nat \<Rightarrow> bool" where
  "bucket_ok m i \<longleftrightarrow> distinct (map p_key (h_buckets m ! i)) \<and>
     (\<forall>pair \<in> set (h_buckets m ! i). hash_index m (p_key pair) = i)"

definition hash_inv :: "'v HASH \<Rightarrow> bool" where
  "hash_inv m \<longleftrightarrow> 0 < h_count m \<and> length (h_buckets m) = h_count m \<and>
     (\<forall>i < h_count m. bucket_ok m i)"

section \<open>Buckets as association lists\<close>

lemma same_key: "length (p_key pair) = length key \<and> memcmp (p_key pair) key = 0 \<longleftrightarrow> p_key pair = key"
  using memcmp_eq_0 by auto

lemma getpair_from_None: "getpair_from j ps key = None \<longleftrightarrow> key \<notin> p_key ` set ps"
  by (induction ps arbitrary: j) (auto simp: same_key)

lemma getpair_from_Some:
  "getpair_from j ps key = Some i \<Longrightarrow> \<exists>us pair ws. ps = us @ pair # ws \<and> i = j + length us \<and> p_key pair = key"
proof (induction ps arbitrary: j)
  case (Cons c ps)
  show ?case
  proof (cases "p_key c = key")
    case True
    with Cons.prems show ?thesis by (force intro!: exI[of _ "[]"])
  next
    case False
    with Cons.prems have "getpair_from (Suc j) ps key = Some i" by (auto simp: same_key)
    from Cons.IH[OF this] obtain us pair ws where
      "ps = us @ pair # ws \<and> i = Suc j + length us \<and> p_key pair = key" by blast
    then show ?thesis by (intro exI[of _ "c # us"]) auto
  qed
qed simp

lemma getpair_Some:
  assumes "hash_getpair ps key = Some i"
  obtains us pair ws where "ps = us @ pair # ws" "i = length us" "p_key pair = key"
  using getpair_from_Some[OF assms[unfolded hash_getpair_def]] by auto

lemma getpair_None: "hash_getpair ps key = None \<longleftrightarrow> key \<notin> p_key ` set ps"
  by (simp add: hash_getpair_def getpair_from_None)

lemma copy_except_split:
  "i \<le> k \<Longrightarrow> copy_except i k ps = take (k - i) ps @ drop (Suc (k - i)) ps"
proof (induction ps arbitrary: i)
  case (Cons p ps)
  show ?case
  proof (cases "i = k")
    case True
    have "copy_except (Suc k) k qs = qs" for qs :: "'a PAIR list"
    proof -
      have "k < j \<Longrightarrow> copy_except j k qs = qs" for j by (induction qs arbitrary: j) auto
      then show ?thesis by simp
    qed
    with True show ?thesis by simp
  next
    case False
    with Cons show ?thesis by (simp add: Suc_diff_Suc[symmetric])
  qed
qed simp

definition assoc :: "'v PAIR list \<Rightarrow> bytes \<Rightarrow> 'v option" where
  "assoc ps = map_of (map (\<lambda>pair. (p_key pair, p_value pair)) ps)"

lemma assoc_Cons [simp]:
  "assoc (pair # ps) k = (if k = p_key pair then Some (p_value pair) else assoc ps k)"
  by (simp add: assoc_def)

lemma assoc_Nil [simp]: "assoc [] k = None"
  by (simp add: assoc_def)

lemma assoc_None: "assoc ps k = None \<longleftrightarrow> k \<notin> p_key ` set ps"
  by (auto simp: assoc_def map_of_eq_None_iff image_iff)

lemma assoc_append:
  "assoc (us @ ws) k = (if k \<in> p_key ` set us then assoc us k else assoc ws k)"
  by (induction us) auto

lemma assoc_split:
  assumes "distinct (map p_key (us @ pair # ws))"
  shows "assoc (us @ pair # ws) (p_key pair) = Some (p_value pair)"
    and "assoc (us @ ws) (p_key pair) = None"
  using assms by (auto simp: assoc_append assoc_None)

lemma assoc_split_other: "k \<noteq> p_key pair \<Longrightarrow> assoc (us @ pair # ws) k = assoc (us @ ws) k"
  by (simp add: assoc_append)

lemma assoc_snoc:
  "k \<notin> p_key ` set ps \<Longrightarrow> assoc (ps @ [\<lparr>p_key = k, p_value = v\<rparr>]) = (assoc ps)(k := Some v)"
  by (induction ps) (auto simp: assoc_def fun_eq_iff)

lemma hash_index_bound: "hash_inv m \<Longrightarrow> hash_index m k < h_count m"
  by (simp add: hash_inv_def hash_index_def)

lemma hash_get_assoc:
  assumes "hash_inv m"
  shows "hash_get m k = assoc (h_buckets m ! hash_index m k) k"
proof -
  let ?ps = "h_buckets m ! hash_index m k"
  have d: "distinct (map p_key ?ps)"
    using assms hash_index_bound[OF assms] by (auto simp: hash_inv_def bucket_ok_def)
  show ?thesis
  proof (cases "hash_getpair ?ps k")
    case None
    then have "assoc ?ps k = None" by (simp add: getpair_None assoc_None)
    with None show ?thesis by (simp add: hash_get_def Let_def)
  next
    case (Some i)
    then obtain us pair ws where s: "?ps = us @ pair # ws" "i = length us" "p_key pair = k"
      by (rule getpair_Some)
    with Some d assoc_split(1)[of us pair ws] show ?thesis by (simp add: hash_get_def Let_def)
  qed
qed

text \<open>Every update of the table replaces one bucket by another with the right keys.\<close>

lemma hash_inv_update:
  assumes "hash_inv m" and "distinct (map p_key ps)"
    and "\<forall>pair \<in> set ps. hash_index m (p_key pair) = i"
  shows "hash_inv (m\<lparr>h_buckets := (h_buckets m)[i := ps]\<rparr>)"
proof (cases "i < h_count m")
  case True
  then show ?thesis
    using assms by (auto simp: hash_inv_def bucket_ok_def hash_index_def nth_list_update)
next
  case False
  then have "(h_buckets m)[i := ps] = h_buckets m"
    using assms(1) by (simp add: hash_inv_def list_update_beyond)
  then show ?thesis using assms(1) by simp
qed

lemma hash_get_update:
  assumes "hash_inv m" and "distinct (map p_key ps)"
    and "\<forall>pair \<in> set ps. hash_index m (p_key pair) = hash_index m k"
    and "\<And>k'. assoc ps k' = (if k' = k then r else assoc (h_buckets m ! hash_index m k) k')"
  shows "hash_get (m\<lparr>h_buckets := (h_buckets m)[hash_index m k := ps]\<rparr>) = (hash_get m)(k := r)"
proof
  fix k'
  let ?m = "m\<lparr>h_buckets := (h_buckets m)[hash_index m k := ps]\<rparr>"
  have inv: "hash_inv ?m" by (rule hash_inv_update[OF assms(1-3)])
  have ix: "hash_index ?m k' = hash_index m k'" by (simp add: hash_index_def)
  have len: "hash_index m k < length (h_buckets m)"
    using assms(1) hash_index_bound[OF assms(1)] by (simp add: hash_inv_def)
  show "hash_get ?m k' = ((hash_get m)(k := r)) k'"
    using assms(4)[of k'] len
    by (auto simp: hash_get_assoc[OF inv] hash_get_assoc[OF assms(1)] ix nth_list_update)
qed

lemma bucket_facts:
  assumes "hash_inv m"
  shows "distinct (map p_key (h_buckets m ! hash_index m k))"
    and "\<forall>pair \<in> set (h_buckets m ! hash_index m k). hash_index m (p_key pair) = hash_index m k"
  using assms hash_index_bound[OF assms] by (auto simp: hash_inv_def bucket_ok_def)

text \<open>What \<open>hash_put\<close> and \<open>hash_del\<close> store in the bucket of the key.\<close>

definition put_bucket :: "'v PAIR list \<Rightarrow> bytes \<Rightarrow> 'v \<Rightarrow> 'v PAIR list" where
  "put_bucket ps k v = (case hash_getpair ps k of
     Some i \<Rightarrow> ps[i := (ps ! i)\<lparr>p_value := v\<rparr>] | None \<Rightarrow> ps @ [\<lparr>p_key = k, p_value = v\<rparr>])"

definition del_bucket :: "'v PAIR list \<Rightarrow> bytes \<Rightarrow> 'v PAIR list" where
  "del_bucket ps k = (case hash_getpair ps k of
     None \<Rightarrow> ps | Some i \<Rightarrow> (if length ps = 1 then [] else copy_except 0 i ps))"

lemma put_bucket_correct:
  assumes "distinct (map p_key ps)"
  shows "distinct (map p_key (put_bucket ps k v))"
    and "p_key ` set (put_bucket ps k v) = insert k (p_key ` set ps)"
    and "assoc (put_bucket ps k v) k' = (if k' = k then Some v else assoc ps k')"
proof -
  have "distinct (map p_key (put_bucket ps k v)) \<and>
      p_key ` set (put_bucket ps k v) = insert k (p_key ` set ps) \<and>
      assoc (put_bucket ps k v) k' = (if k' = k then Some v else assoc ps k')"
  proof (cases "hash_getpair ps k")
    case None
    then have "put_bucket ps k v = ps @ [\<lparr>p_key = k, p_value = v\<rparr>]" and "k \<notin> p_key ` set ps"
      by (simp_all add: put_bucket_def flip: getpair_None)
    then show ?thesis using assms by (simp add: assoc_snoc)
  next
    case (Some i)
    then obtain us pair ws where s: "ps = us @ pair # ws" "i = length us" "p_key pair = k"
      by (rule getpair_Some)
    then have new: "put_bucket ps k v = us @ pair\<lparr>p_value := v\<rparr> # ws"
      unfolding put_bucket_def Some by simp
    show ?thesis using assms s(3) unfolding new unfolding s(1)
      by (auto simp: assoc_append)
  qed
  then show "distinct (map p_key (put_bucket ps k v))"
    and "p_key ` set (put_bucket ps k v) = insert k (p_key ` set ps)"
    and "assoc (put_bucket ps k v) k' = (if k' = k then Some v else assoc ps k')" by auto
qed

lemma del_bucket_correct:
  assumes "distinct (map p_key ps)"
  shows "distinct (map p_key (del_bucket ps k))"
    and "set (del_bucket ps k) \<subseteq> set ps"
    and "assoc (del_bucket ps k) k' = (if k' = k then None else assoc ps k')"
proof -
  have "distinct (map p_key (del_bucket ps k)) \<and> set (del_bucket ps k) \<subseteq> set ps \<and>
      assoc (del_bucket ps k) k' = (if k' = k then None else assoc ps k')"
  proof (cases "hash_getpair ps k")
    case None
    then have "del_bucket ps k = ps" and "assoc ps k = None"
      by (simp_all add: del_bucket_def assoc_None flip: getpair_None)
    then show ?thesis using assms by simp
  next
    case (Some i)
    then obtain us pair ws where s: "ps = us @ pair # ws" "i = length us" "p_key pair = k"
      by (rule getpair_Some)
    have "copy_except 0 i ps = us @ ws" using copy_except_split[of 0 i ps] s by simp
    then have "del_bucket ps k = us @ ws"
      unfolding del_bucket_def Some using s by auto
    with s assms show ?thesis by (auto simp: assoc_append assoc_None)
  qed
  then show "distinct (map p_key (del_bucket ps k))"
    and "set (del_bucket ps k) \<subseteq> set ps"
    and "assoc (del_bucket ps k) k' = (if k' = k then None else assoc ps k')" by auto
qed

lemma hash_put_bucket:
  "hash_put m k v = m\<lparr>h_buckets := (h_buckets m)[hash_index m k :=
     put_bucket (h_buckets m ! hash_index m k) k v]\<rparr>"
  by (simp add: hash_put_def put_bucket_def Let_def split: option.splits)

lemma hash_del_bucket:
  "hash_del m k = m\<lparr>h_buckets := (h_buckets m)[hash_index m k :=
     del_bucket (h_buckets m ! hash_index m k) k]\<rparr>"
  by (simp add: hash_del_def del_bucket_def Let_def split: option.splits)

section \<open>The table is a map\<close>

interpretation hm: bytes_map "hash_get :: 'v HASH \<Rightarrow> bytes \<Rightarrow> 'v option" hash_put hash_del hash_inv
proof
  fix m :: "'v HASH" and k v
  assume inv: "hash_inv m"
  let ?ps = "h_buckets m ! hash_index m k"
  note d = bucket_facts[OF inv, of k]
  have put: "\<forall>pair \<in> set (put_bucket ?ps k v). hash_index m (p_key pair) = hash_index m k"
  proof
    fix pair
    assume "pair \<in> set (put_bucket ?ps k v)"
    then have "p_key pair \<in> insert k (p_key ` set ?ps)"
      using put_bucket_correct(2)[OF d(1), of k v] by blast
    then show "hash_index m (p_key pair) = hash_index m k" using d(2) by auto
  qed
  have del: "\<forall>pair \<in> set (del_bucket ?ps k). hash_index m (p_key pair) = hash_index m k"
    using del_bucket_correct(2)[OF d(1), of k] d(2) by auto
  show "hash_inv (hash_put m k v)"
    unfolding hash_put_bucket by (rule hash_inv_update[OF inv put_bucket_correct(1)[OF d(1)] put])
  show "hash_inv (hash_del m k)"
    unfolding hash_del_bucket by (rule hash_inv_update[OF inv del_bucket_correct(1)[OF d(1)] del])
  have "assoc (put_bucket ?ps k v) k' = (if k' = k then Some v else assoc ?ps k')" for k'
    by (rule put_bucket_correct(3)[OF d(1)])
  then show "hash_get (hash_put m k v) = (hash_get m)(k := Some v)"
    unfolding hash_put_bucket
    using hash_get_update[OF inv put_bucket_correct(1)[OF d(1)] put, of "Some v"] by blast
  have "assoc (del_bucket ?ps k) k' = (if k' = k then None else assoc ?ps k')" for k'
    by (rule del_bucket_correct(3)[OF d(1)])
  then show "hash_get (hash_del m k) = (hash_get m)(k := None)"
    unfolding hash_del_bucket
    using hash_get_update[OF inv del_bucket_correct(1)[OF d(1)] del, of None] by blast
qed

lemma hash_inv_init [wf_intros]: "0 < n \<Longrightarrow> hash_inv (hash_init n)"
  by (simp add: hash_inv_def hash_init_def bucket_ok_def)

lemma hash_get_init [simp]:
  assumes "0 < n"
  shows "hash_get (hash_init n) = Map.empty"
proof
  fix k
  have "h_buckets (hash_init n :: 'a HASH) ! hash_index (hash_init n :: 'a HASH) k = []"
    using assms by (simp add: hash_init_def hash_index_def)
  then show "hash_get (hash_init n :: 'a HASH) k = Map.empty k"
    by (simp add: hash_get_def Let_def hash_getpair_def)
qed

section \<open>Properties of hash.c\<close>

text \<open>C15: On a table that satisfies the bucket invariant, hash_put overwrites or adds exactly the
  entry of its key and hash_del removes exactly the entry of its key, as seen through hash_get
  and hash_exists, and both keep the invariant.\<close>
theorem hash_is_map:
  assumes "hash_inv m"
  shows "hash_get (hash_put m k v) = (hash_get m)(k \<mapsto> v) \<and>
    hash_get (hash_del m k) = (hash_get m)(k := None) \<and>
    (hash_exists m k \<longleftrightarrow> k \<in> dom (hash_get m)) \<and>
    hash_inv (hash_put m k v) \<and> hash_inv (hash_del m k)"
  using hm.get_put[OF assms] hm.get_del[OF assms] hm.inv_put[OF assms] hm.inv_del[OF assms]
  by (auto simp: hash_exists_def)

theorem hash_is_map_witness:
  "hash_get (hash_put (hash_init 100) [1, 2] (7 :: nat)) [1, 2] = Some 7 \<and>
   hash_get (hash_del (hash_put (hash_init 100) [1, 2] (7 :: nat)) [1, 2]) [1, 2] = None"
proof -
  have inv: "hash_inv (hash_init 100 :: nat HASH)" by (rule hash_inv_init) simp
  note first = hash_is_map[OF inv, of "[1, 2]" 7]
  then have "hash_inv (hash_put (hash_init 100) [1, 2] (7 :: nat))" by blast
  from first hash_is_map[OF this, of "[1, 2]" 7] show ?thesis by simp
qed

text \<open>hash_init yields a table that satisfies the invariant and in which no key exists.\<close>
lemma hash_init_empty:
  assumes "0 < n"
  shows "hash_inv (hash_init n :: 'v HASH) \<and> (\<forall>k. \<not> hash_exists (hash_init n :: 'v HASH) k)"
  using assms by (simp add: hash_inv_init hash_exists_def)

lemma hash_init_empty_example:
  "hash_inv (hash_init 4096 :: nat HASH) \<and> (\<forall>k. \<not> hash_exists (hash_init 4096 :: nat HASH) k)"
  by (rule hash_init_empty) simp

end
