(* ===== verification/Store.thy ===== *)
theory Store
  imports Linklist Hashmap
begin

text \<open>
  The pair of a list and a hash table in which \<open>cache.c\<close>, \<open>database.c\<close>, \<open>lookup.c\<close> and
  \<open>announce.c\<close> keep their objects: \<open>list_put\<close> appends the object, and \<open>hash_put\<close> maps the
  identifier stored in the object to the address of its \<open>ITEM\<close>. A hash entry whose item has been
  deleted would be a dangling pointer; \<open>store_ok\<close> says that there is none. Addresses are handed
  out from a counter, so an address is never used twice for the items of one list.

  The laws are proved once, in the locale \<open>keyed_store\<close>, for any implementation of the map
  interface \<open>bytes_map\<close> and any identifier field; every component interprets it on its own type.
\<close>

section \<open>Data\<close>

record 'v STORE =
  s_list :: "(addr \<times> 'v) list"
  s_hash :: "addr HASH"
  s_new :: addr

definition store_init :: "nat \<Rightarrow> 'v STORE" where
  "store_init capacity = \<lparr>s_list = [], s_hash = hash_init capacity, s_new = 0\<rparr>"

section \<open>Operations\<close>

definition store_put :: "'v STORE \<Rightarrow> bytes \<Rightarrow> 'v \<Rightarrow> 'v STORE" where
  "store_put s key v = \<lparr>s_list = seq_put (s_list s) (s_new s) v,
     s_hash = hash_put (s_hash s) key (s_new s), s_new = Suc (s_new s)\<rparr>"

text \<open>\<open>hash_del\<close> on the identifier, \<open>list_del\<close> on the item.\<close>

definition store_del :: "'v STORE \<Rightarrow> bytes \<Rightarrow> addr \<Rightarrow> 'v STORE" where
  "store_del s key a = s\<lparr>s_list := seq_del (s_list s) a, s_hash := hash_del (s_hash s) key\<rparr>"

text \<open>\<open>hash_get\<close> followed by \<open>item->val\<close>: NULL, or the object, or a fault when the item is gone.\<close>

definition store_get :: "'v STORE \<Rightarrow> bytes \<Rightarrow> (addr \<times> 'v) option res" where
  "store_get s key = (case hash_get (s_hash s) key of None \<Rightarrow> Inr None
     | Some a \<Rightarrow> (case map_of (s_list s) a of None \<Rightarrow> Inl UseAfterFree | Some v \<Rightarrow> Inr (Some (a, v))))"

text \<open>A write through the object's pointer.\<close>

definition store_set :: "'v STORE \<Rightarrow> addr \<Rightarrow> 'v \<Rightarrow> 'v STORE" where
  "store_set s a v = s\<lparr>s_list := map (\<lambda>(b, w). if b = a then (b, v) else (b, w)) (s_list s)\<rparr>"

section \<open>Laws\<close>

definition store_ok :: "('h \<Rightarrow> bytes \<Rightarrow> addr option) \<Rightarrow> ('h \<Rightarrow> bool) \<Rightarrow> ('v \<Rightarrow> bytes) \<Rightarrow>
    (addr \<times> 'v) list \<Rightarrow> 'h \<Rightarrow> addr \<Rightarrow> bool" where
  "store_ok get hok key xs h new \<longleftrightarrow> hok h \<and> distinct (map fst xs) \<and> (\<forall>a \<in> fst ` set xs. a < new) \<and>
     (\<forall>k a. get h k = Some a \<longrightarrow> (\<exists>v. (a, v) \<in> set xs \<and> key v = k))"

text \<open>Every object can be found under its identifier.\<close>

definition store_full :: "('h \<Rightarrow> bytes \<Rightarrow> addr option) \<Rightarrow> ('v \<Rightarrow> bytes) \<Rightarrow>
    (addr \<times> 'v) list \<Rightarrow> 'h \<Rightarrow> bool" where
  "store_full get key xs h \<longleftrightarrow> (\<forall>(a, v) \<in> set xs. get h (key v) = Some a)"

lemma ok_live: "store_ok get hok key xs h new \<Longrightarrow> get h k = Some a \<Longrightarrow> \<exists>v. (a, v) \<in> set xs \<and> key v = k"
  unfolding store_ok_def by blast

lemma ok_unique: "store_ok get hok key xs h new \<Longrightarrow> (a, v) \<in> set xs \<Longrightarrow> (a, w) \<in> set xs \<Longrightarrow> v = w"
  unfolding store_ok_def by (blast dest: eq_key_imp_eq_value)

lemma full_at: "store_full get key xs h \<Longrightarrow> (a, v) \<in> set xs \<Longrightarrow> get h (key v) = Some a"
  unfolding store_full_def by blast

locale keyed_store = bytes_map get put del inv
  for get :: "'h \<Rightarrow> bytes \<Rightarrow> addr option" and put :: "'h \<Rightarrow> bytes \<Rightarrow> addr \<Rightarrow> 'h"
    and del :: "'h \<Rightarrow> bytes \<Rightarrow> 'h" and inv :: "'h \<Rightarrow> bool" +
  fixes key :: "'v \<Rightarrow> bytes"
begin

lemma ok_put:
  assumes "store_ok get inv key xs h new"
  shows "store_ok get inv key (seq_put xs new v) (put h (key v) new) (Suc new)"
proof -
  have inv: "inv h" and fresh: "new \<notin> fst ` set xs" using assms by (auto simp: store_ok_def)
  have "\<exists>w. (a, w) \<in> set (seq_put xs new v) \<and> key w = k" if "get (put h (key v) new) k = Some a" for k a
    using that ok_live[OF assms, of k a] by (cases "k = key v") (auto simp: get_put[OF inv] seq_put_def)
  then show ?thesis using assms fresh inv_put[OF inv]
    by (auto simp: store_ok_def seq_put_def less_Suc_eq)
qed

lemma ok_del:
  assumes "store_ok get inv key xs h new" "(a, v) \<in> set xs"
  shows "store_ok get inv key (seq_del xs a) (del h (key v)) new"
proof -
  have inv: "inv h" using assms(1) by (simp add: store_ok_def)
  note one = ok_unique[OF assms(1,2)]
  have "\<exists>w. (b, w) \<in> set (seq_del xs a) \<and> key w = k" if "get (del h (key v)) k = Some b" for k b
  proof -
    have "k \<noteq> key v" "get h k = Some b" using that by (auto simp: get_del[OF inv] split: if_splits)
    with ok_live[OF assms(1)] obtain w where w: "(b, w) \<in> set xs" "key w = k" by blast
    with one \<open>k \<noteq> key v\<close> have "b \<noteq> a" by auto
    with w show ?thesis by (auto simp: seq_del_def)
  qed
  then show ?thesis using assms(1) inv_del[OF inv] distinct_remove
    by (auto simp: store_ok_def seq_del_def)
qed

lemma ok_get:
  assumes "store_ok get inv key xs h new" "get h k = Some a"
  shows "\<exists>v. map_of xs a = Some v \<and> key v = k"
  using ok_live[OF assms] assms(1) by (auto simp: store_ok_def intro: map_of_is_SomeI)

lemma full_put:
  assumes "store_ok get inv key xs h new" "store_full get key xs h" "get h (key v) = None"
  shows "store_full get key (seq_put xs new v) (put h (key v) new)"
proof -
  have "inv h" using assms(1) by (simp add: store_ok_def)
  moreover have "key w \<noteq> key v" if "(a, w) \<in> set xs" for a w
    using full_at[OF assms(2) that] assms(3) by auto
  ultimately show ?thesis using assms(2) by (auto simp: store_full_def seq_put_def get_put)
qed

lemma full_del:
  assumes "store_ok get inv key xs h new" "store_full get key xs h" "(a, v) \<in> set xs"
  shows "store_full get key (seq_del xs a) (del h (key v))"
proof -
  have "inv h" using assms(1) by (simp add: store_ok_def)
  moreover have "key w \<noteq> key v" if "(b, w) \<in> set xs" "b \<noteq> a" for b w
    using full_at[OF assms(2) that(1)] full_at[OF assms(2,3)] that(2) by auto
  ultimately show ?thesis using assms(2) by (auto simp: store_full_def seq_del_def get_del)
qed

text \<open>In a full store two objects never share an identifier.\<close>

lemma full_distinct:
  assumes "store_ok get inv key xs h new" "store_full get key xs h"
  shows "distinct (map (key \<circ> snd) xs)"
proof -
  have "inj_on (key \<circ> snd) (set xs)"
  proof (rule inj_onI)
    fix p q
    assume *: "p \<in> set xs" "q \<in> set xs" "(key \<circ> snd) p = (key \<circ> snd) q"
    then have fst: "fst p = fst q"
      using full_at[OF assms(2), of "fst p" "snd p"] full_at[OF assms(2), of "fst q" "snd q"] by simp
    moreover have "snd p = snd q"
    proof (rule ok_unique[OF assms(1)])
      show "(fst p, snd p) \<in> set xs" using *(1) by simp
      show "(fst p, snd q) \<in> set xs" using *(2) fst by simp
    qed
    ultimately show "p = q" by (rule prod_eqI)
  qed
  moreover have "distinct xs" using assms(1) by (simp add: store_ok_def distinct_map)
  ultimately show ?thesis by (simp add: distinct_map)
qed

lemma full_get:
  assumes "store_ok get inv key xs h new" "store_full get key xs h"
  shows "get h k = Some a \<longleftrightarrow> (\<exists>v. (a, v) \<in> set xs \<and> key v = k)"
  using ok_live[OF assms(1)] full_at[OF assms(2)] by blast

end

section \<open>The laws on the store record\<close>

abbreviation st_ok :: "('v \<Rightarrow> bytes) \<Rightarrow> 'v STORE \<Rightarrow> bool" where
  "st_ok key s \<equiv> store_ok hash_get hash_inv key (s_list s) (s_hash s) (s_new s)"

abbreviation st_full :: "('v \<Rightarrow> bytes) \<Rightarrow> 'v STORE \<Rightarrow> bool" where
  "st_full key s \<equiv> store_full hash_get key (s_list s) (s_hash s)"

lemma st_init [wf_intros]: "0 < n \<Longrightarrow> st_ok key (store_init n) \<and> st_full key (store_init n)"
  by (simp add: store_init_def store_ok_def store_full_def hash_inv_init)

lemma set_store_set:
  "(b, u) \<in> set (s_list (store_set s a w)) \<longleftrightarrow>
    (if b = a then u = w \<and> a \<in> fst ` set (s_list s) else (b, u) \<in> set (s_list s))"
  by (force simp: store_set_def image_iff split: if_splits)

lemma fst_store_set [simp]: "map fst (s_list (store_set s a w)) = map fst (s_list s)"
  by (auto simp: store_set_def)

lemma store_set_fields [simp]:
  "s_hash (store_set s a w) = s_hash s" "s_new (store_set s a w) = s_new s"
  by (simp_all add: store_set_def)

lemma st_set:
  assumes "st_ok key s" "(a, v) \<in> set (s_list s)" "key w = key v"
  shows "st_ok key (store_set s a w)" "st_full key s \<Longrightarrow> st_full key (store_set s a w)"
proof -
  have dom: "fst ` set (s_list (store_set s a w)) = fst ` set (s_list s)"
    unfolding list.set_map[symmetric] fst_store_set ..
  have "\<exists>u. (b, u) \<in> set (s_list (store_set s a w)) \<and> key u = k" if "hash_get (s_hash s) k = Some b" for k b
  proof -
    from ok_live[OF assms(1) that] obtain u where u: "(b, u) \<in> set (s_list s)" "key u = k" by blast
    show ?thesis
    proof (cases "b = a")
      case True
      with u have "(a, u) \<in> set (s_list s)" by simp
      with ok_unique[OF assms(1,2)] u(2) assms(3) have "key w = k" by metis
      moreover have "a \<in> fst ` set (s_list s)" using assms(2) by (rule image_eqI[rotated]) simp
      ultimately show ?thesis using True by (intro exI[of _ w]) (simp add: set_store_set)
    next
      case False
      with u show ?thesis by (intro exI[of _ u]) (simp add: set_store_set)
    qed
  qed
  moreover have "hash_inv (s_hash s)" "distinct (map fst (s_list s))" "\<forall>b \<in> fst ` set (s_list s). b < s_new s"
    using assms(1) by (simp_all add: store_ok_def)
  ultimately show "st_ok key (store_set s a w)"
    unfolding store_ok_def fst_store_set store_set_fields dom by (intro conjI) blast+
  show "st_full key (store_set s a w)" if full: "st_full key s"
    unfolding store_full_def
  proof clarify
    fix b u
    assume "(b, u) \<in> set (s_list (store_set s a w))"
    then show "hash_get (s_hash (store_set s a w)) (key u) = Some b"
      using full_at[OF full] assms(2,3) by (auto simp: set_store_set split: if_splits)
  qed
qed


interpretation st: keyed_store "hash_get :: addr HASH \<Rightarrow> bytes \<Rightarrow> addr option" hash_put hash_del hash_inv key
  for key :: "'v \<Rightarrow> bytes"
  by unfold_locales

lemma store_put_ok [wf_intros]:
  "st_ok key s \<Longrightarrow> key v = k \<Longrightarrow> st_ok key (store_put s k v)"
  using st.ok_put[of key "s_list s" "s_hash s" "s_new s" v] by (auto simp: store_put_def)

lemma store_put_full:
  "st_ok key s \<Longrightarrow> st_full key s \<Longrightarrow> hash_get (s_hash s) k = None \<Longrightarrow> key v = k \<Longrightarrow>
    st_full key (store_put s k v)"
  using st.full_put[of key "s_list s" "s_hash s" "s_new s" v] by (auto simp: store_put_def)

lemma store_del_ok [wf_intros]:
  "st_ok key s \<Longrightarrow> (a, v) \<in> set (s_list s) \<Longrightarrow> key v = k \<Longrightarrow> st_ok key (store_del s k a)"
  using st.ok_del[of key "s_list s" "s_hash s" "s_new s" a v] by (auto simp: store_del_def)

lemma store_del_full:
  "st_ok key s \<Longrightarrow> st_full key s \<Longrightarrow> (a, v) \<in> set (s_list s) \<Longrightarrow> key v = k \<Longrightarrow>
    st_full key (store_del s k a)"
  using st.full_del[of key "s_list s" "s_hash s" "s_new s" a v] by (auto simp: store_del_def)

text \<open>What a store stores: the abstraction of the list and the table to a map.\<close>

definition st_map :: "'v STORE \<Rightarrow> bytes \<Rightarrow> 'v option" where
  "st_map s k = (case hash_get (s_hash s) k of None \<Rightarrow> None | Some a \<Rightarrow> map_of (s_list s) a)"

lemma st_map_init [simp]: "0 < n \<Longrightarrow> st_map (store_init n) = Map.empty"
  by (simp add: st_map_def store_init_def fun_eq_iff)

lemma st_map_put:
  assumes "st_ok key s"
  shows "st_map (store_put s k v) = (st_map s)(k \<mapsto> v)"
proof
  fix k'
  have inv: "hash_inv (s_hash s)" and fresh: "s_new s \<notin> fst ` set (s_list s)"
    using assms by (auto simp: store_ok_def)
  have "a \<noteq> s_new s" if "hash_get (s_hash s) k' = Some a" for a
    using ok_live[OF assms that] fresh by force
  then show "st_map (store_put s k v) k' = ((st_map s)(k \<mapsto> v)) k'"
    by (auto simp: st_map_def store_put_def seq_put_def hm.get_put[OF inv] map_of_snoc[OF fresh]
        simp del: map_of_append split: option.splits)
qed

lemma st_map_del:
  assumes "st_ok key s" "hash_get (s_hash s) k = Some a"
  shows "st_map (store_del s k a) = (st_map s)(k := None)"
proof
  fix k'
  have inv: "hash_inv (s_hash s)" using assms(1) by (simp add: store_ok_def)
  have "b \<noteq> a" if "hash_get (s_hash s) k' = Some b" "k' \<noteq> k" for b
    using ok_live[OF assms(1) that(1)] ok_live[OF assms] ok_unique[OF assms(1)] that(2) by metis
  then show "st_map (store_del s k a) k' = ((st_map s)(k := None)) k'"
    by (auto simp: st_map_def store_del_def seq_del_def hm.get_del[OF inv] map_of_remove
        split: option.splits)
qed

lemma st_map_full:
  assumes "st_ok key s" "st_full key s"
  shows "st_map s k = Some v \<longleftrightarrow> v \<in> snd ` set (s_list s) \<and> key v = k"
proof -
  have d: "distinct (map fst (s_list s))" using assms(1) by (simp add: store_ok_def)
  show ?thesis
  proof
    assume "st_map s k = Some v"
    then obtain a where a: "hash_get (s_hash s) k = Some a" "map_of (s_list s) a = Some v"
      by (auto simp: st_map_def split: option.splits)
    then have "(a, v) \<in> set (s_list s)" by (simp add: map_of_SomeD)
    moreover from ok_live[OF assms(1) a(1)] obtain w where "(a, w) \<in> set (s_list s)" "key w = k" by blast
    ultimately show "v \<in> snd ` set (s_list s) \<and> key v = k"
      using ok_unique[OF assms(1)] by force
  next
    assume "v \<in> snd ` set (s_list s) \<and> key v = k"
    then obtain a where "(a, v) \<in> set (s_list s)" "key v = k" by auto
    then show "st_map s k = Some v" using full_at[OF assms(2)] d by (force simp: st_map_def)
  qed
qed

text \<open>No lookup in a store meets a deleted item.\<close>

lemma store_get_safe:
  assumes "st_ok key s"
  obtains (absent) "store_get s k = Inr None" "hash_get (s_hash s) k = None" "st_map s k = None"
  | (present) a v where "store_get s k = Inr (Some (a, v))" "hash_get (s_hash s) k = Some a"
      "(a, v) \<in> set (s_list s)" "key v = k" "st_map s k = Some v"
proof (cases "hash_get (s_hash s) k")
  case None
  then show thesis by (intro absent) (simp_all add: store_get_def st_map_def)
next
  case (Some a)
  from st.ok_get[OF assms Some] obtain v where v: "map_of (s_list s) a = Some v" "key v = k" by blast
  with Some show thesis
    by (intro present[of a v]) (auto simp: store_get_def st_map_def dest: map_of_SomeD)
qed

lemma hash_exists_map: "st_ok key s \<Longrightarrow> hash_exists (s_hash s) k \<longleftrightarrow> st_map s k \<noteq> None"
  by (cases rule: store_get_safe[of key s k]) (auto simp: hash_exists_def)

lemma store_get_full:
  assumes "st_ok key s" "st_full key s" "(a, v) \<in> set (s_list s)"
  shows "store_get s (key v) = Inr (Some (a, v))"
  using assms(1)
proof (cases rule: store_get_safe[of key s "key v"])
  case absent
  then show ?thesis using full_at[OF assms(2,3)] by simp
next
  case (present b w)
  then have "b = a" using full_at[OF assms(2,3)] by simp
  with present ok_unique[OF assms(1,3)] show ?thesis by simp
qed

section \<open>Expiry\<close>

text \<open>The loop that deletes every item with a property, its successor read before the deletion.\<close>

definition store_sweep :: "('v \<Rightarrow> bytes) \<Rightarrow> ('v \<Rightarrow> bool) \<Rightarrow> 'v STORE \<Rightarrow> 'v STORE" where
  "store_sweep key bad s = foldl (\<lambda>s (a, v). if bad v then store_del s (key v) a else s) s (s_list s)"

lemma sweep_foldl:
  "st_ok key s \<Longrightarrow> set xs \<subseteq> set (s_list s) \<Longrightarrow> distinct (map fst xs) \<Longrightarrow>
    (let s' = foldl (\<lambda>s (a, v). if bad v then store_del s (key v) a else s) s xs
     in s_list s' = filter (\<lambda>(a, v). \<not> ((a, v) \<in> set xs \<and> bad v)) (s_list s) \<and> st_ok key s' \<and>
        (st_full key s \<longrightarrow> st_full key s'))"
proof (induction xs arbitrary: s)
  case (Cons p xs)
  obtain a v where p: "p = (a, v)" by (cases p)
  let ?s = "if bad v then store_del s (key v) a else s"
  have mem: "(a, v) \<in> set (s_list s)" using Cons.prems p by simp
  have ok: "st_ok key ?s" using Cons.prems(1) store_del_ok[OF _ mem] by simp
  have full: "st_full key s \<longrightarrow> st_full key ?s" using Cons.prems(1) store_del_full[OF _ _ mem] by simp
  have not_a: "(a, w) \<notin> set xs" for w using Cons.prems(3) p by force
  have list: "s_list ?s = filter (\<lambda>q. \<not> (q = (a, v) \<and> bad v)) (s_list s)"
  proof (cases "bad v")
    case True
    have "fst q \<noteq> a \<longleftrightarrow> q \<noteq> (a, v)" if "q \<in> set (s_list s)" for q
    proof (cases q)
      case (Pair b w)
      with ok_unique[OF Cons.prems(1) mem, of w] that show ?thesis by auto
    qed
    with True show ?thesis by (simp add: store_del_def seq_del_def cong: filter_cong)
  qed simp
  have sub: "set xs \<subseteq> set (s_list ?s)" using Cons.prems(2) not_a unfolding list by auto
  have dist: "distinct (map fst xs)" using Cons.prems(3) by simp
  define s' where "s' = foldl (\<lambda>s (a, v). if bad v then store_del s (key v) a else s) ?s xs"
  note IH = Cons.IH[OF ok sub dist, unfolded Let_def, folded s'_def]
  have IH1: "s_list s' = filter (\<lambda>(a, v). \<not> ((a, v) \<in> set xs \<and> bad v)) (s_list ?s)"
    using IH by blast
  have l: "s_list s' = filter (\<lambda>(b, w). \<not> ((b, w) \<in> set (p # xs) \<and> bad w)) (s_list s)"
    unfolding IH1 list filter_filter p by (rule filter_cong) auto
  have e: "foldl (\<lambda>s (a, v). if bad v then store_del s (key v) a else s) s (p # xs) = s'"
    by (simp add: s'_def p)
  show ?case unfolding Let_def e using IH full l by blast
qed simp

lemma store_sweep_spec:
  assumes "st_ok key s"
  shows "s_list (store_sweep key bad s) = filter (\<lambda>(a, v). \<not> bad v) (s_list s)"
    and "st_ok key (store_sweep key bad s)"
    and "st_full key s \<Longrightarrow> st_full key (store_sweep key bad s)"
proof -
  have d: "distinct (map fst (s_list s))" using assms by (simp add: store_ok_def)
  note sw = sweep_foldl[OF assms order_refl d, of bad, folded store_sweep_def, unfolded Let_def]
  have "filter (\<lambda>(a, v). \<not> ((a, v) \<in> set (s_list s) \<and> bad v)) (s_list s)
      = filter (\<lambda>(a, v). \<not> bad v) (s_list s)" by (auto intro!: filter_cong)
  with sw show "s_list (store_sweep key bad s) = filter (\<lambda>(a, v). \<not> bad v) (s_list s)" by simp
  show "st_ok key (store_sweep key bad s)"
    and "st_full key s \<Longrightarrow> st_full key (store_sweep key bad s)" using sw by blast+
qed


lemma st_map_sweep:
  assumes "st_ok key s" "st_full key s"
  shows "st_map (store_sweep key bad s) k = (case st_map s k of None \<Rightarrow> None
     | Some v \<Rightarrow> if bad v then None else Some v)"
proof -
  note sw = store_sweep_spec[OF assms(1), of bad]
  have "st_map (store_sweep key bad s) k = Some v \<longleftrightarrow> st_map s k = Some v \<and> \<not> bad v" for v
    unfolding st_map_full[OF sw(2) sw(3)[OF assms(2)]] st_map_full[OF assms] sw(1) by force
  note iff = this
  show ?thesis
  proof (cases "st_map (store_sweep key bad s) k")
    case None
    then have "st_map s k = Some v \<Longrightarrow> bad v" for v using iff[of v] by simp
    with None show ?thesis by (auto split: option.splits)
  next
    case (Some v)
    with iff[of v] show ?thesis by simp
  qed
qed

end
