(* ===== verification/Masala.thy ===== *)
theory Masala
  imports Store Bucket Ben
begin

text \<open>
  The state of the daemon: \<open>struct obj_main\<close> of \<open>src/src/main.h\<close> with the parts of \<open>conf\<close>, \<open>p2p\<close>
  and \<open>udp\<close> that the protocol uses, the four stores and the bucket list, and the environment the
  daemon runs in. The environment holds what the code reads from outside: the numbers that
  \<open>random()\<close> will return, the bytes that \<open>/dev/urandom\<close> will deliver, what \<open>getaddrinfo\<close> answers
  for the bootstrap node; and what it hands out: the datagrams given to \<open>sendto\<close> and the calls of
  lookup callbacks, in order. Also the clock arithmetic of \<open>src/src/time.c\<close> and \<open>src/src/random.c\<close>.
\<close>

section \<open>Objects of the stores\<close>

definition SEND_UNICAST :: int where "SEND_UNICAST = 0"
definition SEND_MULTICAST :: int where "SEND_MULTICAST = 1"

text \<open>\<open>struct obj_key\<close> of the session cache.\<close>

record KEY =
  k_session_id :: bytes
  k_time :: int
  k_type :: int

text \<open>\<open>struct obj_database_node\<close>.\<close>

record DB =
  d_host_id :: bytes
  d_addr :: IP
  d_time_anno :: int

text \<open>\<open>struct obj_lookup\<close>; the callback is the context it is called with, \<open>None\<close> is NULL. The nodes
  that have been asked are kept in a list of buffers and in a hash table whose keys and values are
  those buffers.\<close>

record LOOKUP =
  l_list :: "bytes list"
  l_hash :: "bytes HASH"
  l_find_id :: bytes
  l_lkp_id :: bytes
  l_callback :: "nat option"
  l_time_find :: int

text \<open>\<open>struct obj_node_announce\<close>; its address field is never used.\<close>

record ANNOUNCE =
  a_list :: "bytes list"
  a_hash :: "bytes HASH"
  a_lkp_id :: bytes
  a_time_find :: int

section \<open>The daemon\<close>

record CONF =
  conf_node_id :: bytes
  conf_host_id :: bytes
  conf_hostname :: "bytes option"

record P2P =
  time_now :: int
  time_maintainance :: int
  time_multicast :: int
  time_announce :: int
  time_restart :: int
  time_expire :: int
  time_split :: int
  time_ping :: int
  time_find :: int

record ENV =
  e_random :: "nat \<Rightarrow> nat"
  e_random_pos :: nat
  e_urandom :: "nat \<Rightarrow> nat \<Rightarrow> bytes"
  e_urandom_pos :: nat
  e_bootstrap :: "IP list option"
  e_multicast :: "bool res"
  e_sent :: "(IP \<times> bytes) list"
  e_called :: "(nat \<times> bytes \<times> bytes option) list"

record MAIN =
  conf :: CONF
  p2p :: P2P
  sockfd :: int
  multicast :: int
  nbhd :: BLIST
  cache :: "KEY STORE"
  lkps :: "LOOKUP STORE"
  announce :: "ANNOUNCE STORE"
  database :: "DB STORE"
  env :: ENV

abbreviation now :: "MAIN \<Rightarrow> int" where "now m \<equiv> time_now (p2p m)"
abbreviation self_id :: "MAIN \<Rightarrow> bytes" where "self_id m \<equiv> conf_node_id (conf m)"

section \<open>Clock and randomness\<close>

definition TIME_1_MINUTE :: int where "TIME_1_MINUTE = 60"
definition TIME_2_MINUTES :: int where "TIME_2_MINUTES = 120"
definition TIME_4_MINUTES :: int where "TIME_4_MINUTES = 240"
definition TIME_15_MINUTES :: int where "TIME_15_MINUTES = 900"

definition random :: "MAIN \<Rightarrow> int \<times> MAIN" where
  "random m = (int (e_random (env m) (e_random_pos (env m))),
     m\<lparr>env := (env m)\<lparr>e_random_pos := Suc (e_random_pos (env m))\<rparr>\<rparr>)"

definition rand_urandom :: "MAIN \<Rightarrow> nat \<Rightarrow> bytes \<times> MAIN" where
  "rand_urandom m sz = (e_urandom (env m) (e_urandom_pos (env m)) sz,
     m\<lparr>env := (env m)\<lparr>e_urandom_pos := Suc (e_urandom_pos (env m))\<rparr>\<rparr>)"

definition time_add_x_sec :: "MAIN \<Rightarrow> int \<Rightarrow> int" where
  "time_add_x_sec m sec = now m + sec"

definition time_add_1_min :: "MAIN \<Rightarrow> int" where
  "time_add_1_min m = now m + TIME_1_MINUTE"

definition time_add_15_min :: "MAIN \<Rightarrow> int" where
  "time_add_15_min m = now m + TIME_15_MINUTES"

definition time_add_2_min_approx :: "MAIN \<Rightarrow> int \<times> MAIN" where
  "time_add_2_min_approx m = (case random m of (r, m') \<Rightarrow>
     (now m + TIME_1_MINUTE + r mod TIME_2_MINUTES, m'))"

definition time_add_5_min_approx :: "MAIN \<Rightarrow> int \<times> MAIN" where
  "time_add_5_min_approx m = (case random m of (r, m') \<Rightarrow>
     (now m + TIME_4_MINUTES + r mod TIME_2_MINUTES, m'))"

section \<open>Loops over the state\<close>

fun fold_res :: "('a \<Rightarrow> 's \<Rightarrow> 's res) \<Rightarrow> 'a list \<Rightarrow> 's \<Rightarrow> 's res" where
  "fold_res f [] s = Inr s"
| "fold_res f (x # xs) s = bindr (f x s) (fold_res f xs)"

lemma fold_res_append: "fold_res f (xs @ ys) s = bindr (fold_res f xs s) (fold_res f ys)"
proof (induction xs arbitrary: s)
  case (Cons x xs)
  then show ?case by (cases "f x s") simp_all
qed simp

text \<open>\<open>post F P r\<close>: the computation ends in a state with \<open>P\<close>, or in one of the faults \<open>F\<close>.\<close>

definition post :: "fault set \<Rightarrow> ('s \<Rightarrow> bool) \<Rightarrow> 's res \<Rightarrow> bool" where
  "post F P r \<longleftrightarrow> (case r of Inl e \<Rightarrow> e \<in> F | Inr s \<Rightarrow> P s)"

lemma post_Inr [simp]: "post F P (Inr s) \<longleftrightarrow> P s"
  by (simp add: post_def)

lemma post_Inl [simp]: "post F P (Inl e) \<longleftrightarrow> e \<in> F"
  by (simp add: post_def)

lemma post_bind: "post F P r \<Longrightarrow> (\<And>s. P s \<Longrightarrow> r = Inr s \<Longrightarrow> post F Q (f s)) \<Longrightarrow> post F Q (bindr r f)"
  by (cases r) auto

lemma post_weaken: "post F P r \<Longrightarrow> F \<subseteq> G \<Longrightarrow> (\<And>s. P s \<Longrightarrow> Q s) \<Longrightarrow> post G Q r"
  by (cases r) auto

lemma post_fold: "P s \<Longrightarrow> (\<And>x s. x \<in> set xs \<Longrightarrow> P s \<Longrightarrow> post F P (f x s)) \<Longrightarrow> post F P (fold_res f xs s)"
  by (induction xs arbitrary: s) (auto intro: post_bind)

lemma post_no_fault: "post {} P r \<longleftrightarrow> (\<exists>s. r = Inr s \<and> P s)"
  by (cases r) auto


section \<open>A daemon that has just started\<close>

text \<open>The tables have the sizes that \<open>cache_init\<close>, \<open>lkp_init\<close>, \<open>announce_init\<close> and \<open>db_init\<close> give
  them; \<open>p2p_init\<close> sets all timers to zero.\<close>

definition main_start :: "CONF \<Rightarrow> int \<Rightarrow> ENV \<Rightarrow> MAIN" where
  "main_start c t e = \<lparr>conf = c,
     p2p = \<lparr>time_now = t, time_maintainance = 0, time_multicast = 0, time_announce = 0, time_restart = 0,
       time_expire = 0, time_split = 0, time_ping = 0, time_find = 0\<rparr>,
     sockfd = 3, multicast = 0, nbhd = bckt_init, cache = store_init 100, lkps = store_init 4096,
     announce = store_init 4096, database = store_init 4096, env = e\<rparr>"

text \<open>The concrete daemon of the examples: its node id is 20 bytes 1, every session id it draws is
  20 bytes 9.\<close>

definition main0 :: MAIN where
  "main0 = main_start \<lparr>conf_node_id = replicate 20 1, conf_host_id = replicate 20 2, conf_hostname = None\<rparr> 1000
     \<lparr>e_random = (\<lambda>_. 5), e_random_pos = 0, e_urandom = (\<lambda>_ n. replicate n 9), e_urandom_pos = 0,
      e_bootstrap = None, e_multicast = Inr True, e_sent = [], e_called = []\<rparr>"

end
