(* ===== verification/Cache.thy ===== *)
theory Cache
  imports Masala
begin

text \<open>
  The session cache of \<open>src/src/cache.c\<close>: every request carries a random session id, which is
  put here with its kind; a reply is accepted when its session id is found. The declaration of
  \<open>cache_del\<close> initialises \<open>sk\<close> from the NULL pointer \<open>item_sk\<close>; that load is undefined in C, its
  value is overwritten before any use, and the \<open>-O2\<close> of the Makefile removes it, so the model
  leaves it out. The loops over the list read the successor of an item before they delete the
  item, so they visit the items the list had at the start.
\<close>

section \<open>Operations\<close>

definition cache_init :: "KEY STORE" where
  "cache_init = store_init 100"

definition cache_put :: "MAIN \<Rightarrow> bytes \<Rightarrow> int \<Rightarrow> MAIN" where
  "cache_put m session_id type =
    (if hash_exists (s_hash (cache m)) session_id then m
     else m\<lparr>cache := store_put (cache m) session_id
       \<lparr>k_session_id = session_id, k_time = time_add_1_min m, k_type = type\<rparr>\<rparr>)"

definition cache_del :: "MAIN \<Rightarrow> bytes \<Rightarrow> MAIN res" where
  "cache_del m session_id = bindr (store_get (cache m) session_id) (\<lambda>item.
     case item of None \<Rightarrow> Inr m
     | Some (a, sk) \<Rightarrow> Inr (m\<lparr>cache := store_del (cache m) session_id a\<rparr>))"

definition cache_expire :: "MAIN \<Rightarrow> MAIN res" where
  "cache_expire m = fold_res (\<lambda>(a, sk) m'.
     if now m' > k_time sk then cache_del m' (k_session_id sk) else Inr m') (s_list (cache m)) m"

definition cache_validate :: "MAIN \<Rightarrow> bytes \<Rightarrow> (bool \<times> MAIN) res" where
  "cache_validate m session_id = bindr (store_get (cache m) session_id) (\<lambda>item.
     case item of None \<Rightarrow> Inr (False, m)
     | Some (a, sk) \<Rightarrow> bindr (if k_type sk = SEND_UNICAST then cache_del m session_id else Inr m)
         (\<lambda>m'. Inr (True, m')))"

section \<open>Invariant\<close>

definition cache_ok :: "MAIN \<Rightarrow> bool" where
  "cache_ok m \<longleftrightarrow> st_ok k_session_id (cache m) \<and> st_full k_session_id (cache m)"

text \<open>The sessions the cache knows, with their expiry and kind.\<close>

abbreviation sessions :: "MAIN \<Rightarrow> bytes \<Rightarrow> KEY option" where
  "sessions m \<equiv> st_map (cache m)"

section \<open>Behaviour\<close>

lemma cache_put_frame [frame_simps, simp]:
  "conf (cache_put m sid t) = conf m" "p2p (cache_put m sid t) = p2p m"
  "sockfd (cache_put m sid t) = sockfd m" "multicast (cache_put m sid t) = multicast m"
  "nbhd (cache_put m sid t) = nbhd m" "lkps (cache_put m sid t) = lkps m"
  "announce (cache_put m sid t) = announce m" "database (cache_put m sid t) = database m"
  "env (cache_put m sid t) = env m"
  by (simp_all add: cache_put_def)

lemma cache_put_ok [wf_intros]: "cache_ok m \<Longrightarrow> cache_ok (cache_put m sid t)"
  by (auto simp: cache_ok_def cache_put_def hash_exists_def intro!: store_put_ok store_put_full)

lemma cache_put_sessions:
  assumes "cache_ok m"
  shows "sessions (cache_put m sid t) = (if sessions m sid = None
    then (sessions m)(sid \<mapsto> \<lparr>k_session_id = sid, k_time = now m + 60, k_type = t\<rparr>) else sessions m)"
  using assms
  by (simp add: cache_put_def cache_ok_def hash_exists_map[of k_session_id] st_map_put[of k_session_id]
      time_add_1_min_def TIME_1_MINUTE_def)

lemma cache_del_cases:
  assumes "cache_ok m"
  obtains (absent) "cache_del m sid = Inr m" "sessions m sid = None"
  | (present) a sk where "cache_del m sid = Inr (m\<lparr>cache := store_del (cache m) sid a\<rparr>)"
      "(a, sk) \<in> set (s_list (cache m))" "k_session_id sk = sid" "sessions m sid = Some sk"
      "hash_get (s_hash (cache m)) sid = Some a"
  by (cases rule: store_get_safe[of k_session_id "cache m" sid])
    (use assms in \<open>auto simp: cache_ok_def cache_del_def\<close>)

lemma cache_del_spec:
  assumes "cache_ok m"
  shows "\<exists>s. cache_del m sid = Inr (m\<lparr>cache := s\<rparr>) \<and> cache_ok (m\<lparr>cache := s\<rparr>) \<and>
    st_map s = (sessions m)(sid := None)"
  using assms
proof (cases rule: cache_del_cases[of m sid])
  case absent
  then have "(sessions m)(sid := None) = sessions m" by auto
  with absent assms show ?thesis by (intro exI[of _ "cache m"]) simp
next
  case (present a sk)
  have ok: "st_ok k_session_id (cache m)" "st_full k_session_id (cache m)"
    using assms by (simp_all add: cache_ok_def)
  show ?thesis
    using store_del_ok[OF ok(1) present(2,3)] store_del_full[OF ok present(2,3)]
      st_map_del[OF ok(1) present(5)] present(1)
    by (intro exI[of _ "store_del (cache m) sid a"]) (simp add: cache_ok_def)
qed

lemma cache_validate_spec:
  assumes "cache_ok m"
  shows "\<exists>s. cache_validate m sid = Inr (sessions m sid \<noteq> None, m\<lparr>cache := s\<rparr>) \<and> cache_ok (m\<lparr>cache := s\<rparr>) \<and>
    st_map s = (case sessions m sid of None \<Rightarrow> sessions m
      | Some sk \<Rightarrow> if k_type sk = SEND_UNICAST then (sessions m)(sid := None) else sessions m)"
proof -
  have ok: "st_ok k_session_id (cache m)" using assms by (simp add: cache_ok_def)
  obtain s where s: "cache_del m sid = Inr (m\<lparr>cache := s\<rparr>)" "cache_ok (m\<lparr>cache := s\<rparr>)"
    "st_map s = (sessions m)(sid := None)" using cache_del_spec[OF assms] by blast
  show ?thesis
  proof (cases rule: store_get_safe[OF ok, of sid])
    case 1
    with assms show ?thesis by (intro exI[of _ "cache m"]) (simp add: cache_validate_def)
  next
    case (2 a sk)
    with s assms show ?thesis
      by (cases "k_type sk = SEND_UNICAST")
        (auto simp: cache_validate_def intro: exI[of _ s] exI[of _ "cache m"])
  qed
qed

text \<open>The expiry loop is a sweep of the store.\<close>

lemma cache_del_item:
  assumes "cache_ok m" "(a, sk) \<in> set (s_list (cache m))"
  shows "cache_del m (k_session_id sk) = Inr (m\<lparr>cache := store_del (cache m) (k_session_id sk) a\<rparr>)"
  using store_get_full[of k_session_id "cache m" a sk] assms by (simp add: cache_del_def cache_ok_def)

lemma cache_expire_loop:
  "cache_ok m \<Longrightarrow> set xs \<subseteq> set (s_list (cache m)) \<Longrightarrow> distinct (map fst xs) \<Longrightarrow>
    fold_res (\<lambda>(a, sk) m'. if now m' > k_time sk then cache_del m' (k_session_id sk) else Inr m') xs m
      = Inr (m\<lparr>cache := foldl (\<lambda>s (a, v). if now m > k_time v then store_del s (k_session_id v) a else s)
          (cache m) xs\<rparr>)"
proof (induction xs arbitrary: m)
  case (Cons p xs)
  obtain a sk where p: "p = (a, sk)" by (cases p)
  have mem: "(a, sk) \<in> set (s_list (cache m))" using Cons.prems(2) p by simp
  have ok: "st_ok k_session_id (cache m)" "st_full k_session_id (cache m)"
    using Cons.prems(1) by (simp_all add: cache_ok_def)
  show ?case
  proof (cases "now m > k_time sk")
    case True
    let ?m = "m\<lparr>cache := store_del (cache m) (k_session_id sk) a\<rparr>"
    have "cache_ok ?m" using store_del_ok[OF ok(1) mem refl] store_del_full[OF ok mem refl]
      by (simp add: cache_ok_def)
    moreover have "set xs \<subseteq> set (s_list (cache ?m))"
      using Cons.prems(2,3) p by (force simp: store_del_def seq_del_def)
    ultimately show ?thesis
      using Cons.IH[of ?m] Cons.prems(3) p True cache_del_item[OF Cons.prems(1) mem] by simp
  qed (use Cons p in simp)
qed simp

lemma cache_expire_sweep:
  assumes "cache_ok m"
  shows "cache_expire m = Inr (m\<lparr>cache := store_sweep k_session_id (\<lambda>sk. now m > k_time sk) (cache m)\<rparr>)"
  using cache_expire_loop[OF assms order_refl] assms
  by (simp add: cache_expire_def store_sweep_def cache_ok_def store_ok_def)

lemma cache_expire_ok:
  assumes "cache_ok m"
  shows "\<exists>s. cache_expire m = Inr (m\<lparr>cache := s\<rparr>) \<and> cache_ok (m\<lparr>cache := s\<rparr>)"
  using cache_expire_sweep[OF assms] store_sweep_spec[of k_session_id "cache m"] assms
  by (auto simp: cache_ok_def)

section \<open>Properties of the session cache\<close>

text \<open>C19: A session id is accepted exactly when it is known, and a unicast session only once: on a
  well-formed cache cache_validate never touches freed memory, answers whether the id was put
  before, removes it when it belongs to a unicast request and keeps it for a multicast request,
  so a second reply to a unicast request is refused.\<close>
theorem cache_validate_once:
  assumes "cache_ok m"
  shows "\<exists>m'. cache_validate m sid = Inr (sessions m sid \<noteq> None, m') \<and> cache_ok m' \<and>
    (\<forall>sid'. sid' \<noteq> sid \<longrightarrow> sessions m' sid' = sessions m sid') \<and>
    sessions m' sid = (case sessions m sid of None \<Rightarrow> None
      | Some sk \<Rightarrow> if k_type sk = SEND_UNICAST then None else Some sk) \<and>
    (\<forall>sk. sessions m sid = Some sk \<longrightarrow> k_type sk = SEND_UNICAST \<longrightarrow> cache_validate m' sid = Inr (False, m'))"
proof -
  obtain s where s: "cache_validate m sid = Inr (sessions m sid \<noteq> None, m\<lparr>cache := s\<rparr>)"
    "cache_ok (m\<lparr>cache := s\<rparr>)" "st_map s = (case sessions m sid of None \<Rightarrow> sessions m
      | Some sk \<Rightarrow> if k_type sk = SEND_UNICAST then (sessions m)(sid := None) else sessions m)"
    using cache_validate_spec[OF assms] by blast
  have "cache_validate (m\<lparr>cache := s\<rparr>) sid = Inr (False, m\<lparr>cache := s\<rparr>)" if "st_map s sid = None"
    by (cases rule: store_get_safe[of k_session_id s sid])
      (use s(2) that in \<open>auto simp: cache_ok_def cache_validate_def\<close>)
  with s show ?thesis by (intro exI[of _ "m\<lparr>cache := s\<rparr>"]) (auto split: option.splits)
qed

text \<open>cache_expire removes exactly the sessions whose time has passed: it faults on no
  well-formed cache, keeps it well formed, forgets every session older than the clock and
  changes no other, and nothing else of the state.\<close>
lemma cache_expire_exact:
  assumes "cache_ok m"
  shows "\<exists>s. cache_expire m = Inr (m\<lparr>cache := s\<rparr>) \<and> cache_ok (m\<lparr>cache := s\<rparr>) \<and>
    (\<forall>sid. st_map s sid = (case sessions m sid of None \<Rightarrow> None
       | Some sk \<Rightarrow> if now m > k_time sk then None else Some sk))"
  using cache_expire_sweep[OF assms] store_sweep_spec[of k_session_id "cache m"]
    st_map_sweep[of k_session_id "cache m" "\<lambda>sk. now m > k_time sk"] assms
  by (auto simp: cache_ok_def)


lemma cache_ok_start [simp]: "cache_ok (main_start c t e)"
  using st_init[of 100 k_session_id] by (simp add: cache_ok_def main_start_def)

lemma cache_ok_main0 [simp]: "cache_ok main0"
  by (simp add: main0_def)

lemma sessions_main0 [simp]: "sessions main0 = Map.empty"
  by (simp add: main0_def main_start_def)

theorem cache_validate_once_witness:
  "\<exists>m'. cache_validate (cache_put main0 [7] SEND_UNICAST) [7] = Inr (True, m') \<and>
     cache_validate m' [7] = Inr (False, m')"
proof -
  have "sessions (cache_put main0 [7] SEND_UNICAST) [7]
      = Some \<lparr>k_session_id = [7], k_time = now main0 + 60, k_type = SEND_UNICAST\<rparr>"
    by (subst cache_put_sessions) simp_all
  with cache_validate_once[OF cache_put_ok[OF cache_ok_main0], of "[7]" SEND_UNICAST "[7]"]
  show ?thesis by auto
qed

lemma cache_expire_exact_example:
  "\<exists>s. cache_expire (cache_put main0 [7] SEND_UNICAST) = Inr ((cache_put main0 [7] SEND_UNICAST)\<lparr>cache := s\<rparr>) \<and>
     st_map s [7] \<noteq> None"
proof -
  have "sessions (cache_put main0 [7] SEND_UNICAST) [7]
      = Some \<lparr>k_session_id = [7], k_time = now main0 + 60, k_type = SEND_UNICAST\<rparr>"
    by (subst cache_put_sessions) simp_all
  with cache_expire_exact[OF cache_put_ok[OF cache_ok_main0], of "[7]" SEND_UNICAST]
  show ?thesis by auto
qed

end
