(* ===== verification/Send.thy ===== *)
theory Send
  imports Cache BenRoundTrip BucketInv
begin

text \<open>
  The datagrams of the protocol: \<open>src/src/send_p2p.c\<close>. Each function draws a session id where the
  message is a request, notes it in the cache, builds a bencode dictionary with the functions of
  \<open>ben.c\<close> and hands its encoding to \<open>sendto\<close>. The list that \<open>send_node\<close> puts into the dictionary
  before it is filled is built first here; the dictionary is only read afterwards.
\<close>

section \<open>Keys and message types\<close>

abbreviation K_i :: bytes where "K_i \<equiv> [105]"
abbreviation K_k :: bytes where "K_k \<equiv> [107]"
abbreviation K_q :: bytes where "K_q \<equiv> [113]"
abbreviation K_l :: bytes where "K_l \<equiv> [108]"
abbreviation K_f :: bytes where "K_f \<equiv> [102]"
abbreviation K_n :: bytes where "K_n \<equiv> [110]"
abbreviation K_a :: bytes where "K_a \<equiv> [97]"
abbreviation K_p :: bytes where "K_p \<equiv> [112]"

abbreviation Q_ping :: u8 where "Q_ping \<equiv> 112"
abbreviation Q_pong :: u8 where "Q_pong \<equiv> 111"
abbreviation Q_find :: u8 where "Q_find \<equiv> 102"
abbreviation Q_announce :: u8 where "Q_announce \<equiv> 97"
abbreviation Q_lookup :: u8 where "Q_lookup \<equiv> 108"
abbreviation Q_nodes_find :: u8 where "Q_nodes_find \<equiv> 70"
abbreviation Q_nodes_announce :: u8 where "Q_nodes_announce \<equiv> 65"
abbreviation Q_nodes_lookup :: u8 where "Q_nodes_lookup \<equiv> 76"
abbreviation Q_value :: u8 where "Q_value \<equiv> 86"

section \<open>Operations\<close>

text \<open>The block every field of a message repeats: \<open>ben_init\<close> twice, \<open>ben_str\<close> twice, \<open>ben_dict\<close>.\<close>

definition put_str :: "bytes \<times> bytes \<Rightarrow> ben \<Rightarrow> ben res" where
  "put_str kv dict = bindr (ben_str (ben_init BEN_STR) (fst kv)) (\<lambda>key.
     bindr (ben_str (ben_init BEN_STR) (snd kv)) (\<lambda>val. ben_dict dict key (Some val)))"

definition send_exec :: "MAIN \<Rightarrow> IP \<Rightarrow> bytes option \<Rightarrow> MAIN res" where
  "send_exec m sa raw = (if sockfd m < 0 then Inr m
     else case raw of None \<Rightarrow> Inl NullDeref
       | Some code \<Rightarrow> Inr (m\<lparr>env := (env m)\<lparr>e_sent := e_sent (env m) @ [(sa, code)]\<rparr>\<rparr>))"

definition send_fields :: "MAIN \<Rightarrow> IP \<Rightarrow> (bytes \<times> bytes) list \<Rightarrow> MAIN res" where
  "send_fields m sa kvs = bindr (fold_res put_str kvs (ben_init BEN_DICT)) (\<lambda>dict.
     bindr (ben_enc dict) (\<lambda>raw. send_exec m sa raw))"

definition send_ping :: "MAIN \<Rightarrow> IP \<Rightarrow> int \<Rightarrow> MAIN res" where
  "send_ping m sa type = (case rand_urandom m SHA_DIGEST_LENGTH of (session_id, m1) \<Rightarrow>
     send_fields (cache_put m1 session_id type) sa
       [(K_i, self_id m), (K_k, session_id), (K_q, [Q_ping])])"

definition send_pong :: "MAIN \<Rightarrow> IP \<Rightarrow> bytes \<Rightarrow> MAIN res" where
  "send_pong m sa session_id =
     send_fields m sa [(K_i, self_id m), (K_k, session_id), (K_q, [Q_pong])]"

definition send_announce :: "MAIN \<Rightarrow> IP \<Rightarrow> bytes \<Rightarrow> bytes \<Rightarrow> MAIN res" where
  "send_announce m sa lkp_id host_id = (case rand_urandom m SHA_DIGEST_LENGTH of (session_id, m1) \<Rightarrow>
     send_fields (cache_put m1 session_id SEND_UNICAST) sa
       [(K_i, self_id m), (K_k, session_id), (K_l, lkp_id), (K_f, host_id), (K_q, [Q_announce])])"

definition send_find :: "MAIN \<Rightarrow> IP \<Rightarrow> bytes \<Rightarrow> MAIN res" where
  "send_find m sa node_id = (case rand_urandom m SHA_DIGEST_LENGTH of (session_id, m1) \<Rightarrow>
     send_fields (cache_put m1 session_id SEND_UNICAST) sa
       [(K_i, self_id m), (K_k, session_id), (K_f, node_id), (K_q, [Q_find])])"

definition send_lookup :: "MAIN \<Rightarrow> IP \<Rightarrow> bytes \<Rightarrow> bytes \<Rightarrow> MAIN res" where
  "send_lookup m sa node_id lkp_id = (case rand_urandom m SHA_DIGEST_LENGTH of (session_id, m1) \<Rightarrow>
     send_fields (cache_put m1 session_id SEND_UNICAST) sa
       [(K_i, self_id m), (K_k, session_id), (K_l, lkp_id), (K_f, node_id), (K_q, [Q_lookup])])"

definition send_value :: "MAIN \<Rightarrow> IP \<Rightarrow> IP \<Rightarrow> bytes \<Rightarrow> bytes \<Rightarrow> MAIN res" where
  "send_value m sa val session_id lkp_id =
     send_fields m sa [(K_i, self_id m), (K_k, session_id), (K_l, lkp_id), (K_a, sin6_addr val),
       (K_q, [Q_value])]"

text \<open>One node of the bucket in a reply; questionable nodes are left out.\<close>

definition put_node :: "NODE \<Rightarrow> ben \<Rightarrow> ben res" where
  "put_node n list_id = (if n_pinged n > 0 then Inr list_id
     else bindr (fold_res put_str [(K_i, n_id n), (K_a, sin6_addr (n_addr n)), (K_p, sin6_port (n_addr n))]
            (ben_init BEN_DICT)) (\<lambda>dict_node. ben_list list_id (Some dict_node)))"

definition send_node :: "MAIN \<Rightarrow> IP \<Rightarrow> BUCK \<Rightarrow> bytes \<Rightarrow> bytes option \<Rightarrow> u8 \<Rightarrow> MAIN res" where
  "send_node m sa b session_id lkp_id reply_type =
    bindr (fold_res put_str [(K_i, self_id m), (K_k, session_id)] (ben_init BEN_DICT)) (\<lambda>dict1.
    bindr (if reply_type = Q_nodes_announce \<or> reply_type = Q_nodes_lookup
           then (case lkp_id of None \<Rightarrow> Inl NullDeref | Some lid \<Rightarrow> put_str (K_l, lid) dict1)
           else Inr dict1) (\<lambda>dict2.
    bindr (fold_res put_node (b_nodes b) (ben_init BEN_LIST)) (\<lambda>list_id.
    bindr (ben_str (ben_init BEN_STR) K_n) (\<lambda>key.
    bindr (ben_dict dict2 key (Some list_id)) (\<lambda>dict3.
    bindr (put_str (K_q, [reply_type]) dict3) (\<lambda>dict4.
    bindr (ben_enc dict4) (\<lambda>raw. send_exec m sa raw)))))))"

section \<open>The objects that are sent\<close>

definition field :: "bytes \<times> bytes \<Rightarrow> obj_tuple" where
  "field kv = Tuple (BStr (Some (fst kv))) (BStr (Some (snd kv)))"

definition field_ok :: "bytes \<times> bytes \<Rightarrow> bool" where
  "field_ok kv \<longleftrightarrow> fst kv \<noteq> [] \<and> snd kv \<noteq> [] \<and> length (fst kv) \<le> 20 \<and> length (snd kv) \<le> 20"

lemma put_str_field:
  "field_ok kv \<Longrightarrow> put_str kv (BDict d) = Inr (BDict (d @ [field kv]))"
  by (simp add: put_str_def field_ok_def field_def ben_str_def ben_init_def)

lemma put_strs: "\<forall>kv \<in> set kvs. field_ok kv \<Longrightarrow>
    fold_res put_str kvs (BDict d) = Inr (BDict (d @ map field kvs))"
  by (induction kvs arbitrary: d) (simp_all add: put_str_field)

lemma field_ben_ok: "\<forall>kv \<in> set kvs. field_ok kv \<Longrightarrow> ben_ok_tuples (map field kvs)"
  by (induction kvs) (auto simp: field_def field_ok_def BEN_STR_MAXSIZE_def)

text \<open>A datagram and the object that it encodes: accepted by \<open>ben_validate\<close> and decoded to the
  object, whatever memory follows it.\<close>

definition encodes :: "bytes \<Rightarrow> ben \<Rightarrow> bool" where
  "encodes code n \<longleftrightarrow> ben_enc n = Inr (Some code) \<and> ben_ok n \<and>
     (\<forall>rest. ben_validate (code @ rest) (length code) = Inr True \<and>
       ben_dec (2 * length code + 1) (code @ rest) = Inr (Some n))"

lemma ok_encodes:
  assumes "ben_ok n"
  obtains code where "encodes code n"
proof -
  obtain code where c: "ben_enc n = Inr (Some code)" using round_trip[OF assms] by blast
  have "ben_validate (code @ rest) (length code) = Inr True \<and>
      ben_dec (2 * length code + 1) (code @ rest) = Inr (Some n)" for rest
    using round_trip[OF assms, of rest] c by auto
  with c assms show thesis by (intro that[of code]) (simp add: encodes_def)
qed

text \<open>What sending does to the state: at most one more datagram.\<close>

definition transmit :: "MAIN \<Rightarrow> IP \<Rightarrow> bytes \<Rightarrow> MAIN" where
  "transmit m sa code = (if sockfd m < 0 then m
     else m\<lparr>env := (env m)\<lparr>e_sent := e_sent (env m) @ [(sa, code)]\<rparr>\<rparr>)"

lemma send_fields_spec:
  assumes "\<forall>kv \<in> set kvs. field_ok kv"
  shows "\<exists>code. encodes code (BDict (map field kvs)) \<and> send_fields m sa kvs = Inr (transmit m sa code)"
proof -
  have "ben_ok (BDict (map field kvs))" using field_ben_ok[OF assms] by simp
  then obtain code where "encodes code (BDict (map field kvs))" by (rule ok_encodes)
  then show ?thesis using put_strs[OF assms, of "[]"]
    by (auto simp: send_fields_def ben_init_def encodes_def send_exec_def transmit_def)
qed

section \<open>Frames\<close>

text \<open>
  \<open>sends m m'\<close>: from \<open>m\<close> to \<open>m'\<close> only datagrams were sent and requests noted: everything but the
  cache, the drawn randomness and the outbox is the same, and no session is forgotten.
\<close>

definition sends :: "MAIN \<Rightarrow> MAIN \<Rightarrow> bool" where
  "sends m m' \<longleftrightarrow> conf m' = conf m \<and> p2p m' = p2p m \<and> sockfd m' = sockfd m \<and> multicast m' = multicast m \<and>
     nbhd m' = nbhd m \<and> lkps m' = lkps m \<and> announce m' = announce m \<and> database m' = database m \<and>
     e_random (env m') = e_random (env m) \<and> e_urandom (env m') = e_urandom (env m) \<and>
     e_random_pos (env m') = e_random_pos (env m) \<and>
     e_bootstrap (env m') = e_bootstrap (env m) \<and> e_multicast (env m') = e_multicast (env m) \<and>
     e_called (env m') = e_called (env m) \<and>
     (cache_ok m \<longrightarrow> cache_ok m' \<and> (\<forall>sid. sessions m sid \<noteq> None \<longrightarrow> sessions m' sid \<noteq> None))"

lemma sends_refl [simp]: "sends m m"
  by (simp add: sends_def)

lemma sends_trans: "sends a b \<Longrightarrow> sends b c \<Longrightarrow> sends a c"
  by (simp add: sends_def)

lemma cache_ok_env [simp]: "cache_ok (m\<lparr>env := e\<rparr>) = cache_ok m"
  by (simp add: cache_ok_def)

lemma sends_transmit [simp]: "sends m (transmit m sa code)"
  by (simp add: sends_def transmit_def)

lemma sends_cache_put [simp]: "sends m (cache_put m sid t)"
  by (simp add: sends_def cache_put_ok cache_put_sessions)

lemma sends_urandom: "rand_urandom m n = (x, m') \<Longrightarrow> sends m m' \<and> x = e_urandom (env m) (e_urandom_pos (env m)) n"
  by (auto simp: rand_urandom_def sends_def)

text \<open>The randomness delivers what was asked for, the own identifiers have their size, and joining the
  multicast group goes wrong only by \<open>log_err\<close>.\<close>

definition conf_ok :: "MAIN \<Rightarrow> bool" where
  "conf_ok m \<longleftrightarrow> is_id (conf_node_id (conf m)) \<and> is_id (conf_host_id (conf m)) \<and>
     (\<forall>i n. length (e_urandom (env m) i n) = n) \<and>
     (\<forall>e. e_multicast (env m) = Inl e \<longrightarrow> e = ExitFailure)"

lemma conf_ok_sends: "sends m m' \<Longrightarrow> conf_ok m \<Longrightarrow> conf_ok m'"
  by (simp add: sends_def conf_ok_def)

lemma is_id_field [simp]: "is_id v \<Longrightarrow> k \<noteq> [] \<Longrightarrow> length k \<le> 20 \<Longrightarrow> field_ok (k, v)"
  by (auto simp: field_ok_def is_id_def SHA_DIGEST_LENGTH_def)

lemma byte_field [simp]: "k \<noteq> [] \<Longrightarrow> length k \<le> 20 \<Longrightarrow> field_ok (k, [c])"
  by (simp add: field_ok_def)

text \<open>A request: the session id is drawn, noted with its kind, and sent with the other fields.\<close>

lemma send_request:
  assumes "conf_ok m" "rand_urandom m SHA_DIGEST_LENGTH = (sid, m1)"
    and "is_id sid \<Longrightarrow> \<forall>kv \<in> set kvs. field_ok kv"
  shows "is_id sid \<and> sends m (cache_put m1 sid t) \<and> (\<exists>code. encodes code (BDict (map field kvs)) \<and>
     send_fields (cache_put m1 sid t) sa kvs = Inr (transmit (cache_put m1 sid t) sa code))"
proof -
  have "is_id sid" using assms(1,2) by (auto simp: rand_urandom_def conf_ok_def is_id_def)
  moreover have "sends m (cache_put m1 sid t)"
    using sends_urandom[OF assms(2)] sends_trans sends_cache_put by blast
  ultimately show ?thesis using send_fields_spec assms(3) by blast
qed


section \<open>Each message\<close>

lemma send_ping_spec:
  assumes "conf_ok m"
  shows "\<exists>m'. send_ping m sa t = Inr m' \<and> sends m m'"
proof (cases "rand_urandom m SHA_DIGEST_LENGTH")
  case (Pair sid m1)
  with send_request[OF assms Pair, of "[(K_i, self_id m), (K_k, sid), (K_q, [Q_ping])]" t sa] assms
  show ?thesis
    by (auto simp: send_ping_def conf_ok_def intro: sends_trans[OF _ sends_transmit])
qed

lemma send_find_spec:
  assumes "conf_ok m" "is_id node_id"
  shows "\<exists>m'. send_find m sa node_id = Inr m' \<and> sends m m'"
proof (cases "rand_urandom m SHA_DIGEST_LENGTH")
  case (Pair sid m1)
  with send_request[OF assms(1) Pair, of "[(K_i, self_id m), (K_k, sid), (K_f, node_id), (K_q, [Q_find])]"
      SEND_UNICAST sa] assms
  show ?thesis
    by (auto simp: send_find_def conf_ok_def intro: sends_trans[OF _ sends_transmit])
qed

lemma send_announce_spec:
  assumes "conf_ok m" "is_id lkp_id" "is_id host_id"
  shows "\<exists>m'. send_announce m sa lkp_id host_id = Inr m' \<and> sends m m'"
proof (cases "rand_urandom m SHA_DIGEST_LENGTH")
  case (Pair sid m1)
  with send_request[OF assms(1) Pair, of "[(K_i, self_id m), (K_k, sid), (K_l, lkp_id), (K_f, host_id),
      (K_q, [Q_announce])]" SEND_UNICAST sa] assms
  show ?thesis
    by (auto simp: send_announce_def conf_ok_def intro: sends_trans[OF _ sends_transmit])
qed

lemma send_lookup_packet:
  assumes "conf_ok m" "is_id node_id" "is_id lkp_id"
  shows "\<exists>sid code. is_id sid \<and> encodes code (BDict (map field [(K_i, self_id m), (K_k, sid), (K_l, lkp_id),
      (K_f, node_id), (K_q, [Q_lookup])])) \<and>
    (\<exists>m1. rand_urandom m SHA_DIGEST_LENGTH = (sid, m1) \<and> sends m (cache_put m1 sid SEND_UNICAST) \<and>
      send_lookup m sa node_id lkp_id = Inr (transmit (cache_put m1 sid SEND_UNICAST) sa code))"
proof (cases "rand_urandom m SHA_DIGEST_LENGTH")
  case (Pair sid m1)
  with send_request[OF assms(1) Pair, of "[(K_i, self_id m), (K_k, sid), (K_l, lkp_id), (K_f, node_id),
      (K_q, [Q_lookup])]" SEND_UNICAST sa] assms
  show ?thesis by (auto simp: send_lookup_def conf_ok_def)
qed

lemma send_lookup_spec:
  assumes "conf_ok m" "is_id node_id" "is_id lkp_id"
  shows "\<exists>m'. send_lookup m sa node_id lkp_id = Inr m' \<and> sends m m'"
  using send_lookup_packet[OF assms, of sa] by (auto intro: sends_trans[OF _ sends_transmit])

definition addr_ok :: "IP \<Rightarrow> bool" where
  "addr_ok sa \<longleftrightarrow> length (sin6_addr sa) = 16 \<and> length (sin6_port sa) = 2"

lemma addr_field [simp]:
  "addr_ok sa \<Longrightarrow> k \<noteq> [] \<Longrightarrow> length k \<le> 20 \<Longrightarrow> field_ok (k, sin6_addr sa) \<and> field_ok (k, sin6_port sa)"
  by (auto simp: addr_ok_def field_ok_def)

lemma send_pong_spec:
  assumes "conf_ok m" "is_id sid"
  shows "\<exists>m'. send_pong m sa sid = Inr m' \<and> sends m m'"
  using send_fields_spec[of "[(K_i, self_id m), (K_k, sid), (K_q, [Q_pong])]" m sa] assms
  by (auto simp: send_pong_def conf_ok_def)

lemma send_value_spec:
  assumes "conf_ok m" "addr_ok val" "is_id sid" "is_id lkp_id"
  shows "\<exists>m'. send_value m sa val sid lkp_id = Inr m' \<and> sends m m'"
  using send_fields_spec[of "[(K_i, self_id m), (K_k, sid), (K_l, lkp_id), (K_a, sin6_addr val),
      (K_q, [Q_value])]" m sa] assms
  by (auto simp: send_value_def conf_ok_def)

text \<open>The reply with the nodes of a bucket.\<close>

definition node_ok :: "NODE \<Rightarrow> bool" where
  "node_ok n \<longleftrightarrow> is_id (n_id n) \<and> addr_ok (n_addr n)"

definition node_dict :: "NODE \<Rightarrow> ben" where
  "node_dict n = BDict (map field [(K_i, n_id n), (K_a, sin6_addr (n_addr n)), (K_p, sin6_port (n_addr n))])"

lemma put_nodes:
  "\<forall>n \<in> set ns. node_ok n \<Longrightarrow> fold_res put_node ns (BList l)
     = Inr (BList (l @ map node_dict (filter (\<lambda>n. n_pinged n \<le> 0) ns)))"
proof (induction ns arbitrary: l)
  case (Cons n ns)
  have "put_node n (BList l) = Inr (BList (l @ (if n_pinged n \<le> 0 then [node_dict n] else [])))"
    using Cons.prems put_strs[of "[(K_i, n_id n), (K_a, sin6_addr (n_addr n)), (K_p, sin6_port (n_addr n))]" "[]"]
    by (simp add: put_node_def node_ok_def node_dict_def ben_init_def not_le)
  with Cons show ?case by simp
qed simp

lemma node_dicts_ok: "\<forall>n \<in> set ns. node_ok n \<Longrightarrow> ben_ok_items (map node_dict ns)"
  by (induction ns) (auto simp: node_dict_def node_ok_def addr_ok_def field_def is_id_def
      SHA_DIGEST_LENGTH_def BEN_STR_MAXSIZE_def)

definition node_fields :: "bytes \<Rightarrow> bytes \<Rightarrow> bytes option \<Rightarrow> u8 \<Rightarrow> NODE list \<Rightarrow> obj_tuple list" where
  "node_fields self sid lkp_id c ns = map field [(K_i, self), (K_k, sid)] @
     (if c = Q_nodes_announce \<or> c = Q_nodes_lookup then map field [(K_l, the lkp_id)] else []) @
     [Tuple (BStr (Some K_n)) (BList (map node_dict (filter (\<lambda>n. n_pinged n \<le> 0) ns)))] @
     map field [(K_q, [c])]"

lemma send_node_packet:
  assumes "conf_ok m" "is_id sid" "\<forall>n \<in> set (b_nodes b). node_ok n"
    and "c = Q_nodes_announce \<or> c = Q_nodes_lookup \<Longrightarrow> \<exists>lid. lkp_id = Some lid \<and> is_id lid"
  shows "\<exists>code. encodes code (BDict (node_fields (self_id m) sid lkp_id c (b_nodes b))) \<and>
    send_node m sa b sid lkp_id c = Inr (transmit m sa code)"
proof -
  let ?ns = "filter (\<lambda>n. n_pinged n \<le> 0) (b_nodes b)"
  have "ben_ok_items (map node_dict ?ns)" using assms(3) by (intro node_dicts_ok) simp
  then have "ben_ok (BDict (node_fields (self_id m) sid lkp_id c (b_nodes b)))"
    using assms(1,2,4) by (auto simp: node_fields_def conf_ok_def field_def is_id_def
        SHA_DIGEST_LENGTH_def BEN_STR_MAXSIZE_def)
  then obtain code where code: "encodes code (BDict (node_fields (self_id m) sid lkp_id c (b_nodes b)))"
    by (rule ok_encodes)
  then have "ben_enc (BDict (node_fields (self_id m) sid lkp_id c (b_nodes b))) = Inr (Some code)"
    by (simp add: encodes_def)
  then have "send_node m sa b sid lkp_id c = Inr (transmit m sa code)"
    using assms put_nodes[OF assms(3), of "[]"]
    by (auto simp: send_node_def put_str_field ben_init_def ben_str_def conf_ok_def node_fields_def
        send_exec_def transmit_def)
  with code show ?thesis by blast
qed

lemma send_node_spec:
  assumes "conf_ok m" "is_id sid" "\<forall>n \<in> set (b_nodes b). node_ok n"
    and "c = Q_nodes_announce \<or> c = Q_nodes_lookup \<Longrightarrow> \<exists>lid. lkp_id = Some lid \<and> is_id lid"
  shows "\<exists>m'. send_node m sa b sid lkp_id c = Inr m' \<and> sends m m'"
proof -
  obtain code where "send_node m sa b sid lkp_id c = Inr (transmit m sa code)"
    using send_node_packet[OF assms(1-3), of c lkp_id sa] assms(4) by blast
  then show ?thesis by simp
qed


section \<open>Properties of the messages\<close>

lemma search_field:
  "search_tuples (map field kvs) k = Inr (map_option (\<lambda>v. BStr (Some v)) (map_of kvs k))"
proof (induction kvs)
  case (Cons kv kvs)
  have "length (fst kv) = length k \<and> memcmp (fst kv) k = 0 \<longleftrightarrow> fst kv = k"
    using memcmp_eq_0[of "fst kv" k] by auto
  with Cons show ?case by (cases kv) (simp add: field_def)
qed simp

lemma searchDictStr_field:
  "k \<noteq> [] \<Longrightarrow> kvs \<noteq> [] \<Longrightarrow> ben_searchDictStr (Some (BDict (map field kvs))) k
    = Inr (map_option (\<lambda>v. BStr (Some v)) (map_of kvs k))"
  by (simp add: ben_searchDictStr_def ben_searchDictKey_def ben_str_def ben_init_def search_field)

lemma transmit_sent:
  "0 \<le> sockfd m \<Longrightarrow> e_sent (env (transmit m sa code)) = e_sent (env m) @ [(sa, code)]"
  by (simp add: transmit_def)

lemma transmit_cache [simp]: "cache (transmit m sa code) = cache m"
  by (simp add: transmit_def)

text \<open>A lookup request reaches its receiver intact and its reply will be accepted: send_lookup
  sends one datagram, which the receiver's ben_validate accepts and ben_dec turns into a
  dictionary whose fields are the sender's id, a fresh session id, the lookup id, the wanted id
  and the query type; the session id is in the cache afterwards unless it was already known.\<close>
lemma send_lookup_delivers:
  assumes "conf_ok m" "cache_ok m" "is_id node_id" "is_id lkp_id" "0 \<le> sockfd m"
  shows "\<exists>m' code n sid. send_lookup m sa node_id lkp_id = Inr m' \<and>
    e_sent (env m') = e_sent (env m) @ [(sa, code)] \<and> is_id sid \<and> sessions m' sid \<noteq> None \<and>
    ben_validate (code @ rest) (length code) = Inr True \<and>
    ben_dec (2 * length code + 1) (code @ rest) = Inr (Some n) \<and>
    ben_searchDictStr (Some n) K_i = Inr (Some (BStr (Some (self_id m)))) \<and>
    ben_searchDictStr (Some n) K_k = Inr (Some (BStr (Some sid))) \<and>
    ben_searchDictStr (Some n) K_l = Inr (Some (BStr (Some lkp_id))) \<and>
    ben_searchDictStr (Some n) K_f = Inr (Some (BStr (Some node_id))) \<and>
    ben_searchDictStr (Some n) K_q = Inr (Some (BStr (Some [Q_lookup])))"
proof -
  let ?kvs = "\<lambda>sid. [(K_i, self_id m), (K_k, sid), (K_l, lkp_id), (K_f, node_id), (K_q, [Q_lookup])]"
  obtain sid code m1 where p: "is_id sid" "encodes code (BDict (map field (?kvs sid)))"
    "rand_urandom m SHA_DIGEST_LENGTH = (sid, m1)" "sends m (cache_put m1 sid SEND_UNICAST)"
    "send_lookup m sa node_id lkp_id = Inr (transmit (cache_put m1 sid SEND_UNICAST) sa code)"
    using send_lookup_packet[OF assms(1,3,4), of sa] by blast
  have m1: "cache m1 = cache m" "env m1 = (env m)\<lparr>e_urandom_pos := Suc (e_urandom_pos (env m))\<rparr>" "sockfd m1 = sockfd m"
    using p(3) by (auto simp: rand_urandom_def)
  then have "cache_ok m1" using assms(2) by (simp add: cache_ok_def)
  then have "sessions (cache_put m1 sid SEND_UNICAST) sid \<noteq> None" by (simp add: cache_put_sessions)
  moreover have "e_sent (env (transmit (cache_put m1 sid SEND_UNICAST) sa code)) = e_sent (env m) @ [(sa, code)]"
    using assms(5) m1 by (simp add: transmit_sent)
  moreover have "ben_searchDictStr (Some (BDict (map field (?kvs sid)))) k
      = Inr (map_option (\<lambda>v. BStr (Some v)) (map_of (?kvs sid) k))" if "k \<noteq> []" for k
    using that by (intro searchDictStr_field) simp_all
  ultimately show ?thesis using p(1,2,5)
    by (intro exI[of _ "transmit (cache_put m1 sid SEND_UNICAST) sa code"] exI[of _ code]
        exI[of _ "BDict (map field (?kvs sid))"] exI[of _ sid]) (simp add: encodes_def)
qed

lemma conf_ok_main0 [simp]: "conf_ok main0"
  by (simp add: conf_ok_def main0_def main_start_def is_id_def SHA_DIGEST_LENGTH_def)

lemma send_lookup_delivers_example:
  "\<exists>m' code. send_lookup main0 no_addr (replicate 20 3) (replicate 20 4) = Inr m' \<and>
    e_sent (env m') = [(no_addr, code)]"
proof -
  have "is_id (replicate 20 3)" "is_id (replicate 20 4)" by (simp_all add: is_id_def SHA_DIGEST_LENGTH_def)
  moreover have "0 \<le> sockfd main0" "e_sent (env main0) = []" by (simp_all add: main0_def main_start_def)
  ultimately show ?thesis
    using send_lookup_delivers[of main0 "replicate 20 3" "replicate 20 4" no_addr "[]"] by fastforce
qed

text \<open>A reply with nodes carries only nodes that answer: send_node sends one datagram that
  ben_validate accepts and that decodes to a dictionary whose node list holds, in order, exactly
  the nodes of the bucket without an outstanding ping, each with its id, address and port; the
  lookup id is included in replies to ANNOUNCE and LOOKUP.\<close>
lemma send_node_reliable:
  assumes "conf_ok m" "is_id sid" "\<forall>n \<in> set (b_nodes b). node_ok n" "0 \<le> sockfd m"
    and "c = Q_nodes_announce \<or> c = Q_nodes_lookup \<Longrightarrow> is_id lid"
  shows "\<exists>m' code. send_node m sa b sid (Some lid) c = Inr m' \<and>
    e_sent (env m') = e_sent (env m) @ [(sa, code)] \<and>
    ben_validate (code @ rest) (length code) = Inr True \<and>
    ben_dec (2 * length code + 1) (code @ rest)
      = Inr (Some (BDict (node_fields (self_id m) sid (Some lid) c (b_nodes b))))"
proof -
  obtain code where "encodes code (BDict (node_fields (self_id m) sid (Some lid) c (b_nodes b)))"
    "send_node m sa b sid (Some lid) c = Inr (transmit m sa code)"
    using send_node_packet[OF assms(1-3), of c "Some lid" sa] assms(5) by blast
  then show ?thesis using assms(4)
    by (intro exI[of _ "transmit m sa code"] exI[of _ code]) (simp add: encodes_def transmit_sent)
qed

lemma send_node_reliable_example:
  "\<exists>m' code. send_node main0 no_addr \<lparr>b_id = replicate 20 0, b_nodes = [node_of (replicate 20 7)]\<rparr>
      (replicate 20 3) (Some (replicate 20 4)) Q_nodes_lookup = Inr m' \<and> e_sent (env m') = [(no_addr, code)]"
proof -
  have "is_id (replicate 20 3)" "is_id (replicate 20 4)" "node_ok (node_of (replicate 20 7))"
    by (simp_all add: is_id_def SHA_DIGEST_LENGTH_def node_ok_def addr_ok_def node_of_def no_addr_def)
  moreover have "0 \<le> sockfd main0" "e_sent (env main0) = []" by (simp_all add: main0_def main_start_def)
  ultimately show ?thesis
    using send_node_reliable[of main0 "replicate 20 3"
      "\<lparr>b_id = replicate 20 0, b_nodes = [node_of (replicate 20 7)]\<rparr>" Q_nodes_lookup "replicate 20 4" no_addr "[]"]
    by fastforce
qed

end
