(* ===== verification/Invariant.thy ===== *)
theory Invariant
  imports Send BucketSplit
begin

text \<open>
  The invariant of the daemon's state. Every component has its part: identifiers are 20 bytes, the
  bucket list is well formed and its nodes have proper addresses, no hash entry of a store points
  to a deleted item, every host of the database and every session can be found, and the nodes
  that a lookup or an announcement has asked are those it remembers. The theories of the
  components show that each operation preserves it.
\<close>

section \<open>Remembered nodes\<close>

text \<open>The list of buffers and the table over the same buffers.\<close>

definition remember_ok :: "bytes list \<Rightarrow> bytes HASH \<Rightarrow> bool" where
  "remember_ok xs h \<longleftrightarrow> hash_inv h \<and> (\<forall>k. hash_exists h k \<longleftrightarrow> k \<in> set xs)"

lemma remember_init [simp]: "0 < n \<Longrightarrow> remember_ok [] (hash_init n)"
  by (simp add: remember_ok_def hash_inv_init hash_exists_def)

lemma remember_put: "remember_ok xs h \<Longrightarrow> remember_ok (xs @ [k]) (hash_put h k v)"
  by (auto simp: remember_ok_def hash_exists_def hm.get_put hm.inv_put)

section \<open>The parts\<close>

definition lookup_ok :: "LOOKUP \<Rightarrow> bool" where
  "lookup_ok l \<longleftrightarrow> is_id (l_find_id l) \<and> is_id (l_lkp_id l) \<and> remember_ok (l_list l) (l_hash l)"

definition ann_ok :: "ANNOUNCE \<Rightarrow> bool" where
  "ann_ok a \<longleftrightarrow> is_id (a_lkp_id a) \<and> remember_ok (a_list a) (a_hash a)"

definition db_entry_ok :: "DB \<Rightarrow> bool" where
  "db_entry_ok d \<longleftrightarrow> is_id (d_host_id d) \<and> addr_ok (d_addr d)"

text \<open>Where the own identifier is: not in the last of several buckets when it starts with a 0 bit,
  and when it starts with a 1 bit there are at most the buckets \<open>0\<close> and \<open>2 ^ 159\<close>.\<close>

definition split_ok :: "bytes \<Rightarrow> BLIST \<Rightarrow> bool" where
  "split_ok self l \<longleftrightarrow> length (bl_items l) = 1 \<or>
     (if be_nat self < 2 ^ 159 then be_nat self < be_nat (b_id (last (bl_items l)))
      else length (bl_items l) = 2 \<and> bckt_significant_bit (b_id (bl_items l ! 1)) = 0 \<and>
        be_nat (b_id (bl_items l ! 1)) = 2 ^ 159)"

text \<open>No bucket next to others is empty; then \<open>bckt_find_any_match\<close> is safe.\<close>

definition no_gap :: "BLIST \<Rightarrow> bool" where
  "no_gap l \<longleftrightarrow> length (bl_items l) = 1 \<or> (\<forall>k < length (bl_items l). bl_nodes l k \<noteq> [])"

definition nbhd_ok :: "bool \<Rightarrow> bytes \<Rightarrow> BLIST \<Rightarrow> bool" where
  "nbhd_ok g self l \<longleftrightarrow> bl_inv l \<and> (\<forall>n \<in> all_nodes l. node_ok n) \<and> split_ok self l \<and> (g \<longrightarrow> no_gap l)"

definition lkps_ok :: "LOOKUP STORE \<Rightarrow> bool" where
  "lkps_ok s \<longleftrightarrow> st_ok l_lkp_id s \<and> (\<forall>(a, l) \<in> set (s_list s). lookup_ok l)"

definition announce_ok :: "ANNOUNCE STORE \<Rightarrow> bool" where
  "announce_ok s \<longleftrightarrow> st_ok a_lkp_id s \<and> (\<forall>(a, l) \<in> set (s_list s). ann_ok l)"

definition db_ok :: "DB STORE \<Rightarrow> bool" where
  "db_ok s \<longleftrightarrow> st_ok d_host_id s \<and> st_full d_host_id s \<and> (\<forall>(a, d) \<in> set (s_list s). db_entry_ok d)"

text \<open>
  The flag \<open>g\<close> adds \<open>no_gap\<close> to the invariant. The operations that handle a packet keep it, and
  with it they do not dereference NULL; \<open>nbhd_split\<close> and \<open>nbhd_expire\<close> can break it.
  \<open>match_faults g\<close> are the faults of an operation that looks for a bucket.
\<close>

definition main_inv :: "bool \<Rightarrow> MAIN \<Rightarrow> bool" where
  "main_inv g m \<longleftrightarrow> conf_ok m \<and> cache_ok m \<and> nbhd_ok g (self_id m) (nbhd m) \<and> lkps_ok (lkps m) \<and>
     announce_ok (announce m) \<and> db_ok (database m)"

definition match_faults :: "bool \<Rightarrow> fault set" where
  "match_faults g = (if g then {} else {NullDeref})"

lemma main_inv_parts:
  assumes "main_inv g m"
  shows "conf_ok m" "cache_ok m" "nbhd_ok g (self_id m) (nbhd m)" "lkps_ok (lkps m)" "announce_ok (announce m)"
    "db_ok (database m)" "bl_inv (nbhd m)" "is_id (self_id m)" "is_id (conf_host_id (conf m))"
  using assms by (simp_all add: main_inv_def nbhd_ok_def conf_ok_def)

section \<open>Composition\<close>

lemma main_inv_sends: "sends m m' \<Longrightarrow> main_inv g m \<Longrightarrow> main_inv g m'"
  using conf_ok_sends[of m m'] by (simp add: main_inv_def sends_def)

lemma main_inv_start:
  assumes "is_id (conf_node_id c)" "is_id (conf_host_id c)" "\<forall>i n. length (e_urandom e i n) = n"
    "\<forall>x. e_multicast e = Inl x \<longrightarrow> x = ExitFailure"
  shows "main_inv g (main_start c t e)"
  using assms st_init[of 4096] bckt_init_inv
  by (auto simp: main_inv_def conf_ok_def main_start_def cache_ok_def nbhd_ok_def split_ok_def no_gap_def lkps_ok_def announce_ok_def
      db_ok_def all_nodes_def bckt_init_def bl_put_def bl_nodes_def store_init_def
      store_ok_def store_full_def hash_inv_init)

lemma main_inv_main0 [simp]: "main_inv g main0"
  unfolding main0_def by (rule main_inv_start) (simp_all add: is_id_def SHA_DIGEST_LENGTH_def)

text \<open>Writing one part.\<close>

lemma main_inv_nbhd [wf_intros]: "main_inv g m \<Longrightarrow> nbhd_ok g (self_id m) l \<Longrightarrow> main_inv g (m\<lparr>nbhd := l\<rparr>)"
  by (simp add: main_inv_def conf_ok_def cache_ok_def)

lemma main_inv_lkps [wf_intros]: "main_inv g m \<Longrightarrow> lkps_ok s \<Longrightarrow> main_inv g (m\<lparr>lkps := s\<rparr>)"
  by (simp add: main_inv_def conf_ok_def cache_ok_def)

lemma main_inv_announce [wf_intros]: "main_inv g m \<Longrightarrow> announce_ok s \<Longrightarrow> main_inv g (m\<lparr>announce := s\<rparr>)"
  by (simp add: main_inv_def conf_ok_def cache_ok_def)

lemma main_inv_database [wf_intros]: "main_inv g m \<Longrightarrow> db_ok s \<Longrightarrow> main_inv g (m\<lparr>database := s\<rparr>)"
  by (simp add: main_inv_def conf_ok_def cache_ok_def)

lemma main_inv_cache [wf_intros]: "main_inv g m \<Longrightarrow> cache_ok (m\<lparr>cache := s\<rparr>) \<Longrightarrow> main_inv g (m\<lparr>cache := s\<rparr>)"
  by (simp add: main_inv_def conf_ok_def cache_ok_def)

lemma main_inv_p2p [wf_intros]: "main_inv g m \<Longrightarrow> main_inv g (m\<lparr>p2p := x\<rparr>)"
  by (simp add: main_inv_def conf_ok_def cache_ok_def)

lemma main_inv_multicast [wf_intros]: "main_inv g m \<Longrightarrow> main_inv g (m\<lparr>multicast := x\<rparr>)"
  by (simp add: main_inv_def conf_ok_def cache_ok_def)

lemma main_inv_env [wf_intros]: "main_inv g m \<Longrightarrow> e_urandom e = e_urandom (env m) \<Longrightarrow> e_multicast e = e_multicast (env m) \<Longrightarrow>
    main_inv g (m\<lparr>env := e\<rparr>)"
  by (simp add: main_inv_def conf_ok_def)

text \<open>Randomness and clock leave everything but the environment.\<close>

lemma time_5_min: "time_add_5_min_approx m = (t, m') \<Longrightarrow>
    240 + now m \<le> t \<and> t < 360 + now m \<and>
    m' = m\<lparr>env := (env m)\<lparr>e_random_pos := Suc (e_random_pos (env m))\<rparr>\<rparr>"
  by (auto simp: time_add_5_min_approx_def random_def TIME_4_MINUTES_def TIME_2_MINUTES_def)

lemma time_2_min: "time_add_2_min_approx m = (t, m') \<Longrightarrow>
    60 + now m \<le> t \<and> t < 180 + now m \<and>
    m' = m\<lparr>env := (env m)\<lparr>e_random_pos := Suc (e_random_pos (env m))\<rparr>\<rparr>"
  by (auto simp: time_add_2_min_approx_def random_def TIME_1_MINUTE_def TIME_2_MINUTES_def)

lemma main_inv_random_pos [simp]:
  "main_inv g (m\<lparr>env := (env m)\<lparr>e_random_pos := p\<rparr>\<rparr>) = main_inv g m"
  by (simp add: main_inv_def conf_ok_def cache_ok_def)

end
