(* ===== verification/Nbhd.thy ===== *)
theory Nbhd
  imports Invariant
begin

text \<open>
  The neighbourhood, \<open>src/src/neighborhood.c\<close>: the operations of the daemon on its bucket list.
  A \<open>NODE *\<close> is the position of the node, bucket and index. The loops over buckets and nodes run
  from 0 to a \<open>counter\<close> and follow \<open>list_next\<close>; where the body deletes nothing the item of
  iteration \<open>j\<close> is the one at position \<open>j\<close>. In \<open>nbhd_expire\<close> the counter shrinks while the loop
  runs, see below. \<open>lkp_remember\<close> and \<open>announce_remember\<close> act on the object that is passed;
  the callers in \<open>Lookup\<close> and \<open>Announce\<close> write it back into the store it belongs to. The
  messages and \<open>nbhd_pinged\<close> do not touch those stores, so the order of the writes is the same.
\<close>

section \<open>Operations\<close>

definition nbhd_init :: BLIST where
  "nbhd_init = bckt_init"

definition nbhd_update_address :: "NODE \<Rightarrow> IP \<Rightarrow> NODE" where
  "nbhd_update_address n sa = (if n_addr n \<noteq> sa then n\<lparr>n_addr := sa\<rparr> else n)"

text \<open>Reading and writing a node through its item.\<close>

definition node_at :: "MAIN \<Rightarrow> nat \<Rightarrow> nat \<Rightarrow> NODE res" where
  "node_at m k j = (if k < length (bl_items (nbhd m)) \<and> j < length (bl_nodes (nbhd m) k)
     then Inr (bl_nodes (nbhd m) k ! j) else Inl NullDeref)"

definition set_node :: "MAIN \<Rightarrow> nat \<Rightarrow> nat \<Rightarrow> NODE \<Rightarrow> MAIN" where
  "set_node m k j n = m\<lparr>nbhd := bl_set_nodes (nbhd m) k ((bl_nodes (nbhd m) k)[j := n])\<rparr>"

definition nbhd_put :: "MAIN \<Rightarrow> bytes \<Rightarrow> IP \<Rightarrow> MAIN res" where
  "nbhd_put m nid sa = (if node_me (self_id m) nid then Inr m
     else case bckt_find_node (nbhd m) nid of
       Some (k, j) \<Rightarrow> bindr (node_at m k j) (\<lambda>n. Inr (set_node m k j (nbhd_update_address n sa)))
     | None \<Rightarrow> (case time_add_5_min_approx m of (t_ping, m1) \<Rightarrow>
         (case time_add_5_min_approx m1 of (t_find, m2) \<Rightarrow>
           let n = \<lparr>n_addr = sa, n_id = nid, n_time_ping = t_ping, n_time_find = t_find, n_pinged = 1\<rparr>
           in bindr (bckt_put (nbhd m2) (Some n)) (\<lambda>l.
              bindr (send_ping (m2\<lparr>nbhd := l\<rparr>) (n_addr n) SEND_UNICAST) (\<lambda>m3.
              send_find m3 (n_addr n) (self_id m3))))))"

definition nbhd_del :: "MAIN \<Rightarrow> NODE \<Rightarrow> MAIN res" where
  "nbhd_del m n = bindr (bckt_del (nbhd m) (Some n)) (\<lambda>l. Inr (m\<lparr>nbhd := l\<rparr>))"

definition nbhd_send :: "MAIN \<Rightarrow> IP \<Rightarrow> bytes \<Rightarrow> bytes option \<Rightarrow> bytes \<Rightarrow> u8 \<Rightarrow> MAIN res" where
  "nbhd_send m sa node_id lkp_id session_id reply_type =
     bindr (bckt_find_any_match (nbhd m) node_id) (\<lambda>i. case i of None \<Rightarrow> Inr m
       | Some k \<Rightarrow> bindr (item_val (nbhd m) (Some k)) (\<lambda>b.
           send_node m sa b session_id lkp_id reply_type))"

definition nbhd_pinged :: "MAIN \<Rightarrow> bytes \<Rightarrow> MAIN res" where
  "nbhd_pinged m nid = (case bckt_find_node (nbhd m) nid of None \<Rightarrow> Inr m
     | Some (k, j) \<Rightarrow> bindr (node_at m k j) (\<lambda>n. case time_add_5_min_approx m of (t, m1) \<Rightarrow>
         Inr (set_node m1 k j (n\<lparr>n_pinged := n_pinged n + 1, n_time_ping := t\<rparr>))))"

definition nbhd_ponged :: "MAIN \<Rightarrow> bytes \<Rightarrow> IP \<Rightarrow> MAIN res" where
  "nbhd_ponged m nid sa = (case bckt_find_node (nbhd m) nid of None \<Rightarrow> Inr m
     | Some (k, j) \<Rightarrow> bindr (node_at m k j) (\<lambda>n. case time_add_5_min_approx m of (t, m1) \<Rightarrow>
         Inr (set_node m1 k j (n\<lparr>n_pinged := 0, n_time_ping := t, n_addr := sa\<rparr>))))"

definition nbhd_ping :: "MAIN \<Rightarrow> MAIN res" where
  "nbhd_ping m = fold_res (\<lambda>k m'. fold_res (\<lambda>j m'. bindr (node_at m' k j) (\<lambda>n.
       if now m' > n_time_ping n
       then bindr (if j < 8 then send_ping m' (n_addr n) SEND_UNICAST else Inr m') (\<lambda>m1.
         nbhd_pinged m1 (n_id n))
       else Inr m')) [0..<length (bl_nodes (nbhd m') k)] m') [0..<length (bl_items (nbhd m))] m"

definition nbhd_find :: "MAIN \<Rightarrow> bytes \<Rightarrow> MAIN res" where
  "nbhd_find m find_id = bindr (bckt_find_any_match (nbhd m) find_id) (\<lambda>i. case i of None \<Rightarrow> Inr m
     | Some k \<Rightarrow> fold_res (\<lambda>j m'. bindr (node_at m' k j) (\<lambda>n.
         if now m' > n_time_find n
         then bindr (send_find m' (n_addr n) find_id) (\<lambda>m1. case time_add_5_min_approx m1 of (t, m2) \<Rightarrow>
           Inr (set_node m2 k j (n\<lparr>n_time_find := t\<rparr>)))
         else Inr m')) [0..<length (bl_nodes (nbhd m) k)] m)"

definition nbhd_find_myself :: "MAIN \<Rightarrow> MAIN res" where
  "nbhd_find_myself m = nbhd_find m (self_id m)"

definition nbhd_find_random :: "MAIN \<Rightarrow> MAIN res" where
  "nbhd_find_random m = (case rand_urandom m SHA_DIGEST_LENGTH of (node_id, m1) \<Rightarrow> nbhd_find m1 node_id)"

definition lkp_remember :: "LOOKUP \<Rightarrow> bytes \<Rightarrow> LOOKUP" where
  "lkp_remember l node_id = l\<lparr>l_list := l_list l @ [node_id], l_hash := hash_put (l_hash l) node_id node_id\<rparr>"

definition announce_remember :: "ANNOUNCE \<Rightarrow> bytes \<Rightarrow> ANNOUNCE" where
  "announce_remember a node_id = a\<lparr>a_list := a_list a @ [node_id], a_hash := hash_put (a_hash a) node_id node_id\<rparr>"

definition nbhd_lookup :: "MAIN \<Rightarrow> LOOKUP \<Rightarrow> (LOOKUP \<times> MAIN) res" where
  "nbhd_lookup m l = bindr (bckt_find_any_match (nbhd m) (l_find_id l)) (\<lambda>i. case i of None \<Rightarrow> Inr (l, m)
     | Some k \<Rightarrow> fold_res (\<lambda>j (l, m'). bindr (node_at m' k j) (\<lambda>n.
         let l' = lkp_remember l (n_id n)
         in bindr (send_lookup m' (n_addr n) (l_find_id l') (l_lkp_id l')) (\<lambda>m1. Inr (l', m1))))
         [0..<min 8 (length (bl_nodes (nbhd m) k))] (l, m))"

definition nbhd_announce :: "MAIN \<Rightarrow> ANNOUNCE \<Rightarrow> bytes \<Rightarrow> (ANNOUNCE \<times> MAIN) res" where
  "nbhd_announce m a host_id = bindr (bckt_find_any_match (nbhd m) host_id) (\<lambda>i. case i of None \<Rightarrow> Inr (a, m)
     | Some k \<Rightarrow> fold_res (\<lambda>j (a, m'). bindr (node_at m' k j) (\<lambda>n.
         let a' = announce_remember a (n_id n)
         in bindr (send_announce m' (n_addr n) (a_lkp_id a') host_id) (\<lambda>m1. Inr (a', m1))))
         [0..<min 8 (length (bl_nodes (nbhd m) k))] (a, m))"

definition nbhd_empty :: "MAIN \<Rightarrow> bool" where
  "nbhd_empty m \<longleftrightarrow> list_all (\<lambda>k. \<not> 0 < length (bl_nodes (nbhd m) k)) [0..<length (bl_items (nbhd m))]"

text \<open>
  The inner loop of \<open>nbhd_expire\<close> on bucket \<open>k\<close>: \<open>j\<close> is the counter of the loop, \<open>p\<close> the position
  of the item. \<open>next\<close> is read before the deletion; afterwards it is at the position of the deleted
  node. The first argument bounds the iterations by the counter at the start.
\<close>

fun nbhd_expire_bucket :: "nat \<Rightarrow> nat \<Rightarrow> nat \<Rightarrow> nat \<Rightarrow> MAIN \<Rightarrow> MAIN res" where
  "nbhd_expire_bucket fuel k j p m = (if \<not> j < length (bl_nodes (nbhd m) k) then Inr m
     else case fuel of 0 \<Rightarrow> Inl OutOfFuel | Suc fuel' \<Rightarrow> bindr (node_at m k p) (\<lambda>n.
       if n_pinged n \<ge> 4 then bindr (nbhd_del m n) (nbhd_expire_bucket fuel' k (Suc j) p)
       else nbhd_expire_bucket fuel' k (Suc j) (Suc p) m))"

declare nbhd_expire_bucket.simps [simp del]

definition nbhd_expire :: "MAIN \<Rightarrow> MAIN res" where
  "nbhd_expire m = fold_res (\<lambda>k m'. nbhd_expire_bucket (length (bl_nodes (nbhd m') k)) k 0 0 m')
     [0..<length (bl_items (nbhd m))] m"

section \<open>The table after a write\<close>

lemma split_ok_same: "same_ids l l' \<Longrightarrow> bl_items l \<noteq> [] \<Longrightarrow> split_ok self l' = split_ok self l"
proof -
  assume s: "same_ids l l'" and ne: "bl_items l \<noteq> []"
  note f = same_ids_facts[OF s]
  have "bl_items l' \<noteq> []" using f(1) ne by auto
  then have "b_id (last (bl_items l')) = b_id (last (bl_items l))"
    using f(1) f(3)[of "length (bl_items l) - 1"] ne by (simp add: last_conv_nth)
  then show ?thesis using f(1) f(3)[of 1] by (auto simp: split_ok_def)
qed

lemma nbhd_ok_set:
  assumes ok: "nbhd_ok g self l" and k: "k < length (bl_items l)"
    and "distinct (map n_id ns)" "\<forall>n \<in> set ns. bckt_find_best_match l (n_id n) = Some k"
    and ns: "\<forall>n \<in> set ns. node_ok n" and gap: "bl_nodes l k \<noteq> [] \<Longrightarrow> ns \<noteq> []"
  shows "nbhd_ok g self (bl_set_nodes l k ns)"
proof -
  have l: "bl_inv l" "\<forall>n \<in> all_nodes l. node_ok n" "split_ok self l" "g \<longrightarrow> no_gap l"
    using ok by (simp_all add: nbhd_ok_def)
  have "bl_inv (bl_set_nodes l k ns)"
    using set_nodes_inv[OF l(1) k assms(3)] assms(4) ns by (simp add: node_ok_def)
  moreover have "\<forall>n \<in> all_nodes (bl_set_nodes l k ns). node_ok n"
    using l(2) ns all_nodes_set[OF k, of ns] all_nodes_split[OF k] by auto
  moreover have "bl_items l \<noteq> []" using k by auto
  then have "split_ok self (bl_set_nodes l k ns)" using split_ok_same[OF same_ids_set_nodes] l(3) by blast
  moreover have "g \<longrightarrow> no_gap (bl_set_nodes l k ns)" using l(4) gap k by (auto simp: no_gap_def)
  ultimately show ?thesis by (simp add: nbhd_ok_def)
qed

lemma main_inv_write:
  assumes "main_inv g m" and k: "k < length (bl_items (nbhd m))" and j: "j < length (bl_nodes (nbhd m) k)"
    and n: "n_id n = n_id (bl_nodes (nbhd m) k ! j)" "addr_ok (n_addr n)"
  shows "main_inv g (set_node m k j n)"
proof -
  let ?ns = "bl_nodes (nbhd m) k"
  have ok: "nbhd_ok g (self_id m) (nbhd m)" and l: "bl_inv (nbhd m)" using main_inv_parts[OF assms(1)] by simp_all
  have old: "is_id (n_id x)" "bckt_find_best_match (nbhd m) (n_id x) = Some k" "node_ok x" if "x \<in> set ?ns" for x
    using inv_node[OF l k that] ok that k by (auto simp: nbhd_ok_def all_nodes_def)
  have "?ns ! j \<in> set ?ns" using j by simp
  note at = old[OF this]
  have same: "map n_id (?ns[j := n]) = map n_id ?ns" using n(1) j
    by (metis list_update_id map_update nth_map)
  have ids: "distinct (map n_id ?ns)" using l k by (simp add: bl_inv_def)
  have mem: "x \<in> set ?ns \<or> x = n" if "x \<in> set (?ns[j := n])" for x
    using that set_update_subset_insert[of ?ns j n] by blast
  have "nbhd_ok g (self_id m) (bl_set_nodes (nbhd m) k (?ns[j := n]))"
  proof (rule nbhd_ok_set[OF ok k])
    show "distinct (map n_id (?ns[j := n]))" unfolding same by (rule ids)
    show "\<forall>x \<in> set (?ns[j := n]). bckt_find_best_match (nbhd m) (n_id x) = Some k"
      using mem old(2) at(2) n(1) by fastforce
    show "\<forall>x \<in> set (?ns[j := n]). node_ok x"
      using mem old(3) at(1) n by (fastforce simp: node_ok_def)
  qed simp
  then show ?thesis unfolding set_node_def using main_inv_nbhd[OF assms(1)] by simp
qed

lemma node_at_cases:
  assumes "main_inv g m" "is_id nid"
  obtains (absent) k where "bckt_find_node (nbhd m) nid = None" "bckt_find_best_match (nbhd m) nid = Some k"
      "k < length (bl_items (nbhd m))" "nid \<notin> n_id ` all_nodes (nbhd m)" "nid \<notin> n_id ` set (bl_nodes (nbhd m) k)"
  | (present) k j where "bckt_find_node (nbhd m) nid = Some (k, j)" "k < length (bl_items (nbhd m))"
      "j < length (bl_nodes (nbhd m) k)" "n_id (bl_nodes (nbhd m) k ! j) = nid"
      "node_at m k j = Inr (bl_nodes (nbhd m) k ! j)" "node_ok (bl_nodes (nbhd m) k ! j)"
proof (cases rule: find_node_cases[OF main_inv_parts(7)[OF assms(1)] assms(2)])
  case (1 k)
  then show thesis by (intro absent)
next
  case (2 k j)
  moreover have "bl_nodes (nbhd m) k ! j \<in> all_nodes (nbhd m)"
    using nth_mem[OF 2(4)] 2(2) by (auto simp: all_nodes_def simp del: nth_mem)
  then have "node_ok (bl_nodes (nbhd m) k ! j)"
    using main_inv_parts(3)[OF assms(1)] by (simp add: nbhd_ok_def)
  ultimately show thesis by (intro present) (simp_all add: node_at_def)
qed

lemma node_at_ok:
  assumes "main_inv g m" "node_at m k j = Inr n"
  shows "node_ok n" "k < length (bl_items (nbhd m))" "j < length (bl_nodes (nbhd m) k)"
    "n = bl_nodes (nbhd m) k ! j"
  using assms main_inv_parts(3)[OF assms(1)]
  by (auto simp: node_at_def nbhd_ok_def all_nodes_def split: if_splits)

lemma set_node_frame [frame_simps, simp]:
  "conf (set_node m k j n) = conf m" "p2p (set_node m k j n) = p2p m"
  "sockfd (set_node m k j n) = sockfd m" "multicast (set_node m k j n) = multicast m"
  "cache (set_node m k j n) = cache m" "lkps (set_node m k j n) = lkps m"
  "announce (set_node m k j n) = announce m" "database (set_node m k j n) = database m"
  "env (set_node m k j n) = env m"
  by (simp_all add: set_node_def)

section \<open>Every operation keeps the invariant\<close>

lemma post_sends:
  "\<exists>m'. r = Inr m' \<and> sends m m' \<Longrightarrow> main_inv g m \<Longrightarrow> post F (main_inv g) r"
  using main_inv_sends by auto

lemma send_ping_inv [wf_intros]: "main_inv g m \<Longrightarrow> post F (main_inv g) (send_ping m sa t)"
  by (rule post_sends[OF send_ping_spec]) (simp_all add: main_inv_parts)

lemma send_find_inv [wf_intros]: "main_inv g m \<Longrightarrow> is_id nid \<Longrightarrow> post F (main_inv g) (send_find m sa nid)"
  by (rule post_sends[OF send_find_spec]) (simp_all add: main_inv_parts)

lemma any_match_ok:
  assumes "main_inv g m" "is_id nid"
  shows "post (match_faults g) (\<lambda>i. \<forall>k. i = Some k \<longrightarrow> k < length (bl_items (nbhd m)) \<and> bl_nodes (nbhd m) k \<noteq> [])
    (bckt_find_any_match (nbhd m) nid)"
proof -
  have ok: "nbhd_ok g (self_id m) (nbhd m)" and l: "bl_inv (nbhd m)" using main_inv_parts[OF assms(1)] by simp_all
  obtain k where k: "bckt_find_best_match (nbhd m) nid = Some k" "k < length (bl_items (nbhd m))"
    using inv_best[OF l assms(2)] .
  then have iv: "item_val (nbhd m) (Some k) = Inr (bl_items (nbhd m) ! k)" by (simp add: item_val_def)
  show ?thesis
  proof (cases "bl_nodes (nbhd m) k = []")
    case True
    then have "length (bl_items (nbhd m)) = 1 \<or> \<not> g" using ok k by (auto simp: nbhd_ok_def no_gap_def)
    then show ?thesis
    proof
      assume "length (bl_items (nbhd m)) = 1"
      then show ?thesis using k iv True
        by (simp add: bckt_find_any_match_def Let_def bl_nodes_def bl_prev_def)
    next
      assume g: "\<not> g"
      have loop: "any_match_loop n (nbhd m) (Some k) = Inr None \<or>
          any_match_loop n (nbhd m) (Some k) = Inl NullDeref" for n
        using iv True by (cases n; cases "n - 1") (auto simp: bl_nodes_def bl_prev_def item_val_def)
      have "bckt_find_any_match (nbhd m) nid = any_match_loop (length (bl_items (nbhd m))) (nbhd m) (Some k)"
        using k iv True by (simp add: bckt_find_any_match_def Let_def bl_nodes_def)
      with loop[of "length (bl_items (nbhd m))"] g show ?thesis by (auto simp: match_faults_def)
    qed
  qed (use k iv in \<open>simp add: bckt_find_any_match_def Let_def bl_nodes_def\<close>)
qed

lemma time5_inv: "time_add_5_min_approx m = (t, m') \<Longrightarrow> main_inv g m \<Longrightarrow>
    main_inv g m' \<and> nbhd m' = nbhd m \<and> conf m' = conf m"
  by (auto dest: time_5_min)

lemma node_at_nbhd: "nbhd m' = nbhd m \<Longrightarrow> node_at m' k j = node_at m k j"
  by (simp add: node_at_def)

lemma nbhd_put_inv [wf_intros]:
  assumes "main_inv g m" "is_id nid" "addr_ok sa"
  shows "post {} (main_inv g) (nbhd_put m nid sa)"
proof (cases "node_me (self_id m) nid")
  case False
  from assms(1,2) show ?thesis
  proof (cases rule: node_at_cases)
    case (absent k)
    obtain tp m1 where t1: "time_add_5_min_approx m = (tp, m1)" by fastforce
    obtain tf m2 where t2: "time_add_5_min_approx m1 = (tf, m2)" by fastforce
    let ?n = "\<lparr>n_addr = sa, n_id = nid, n_time_ping = tp, n_time_find = tf, n_pinged = 1\<rparr>"
    let ?l = "bl_set_nodes (nbhd m) k (bl_nodes (nbhd m) k @ [?n])"
    have m2: "main_inv g m2" "nbhd m2 = nbhd m" "self_id m2 = self_id m"
      using time5_inv[OF t1 assms(1)] time5_inv[OF t2] by auto
    have inv: "bl_inv (nbhd m)" and ok: "nbhd_ok g (self_id m) (nbhd m)"
      using main_inv_parts[OF assms(1)] by simp_all
    have "nbhd_ok g (self_id m) ?l"
    proof (rule nbhd_ok_set[OF ok absent(3)])
      show "distinct (map n_id (bl_nodes (nbhd m) k @ [?n]))"
        using inv absent(3,5) by (simp add: bl_inv_def)
      show "\<forall>n \<in> set (bl_nodes (nbhd m) k @ [?n]). bckt_find_best_match (nbhd m) (n_id n) = Some k"
        using inv_node[OF inv absent(3)] absent(2) by auto
      show "\<forall>n \<in> set (bl_nodes (nbhd m) k @ [?n]). node_ok n"
        using ok absent(3) assms(2,3) by (auto simp: nbhd_ok_def all_nodes_def node_ok_def)
    qed simp
    then have m3: "main_inv g (m2\<lparr>nbhd := ?l\<rparr>)" using m2 by (intro main_inv_nbhd) simp_all
    have "bckt_put (nbhd m2) (Some ?n) = Inr ?l" using absent m2(2) by (simp add: bckt_put_def)
    then have "nbhd_put m nid sa = bindr (send_ping (m2\<lparr>nbhd := ?l\<rparr>) sa SEND_UNICAST) (\<lambda>m3. send_find m3 sa (self_id m3))"
      using False absent(1) t1 t2 by (simp add: nbhd_put_def)
    then show ?thesis
      by (simp add: post_bind[OF send_ping_inv[OF m3]] send_find_inv main_inv_parts)
  next
    case (present k j)
    have "main_inv g (set_node m k j (nbhd_update_address (bl_nodes (nbhd m) k ! j) sa))"
      by (rule main_inv_write[OF assms(1) present(2,3)])
        (use present(6) assms(3) in \<open>simp_all add: nbhd_update_address_def node_ok_def\<close>)
    with False present show ?thesis by (simp add: nbhd_put_def)
  qed
qed (simp add: nbhd_put_def assms(1))

lemma nbhd_pinged_inv [wf_intros]:
  assumes "main_inv g m" "is_id nid"
  shows "post {} (main_inv g) (nbhd_pinged m nid)"
  using assms
proof (cases rule: node_at_cases)
  case (present k j)
  obtain t m1 where t: "time_add_5_min_approx m = (t, m1)" by fastforce
  note m1 = time5_inv[OF t assms(1)]
  have "main_inv g (set_node m1 k j ((bl_nodes (nbhd m) k ! j)
      \<lparr>n_pinged := n_pinged (bl_nodes (nbhd m) k ! j) + 1, n_time_ping := t\<rparr>))"
    by (rule main_inv_write) (use m1 present in \<open>simp_all add: node_ok_def\<close>)
  with present t show ?thesis by (simp add: nbhd_pinged_def)
qed (simp add: nbhd_pinged_def assms(1))

lemma nbhd_ponged_inv [wf_intros]:
  assumes "main_inv g m" "is_id nid" "addr_ok sa"
  shows "post {} (main_inv g) (nbhd_ponged m nid sa)"
  using assms(1,2)
proof (cases rule: node_at_cases)
  case (present k j)
  obtain t m1 where t: "time_add_5_min_approx m = (t, m1)" by fastforce
  note m1 = time5_inv[OF t assms(1)]
  have "main_inv g (set_node m1 k j ((bl_nodes (nbhd m) k ! j)\<lparr>n_pinged := 0, n_time_ping := t, n_addr := sa\<rparr>))"
    by (rule main_inv_write) (use m1 present assms(3) in \<open>simp_all add: node_ok_def\<close>)
  with present t show ?thesis by (simp add: nbhd_ponged_def)
qed (simp add: nbhd_ponged_def assms(1))

lemma nbhd_send_inv [wf_intros]:
  assumes "main_inv g m" "is_id nid" "is_id sid"
    and "c = Q_nodes_announce \<or> c = Q_nodes_lookup \<Longrightarrow> \<exists>lid. lkp_id = Some lid \<and> is_id lid"
  shows "post (match_faults g) (main_inv g) (nbhd_send m sa nid lkp_id sid c)"
  unfolding nbhd_send_def
proof (rule post_bind[OF any_match_ok[OF assms(1,2)]])
  fix i
  assume i: "\<forall>k. i = Some k \<longrightarrow> k < length (bl_items (nbhd m)) \<and> bl_nodes (nbhd m) k \<noteq> []"
  show "post (match_faults g) (main_inv g) (case i of None \<Rightarrow> Inr m
      | Some k \<Rightarrow> bindr (item_val (nbhd m) (Some k)) (\<lambda>b. send_node m sa b sid lkp_id c))"
  proof (cases i)
    case (Some k)
    with i have k: "k < length (bl_items (nbhd m))" by simp
    then have "\<forall>n \<in> set (b_nodes (bl_items (nbhd m) ! k)). node_ok n"
      using main_inv_parts(3)[OF assms(1)] by (auto simp: nbhd_ok_def all_nodes_def bl_nodes_def)
    then show ?thesis
      using k Some assms by (simp add: item_val_def post_sends[OF send_node_spec] main_inv_parts)
  qed (simp add: assms(1))
qed

section \<open>Loops over the nodes\<close>

text \<open>The nodes are where they were: the loops may write fields of nodes.\<close>

definition same_nodes :: "MAIN \<Rightarrow> MAIN \<Rightarrow> bool" where
  "same_nodes m m' \<longleftrightarrow> p2p m' = p2p m \<and> conf m' = conf m \<and>
     map (\<lambda>b. map n_id (b_nodes b)) (bl_items (nbhd m')) = map (\<lambda>b. map n_id (b_nodes b)) (bl_items (nbhd m))"

lemma same_nodes_refl [simp]: "same_nodes m m"
  by (simp add: same_nodes_def)

lemma same_nodes_trans: "same_nodes a b \<Longrightarrow> same_nodes b c \<Longrightarrow> same_nodes a c"
  by (simp add: same_nodes_def)

lemma same_nodes_facts:
  assumes "same_nodes m m'"
  shows "length (bl_items (nbhd m')) = length (bl_items (nbhd m))" "self_id m' = self_id m"
    "k < length (bl_items (nbhd m)) \<Longrightarrow> length (bl_nodes (nbhd m') k) = length (bl_nodes (nbhd m) k)"
proof -
  have e: "map (\<lambda>b. map n_id (b_nodes b)) (bl_items (nbhd m')) = map (\<lambda>b. map n_id (b_nodes b)) (bl_items (nbhd m))"
    using assms by (simp add: same_nodes_def)
  then show len: "length (bl_items (nbhd m')) = length (bl_items (nbhd m))" by (rule map_eq_imp_length_eq)
  show "length (bl_nodes (nbhd m') k) = length (bl_nodes (nbhd m) k)" if "k < length (bl_items (nbhd m))"
    using arg_cong[OF e, of "\<lambda>xs. length (xs ! k)"] that len by (simp add: bl_nodes_def)
qed (use assms in \<open>simp add: same_nodes_def\<close>)

lemma sends_same_nodes: "sends m m' \<Longrightarrow> same_nodes m m'"
  by (simp add: sends_def same_nodes_def)

lemma set_node_same:
  assumes "n_id n = n_id (bl_nodes (nbhd m) k ! j)"
  shows "same_nodes m (set_node m k j n)"
proof (cases "k < length (bl_items (nbhd m))")
  case True
  have "map n_id ((bl_nodes (nbhd m) k)[j := n]) = map n_id (bl_nodes (nbhd m) k)"
    using assms by (cases "j < length (bl_nodes (nbhd m) k)") (auto simp: map_update nth_map list_update_same_conv list_update_beyond)
  then have "map n_id ((b_nodes (bl_items (nbhd m) ! k))[j := n]) = map n_id (b_nodes (bl_items (nbhd m) ! k))"
    by (simp add: bl_nodes_def)
  then show ?thesis using True
    by (simp add: same_nodes_def set_node_def bl_set_nodes_def bl_nodes_def map_update list_update_same_conv)
qed (simp add: same_nodes_def set_node_def bl_set_nodes_def list_update_beyond not_less)

text \<open>The invariant of these loops, and the rule for one: the body is entered with a node.\<close>

definition walk_inv :: "bool \<Rightarrow> MAIN \<Rightarrow> MAIN \<Rightarrow> bool" where
  "walk_inv g m m' \<longleftrightarrow> main_inv g m' \<and> same_nodes m m'"

lemma walk_refl: "main_inv g m \<Longrightarrow> walk_inv g m m"
  by (simp add: walk_inv_def)

lemma walk_trans: "walk_inv g b c \<Longrightarrow> walk_inv g a b \<Longrightarrow> walk_inv g a c"
  using same_nodes_trans by (auto simp: walk_inv_def)

lemma walk_sends: "\<exists>m'. r = Inr m' \<and> sends m m' \<Longrightarrow> walk_inv g a m \<Longrightarrow> post F (walk_inv g a) r"
  using main_inv_sends sends_same_nodes same_nodes_trans by (fastforce simp: walk_inv_def)

lemma walk_node:
  assumes "walk_inv g m m'" "k < length (bl_items (nbhd m))" "j < length (bl_nodes (nbhd m) k)"
  obtains n where "node_at m' k j = Inr n" "node_ok n" "k < length (bl_items (nbhd m'))"
    "j < length (bl_nodes (nbhd m') k)" "n = bl_nodes (nbhd m') k ! j"
proof -
  note f = same_nodes_facts[of m m']
  have *: "node_at m' k j = Inr (bl_nodes (nbhd m') k ! j)"
    using assms f by (simp add: walk_inv_def node_at_def)
  show thesis using that[OF *] node_at_ok[OF _ *] assms(1) by (auto simp: walk_inv_def)
qed

lemma walk_write:
  assumes "walk_inv g m m1" "k < length (bl_items (nbhd m1))" "j < length (bl_nodes (nbhd m1) k)"
    and "n_id n = n_id (bl_nodes (nbhd m1) k ! j)" "addr_ok (n_addr n)"
  shows "walk_inv g m (set_node m1 k j n)"
  using assms main_inv_write[of g m1 k j n] set_node_same[of n m1 k j] same_nodes_trans
  by (auto simp: walk_inv_def)

lemma walk_time5:
  "time_add_5_min_approx m = (t, m') \<Longrightarrow> walk_inv g a m \<Longrightarrow> walk_inv g a m' \<and> nbhd m' = nbhd m"
  by (auto dest!: time_5_min simp: walk_inv_def same_nodes_def)

lemma walk_pinged:
  assumes "walk_inv g a m" "is_id nid"
  shows "post {} (walk_inv g a) (nbhd_pinged m nid)"
proof -
  have "main_inv g m" using assms(1) by (simp add: walk_inv_def)
  from this assms(2) show ?thesis
  proof (cases rule: node_at_cases)
    case (present k j)
    obtain t m1 where t: "time_add_5_min_approx m = (t, m1)" by fastforce
    note m1 = walk_time5[OF t assms(1)]
    have "walk_inv g a (set_node m1 k j ((bl_nodes (nbhd m) k ! j)
        \<lparr>n_pinged := n_pinged (bl_nodes (nbhd m) k ! j) + 1, n_time_ping := t\<rparr>))"
      by (rule walk_write) (use m1 present in \<open>simp_all add: node_ok_def\<close>)
    with present t show ?thesis by (simp add: nbhd_pinged_def)
  qed (simp add: nbhd_pinged_def assms(1))
qed

lemma nbhd_ping_walk:
  assumes "main_inv g m"
  shows "post {} (walk_inv g m) (nbhd_ping m)"
  unfolding nbhd_ping_def
proof (rule post_fold[where P = "walk_inv g m", OF walk_refl[OF assms]])
  fix k m1
  assume k: "k \<in> set [0..<length (bl_items (nbhd m))]" and m1: "walk_inv g m m1"
  have k1: "k < length (bl_items (nbhd m))" using k by simp
  have len: "length (bl_nodes (nbhd m1) k) = length (bl_nodes (nbhd m) k)"
    using same_nodes_facts[of m m1] m1 k1 by (simp add: walk_inv_def)
  show "post {} (walk_inv g m) (fold_res (\<lambda>j m'. bindr (node_at m' k j) (\<lambda>n.
       if now m' > n_time_ping n
       then bindr (if j < 8 then send_ping m' (n_addr n) SEND_UNICAST else Inr m') (\<lambda>m1.
         nbhd_pinged m1 (n_id n))
       else Inr m')) [0..<length (bl_nodes (nbhd m1) k)] m1)"
  proof (rule post_fold[where P = "walk_inv g m", OF m1])
    fix j m2
    assume j: "j \<in> set [0..<length (bl_nodes (nbhd m1) k)]" and m2: "walk_inv g m m2"
    obtain n where n: "node_at m2 k j = Inr n" "node_ok n" using walk_node[OF m2 k1] j len by auto
    have c: "conf_ok m2" using m2 main_inv_parts by (auto simp: walk_inv_def)
    have "post {} (walk_inv g m) (if j < 8 then send_ping m2 (n_addr n) SEND_UNICAST else Inr m2)"
      using walk_sends[OF send_ping_spec[OF c] m2] m2 by simp
    then have "post {} (walk_inv g m) (bindr (if j < 8 then send_ping m2 (n_addr n) SEND_UNICAST else Inr m2)
        (\<lambda>m1. nbhd_pinged m1 (n_id n)))"
      by (rule post_bind) (use n(2) in \<open>simp add: walk_pinged node_ok_def\<close>)
    with n m2 show "post {} (walk_inv g m) (bindr (node_at m2 k j) (\<lambda>n.
       if now m2 > n_time_ping n
       then bindr (if j < 8 then send_ping m2 (n_addr n) SEND_UNICAST else Inr m2) (\<lambda>m1.
         nbhd_pinged m1 (n_id n))
       else Inr m2))" by simp
  qed
qed

lemma nbhd_ping_inv [wf_intros]: "main_inv g m \<Longrightarrow> post {} (main_inv g) (nbhd_ping m)"
  by (rule post_weaken[OF nbhd_ping_walk]) (auto simp: walk_inv_def)

lemma nbhd_find_inv [wf_intros]:
  assumes "main_inv g m" "is_id nid"
  shows "post (match_faults g) (main_inv g) (nbhd_find m nid)"
  unfolding nbhd_find_def
proof (rule post_bind[OF any_match_ok[OF assms]])
  fix i
  assume i: "\<forall>k. i = Some k \<longrightarrow> k < length (bl_items (nbhd m)) \<and> bl_nodes (nbhd m) k \<noteq> []"
  let ?body = "\<lambda>k j m'. bindr (node_at m' k j) (\<lambda>n.
       if now m' > n_time_find n
       then bindr (send_find m' (n_addr n) nid) (\<lambda>m1. case time_add_5_min_approx m1 of (t, m2) \<Rightarrow>
         Inr (set_node m2 k j (n\<lparr>n_time_find := t\<rparr>)))
       else Inr m')"
  have "post {} (walk_inv g m) (fold_res (?body k) [0..<length (bl_nodes (nbhd m) k)] m)"
    if k: "k < length (bl_items (nbhd m))" for k
  proof (rule post_fold[where P = "walk_inv g m", OF walk_refl[OF assms(1)]])
    fix j m2
    assume j: "j \<in> set [0..<length (bl_nodes (nbhd m) k)]" and m2: "walk_inv g m m2"
    obtain n where n: "node_at m2 k j = Inr n" "node_ok n" "k < length (bl_items (nbhd m2))"
      "j < length (bl_nodes (nbhd m2) k)" "n = bl_nodes (nbhd m2) k ! j"
      using walk_node[OF m2 k] j by auto
    have c: "conf_ok m2" using m2 main_inv_parts by (auto simp: walk_inv_def)
    obtain m3 where m3: "send_find m2 (n_addr n) nid = Inr m3" "sends m2 m3"
      using send_find_spec[OF c assms(2)] by blast
    have w3: "walk_inv g m m3" using walk_sends[of "Inr m3" m2 g m "{}"] m2 m3(2) by simp
    have nb: "nbhd m3 = nbhd m2" using m3(2) by (simp add: sends_def)
    obtain t m4 where t: "time_add_5_min_approx m3 = (t, m4)" by fastforce
    note m4 = walk_time5[OF t w3]
    have "walk_inv g m (set_node m4 k j (n\<lparr>n_time_find := t\<rparr>))"
      by (rule walk_write) (use m4 nb n in \<open>simp_all add: node_ok_def\<close>)
    with n(1) m2 m3(1) t show "post {} (walk_inv g m) (?body k j m2)" by simp
  qed
  note walk = this
  have "post (match_faults g) (main_inv g) (fold_res (?body k) [0..<length (bl_nodes (nbhd m) k)] m)"
    if "k < length (bl_items (nbhd m))" for k
    by (rule post_weaken[OF walk[OF that]]) (simp_all add: walk_inv_def)
  with i assms(1) show "post (match_faults g) (main_inv g) (case i of None \<Rightarrow> Inr m
      | Some k \<Rightarrow> fold_res (?body k) [0..<length (bl_nodes (nbhd m) k)] m)"
    by (cases i) simp_all
qed

lemma nbhd_find_myself_inv [wf_intros]:
  "main_inv g m \<Longrightarrow> post (match_faults g) (main_inv g) (nbhd_find_myself m)"
  by (simp add: nbhd_find_myself_def nbhd_find_inv main_inv_parts)

lemma urandom_inv: "rand_urandom m SHA_DIGEST_LENGTH = (x, m') \<Longrightarrow> main_inv g m \<Longrightarrow> main_inv g m' \<and> is_id x"
  using main_inv_parts(1)[of g m] main_inv_sends sends_urandom[of m SHA_DIGEST_LENGTH x m']
  by (auto simp: conf_ok_def is_id_def)

lemma nbhd_find_random_inv [wf_intros]:
  assumes "main_inv g m"
  shows "post (match_faults g) (main_inv g) (nbhd_find_random m)"
proof (cases "rand_urandom m SHA_DIGEST_LENGTH")
  case (Pair x m1)
  with urandom_inv[OF Pair assms] show ?thesis by (simp add: nbhd_find_random_def nbhd_find_inv)
qed

text \<open>\<open>nbhd_lookup\<close> and \<open>nbhd_announce\<close> only send; the object remembers who was asked.\<close>

lemma lkp_remember_ok [wf_intros]:
  "lookup_ok l \<Longrightarrow> lookup_ok (lkp_remember l nid) \<and> l_lkp_id (lkp_remember l nid) = l_lkp_id l \<and>
    l_find_id (lkp_remember l nid) = l_find_id l"
  by (simp add: lookup_ok_def lkp_remember_def remember_put)

lemma announce_remember_ok [wf_intros]:
  "ann_ok a \<Longrightarrow> ann_ok (announce_remember a nid) \<and> a_lkp_id (announce_remember a nid) = a_lkp_id a"
  by (simp add: ann_ok_def announce_remember_def remember_put)

lemma sends_node:
  assumes "main_inv g m" "sends m m'" "k < length (bl_items (nbhd m))" "j < length (bl_nodes (nbhd m) k)"
  obtains n where "node_at m' k j = Inr n" "node_ok n"
  using walk_node[of g m m' k j] assms main_inv_sends sends_same_nodes by (auto simp: walk_inv_def)

lemma nbhd_lookup_spec:
  assumes m: "main_inv g m" and l: "lookup_ok l"
  shows "post (match_faults g) (\<lambda>(l', m'). sends m m' \<and> lookup_ok l' \<and> l_lkp_id l' = l_lkp_id l) (nbhd_lookup m l)"
  unfolding nbhd_lookup_def
proof (rule post_bind[OF any_match_ok[OF m]])
  show "is_id (l_find_id l)" using l by (simp add: lookup_ok_def)
next
  fix i
  assume i: "\<forall>k. i = Some k \<longrightarrow> k < length (bl_items (nbhd m)) \<and> bl_nodes (nbhd m) k \<noteq> []"
  let ?P = "\<lambda>(l', m'). sends m m' \<and> lookup_ok l' \<and> l_lkp_id l' = l_lkp_id l"
  let ?body = "\<lambda>k j (l, m'). bindr (node_at m' k j) (\<lambda>n. let l' = lkp_remember l (n_id n)
         in bindr (send_lookup m' (n_addr n) (l_find_id l') (l_lkp_id l')) (\<lambda>m1. Inr (l', m1)))"
  have "post (match_faults g) ?P (fold_res (?body k) [0..<min 8 (length (bl_nodes (nbhd m) k))] (l, m))"
    if k: "k < length (bl_items (nbhd m))" for k
  proof (rule post_fold[where P = ?P])
    fix j p
    assume j: "j \<in> set [0..<min 8 (length (bl_nodes (nbhd m) k))]" and p: "?P p"
    obtain l1 m1 where p1: "p = (l1, m1)" by (cases p)
    have s1: "sends m m1" and l1: "lookup_ok l1" "l_lkp_id l1 = l_lkp_id l" using p p1 by simp_all
    obtain n where n: "node_at m1 k j = Inr n" "node_ok n" using sends_node[OF m s1 k] j by auto
    have c: "conf_ok m1" using conf_ok_sends[OF s1] m by (simp add: main_inv_parts)
    note l2 = lkp_remember_ok[OF l1(1), of "n_id n"]
    then have ids: "is_id (l_find_id (lkp_remember l1 (n_id n)))" "is_id (l_lkp_id (lkp_remember l1 (n_id n)))"
      by (auto simp: lookup_ok_def)
    obtain m2 where m2: "send_lookup m1 (n_addr n) (l_find_id (lkp_remember l1 (n_id n)))
        (l_lkp_id (lkp_remember l1 (n_id n))) = Inr m2" "sends m1 m2"
      using send_lookup_spec[OF c ids] by blast
    with n l1 l2 p1 sends_trans[OF s1 m2(2)] show "post (match_faults g) ?P (?body k j p)"
      by (simp add: Let_def)
  qed (simp add: l)
  with i l show "post (match_faults g) ?P (case i of None \<Rightarrow> Inr (l, m)
      | Some k \<Rightarrow> fold_res (?body k) [0..<min 8 (length (bl_nodes (nbhd m) k))] (l, m))"
    by (cases i) simp_all
qed

lemma nbhd_announce_spec:
  assumes m: "main_inv g m" and a: "ann_ok a" and h: "is_id host_id"
  shows "post (match_faults g) (\<lambda>(a', m'). sends m m' \<and> ann_ok a' \<and> a_lkp_id a' = a_lkp_id a)
    (nbhd_announce m a host_id)"
  unfolding nbhd_announce_def
proof (rule post_bind[OF any_match_ok[OF m h]])
  fix i
  assume i: "\<forall>k. i = Some k \<longrightarrow> k < length (bl_items (nbhd m)) \<and> bl_nodes (nbhd m) k \<noteq> []"
  let ?P = "\<lambda>(a', m'). sends m m' \<and> ann_ok a' \<and> a_lkp_id a' = a_lkp_id a"
  let ?body = "\<lambda>k j (a, m'). bindr (node_at m' k j) (\<lambda>n. let a' = announce_remember a (n_id n)
         in bindr (send_announce m' (n_addr n) (a_lkp_id a') host_id) (\<lambda>m1. Inr (a', m1)))"
  have "post (match_faults g) ?P (fold_res (?body k) [0..<min 8 (length (bl_nodes (nbhd m) k))] (a, m))"
    if k: "k < length (bl_items (nbhd m))" for k
  proof (rule post_fold[where P = ?P])
    fix j p
    assume j: "j \<in> set [0..<min 8 (length (bl_nodes (nbhd m) k))]" and p: "?P p"
    obtain a1 m1 where p1: "p = (a1, m1)" by (cases p)
    have s1: "sends m m1" and a1: "ann_ok a1" "a_lkp_id a1 = a_lkp_id a" using p p1 by simp_all
    obtain n where n: "node_at m1 k j = Inr n" "node_ok n" using sends_node[OF m s1 k] j by auto
    have c: "conf_ok m1" using conf_ok_sends[OF s1] m by (simp add: main_inv_parts)
    note a2 = announce_remember_ok[OF a1(1), of "n_id n"]
    then have id: "is_id (a_lkp_id (announce_remember a1 (n_id n)))" by (auto simp: ann_ok_def)
    obtain m2 where m2: "send_announce m1 (n_addr n) (a_lkp_id (announce_remember a1 (n_id n))) host_id = Inr m2"
        "sends m1 m2"
      using send_announce_spec[OF c id h] by blast
    with n a1 a2 p1 sends_trans[OF s1 m2(2)] show "post (match_faults g) ?P (?body k j p)"
      by (simp add: Let_def)
  qed (simp add: a)
  with i a show "post (match_faults g) ?P (case i of None \<Rightarrow> Inr (a, m)
      | Some k \<Rightarrow> fold_res (?body k) [0..<min 8 (length (bl_nodes (nbhd m) k))] (a, m))"
    by (cases i) simp_all
qed

end
