(* ===== verification/CountedLoop.thy ===== *)
theory CountedLoop
  imports Prelude
begin

text \<open>
  The loop shape of \<open>nbhd_expire\<close> and \<open>db_expire\<close>: it runs from 0 to the \<open>counter\<close> of a list and
  deletes items of that list on the way, so the bound shrinks with every deletion and the loop ends
  before it has seen the whole list. \<open>counted_sweep bad b xs\<close> is what is left of the rest \<open>xs\<close> of
  the list when \<open>b\<close> is the counter minus the iterations already made: an item that stays costs one,
  an item that is deleted costs two.
\<close>

fun counted_sweep :: "('a \<Rightarrow> bool) \<Rightarrow> nat \<Rightarrow> 'a list \<Rightarrow> 'a list" where
  "counted_sweep bad b [] = []"
| "counted_sweep bad b (x # xs) = (if b = 0 then x # xs
     else if bad x then counted_sweep bad (b - 2) xs else x # counted_sweep bad (b - 1) xs)"

lemma counted_sweep_0 [simp]: "counted_sweep bad 0 xs = xs"
  by (cases xs) simp_all

lemma counted_sweep_sub: "set (counted_sweep bad b xs) \<subseteq> set xs"
  by (induction bad b xs rule: counted_sweep.induct) auto

lemma counted_sweep_distinct: "distinct (map f xs) \<Longrightarrow> distinct (map f (counted_sweep bad b xs))"
proof (induction bad b xs rule: counted_sweep.induct)
  case (2 bad b x xs)
  have "f ` set (counted_sweep bad (b - 1) xs) \<subseteq> f ` set xs" by (rule image_mono[OF counted_sweep_sub])
  with 2 show ?case by auto
qed simp

text \<open>Only bad items go.\<close>

lemma counted_sweep_keeps: "filter (\<lambda>x. \<not> bad x) (counted_sweep bad b xs) = filter (\<lambda>x. \<not> bad x) xs"
  by (induction bad b xs rule: counted_sweep.induct) auto

lemma counted_sweep_good: "x \<in> set xs \<Longrightarrow> \<not> bad x \<Longrightarrow> x \<in> set (counted_sweep bad b xs)"
  using arg_cong[OF counted_sweep_keeps, of set bad b xs] by auto

lemma counted_sweep_none: "\<forall>x \<in> set xs. \<not> bad x \<Longrightarrow> counted_sweep bad b xs = xs"
  by (induction bad b xs rule: counted_sweep.induct) auto

text \<open>The first bad item always goes, with the whole list as budget.\<close>

lemma counted_sweep_first:
  assumes "\<forall>x \<in> set gs. \<not> bad x" "bad x"
  shows "counted_sweep bad (length (gs @ x # ys)) (gs @ x # ys) = gs @ counted_sweep bad (length ys - 1) ys"
  using assms
proof (induction gs)
  case Nil
  then show ?case by (cases "length ys") simp_all
qed simp

lemma counted_sweep_progress:
  assumes "\<exists>x \<in> set xs. bad x"
  shows "length (filter bad (counted_sweep bad (length xs) xs)) < length (filter bad xs)"
proof -
  obtain gs x ys where xs: "xs = gs @ x # ys" "bad x" "\<forall>y \<in> set gs. \<not> bad y"
    using split_list_first_prop[OF assms] by blast
  have le: "length (filter bad (counted_sweep bad b zs)) \<le> length (filter bad zs)" for b zs
    by (induction bad b zs rule: counted_sweep.induct) auto
  show ?thesis
    unfolding xs(1) counted_sweep_first[OF xs(3,2)] using le[of "length ys - 1" ys] xs(2) by simp
qed

text \<open>Of a list of bad items only every second one is reached.\<close>

lemma counted_sweep_all_bad:
  "\<forall>x \<in> set xs. bad x \<Longrightarrow> length (counted_sweep bad b xs) = length xs - (b + 1) div 2"
proof (induction bad b xs rule: counted_sweep.induct)
  case (2 bad b x xs)
  show ?case
  proof (cases b)
    case (Suc c)
    have "(Suc c - 2 + 1) div 2 = (Suc c + 1) div 2 - 1" by (cases c) simp_all
    moreover have "length (counted_sweep bad (Suc c - 2) xs) = length xs - (Suc c - 2 + 1) div 2"
      using "2.IH"(1) "2.prems" Suc by simp
    moreover have "0 < (Suc c + 1) div 2" by simp
    ultimately show ?thesis using "2.prems" Suc by (simp del: diff_Suc_Suc div_mult_self1 add: Suc_diff_le)
  qed simp
qed simp

text \<open>Repeating the loop removes every bad item.\<close>

lemma counted_sweep_repeat:
  "length (filter bad xs) \<le> n \<Longrightarrow>
    ((\<lambda>ys. counted_sweep bad (length ys) ys) ^^ n) xs = filter (\<lambda>x. \<not> bad x) xs"
proof (induction n arbitrary: xs)
  case 0
  then show ?case by (simp add: filter_id_conv filter_empty_conv eq_commute[of xs])
next
  case (Suc n)
  let ?ys = "counted_sweep bad (length xs) xs"
  have "length (filter bad ?ys) \<le> n"
  proof (cases "\<exists>x \<in> set xs. bad x")
    case True
    from counted_sweep_progress[OF this] Suc.prems show ?thesis by linarith
  next
    case False
    then show ?thesis using counted_sweep_none[of xs bad] by simp
  qed
  from Suc.IH[OF this] show ?case
    unfolding funpow_Suc_right o_apply by (simp only: counted_sweep_keeps)
qed

end
