(* ===== verification/Database.thy ===== *)
theory Database
  imports Nbhd CountedLoop
begin

text \<open>
  The database of announced hosts, \<open>src/src/database.c\<close>: a store of \<open>DB\<close> objects by host id. The
  list and the table always hold the same entries. \<open>db_expire\<close> has the counted loop of
  \<open>CountedLoop\<close>.
\<close>

section \<open>Operations\<close>

definition db_init :: "DB STORE" where
  "db_init = store_init 4096"

definition db_update :: "MAIN \<Rightarrow> DB \<Rightarrow> IP \<Rightarrow> DB" where
  "db_update m db sa = db\<lparr>d_time_anno := time_add_15_min m, d_addr := sa\<rparr>"

definition db_find :: "MAIN \<Rightarrow> bytes \<Rightarrow> addr option" where
  "db_find m host_id = hash_get (s_hash (database m)) host_id"

text \<open>\<open>i->val\<close>\<close>

definition db_val :: "MAIN \<Rightarrow> addr \<Rightarrow> DB res" where
  "db_val m i = (case map_of (s_list (database m)) i of None \<Rightarrow> Inl UseAfterFree | Some db \<Rightarrow> Inr db)"

text \<open>In the branch that creates the object its address field is written before it is read.\<close>

definition db_put :: "MAIN \<Rightarrow> bytes \<Rightarrow> IP \<Rightarrow> MAIN res" where
  "db_put m host_id sa = bindr (case db_find m host_id of
       None \<Rightarrow> (let db = db_update m \<lparr>d_host_id = host_id, d_addr = sa, d_time_anno = 0\<rparr> sa
               in Inr (store_put (database m) (d_host_id db) db, s_new (database m), db))
     | Some i \<Rightarrow> bindr (db_val m i) (\<lambda>db. Inr (database m, i, db)))
     (\<lambda>(s, i, db). Inr (m\<lparr>database := store_set s i (db_update m db sa)\<rparr>))"

definition db_del :: "MAIN \<Rightarrow> addr \<Rightarrow> MAIN res" where
  "db_del m i = bindr (db_val m i) (\<lambda>db. Inr (m\<lparr>database := store_del (database m) (d_host_id db) i\<rparr>))"

text \<open>The loop of \<open>db_expire\<close>: \<open>j\<close> counts, \<open>p\<close> is the position of the item; \<open>list_next\<close> is read before
  the deletion. The first argument bounds the iterations by the counter at the start.\<close>

fun db_expire_loop :: "nat \<Rightarrow> nat \<Rightarrow> nat \<Rightarrow> MAIN \<Rightarrow> MAIN res" where
  "db_expire_loop fuel j p m = (if \<not> j < length (s_list (database m)) then Inr m
     else case fuel of 0 \<Rightarrow> Inl OutOfFuel | Suc fuel' \<Rightarrow>
       if length (s_list (database m)) \<le> p then Inl NullDeref
       else (case s_list (database m) ! p of (i, db) \<Rightarrow>
         if now m > d_time_anno db then bindr (db_del m i) (db_expire_loop fuel' (Suc j) p)
         else db_expire_loop fuel' (Suc j) (Suc p) m))"

declare db_expire_loop.simps [simp del]

definition db_expire :: "MAIN \<Rightarrow> MAIN res" where
  "db_expire m = db_expire_loop (length (s_list (database m))) 0 0 m"

definition db_send :: "MAIN \<Rightarrow> IP \<Rightarrow> bytes \<Rightarrow> bytes \<Rightarrow> bytes \<Rightarrow> (bool \<times> MAIN) res" where
  "db_send m from host_id lkp_id session_id = (case db_find m host_id of None \<Rightarrow> Inr (False, m)
     | Some i \<Rightarrow> bindr (db_val m i) (\<lambda>db.
         bindr (send_value m from (d_addr db) session_id lkp_id) (\<lambda>m'. Inr (True, m'))))"

definition db_address :: "MAIN \<Rightarrow> bytes \<Rightarrow> IP option res" where
  "db_address m host_id = (case db_find m host_id of None \<Rightarrow> Inr None
     | Some i \<Rightarrow> bindr (db_val m i) (\<lambda>db. Inr (Some (d_addr db))))"

section \<open>Behaviour\<close>

text \<open>The hosts that are known.\<close>

abbreviation hosts :: "MAIN \<Rightarrow> bytes \<Rightarrow> DB option" where
  "hosts m \<equiv> st_map (database m)"

lemma db_parts:
  "db_ok s \<Longrightarrow> st_ok d_host_id s" "db_ok s \<Longrightarrow> st_full d_host_id s"
  "db_ok s \<Longrightarrow> (a, d) \<in> set (s_list s) \<Longrightarrow> db_entry_ok d"
  by (auto simp: db_ok_def)

lemma db_find_cases:
  assumes "db_ok (database m)"
  obtains (absent) "db_find m k = None" "hosts m k = None"
  | (present) i db where "db_find m k = Some i" "db_val m i = Inr db" "hosts m k = Some db"
      "(i, db) \<in> set (s_list (database m))" "d_host_id db = k" "db_entry_ok db"
proof (cases rule: store_get_safe[OF db_parts(1)[OF assms], of k])
  case 1
  then show thesis by (intro absent) (simp_all add: db_find_def)
next
  case (2 a v)
  then have "db_val m a = Inr v"
    by (auto simp: store_get_def db_val_def split: option.splits)
  with 2 show thesis
    using db_parts(3)[OF assms 2(3)] by (intro present) (simp_all add: db_find_def)
qed

lemma map_of_store_set:
  fixes s :: "'v STORE"
  shows "map_of (s_list (store_set s a w)) b = (if b = a \<and> map_of (s_list s) a \<noteq> None then Some w else map_of (s_list s) b)"
proof -
  have "map_of (map (\<lambda>(b, v). if b = a then (b, w) else (b, v)) xs) b
      = (if b = a \<and> map_of xs a \<noteq> None then Some w else map_of xs b)" for xs :: "(addr \<times> 'v) list"
    by (induction xs) auto
  then show ?thesis by (simp add: store_set_def)
qed

lemma st_map_set:
  assumes "st_ok key s" "hash_get (s_hash s) k = Some a"
  shows "st_map (store_set s a w) = (st_map s)(k \<mapsto> w)"
proof
  fix k'
  obtain v where v: "(a, v) \<in> set (s_list s)" "key v = k" using ok_live[OF assms] by blast
  then have a: "map_of (s_list s) a \<noteq> None" by (auto simp: map_of_eq_None_iff intro: rev_image_eqI)
  have "b \<noteq> a" if "hash_get (s_hash s) k' = Some b" "k' \<noteq> k" for b
    using ok_live[OF assms(1) that(1)] v ok_unique[OF assms(1)] that(2) by metis
  with a assms(2) show "st_map (store_set s a w) k' = ((st_map s)(k \<mapsto> w)) k'"
    by (auto simp: st_map_def map_of_store_set split: option.splits)
qed

lemma db_ok_set:
  assumes "db_ok s" "(a, v) \<in> set (s_list s)" "d_host_id w = d_host_id v" "db_entry_ok w"
  shows "db_ok (store_set s a w)"
proof -
  have "\<forall>(b, d) \<in> set (s_list (store_set s a w)). db_entry_ok d"
    using assms(1,4) by (auto simp: db_ok_def set_store_set split: if_splits)
  then show ?thesis using st_set[OF db_parts(1)[OF assms(1)] assms(2,3)] db_parts(2)[OF assms(1)]
    by (simp add: db_ok_def)
qed

lemma db_put_spec:
  assumes ok: "db_ok (database m)" and "is_id k" "addr_ok sa"
  shows "\<exists>s. db_put m k sa = Inr (m\<lparr>database := s\<rparr>) \<and> db_ok s \<and>
    st_map s = (hosts m)(k \<mapsto> \<lparr>d_host_id = k, d_addr = sa, d_time_anno = now m + 900\<rparr>)"
  using ok
proof (cases rule: db_find_cases[of m k])
  case absent
  let ?d = "\<lparr>d_host_id = k, d_addr = sa, d_time_anno = now m + 900\<rparr>" and ?s = "database m"
  let ?s1 = "store_put ?s k ?d"
  have st: "st_ok d_host_id ?s" "st_full d_host_id ?s" using db_parts[OF ok] by simp_all
  have new: "hash_get (s_hash ?s) k = None" using absent by (simp add: db_find_def)
  have mem: "(s_new ?s, ?d) \<in> set (s_list ?s1)" by (simp add: store_put_def seq_put_def)
  have ent: "db_entry_ok ?d" using assms(2,3) by (simp add: db_entry_ok_def)
  then have ok1: "db_ok ?s1"
    using store_put_ok[OF st(1), of ?d k] store_put_full[OF st new, of ?d] ok
    by (auto simp: db_ok_def store_put_def seq_put_def)
  have inv: "hash_inv (s_hash ?s)" using st(1) by (simp add: store_ok_def)
  have at: "hash_get (s_hash ?s1) k = Some (s_new ?s)"
    using hm.get_put[OF inv] by (simp add: store_put_def)
  have "db_ok (store_set ?s1 (s_new ?s) ?d)" by (rule db_ok_set[OF ok1 mem _ ent]) simp
  moreover have "st_map (store_set ?s1 (s_new ?s) ?d) = (hosts m)(k \<mapsto> ?d)"
    using st_map_set[OF db_parts(1)[OF ok1] at] st_map_put[OF st(1), of k ?d] by simp
  ultimately show ?thesis
    using absent by (intro exI[of _ "store_set ?s1 (s_new ?s) ?d"])
      (simp add: db_put_def db_update_def Let_def time_add_15_min_def TIME_15_MINUTES_def)
next
  case (present i db)
  let ?d = "\<lparr>d_host_id = k, d_addr = sa, d_time_anno = now m + 900\<rparr>"
  have d: "db_update m db sa = ?d"
    using present by (cases db) (simp add: db_update_def time_add_15_min_def TIME_15_MINUTES_def)
  have "db_ok (store_set (database m) i ?d)"
    by (rule db_ok_set[OF ok present(4)]) (use present assms(2,3) in \<open>simp_all add: db_entry_ok_def\<close>)
  moreover have "st_map (store_set (database m) i ?d) = (hosts m)(k \<mapsto> ?d)"
    using st_map_set[OF db_parts(1)[OF ok]] present(1) by (simp add: db_find_def)
  ultimately show ?thesis
    using present d by (intro exI[of _ "store_set (database m) i ?d"]) (simp add: db_put_def)
qed

lemma db_put_inv [wf_intros]:
  "main_inv g m \<Longrightarrow> is_id k \<Longrightarrow> addr_ok sa \<Longrightarrow> post {} (main_inv g) (db_put m k sa)"
  using db_put_spec[of m k sa] main_inv_parts(6)[of g m] main_inv_database by auto

lemma db_send_inv [wf_intros]:
  assumes m: "main_inv g m" and "is_id k" "is_id lid" "is_id sid"
  shows "post {} (\<lambda>(b, m'). main_inv g m' \<and> sends m m' \<and> (b \<longleftrightarrow> hosts m k \<noteq> None)) (db_send m from k lid sid)"
  using main_inv_parts(6)[OF m]
proof (cases rule: db_find_cases[of m k])
  case (present i db)
  have "conf_ok m" "addr_ok (d_addr db)" using main_inv_parts[OF m] present(6) by (simp_all add: db_entry_ok_def)
  from send_value_spec[OF this assms(4,3)] obtain m' where
    "send_value m from (d_addr db) sid lid = Inr m'" "sends m m'" by blast
  with present show ?thesis using main_inv_sends[OF _ m] by (simp add: db_send_def)
qed (simp add: db_send_def m)

lemma db_address_spec:
  assumes "db_ok (database m)"
  shows "db_address m k = Inr (map_option d_addr (hosts m k))"
  using assms by (cases rule: db_find_cases[of m k]) (simp_all add: db_address_def)

section \<open>Expiry\<close>

abbreviation outdated :: "int \<Rightarrow> addr \<times> DB \<Rightarrow> bool" where
  "outdated t \<equiv> (\<lambda>(i, db). t > d_time_anno db)"

lemma seq_del_append:
  assumes "distinct (map fst (xs @ (a, v) # ys))"
  shows "seq_del (xs @ (a, v) # ys) a = xs @ ys"
proof -
  have "\<forall>q \<in> set xs. fst q \<noteq> a" "\<forall>q \<in> set ys. fst q \<noteq> a" using assms by (force simp: image_iff)+
  then show ?thesis by (simp add: seq_del_def filter_id_conv)
qed

lemma db_del_item:
  assumes "db_ok (database m)" "s_list (database m) = xs @ (i, db) # ys"
  shows "\<exists>s. db_del m i = Inr (m\<lparr>database := s\<rparr>) \<and> db_ok s \<and> s_list s = xs @ ys"
proof -
  let ?s = "store_del (database m) (d_host_id db) i"
  have st: "st_ok d_host_id (database m)" "st_full d_host_id (database m)" using db_parts[OF assms(1)] by simp_all
  have mem: "(i, db) \<in> set (s_list (database m))" using assms(2) by simp
  have d: "distinct (map fst (s_list (database m)))" using st(1) by (simp add: store_ok_def)
  then have "db_val m i = Inr db" using mem by (simp add: db_val_def)
  moreover have l: "s_list ?s = xs @ ys" using seq_del_append[of xs i db ys] d assms(2) by (simp add: store_del_def)
  moreover have "db_ok ?s" using store_del_ok[OF st(1) mem refl] store_del_full[OF st mem refl] assms
    by (auto simp: db_ok_def l)
  ultimately show ?thesis by (intro exI[of _ ?s]) (simp add: db_del_def)
qed

lemma db_expire_loop_spec:
  assumes "db_ok (database m)" "s_list (database m) = gs @ xs"
    "j \<le> length gs + length xs" "length gs + length xs - j \<le> fuel" "length gs \<le> j"
  shows "\<exists>s. db_expire_loop fuel j (length gs) m = Inr (m\<lparr>database := s\<rparr>) \<and> db_ok s \<and>
    s_list s = gs @ counted_sweep (outdated (now m)) (length gs + length xs - j) xs"
  using assms
proof (induction xs arbitrary: fuel j gs m)
  case Nil
  then show ?case
    by (subst db_expire_loop.simps) (intro exI[of _ "database m"], cases m, simp)
next
  case (Cons x xs)
  obtain i db where x: "x = (i, db)" by (cases x)
  define b where "b = length gs + length (x # xs) - j"
  show ?case
  proof (cases "j = length gs + length (x # xs)")
    case True
    then show ?thesis using Cons.prems(1,2)
      by (subst db_expire_loop.simps) (intro exI[of _ "database m"], cases m, simp)
  next
    case False
    then obtain f where f: "fuel = Suc f" using Cons.prems(3,4) by (cases fuel) auto
    have b: "length gs + length xs - Suc j = b - 2" "length (gs @ [x]) + length xs - Suc j = b - 1" "b \<noteq> 0"
      using False Cons.prems(3) by (simp_all add: b_def)
    show ?thesis
    proof (cases "outdated (now m) x")
      case True
      obtain s where s: "db_del m i = Inr (m\<lparr>database := s\<rparr>)" "db_ok s" "s_list s = gs @ xs"
        using db_del_item[OF Cons.prems(1), of gs i db xs] Cons.prems(2) x by auto
      let ?m = "m\<lparr>database := s\<rparr>"
      have step: "db_expire_loop fuel j (length gs) m = db_expire_loop f (Suc j) (length gs) ?m"
        using False Cons.prems(2,3) f s True x by (subst db_expire_loop.simps) simp
      have cs: "counted_sweep (outdated (now m)) b (x # xs) = counted_sweep (outdated (now m)) (b - 2) xs"
        using True b(3) by simp
      show ?thesis
      proof (cases "Suc j \<le> length gs + length xs")
        case ok: True
        have "\<exists>s. db_expire_loop f (Suc j) (length gs) ?m = Inr (?m\<lparr>database := s\<rparr>) \<and> db_ok s \<and>
            s_list s = gs @ counted_sweep (outdated (now ?m)) (length gs + length xs - Suc j) xs"
          using s Cons.prems f ok by (intro Cons.IH) auto
        with step cs show ?thesis unfolding b b_def[symmetric] by simp
      next
        case stop: False
        then have j: "j = length gs + length xs" using Cons.prems(3) False by simp
        then have "b - 2 = 0" by (simp add: b_def)
        moreover from j have "db_expire_loop f (Suc j) (length gs) ?m = Inr ?m"
          using s(3) by (subst db_expire_loop.simps) simp
        ultimately show ?thesis using step cs s unfolding b_def[symmetric] by (intro exI[of _ s]) simp
      qed
    next
      case good: False
      have "\<exists>s. db_expire_loop f (Suc j) (length (gs @ [x])) m = Inr (m\<lparr>database := s\<rparr>) \<and> db_ok s \<and>
          s_list s = (gs @ [x]) @ counted_sweep (outdated (now m)) (length (gs @ [x]) + length xs - Suc j) xs"
        using Cons.prems f False by (intro Cons.IH) auto
      moreover have "db_expire_loop fuel j (length gs) m = db_expire_loop f (Suc j) (Suc (length gs)) m"
        using False Cons.prems(2,3) f good x by (subst db_expire_loop.simps) simp
      moreover have "counted_sweep (outdated (now m)) b (x # xs) = x # counted_sweep (outdated (now m)) (b - 1) xs"
        using good b(3) by simp
      ultimately show ?thesis unfolding b b_def[symmetric] by simp
    qed
  qed
qed

lemma db_expire_spec:
  assumes "db_ok (database m)"
  shows "\<exists>s. db_expire m = Inr (m\<lparr>database := s\<rparr>) \<and> db_ok s \<and>
    s_list s = counted_sweep (outdated (now m)) (length (s_list (database m))) (s_list (database m))"
  using db_expire_loop_spec[OF assms, of "[]" "s_list (database m)" 0 "length (s_list (database m))"]
  by (simp add: db_expire_def)

lemma db_expire_inv [wf_intros]: "main_inv g m \<Longrightarrow> post {} (main_inv g) (db_expire m)"
  using db_expire_spec[of m] main_inv_parts(6)[of g m] main_inv_database by auto

section \<open>Properties of the database\<close>

text \<open>C16: The database is a map from host ids to the address announced last: db_put on a
  well-formed database faults on nothing and binds the host to the address for 15 minutes,
  replacing an older address, leaves every other host alone and adds no second object for the
  host; db_address and db_send then find exactly the known hosts.\<close>
theorem db_put_latest:
  assumes "main_inv g m" "is_id k" "addr_ok sa"
  shows "\<exists>m'. db_put m k sa = Inr m' \<and> main_inv g m' \<and> db_address m' k = Inr (Some sa) \<and>
    hosts m' k = Some \<lparr>d_host_id = k, d_addr = sa, d_time_anno = now m + 900\<rparr> \<and>
    (\<forall>k'. k' \<noteq> k \<longrightarrow> hosts m' k' = hosts m k' \<and> db_address m' k' = db_address m k') \<and>
    length (filter (\<lambda>(i, db). d_host_id db = k) (s_list (database m'))) = 1"
proof -
  have ok: "db_ok (database m)" using main_inv_parts[OF assms(1)] by simp
  obtain s where s: "db_put m k sa = Inr (m\<lparr>database := s\<rparr>)" "db_ok s"
    "st_map s = (hosts m)(k \<mapsto> \<lparr>d_host_id = k, d_addr = sa, d_time_anno = now m + 900\<rparr>)"
    using db_put_spec[OF ok assms(2,3)] by blast
  let ?m = "m\<lparr>database := s\<rparr>"
  have st: "st_ok d_host_id s" "st_full d_host_id s" using db_parts[OF s(2)] by simp_all
  have "st_map s k \<noteq> None" using s(3) by simp
  then obtain i db where i: "(i, db) \<in> set (s_list s)" "d_host_id db = k"
    using st_map_full[OF st, of k] by auto
  have "inj_on fst (set (s_list s))" "distinct (s_list s)"
    using st(1) by (simp_all add: store_ok_def distinct_map)
  have u: "q = (i, db)" if "q \<in> set (s_list s)" "d_host_id (snd q) = k" for q
  proof -
    have q: "(fst q, snd q) \<in> set (s_list s)" using that(1) by simp
    have "fst q = i" using full_at[OF st(2) q] full_at[OF st(2) i(1)] that(2) i(2) by simp
    with ok_unique[OF st(1) i(1), of "snd q"] q show ?thesis by (metis prod.collapse)
  qed
  have only: "set (filter (\<lambda>(i, db). d_host_id db = k) (s_list s)) = {(i, db)}"
  proof (rule set_eqI)
    fix q
    show "q \<in> set (filter (\<lambda>(i, db). d_host_id db = k) (s_list s)) \<longleftrightarrow> q \<in> {(i, db)}"
      using u[of q] i by (cases q) auto
  qed
  have "length (filter (\<lambda>(i, db). d_host_id db = k) (s_list s)) = 1"
    using distinct_card[OF distinct_filter[OF \<open>distinct (s_list s)\<close>], of "\<lambda>(i, db). d_host_id db = k"]
    unfolding only by simp
  moreover have "main_inv g ?m" by (rule main_inv_database[OF assms(1) s(2)])
  moreover have "db_address ?m k' = Inr (map_option d_addr (st_map s k'))" for k'
    using db_address_spec[of ?m k'] s(2) by simp
  ultimately show ?thesis using s db_address_spec[OF ok] by (intro exI[of _ ?m]) simp
qed

theorem db_put_latest_witness:
  "\<exists>m'. db_put main0 (replicate 20 5) no_addr = Inr m' \<and> db_address m' (replicate 20 5) = Inr (Some no_addr)"
  using db_put_latest[of False main0 "replicate 20 5" no_addr]
  by (auto simp: is_id_def SHA_DIGEST_LENGTH_def addr_ok_def no_addr_def)

text \<open>Outdated hosts can survive db_expire: it faults on no well-formed database, keeps it well
  formed and removes no host that is still valid; but it stops early, so of n outdated hosts and no
  other it leaves n div 2, and as many calls as there are outdated hosts remove them all.\<close>
lemma db_expire_partial:
  assumes "main_inv g m"
  shows "(\<exists>s. db_expire m = Inr (m\<lparr>database := s\<rparr>) \<and> main_inv g (m\<lparr>database := s\<rparr>) \<and>
      set (s_list s) \<subseteq> set (s_list (database m)) \<and>
      filter (\<lambda>(i, db). \<not> now m > d_time_anno db) (s_list s)
        = filter (\<lambda>(i, db). \<not> now m > d_time_anno db) (s_list (database m)) \<and>
      ((\<forall>(i, db) \<in> set (s_list (database m)). now m > d_time_anno db) \<longrightarrow>
        length (s_list s) = length (s_list (database m)) div 2)) \<and>
    (\<exists>s. fold_res (\<lambda>_. db_expire) [0..<length (s_list (database m))] m = Inr (m\<lparr>database := s\<rparr>) \<and>
      s_list s = filter (\<lambda>(i, db). \<not> now m > d_time_anno db) (s_list (database m)))"
proof -
  let ?cs = "\<lambda>xs. counted_sweep (outdated (now m)) (length xs) xs"
  have ok: "db_ok (database m)" using main_inv_parts[OF assms] by simp
  have neg: "(\<lambda>x. \<not> outdated t x) = (\<lambda>(i, db). \<not> t > d_time_anno db)" for t by auto
  obtain s where s: "db_expire m = Inr (m\<lparr>database := s\<rparr>)" "db_ok s" "s_list s = ?cs (s_list (database m))"
    using db_expire_spec[OF ok] by blast
  have half: "length (s_list s) = length (s_list (database m)) div 2"
    if "\<forall>(i, db) \<in> set (s_list (database m)). now m > d_time_anno db"
    using counted_sweep_all_bad[of "s_list (database m)" "outdated (now m)"] that s(3) by auto
  have many: "\<exists>s. fold_res (\<lambda>_. db_expire) [0..<n] m = Inr (m\<lparr>database := s\<rparr>) \<and> db_ok s \<and>
      s_list s = (?cs ^^ n) (s_list (database m))" for n
  proof (induction n)
    case 0
    then show ?case using ok by (intro exI[of _ "database m"]) (cases m, simp)
  next
    case (Suc n)
    then obtain s' where s': "fold_res (\<lambda>_. db_expire) [0..<n] m = Inr (m\<lparr>database := s'\<rparr>)" "db_ok s'"
      "s_list s' = (?cs ^^ n) (s_list (database m))" by blast
    with db_expire_spec[of "m\<lparr>database := s'\<rparr>"] show ?case by (auto simp: fold_res_append)
  qed
  have "length (filter (outdated (now m)) (s_list (database m))) \<le> length (s_list (database m))"
    by (rule length_filter_le)
  from counted_sweep_repeat[OF this] many[of "length (s_list (database m))"]
  have all: "\<exists>s. fold_res (\<lambda>_. db_expire) [0..<length (s_list (database m))] m = Inr (m\<lparr>database := s\<rparr>) \<and>
      s_list s = filter (\<lambda>(i, db). \<not> now m > d_time_anno db) (s_list (database m))"
    unfolding neg by auto
  have "filter (\<lambda>(i, db). \<not> now m > d_time_anno db) (s_list s)
        = filter (\<lambda>(i, db). \<not> now m > d_time_anno db) (s_list (database m))"
    using counted_sweep_keeps[of "outdated (now m)"] s(3) unfolding neg by simp
  moreover have "set (s_list s) \<subseteq> set (s_list (database m))" unfolding s(3) by (rule counted_sweep_sub)
  ultimately have "\<exists>s. db_expire m = Inr (m\<lparr>database := s\<rparr>) \<and> main_inv g (m\<lparr>database := s\<rparr>) \<and>
      set (s_list s) \<subseteq> set (s_list (database m)) \<and>
      filter (\<lambda>(i, db). \<not> now m > d_time_anno db) (s_list s)
        = filter (\<lambda>(i, db). \<not> now m > d_time_anno db) (s_list (database m)) \<and>
      ((\<forall>(i, db) \<in> set (s_list (database m)). now m > d_time_anno db) \<longrightarrow>
        length (s_list s) = length (s_list (database m)) div 2)"
    using s(1) main_inv_database[OF assms s(2)] half by (intro exI[of _ s] conjI impI)
  with all show ?thesis by (rule conjI[rotated])
qed

lemma db_expire_partial_example:
  "\<exists>s. db_expire main0 = Inr (main0\<lparr>database := s\<rparr>) \<and> s_list s = []"
proof -
  have "s_list (database main0) = []" by (simp add: main0_def main_start_def store_init_def)
  with db_expire_partial[OF main_inv_main0[of False], THEN conjunct1] show ?thesis by auto
qed

end
