(* ===== verification/Lookup.thy ===== *)
theory Lookup
  imports Database
begin

text \<open>
  Running lookups and announcements: \<open>src/src/lookup.c\<close> and \<open>src/src/announce.c\<close>. A request has
  a random id under which it is kept in a store, and remembers which nodes it has asked. An id may
  be drawn twice; then the table finds the later request only, and it still never points to a
  deleted one. A callback is the context it was registered with; calling it is recorded with its
  arguments. The callbacks of the program (in \<open>masala-dns.c\<close> and \<open>masala-web.c\<close>) only send a reply
  to their client and change nothing of this state.
\<close>

section \<open>Lookups\<close>

definition lkp_init :: "LOOKUP STORE" where
  "lkp_init = store_init 4096"

definition lkp_val :: "MAIN \<Rightarrow> addr \<Rightarrow> LOOKUP res" where
  "lkp_val m i = (case map_of (s_list (lkps m)) i of None \<Rightarrow> Inl UseAfterFree | Some l \<Rightarrow> Inr l)"

definition lkp_put :: "MAIN \<Rightarrow> bytes \<Rightarrow> nat option \<Rightarrow> MAIN res" where
  "lkp_put m find_id callback = (case rand_urandom m SHA_DIGEST_LENGTH of (lkp_id, m1) \<Rightarrow>
     let l = \<lparr>l_list = [], l_hash = hash_init 100, l_find_id = find_id, l_lkp_id = lkp_id,
           l_callback = callback, l_time_find = time_add_x_sec m1 5\<rparr>;
         i = s_new (lkps m1);
         m2 = m1\<lparr>lkps := store_put (lkps m1) (l_lkp_id l) l\<rparr>
     in bindr (nbhd_lookup m2 l) (\<lambda>(l', m3). Inr (m3\<lparr>lkps := store_set (lkps m3) i l'\<rparr>)))"

definition lkp_del :: "MAIN \<Rightarrow> addr \<Rightarrow> MAIN res" where
  "lkp_del m i = bindr (lkp_val m i) (\<lambda>l. Inr (m\<lparr>lkps := store_del (lkps m) (l_lkp_id l) i\<rparr>))"

definition call :: "MAIN \<Rightarrow> nat option \<Rightarrow> bytes \<Rightarrow> bytes option \<Rightarrow> MAIN" where
  "call m callback nid address = (case callback of None \<Rightarrow> m
     | Some ctx \<Rightarrow> m\<lparr>env := (env m)\<lparr>e_called := e_called (env m) @ [(ctx, nid, address)]\<rparr>\<rparr>)"

definition lkp_expire :: "MAIN \<Rightarrow> MAIN res" where
  "lkp_expire m = fold_res (\<lambda>(i, l) m'.
     if now m' > l_time_find l then lkp_del (call m' (l_callback l) (l_find_id l) None) i else Inr m')
     (s_list (lkps m)) m"

definition lkp_resolve :: "MAIN \<Rightarrow> bytes \<Rightarrow> bytes \<Rightarrow> IP \<Rightarrow> MAIN res" where
  "lkp_resolve m lkp_id node_id c_addr = (case hash_get (s_hash (lkps m)) lkp_id of None \<Rightarrow> Inr m
     | Some i \<Rightarrow> bindr (lkp_val m i) (\<lambda>l.
         if hash_exists (l_hash l) node_id then Inr m
         else bindr (if \<not> node_me (self_id m) node_id then send_lookup m c_addr (l_find_id l) lkp_id else Inr m)
           (\<lambda>m'. Inr (m'\<lparr>lkps := store_set (lkps m') i (lkp_remember l node_id)\<rparr>))))"

definition lkp_success :: "MAIN \<Rightarrow> bytes \<Rightarrow> bytes \<Rightarrow> bytes \<Rightarrow> MAIN res" where
  "lkp_success m lkp_id node_id address = (case hash_get (s_hash (lkps m)) lkp_id of None \<Rightarrow> Inr m
     | Some i \<Rightarrow> bindr (lkp_val m i) (\<lambda>l. lkp_del (call m (l_callback l) node_id (Some address)) i))"

section \<open>Announcements\<close>

definition announce_init :: "ANNOUNCE STORE" where
  "announce_init = store_init 4096"

definition announce_val :: "MAIN \<Rightarrow> addr \<Rightarrow> ANNOUNCE res" where
  "announce_val m i = (case map_of (s_list (announce m)) i of None \<Rightarrow> Inl UseAfterFree | Some a \<Rightarrow> Inr a)"

definition announce_put :: "MAIN \<Rightarrow> bytes \<Rightarrow> bytes \<Rightarrow> MAIN res" where
  "announce_put m lkp_id host_id =
    (let a = \<lparr>a_list = [], a_hash = hash_init 100, a_lkp_id = lkp_id, a_time_find = time_add_x_sec m 10\<rparr>;
         i = s_new (announce m);
         m1 = m\<lparr>announce := store_put (announce m) (a_lkp_id a) a\<rparr>
     in bindr (nbhd_announce m1 a host_id) (\<lambda>(a', m2). Inr (m2\<lparr>announce := store_set (announce m2) i a'\<rparr>)))"

definition announce_del :: "MAIN \<Rightarrow> addr \<Rightarrow> MAIN res" where
  "announce_del m i = bindr (announce_val m i) (\<lambda>a. Inr (m\<lparr>announce := store_del (announce m) (a_lkp_id a) i\<rparr>))"

definition announce_expire :: "MAIN \<Rightarrow> MAIN res" where
  "announce_expire m = fold_res (\<lambda>(i, a) m'. if now m' > a_time_find a then announce_del m' i else Inr m')
     (s_list (announce m)) m"

definition announce_resolve :: "MAIN \<Rightarrow> bytes \<Rightarrow> bytes \<Rightarrow> IP \<Rightarrow> MAIN res" where
  "announce_resolve m lkp_id node_id c_addr = (case hash_get (s_hash (announce m)) lkp_id of None \<Rightarrow> Inr m
     | Some i \<Rightarrow> bindr (announce_val m i) (\<lambda>a.
         if \<not> hash_exists (a_hash a) node_id
         then bindr (if \<not> node_me (self_id m) node_id \<and> conf_hostname (conf m) \<noteq> None
                then send_announce m c_addr lkp_id (conf_host_id (conf m)) else Inr m)
           (\<lambda>m'. Inr (m'\<lparr>announce := store_set (announce m') i (announce_remember a node_id)\<rparr>))
         else Inr m))"

section \<open>Behaviour of lookups\<close>

lemma maybe_sends:
  "\<exists>m'. r = Inr m' \<and> sends m m' \<Longrightarrow> \<exists>m'. (if b then r else Inr m) = Inr m' \<and> sends m m'"
  by auto

lemma lkps_parts:
  "lkps_ok s \<Longrightarrow> st_ok l_lkp_id s" "lkps_ok s \<Longrightarrow> (a, l) \<in> set (s_list s) \<Longrightarrow> lookup_ok l"
  by (auto simp: lkps_ok_def)

lemma store_item:
  assumes "st_ok key s" "(a, v) \<in> set (s_list s)"
  shows "map_of (s_list s) a = Some v"
  using assms by (simp add: store_ok_def)

lemma lkp_find_cases:
  assumes "lkps_ok (lkps m)"
  obtains (absent) "hash_get (s_hash (lkps m)) k = None"
  | (present) i l where "hash_get (s_hash (lkps m)) k = Some i" "lkp_val m i = Inr l"
      "(i, l) \<in> set (s_list (lkps m))" "l_lkp_id l = k" "lookup_ok l"
proof (cases rule: store_get_safe[OF lkps_parts(1)[OF assms], of k])
  case 1
  then show thesis by (intro absent)
next
  case (2 a v)
  then show thesis
    using lkps_parts(2)[OF assms 2(3)] store_item[OF lkps_parts(1)[OF assms] 2(3)]
    by (intro present) (simp_all add: lkp_val_def)
qed

lemma lkps_ok_set:
  assumes "lkps_ok s" "(a, v) \<in> set (s_list s)" "l_lkp_id w = l_lkp_id v" "lookup_ok w"
  shows "lkps_ok (store_set s a w)"
proof -
  have "\<forall>(b, d) \<in> set (s_list (store_set s a w)). lookup_ok d"
    using assms(1,4) by (auto simp: lkps_ok_def set_store_set split: if_splits)
  then show ?thesis using st_set(1)[OF lkps_parts(1)[OF assms(1)] assms(2,3)] by (simp add: lkps_ok_def)
qed

lemma lkps_ok_del:
  assumes "lkps_ok s" "(a, v) \<in> set (s_list s)"
  shows "lkps_ok (store_del s (l_lkp_id v) a)"
  using assms store_del_ok[OF lkps_parts(1)[OF assms(1)] assms(2) refl]
  by (auto simp: lkps_ok_def store_del_def seq_del_def)

lemma lkps_ok_put:
  "lkps_ok s \<Longrightarrow> lookup_ok l \<Longrightarrow> lkps_ok (store_put s (l_lkp_id l) l)"
  using store_put_ok[OF lkps_parts(1), of s l "l_lkp_id l"]
  by (auto simp: lkps_ok_def store_put_def seq_put_def)

lemma lkp_put_inv [wf_intros]:
  assumes "main_inv g m" "is_id find_id"
  shows "post (match_faults g) (main_inv g) (lkp_put m find_id callback)"
proof (cases "rand_urandom m SHA_DIGEST_LENGTH")
  case (Pair lid m1)
  let ?l = "\<lparr>l_list = [], l_hash = hash_init 100, l_find_id = find_id, l_lkp_id = lid,
           l_callback = callback, l_time_find = time_add_x_sec m1 5\<rparr>"
  let ?m2 = "m1\<lparr>lkps := store_put (lkps m1) lid ?l\<rparr>"
  have m1: "main_inv g m1" "is_id lid" using urandom_inv[OF Pair assms(1)] by simp_all
  have l: "lookup_ok ?l" using assms(2) m1(2) by (simp add: lookup_ok_def)
  have m2: "main_inv g ?m2"
    using main_inv_lkps[OF m1(1)] lkps_ok_put[OF _ l] main_inv_parts(4)[OF m1(1)] by simp
  have "post (match_faults g) (main_inv g)
      (bindr (nbhd_lookup ?m2 ?l) (\<lambda>(l', m3). Inr (m3\<lparr>lkps := store_set (lkps m3) (s_new (lkps m1)) l'\<rparr>)))"
  proof (rule post_bind[OF nbhd_lookup_spec[OF m2 l]])
    fix p
    assume p: "case p of (l', m') \<Rightarrow> sends ?m2 m' \<and> lookup_ok l' \<and> l_lkp_id l' = l_lkp_id ?l"
    obtain l' m3 where p1: "p = (l', m3)" by (cases p)
    with p have m3: "sends ?m2 m3" "lookup_ok l'" "l_lkp_id l' = lid" by simp_all
    have inv3: "main_inv g m3" using main_inv_sends[OF m3(1) m2] .
    have "(s_new (lkps m1), ?l) \<in> set (s_list (lkps m3))"
      using m3(1) by (simp add: sends_def store_put_def seq_put_def)
    from lkps_ok_set[OF main_inv_parts(4)[OF inv3] this _ m3(2)] m3(3)
    have "lkps_ok (store_set (lkps m3) (s_new (lkps m1)) l')" by simp
    then show "post (match_faults g) (main_inv g)
        (case p of (l', m3) \<Rightarrow> Inr (m3\<lparr>lkps := store_set (lkps m3) (s_new (lkps m1)) l'\<rparr>))"
      using inv3 p1 by (simp add: main_inv_lkps)
  qed
  with Pair show ?thesis by (simp add: lkp_put_def Let_def)
qed

lemma call_frame [simp]:
  "lkps (call m c nid a) = lkps m" "p2p (call m c nid a) = p2p m" "conf (call m c nid a) = conf m"
  by (simp_all add: call_def split: option.splits)

lemma call_inv [wf_intros]: "main_inv g m \<Longrightarrow> main_inv g (call m c nid a)"
  by (simp add: call_def main_inv_env split: option.splits)

lemma lkp_del_item:
  assumes "lkps_ok (lkps m)" "(i, l) \<in> set (s_list (lkps m))"
  shows "lkp_del m i = Inr (m\<lparr>lkps := store_del (lkps m) (l_lkp_id l) i\<rparr>)"
  using store_item[OF lkps_parts(1)[OF assms(1)] assms(2)] by (simp add: lkp_del_def lkp_val_def)

lemma lkp_del_inv [wf_intros]:
  "main_inv g m \<Longrightarrow> (i, l) \<in> set (s_list (lkps m)) \<Longrightarrow> post {} (main_inv g) (lkp_del m i)"
  using lkp_del_item main_inv_lkps lkps_ok_del main_inv_parts(4) by fastforce

lemma lkp_success_inv [wf_intros]:
  assumes "main_inv g m"
  shows "post {} (main_inv g) (lkp_success m lid nid a)"
  using main_inv_parts(4)[OF assms]
proof (cases rule: lkp_find_cases[of m lid])
  case (present i l)
  then show ?thesis
    using lkp_del_inv[OF call_inv[OF assms], of i l "l_callback l" nid "Some a"] by (simp add: lkp_success_def)
qed (simp add: lkp_success_def assms)

lemma lkp_resolve_inv [wf_intros]:
  assumes m: "main_inv g m" and n: "is_id nid"
  shows "post {} (main_inv g) (lkp_resolve m lid nid sa)"
  using main_inv_parts(4)[OF m]
proof (cases rule: lkp_find_cases[of m lid])
  case (present i l)
  have ids: "is_id (l_find_id l)" "is_id lid" using present(4,5) by (auto simp: lookup_ok_def)
  obtain m' where m': "(if \<not> node_me (self_id m) nid then send_lookup m sa (l_find_id l) lid else Inr m) = Inr m'"
    "sends m m'" using maybe_sends[OF send_lookup_spec[OF main_inv_parts(1)[OF m] ids, of sa]] by blast
  have inv': "main_inv g m'" using main_inv_sends[OF m'(2) m] .
  have "lkps_ok (store_set (lkps m') i (lkp_remember l nid))"
    using lkp_remember_ok[OF present(5)] present(3) m'(2)
    by (intro lkps_ok_set[of _ _ l] main_inv_parts(4)[OF inv']) (simp_all add: sends_def)
  with inv' m'(1) present m show ?thesis by (simp add: lkp_resolve_def main_inv_lkps)
qed (simp add: lkp_resolve_def m)

section \<open>Expiry of lookups\<close>

definition timeouts :: "int \<Rightarrow> (addr \<times> LOOKUP) list \<Rightarrow> (nat \<times> bytes \<times> bytes option) list" where
  "timeouts t xs = concat (map (\<lambda>(i, l). if t > l_time_find l
     then (case l_callback l of None \<Rightarrow> [] | Some ctx \<Rightarrow> [(ctx, l_find_id l, None)]) else []) xs)"

lemma lkp_expire_loop:
  "lkps_ok (lkps m) \<Longrightarrow> set xs \<subseteq> set (s_list (lkps m)) \<Longrightarrow> distinct (map fst xs) \<Longrightarrow>
    fold_res (\<lambda>(i, l) m'. if now m' > l_time_find l
        then lkp_del (call m' (l_callback l) (l_find_id l) None) i else Inr m') xs m
      = Inr (m\<lparr>lkps := foldl (\<lambda>s (a, v). if now m > l_time_find v then store_del s (l_lkp_id v) a else s)
          (lkps m) xs, env := (env m)\<lparr>e_called := e_called (env m) @ timeouts (now m) xs\<rparr>\<rparr>)"
proof (induction xs arbitrary: m)
  case Nil
  then show ?case by (cases m) (simp add: timeouts_def)
next
  case (Cons p xs)
  obtain i l where p: "p = (i, l)" by (cases p)
  have mem: "(i, l) \<in> set (s_list (lkps m))" using Cons.prems(2) p by simp
  show ?case
  proof (cases "now m > l_time_find l")
    case True
    let ?m = "(call m (l_callback l) (l_find_id l) None)\<lparr>lkps := store_del (lkps m) (l_lkp_id l) i\<rparr>"
    have del: "lkp_del (call m (l_callback l) (l_find_id l) None) i = Inr ?m"
      using lkp_del_item[of "call m (l_callback l) (l_find_id l) None" i l] Cons.prems(1) mem by simp
    have "set xs \<subseteq> set (s_list (lkps ?m))"
      using Cons.prems(2,3) p by (force simp: store_del_def seq_del_def)
    with Cons.IH[of ?m] Cons.prems(1,3) p mem lkps_ok_del
    have "fold_res (\<lambda>(i, l) m'. if now m' > l_time_find l
        then lkp_del (call m' (l_callback l) (l_find_id l) None) i else Inr m') xs ?m
      = Inr (?m\<lparr>lkps := foldl (\<lambda>s (a, v). if now m > l_time_find v then store_del s (l_lkp_id v) a else s)
          (lkps ?m) xs, env := (env ?m)\<lparr>e_called := e_called (env ?m) @ timeouts (now m) xs\<rparr>\<rparr>)" by simp
    with del True p show ?thesis
      by (cases "l_callback l") (simp_all add: call_def timeouts_def)
  qed (use Cons p in \<open>simp add: timeouts_def\<close>)
qed

lemma lkp_expire_sweep:
  assumes "lkps_ok (lkps m)"
  shows "lkp_expire m = Inr (m\<lparr>lkps := store_sweep l_lkp_id (\<lambda>l. now m > l_time_find l) (lkps m),
    env := (env m)\<lparr>e_called := e_called (env m) @ timeouts (now m) (s_list (lkps m))\<rparr>\<rparr>)"
  using lkp_expire_loop[OF assms order_refl] lkps_parts(1)[OF assms]
  by (simp add: lkp_expire_def store_sweep_def store_ok_def)

lemma lkps_ok_sweep: "lkps_ok s \<Longrightarrow> lkps_ok (store_sweep l_lkp_id bad s)"
  using store_sweep_spec[OF lkps_parts(1), of s bad] by (auto simp: lkps_ok_def)

lemma lkp_expire_inv [wf_intros]:
  assumes "main_inv g m"
  shows "post {} (main_inv g) (lkp_expire m)"
  using lkp_expire_sweep[OF main_inv_parts(4)[OF assms]] lkps_ok_sweep main_inv_parts(4)[OF assms]
  by (simp add: main_inv_env main_inv_lkps assms)

section \<open>Behaviour of announcements\<close>

lemma announce_parts:
  "announce_ok s \<Longrightarrow> st_ok a_lkp_id s" "announce_ok s \<Longrightarrow> (i, a) \<in> set (s_list s) \<Longrightarrow> ann_ok a"
  by (auto simp: announce_ok_def)

lemma announce_find_cases:
  assumes "announce_ok (announce m)"
  obtains (absent) "hash_get (s_hash (announce m)) k = None"
  | (present) i a where "hash_get (s_hash (announce m)) k = Some i" "announce_val m i = Inr a"
      "(i, a) \<in> set (s_list (announce m))" "a_lkp_id a = k" "ann_ok a"
proof (cases rule: store_get_safe[OF announce_parts(1)[OF assms], of k])
  case 1
  then show thesis by (intro absent)
next
  case (2 a v)
  then show thesis
    using announce_parts(2)[OF assms 2(3)] store_item[OF announce_parts(1)[OF assms] 2(3)]
    by (intro present) (simp_all add: announce_val_def)
qed

lemma announce_ok_set:
  assumes "announce_ok s" "(a, v) \<in> set (s_list s)" "a_lkp_id w = a_lkp_id v" "ann_ok w"
  shows "announce_ok (store_set s a w)"
proof -
  have "\<forall>(b, d) \<in> set (s_list (store_set s a w)). ann_ok d"
    using assms(1,4) by (auto simp: announce_ok_def set_store_set split: if_splits)
  then show ?thesis using st_set(1)[OF announce_parts(1)[OF assms(1)] assms(2,3)] by (simp add: announce_ok_def)
qed

lemma announce_ok_del:
  assumes "announce_ok s" "(a, v) \<in> set (s_list s)"
  shows "announce_ok (store_del s (a_lkp_id v) a)"
  using assms store_del_ok[OF announce_parts(1)[OF assms(1)] assms(2) refl]
  by (auto simp: announce_ok_def store_del_def seq_del_def)

lemma announce_ok_put:
  "announce_ok s \<Longrightarrow> ann_ok a \<Longrightarrow> announce_ok (store_put s (a_lkp_id a) a)"
  using store_put_ok[OF announce_parts(1), of s a "a_lkp_id a"]
  by (auto simp: announce_ok_def store_put_def seq_put_def)

lemma announce_put_inv [wf_intros]:
  assumes m: "main_inv g m" and ids: "is_id lid" "is_id host_id"
  shows "post (match_faults g) (main_inv g) (announce_put m lid host_id)"
proof -
  let ?a = "\<lparr>a_list = [], a_hash = hash_init 100, a_lkp_id = lid, a_time_find = time_add_x_sec m 10\<rparr>"
  let ?m1 = "m\<lparr>announce := store_put (announce m) lid ?a\<rparr>"
  have a: "ann_ok ?a" using ids(1) by (simp add: ann_ok_def)
  have m1: "main_inv g ?m1"
    using main_inv_announce[OF m] announce_ok_put[OF _ a] main_inv_parts(5)[OF m] by simp
  have "post (match_faults g) (main_inv g) (bindr (nbhd_announce ?m1 ?a host_id)
      (\<lambda>(a', m2). Inr (m2\<lparr>announce := store_set (announce m2) (s_new (announce m)) a'\<rparr>)))"
  proof (rule post_bind[OF nbhd_announce_spec[OF m1 a ids(2)]])
    fix p
    assume p: "case p of (a', m') \<Rightarrow> sends ?m1 m' \<and> ann_ok a' \<and> a_lkp_id a' = a_lkp_id ?a"
    obtain a' m2 where p1: "p = (a', m2)" by (cases p)
    with p have m2: "sends ?m1 m2" "ann_ok a'" "a_lkp_id a' = lid" by simp_all
    have inv2: "main_inv g m2" using main_inv_sends[OF m2(1) m1] .
    have "(s_new (announce m), ?a) \<in> set (s_list (announce m2))"
      using m2(1) by (simp add: sends_def store_put_def seq_put_def)
    from announce_ok_set[OF main_inv_parts(5)[OF inv2] this _ m2(2)] m2(3)
    have "announce_ok (store_set (announce m2) (s_new (announce m)) a')" by simp
    then show "post (match_faults g) (main_inv g)
        (case p of (a', m2) \<Rightarrow> Inr (m2\<lparr>announce := store_set (announce m2) (s_new (announce m)) a'\<rparr>))"
      using inv2 p1 by (simp add: main_inv_announce)
  qed
  then show ?thesis by (simp add: announce_put_def Let_def)
qed

lemma announce_del_item:
  assumes "announce_ok (announce m)" "(i, a) \<in> set (s_list (announce m))"
  shows "announce_del m i = Inr (m\<lparr>announce := store_del (announce m) (a_lkp_id a) i\<rparr>)"
  using store_item[OF announce_parts(1)[OF assms(1)] assms(2)] by (simp add: announce_del_def announce_val_def)

lemma announce_resolve_inv [wf_intros]:
  assumes m: "main_inv g m" and n: "is_id nid"
  shows "post {} (main_inv g) (announce_resolve m lid nid sa)"
  using main_inv_parts(5)[OF m]
proof (cases rule: announce_find_cases[of m lid])
  case (present i a)
  have ids: "is_id lid" "is_id (conf_host_id (conf m))"
    using present(4,5) main_inv_parts[OF m] by (auto simp: ann_ok_def)
  obtain m' where m': "(if \<not> node_me (self_id m) nid \<and> conf_hostname (conf m) \<noteq> None
      then send_announce m sa lid (conf_host_id (conf m)) else Inr m) = Inr m'"
    "sends m m'" using maybe_sends[OF send_announce_spec[OF main_inv_parts(1)[OF m] ids, of sa]] by blast
  have inv': "main_inv g m'" using main_inv_sends[OF m'(2) m] .
  have "announce_ok (store_set (announce m') i (announce_remember a nid))"
    using announce_remember_ok[OF present(5)] present(3) m'(2)
    by (intro announce_ok_set[of _ _ a] main_inv_parts(5)[OF inv']) (simp_all add: sends_def)
  with inv' m'(1) present m show ?thesis by (simp add: announce_resolve_def main_inv_announce)
qed (simp add: announce_resolve_def m)

lemma announce_expire_loop:
  "announce_ok (announce m) \<Longrightarrow> set xs \<subseteq> set (s_list (announce m)) \<Longrightarrow> distinct (map fst xs) \<Longrightarrow>
    fold_res (\<lambda>(i, a) m'. if now m' > a_time_find a then announce_del m' i else Inr m') xs m
      = Inr (m\<lparr>announce := foldl (\<lambda>s (a, v). if now m > a_time_find v then store_del s (a_lkp_id v) a else s)
          (announce m) xs\<rparr>)"
proof (induction xs arbitrary: m)
  case (Cons p xs)
  obtain i a where p: "p = (i, a)" by (cases p)
  have mem: "(i, a) \<in> set (s_list (announce m))" using Cons.prems(2) p by simp
  show ?case
  proof (cases "now m > a_time_find a")
    case True
    let ?m = "m\<lparr>announce := store_del (announce m) (a_lkp_id a) i\<rparr>"
    have "set xs \<subseteq> set (s_list (announce ?m))"
      using Cons.prems(2,3) p by (force simp: store_del_def seq_del_def)
    with Cons.IH[of ?m] Cons.prems(1,3) p mem announce_ok_del True announce_del_item[OF Cons.prems(1) mem]
    show ?thesis by simp
  qed (use Cons p in simp)
qed simp

lemma announce_expire_sweep:
  assumes "announce_ok (announce m)"
  shows "announce_expire m
    = Inr (m\<lparr>announce := store_sweep a_lkp_id (\<lambda>a. now m > a_time_find a) (announce m)\<rparr>)"
  using announce_expire_loop[OF assms order_refl] announce_parts(1)[OF assms]
  by (simp add: announce_expire_def store_sweep_def store_ok_def)

lemma announce_expire_inv [wf_intros]:
  assumes "main_inv g m"
  shows "post {} (main_inv g) (announce_expire m)"
proof -
  have ok: "announce_ok (announce m)" using main_inv_parts[OF assms] by simp
  then have "announce_ok (store_sweep a_lkp_id bad (announce m))" for bad
    using store_sweep_spec[OF announce_parts(1)[OF ok], of bad] by (auto simp: announce_ok_def)
  then show ?thesis by (simp add: announce_expire_sweep[OF ok] main_inv_announce assms)
qed

section \<open>Properties of lookups\<close>

lemma lkp_resolve_known:
  assumes m: "main_inv g m" and n: "is_id nid"
  shows "\<exists>m'. lkp_resolve m lid nid sa = Inr m' \<and> main_inv g m' \<and> lkp_resolve m' lid nid sa' = Inr m'"
  using main_inv_parts(4)[OF m]
proof (cases rule: lkp_find_cases[of m lid])
  case (present i l)
  have inv: "post {} (main_inv g) (lkp_resolve m lid nid sa)" by (rule lkp_resolve_inv[OF m n])
  show ?thesis
  proof (cases "hash_exists (l_hash l) nid")
    case True
    with present m show ?thesis by (intro exI[of _ m]) (simp add: lkp_resolve_def)
  next
    case False
    have ids: "is_id (l_find_id l)" "is_id lid" using present(4,5) by (auto simp: lookup_ok_def)
    obtain m1 where m1: "(if \<not> node_me (self_id m) nid then send_lookup m sa (l_find_id l) lid else Inr m) = Inr m1"
      "sends m m1" using maybe_sends[OF send_lookup_spec[OF main_inv_parts(1)[OF m] ids, of sa]] by blast
    let ?l = "lkp_remember l nid"
    let ?m = "m1\<lparr>lkps := store_set (lkps m1) i ?l\<rparr>"
    have same: "lkps m1 = lkps m" using m1(2) by (simp add: sends_def)
    have first: "lkp_resolve m lid nid sa = Inr ?m" using present False m1(1) by (simp add: lkp_resolve_def)
    have "lkp_val ?m i = Inr ?l"
      using present(3) store_item[OF lkps_parts(1)[OF main_inv_parts(4)[OF m]] present(3)] same
      by (simp add: lkp_val_def map_of_store_set)
    moreover have "hash_exists (l_hash ?l) nid"
      using lkp_remember_ok[OF present(5), of nid] by (simp add: lookup_ok_def remember_ok_def lkp_remember_def)
    ultimately have "lkp_resolve ?m lid nid sa' = Inr ?m" using present(1) same by (simp add: lkp_resolve_def)
    with first inv show ?thesis by auto
  qed
qed (use m in \<open>auto simp: lkp_resolve_def\<close>)


lemma lkp_success_known:
  assumes m: "main_inv g m" and i: "hash_get (s_hash (lkps m)) lid = Some i" "(i, l) \<in> set (s_list (lkps m))"
  shows "\<exists>m'. lkp_success m lid nid a = Inr m' \<and> main_inv g m' \<and>
    e_called (env m') = e_called (env m) @ (case l_callback l of None \<Rightarrow> [] | Some ctx \<Rightarrow> [(ctx, nid, Some a)]) \<and>
    (\<forall>nid' a'. lkp_success m' lid nid' a' = Inr m')"
proof -
  have ok: "lkps_ok (lkps m)" using main_inv_parts[OF m] by simp
  have l: "lkp_val m i = Inr l" "l_lkp_id l = lid"
    using store_item[OF lkps_parts(1)[OF ok] i(2)] ok_live[OF lkps_parts(1)[OF ok] i(1)]
      ok_unique[OF lkps_parts(1)[OF ok] i(2)] by (auto simp: lkp_val_def)
  let ?m = "call m (l_callback l) nid (Some a)"
  let ?m' = "?m\<lparr>lkps := store_del (lkps m) lid i\<rparr>"
  have "lkp_success m lid nid a = Inr ?m'"
    using i l lkp_del_item[of ?m i l] ok by (simp add: lkp_success_def)
  moreover have "main_inv g ?m'"
    using main_inv_lkps[OF call_inv[OF m]] lkps_ok_del[OF ok i(2)] l(2) by simp
  moreover have "hash_inv (s_hash (lkps m))" using lkps_parts(1)[OF ok] by (simp add: store_ok_def)
  then have "hash_get (s_hash (store_del (lkps m) lid i)) lid = None"
    by (simp add: store_del_def hm.get_del)
  then have "lkp_success ?m' lid nid' a' = Inr ?m'" for nid' a' by (simp add: lkp_success_def)
  moreover have "e_called (env ?m') = e_called (env m) @
      (case l_callback l of None \<Rightarrow> [] | Some ctx \<Rightarrow> [(ctx, nid, Some a)])"
    by (simp add: call_def split: option.splits)
  ultimately show ?thesis by blast
qed

text \<open>A lookup is answered once: when its id is known, lkp_success reports the address to the
  callback of that lookup, if it has one, exactly once, removes the lookup, keeps the state well
  formed, and every later answer to the same lookup is ignored.\<close>
lemma lkp_success_once:
  assumes "main_inv g m" "hash_get (s_hash (lkps m)) lid = Some i" "(i, l) \<in> set (s_list (lkps m))"
  shows "\<exists>m'. lkp_success m lid nid a = Inr m' \<and> main_inv g m' \<and>
    e_called (env m') = e_called (env m) @ (case l_callback l of None \<Rightarrow> [] | Some ctx \<Rightarrow> [(ctx, nid, Some a)]) \<and>
    (\<forall>nid' a'. lkp_success m' lid nid' a' = Inr m')"
  by (rule lkp_success_known[OF assms])

text \<open>Timed-out lookups are reported and forgotten: lkp_expire faults on no well-formed state,
  keeps exactly the lookups whose time has not passed, in their order, and calls the callback of
  each other lookup once, in order, with the wanted id and no address.\<close>
lemma lkp_expire_exact:
  assumes "main_inv g m"
  shows "\<exists>m'. lkp_expire m = Inr m' \<and> main_inv g m' \<and>
    s_list (lkps m') = filter (\<lambda>(i, l). now m \<le> l_time_find l) (s_list (lkps m)) \<and>
    e_called (env m') = e_called (env m) @ concat (map (\<lambda>(i, l). if l_time_find l < now m
      then (case l_callback l of None \<Rightarrow> [] | Some ctx \<Rightarrow> [(ctx, l_find_id l, None)]) else [])
      (s_list (lkps m)))"
proof -
  have ok: "lkps_ok (lkps m)" using main_inv_parts[OF assms] by simp
  have "s_list (store_sweep l_lkp_id (\<lambda>l. now m > l_time_find l) (lkps m))
      = filter (\<lambda>(i, l). now m \<le> l_time_find l) (s_list (lkps m))"
    unfolding store_sweep_spec(1)[OF lkps_parts(1)[OF ok]] not_less ..
  with lkp_expire_sweep[OF ok] lkp_expire_inv[OF assms] show ?thesis by (simp add: timeouts_def)
qed

text \<open>A daemon with one running lookup.\<close>

definition asked :: LOOKUP where
  "asked = \<lparr>l_list = [], l_hash = hash_init 100, l_find_id = replicate 20 3, l_lkp_id = replicate 20 4,
     l_callback = Some 7, l_time_find = 990\<rparr>"

definition main_asking :: MAIN where
  "main_asking = main0\<lparr>lkps := store_put (lkps main0) (replicate 20 4) asked\<rparr>"

lemma main_asking_inv: "main_inv g main_asking"
proof -
  have "lookup_ok asked" by (simp add: asked_def lookup_ok_def is_id_def SHA_DIGEST_LENGTH_def)
  from lkps_ok_put[OF main_inv_parts(4)[OF main_inv_main0] this]
  show ?thesis unfolding main_asking_def asked_def by (intro main_inv_lkps main_inv_main0) simp
qed

lemma main_asking_lkps:
  "s_list (lkps main_asking) = [(0, asked)]" "hash_get (s_hash (lkps main_asking)) (replicate 20 4) = Some 0"
  "now main_asking = 1000" "e_called (env main_asking) = []"
proof -
  have inv: "hash_inv (hash_init 4096 :: addr HASH)" by (simp add: hash_inv_init)
  show "hash_get (s_hash (lkps main_asking)) (replicate 20 4) = Some 0"
    using hm.get_put[OF inv, of "replicate 20 4" 0]
    by (simp add: main_asking_def main0_def main_start_def store_put_def store_init_def)
qed (simp_all add: main_asking_def main0_def main_start_def store_put_def store_init_def seq_put_def)


lemma lkp_success_once_example:
  "\<exists>m'. lkp_success main_asking (replicate 20 4) (replicate 20 8) (replicate 16 1) = Inr m' \<and>
    e_called (env m') = [(7, replicate 20 8, Some (replicate 16 1))]"
  using lkp_success_once[OF main_asking_inv[of False] main_asking_lkps(2), of asked "replicate 20 8" "replicate 16 1"]
    main_asking_lkps by (auto simp: asked_def)

lemma lkp_expire_exact_example:
  "\<exists>m'. lkp_expire main_asking = Inr m' \<and> s_list (lkps m') = [] \<and>
    e_called (env m') = [(7, replicate 20 3, None)]"
  using lkp_expire_exact[OF main_asking_inv[of False]] main_asking_lkps by (auto simp: asked_def)

end
