(* ===== verification/NbhdExpire.thy ===== *)
theory NbhdExpire
  imports Nbhd CountedLoop
begin

text \<open>
  Expiry and splitting of the neighbourhood, the two operations that change the buckets: what
  \<open>nbhd_expire\<close> removes, and that both keep the invariant of the bucket list.
\<close>

section \<open>Deleting a node\<close>

lemma del_at_append: "del_at (length xs) (xs @ y # ys) = xs @ ys"
  by (simp add: del_at_def)

lemma find_node_at:
  assumes l: "bl_inv l" and k: "k < length (bl_items l)" and p: "p < length (bl_nodes l k)"
  shows "bckt_find_best_match l (n_id (bl_nodes l k ! p)) = Some k"
    "bckt_find_node l (n_id (bl_nodes l k ! p)) = Some (k, p)"
proof -
  have n: "bl_nodes l k ! p \<in> set (bl_nodes l k)" using p by simp
  note i = inv_node[OF l k n]
  then show "bckt_find_best_match l (n_id (bl_nodes l k ! p)) = Some k" by simp
  from l i[THEN conjunct1] show "bckt_find_node l (n_id (bl_nodes l k ! p)) = Some (k, p)"
  proof (cases rule: find_node_cases)
    case (absent k')
    with i n show ?thesis by auto
  next
    case (present k' j)
    then have "k' = k" using i by simp
    moreover have "distinct (map n_id (bl_nodes l k))" using l k by (simp add: bl_inv_def)
    ultimately have "j = p"
      using nth_eq_iff_index_eq[of "map n_id (bl_nodes l k)" j p] present(4,5) p by auto
    with present \<open>k' = k\<close> show ?thesis by simp
  qed
qed

lemma nbhd_del_at:
  assumes "bl_inv (nbhd m)" "k < length (bl_items (nbhd m))" "p < length (bl_nodes (nbhd m) k)"
  shows "nbhd_del m (bl_nodes (nbhd m) k ! p)
    = Inr (m\<lparr>nbhd := bl_set_nodes (nbhd m) k (del_at p (bl_nodes (nbhd m) k))\<rparr>)"
  using find_node_at[OF assms] by (simp add: nbhd_del_def bckt_del_def)

section \<open>Expiry\<close>

abbreviation bad_node :: "NODE \<Rightarrow> bool" where
  "bad_node n \<equiv> n_pinged n \<ge> 4"

lemma set_nodes_twice [simp]:
  "k < length (bl_items l) \<Longrightarrow> bl_set_nodes (bl_set_nodes l k xs) k ys = bl_set_nodes l k ys"
  by (simp add: bl_set_nodes_def)

lemma set_nodes_self: "k < length (bl_items l) \<Longrightarrow> bl_set_nodes l k (bl_nodes l k) = l"
  by (simp add: bl_set_nodes_def bl_nodes_def)

lemma set_same_nodes:
  "k < length (bl_items (nbhd m)) \<Longrightarrow> bl_nodes (nbhd m) k = ns \<Longrightarrow>
    m\<lparr>nbhd := bl_set_nodes (nbhd m) k ns\<rparr> = m"
  using set_nodes_self[of k "nbhd m"] by (cases m) simp

lemma main_inv_set:
  assumes "main_inv False m" "k < length (bl_items (nbhd m))" "set ns \<subseteq> set (bl_nodes (nbhd m) k)"
    "distinct (map n_id ns)"
  shows "main_inv False (m\<lparr>nbhd := bl_set_nodes (nbhd m) k ns\<rparr>)"
proof -
  have ok: "nbhd_ok False (self_id m) (nbhd m)" and l: "bl_inv (nbhd m)"
    using main_inv_parts[OF assms(1)] by simp_all
  have inv: "bl_inv (bl_set_nodes (nbhd m) k ns)"
    using set_nodes_inv[OF l assms(2,4)] inv_node[OF l assms(2)] assms(3) by blast
  have "all_nodes (bl_set_nodes (nbhd m) k ns) \<subseteq> all_nodes (nbhd m)"
    using all_nodes_set[OF assms(2), of ns] all_nodes_split[OF assms(2)] assms(3) by blast
  moreover have "bl_items (nbhd m) \<noteq> []" using assms(2) by auto
  ultimately have "nbhd_ok False (self_id m) (bl_set_nodes (nbhd m) k ns)"
    using ok inv split_ok_same[OF same_ids_set_nodes] by (auto simp: nbhd_ok_def)
  then show ?thesis by (intro main_inv_nbhd assms(1))
qed

lemma expire_bucket_spec:
  assumes "main_inv False m" "k < length (bl_items (nbhd m))" "bl_nodes (nbhd m) k = gs @ xs"
    "j \<le> length gs + length xs" "length gs + length xs - j \<le> fuel" "length gs \<le> j"
  shows "nbhd_expire_bucket fuel k j (length gs) m = Inr (m\<lparr>nbhd := bl_set_nodes (nbhd m) k
      (gs @ counted_sweep bad_node (length gs + length xs - j) xs)\<rparr>)"
  using assms
proof (induction xs arbitrary: fuel j gs m)
  case Nil
  then show ?case by (subst nbhd_expire_bucket.simps) (simp add: set_same_nodes)
next
  case (Cons x xs)
  have l: "bl_inv (nbhd m)" using main_inv_parts[OF Cons.prems(1)] by simp
  show ?case
  proof (cases "j = length gs + length (x # xs)")
    case True
    then show ?thesis using Cons.prems(2,3)
      by (subst nbhd_expire_bucket.simps) (simp add: set_same_nodes)
  next
    case False
    then obtain f where f: "fuel = Suc f" using Cons.prems(4,5) by (cases fuel) auto
    have at: "node_at m k (length gs) = Inr x" using Cons.prems(2,3) by (simp add: node_at_def)
    define b where "b = length gs + length (x # xs) - j"
    have b: "length gs + length xs - Suc j = b - 2" "length (gs @ [x]) + length xs - Suc j = b - 1" "b \<noteq> 0"
      using False Cons.prems(4) by (simp_all add: b_def)
    show ?thesis
    proof (cases "bad_node x")
      case True
      let ?m = "m\<lparr>nbhd := bl_set_nodes (nbhd m) k (gs @ xs)\<rparr>"
      have del: "nbhd_del m x = Inr ?m"
        using nbhd_del_at[OF l Cons.prems(2), of "length gs"] Cons.prems(3) by (simp add: del_at_append)
      have "distinct (map n_id (gs @ x # xs))" using l Cons.prems(2,3) by (metis bl_inv_def)
      then have m: "main_inv False ?m" using Cons.prems(1-3) by (intro main_inv_set) auto
      have step: "nbhd_expire_bucket fuel k j (length gs) m = nbhd_expire_bucket f k (Suc j) (length gs) ?m"
        using False Cons.prems(3,4) f at del True by (subst nbhd_expire_bucket.simps) simp
      have cs: "counted_sweep bad_node b (x # xs) = counted_sweep bad_node (b - 2) xs" using True b(3) by simp
      show ?thesis
      proof (cases "Suc j \<le> length gs + length xs")
        case ok: True
        have "nbhd_expire_bucket f k (Suc j) (length gs) ?m = Inr (?m\<lparr>nbhd := bl_set_nodes (nbhd ?m) k
            (gs @ counted_sweep bad_node (length gs + length xs - Suc j) xs)\<rparr>)"
          using m Cons.prems f ok by (intro Cons.IH) auto
        with step cs Cons.prems(2) show ?thesis unfolding b b_def[symmetric] by simp
      next
        case stop: False
        then have j: "j = length gs + length xs" using Cons.prems(4) False by simp
        then have "b - 2 = 0" by (simp add: b_def)
        moreover from j have "nbhd_expire_bucket f k (Suc j) (length gs) ?m = Inr ?m"
          using Cons.prems(2) by (subst nbhd_expire_bucket.simps) simp
        ultimately show ?thesis using step cs unfolding b_def[symmetric] by simp
      qed
    next
      case good: False
      have "nbhd_expire_bucket f k (Suc j) (length (gs @ [x])) m = Inr (m\<lparr>nbhd := bl_set_nodes (nbhd m) k
          ((gs @ [x]) @ counted_sweep bad_node (length (gs @ [x]) + length xs - Suc j) xs)\<rparr>)"
        using Cons.prems f False by (intro Cons.IH) auto
      moreover have "nbhd_expire_bucket fuel k j (length gs) m = nbhd_expire_bucket f k (Suc j) (Suc (length gs)) m"
        using False Cons.prems(3,4) f at good by (subst nbhd_expire_bucket.simps) simp
      moreover have "counted_sweep bad_node b (x # xs) = x # counted_sweep bad_node (b - 1) xs"
        using good b(3) by simp
      ultimately show ?thesis unfolding b b_def[symmetric] by simp
    qed
  qed
qed

section \<open>All buckets\<close>

text \<open>The table after the loop over the first \<open>c\<close> buckets.\<close>

definition expired_nodes :: "NODE list \<Rightarrow> NODE list" where
  "expired_nodes ns = counted_sweep bad_node (length ns) ns"

lemma expire_one:
  assumes "main_inv False m" "k < length (bl_items (nbhd m))"
  shows "nbhd_expire_bucket (length (bl_nodes (nbhd m) k)) k 0 0 m
      = Inr (m\<lparr>nbhd := bl_set_nodes (nbhd m) k (expired_nodes (bl_nodes (nbhd m) k))\<rparr>)"
  using expire_bucket_spec[OF assms, of "[]" "bl_nodes (nbhd m) k" 0 "length (bl_nodes (nbhd m) k)"]
  by (simp add: expired_nodes_def)

lemma expire_one_inv:
  assumes "main_inv False m" "k < length (bl_items (nbhd m))"
  shows "main_inv False (m\<lparr>nbhd := bl_set_nodes (nbhd m) k (expired_nodes (bl_nodes (nbhd m) k))\<rparr>)"
proof -
  have "bl_inv (nbhd m)" using main_inv_parts[OF assms(1)] by simp
  then have "distinct (map n_id (bl_nodes (nbhd m) k))" using assms(2) by (simp add: bl_inv_def)
  then show ?thesis
    using assms unfolding expired_nodes_def
    by (intro main_inv_set counted_sweep_sub counted_sweep_distinct)
qed

lemma expire_buckets:
  assumes "main_inv False m" "c \<le> length (bl_items (nbhd m))"
  shows "\<exists>l. fold_res (\<lambda>k m'. nbhd_expire_bucket (length (bl_nodes (nbhd m') k)) k 0 0 m') [0..<c] m
      = Inr (m\<lparr>nbhd := l\<rparr>) \<and> main_inv False (m\<lparr>nbhd := l\<rparr>) \<and> length (bl_items l) = length (bl_items (nbhd m)) \<and>
    (\<forall>k. bl_nodes l k = (if k < c then expired_nodes (bl_nodes (nbhd m) k) else bl_nodes (nbhd m) k))"
  using assms(2)
proof (induction c)
  case 0
  then show ?case using assms(1) by (intro exI[of _ "nbhd m"]) (cases m, simp)
next
  case (Suc c)
  then obtain l where l: "fold_res (\<lambda>k m'. nbhd_expire_bucket (length (bl_nodes (nbhd m') k)) k 0 0 m') [0..<c] m
      = Inr (m\<lparr>nbhd := l\<rparr>)" "main_inv False (m\<lparr>nbhd := l\<rparr>)" "length (bl_items l) = length (bl_items (nbhd m))"
    "\<And>k. bl_nodes l k = (if k < c then expired_nodes (bl_nodes (nbhd m) k) else bl_nodes (nbhd m) k)" by auto
  let ?l = "bl_set_nodes l c (expired_nodes (bl_nodes l c))"
  have c: "c < length (bl_items l)" using Suc.prems l(3) by simp
  have "main_inv False (m\<lparr>nbhd := ?l\<rparr>)" using expire_one_inv[OF l(2)] c by simp
  moreover have "fold_res (\<lambda>k m'. nbhd_expire_bucket (length (bl_nodes (nbhd m') k)) k 0 0 m') [0..<Suc c] m
      = Inr (m\<lparr>nbhd := ?l\<rparr>)" using expire_one[OF l(2)] l(1) c by (simp add: fold_res_append)
  ultimately show ?case using l(3,4) c by (intro exI[of _ ?l]) (auto simp: less_Suc_eq)
qed

lemma nbhd_expire_spec:
  assumes "main_inv False m"
  shows "\<exists>l. nbhd_expire m = Inr (m\<lparr>nbhd := l\<rparr>) \<and> main_inv False (m\<lparr>nbhd := l\<rparr>) \<and>
    length (bl_items l) = length (bl_items (nbhd m)) \<and>
    (\<forall>k < length (bl_items l). bl_nodes l k = expired_nodes (bl_nodes (nbhd m) k))"
  using expire_buckets[OF assms order_refl] unfolding nbhd_expire_def by auto

lemma nbhd_expire_inv [wf_intros]: "main_inv False m \<Longrightarrow> post {} (main_inv False) (nbhd_expire m)"
  using nbhd_expire_spec[of m] by auto

section \<open>Splitting\<close>

lemma low_iff_split_ok:
  "low self l \<longleftrightarrow> bl_inv l \<and> is_id self \<and> be_nat self < 2 ^ 159 \<and> split_ok self l"
  by (auto simp: low_def split_ok_def)

lemma split_low_any:
  "low self l \<Longrightarrow> post {OutOfFuel} (\<lambda>l'. low self l' \<and> all_nodes l' = all_nodes l) (nbhd_split fuel l self)"
proof (induction fuel arbitrary: l)
  case (Suc fuel)
  obtain k where k: "bckt_find_best_match l self = Some k" "k < length (bl_items l)"
    using low_best[OF Suc.prems] .
  have sh: "bl_shape l" using Suc.prems by (simp add: low_def bl_inv_def)
  obtain r where r: "bckt_compute_id l k = Inr r" using compute_id_total[OF sh k(2)] by blast
  show ?case
  proof (cases "8 < length (bl_nodes l k) \<and> r \<noteq> None")
    case True
    then obtain c where c: "bckt_compute_id l k = Inr (Some c)" "8 < length (bl_nodes l k)" using r by blast
    obtain l' where l': "bckt_split l self = Inr (l', True)" "low self l'" "all_nodes l' = all_nodes l"
      using low_split[OF Suc.prems k(1) c(2,1)] by blast
    from Suc.IH[OF l'(2)] l'(1,3) show ?thesis by simp
  next
    case False
    then have "bckt_split l self = Inr (l, False)" using r by (intro bckt_split_unsplit[OF k(1)]) auto
    with Suc.prems show ?thesis by simp
  qed
qed simp

text \<open>An identifier that starts with a 1 bit: the second split never comes to an end.\<close>

lemma split_high_second:
  assumes l: "bl_inv l" "is_id self" "2 ^ 159 \<le> be_nat self" and two: "length (bl_items l) = 2"
    and id1: "be_nat (b_id (bl_items l ! 1)) = 2 ^ 159" "bckt_significant_bit (b_id (bl_items l ! 1)) = 0"
  shows "post {OutOfFuel} (\<lambda>l'. l' = l) (nbhd_split fuel l self)"
proof (cases "length (bl_nodes l 1) \<le> 8")
  case True
  have sh: "bl_shape l" using l(1) by (simp add: bl_inv_def)
  have best: "bckt_find_best_match l self = Some 1"
    unfolding best_match_iff[OF sh l(2)] using l(3) two id1 by (simp add: in_bucket_def)
  have "bckt_split l self = Inr (l, False)" by (rule bckt_split_unsplit[OF best]) (use True in blast)
  then show ?thesis by (cases fuel) simp_all
next
  case False
  have sh: "bl_shape l" using l(1) by (simp add: bl_inv_def)
  have stop: "bl_stop l = Some 1" using sh two by (simp add: bl_shape_def)
  have best: "bckt_find_best_match l self = Some 1"
    unfolding best_match_iff[OF sh l(2)] using l(3) two id1 by (simp add: in_bucket_def)
  obtain c where "stuck self l 1 c"
    using two_buckets_stuck[OF l(1) _ l(2) _ stop] best stop two False id1(2) by auto
  from stuck_diverges[OF this] show ?thesis by simp
qed

lemma split_high_first:
  assumes l: "bl_inv l" "is_id self" "2 ^ 159 \<le> be_nat self" and one: "length (bl_items l) = 1"
  shows "post {OutOfFuel} (\<lambda>l'. bl_inv l' \<and> split_ok self l' \<and> all_nodes l' = all_nodes l) (nbhd_split fuel l self)"
proof (cases fuel)
  case (Suc f)
  have sh: "bl_shape l" using l(1) by (simp add: bl_inv_def)
  have best: "bckt_find_best_match l self = Some 0"
    using best_match_iff[OF sh l(2), of 0] one sh by (simp add: in_bucket_def bl_shape_def)
  obtain c where c: "bckt_compute_id l 0 = Inr (Some c)" "be_nat c = 2 ^ 159" "bckt_significant_bit c = 0"
    using compute_id_first[OF sh one] by blast
  show ?thesis
  proof (cases "length (bl_nodes l 0) \<le> 8")
    case True
    have "bckt_split l self = Inr (l, False)" by (rule bckt_split_unsplit[OF best]) (simp add: True)
    with Suc l(1) one show ?thesis by (simp add: split_ok_def)
  next
    case False
    have "splittable l 0" using one by (simp add: splittable_def)
    with split_result[OF l(1,2) best _ _ c(1)] False obtain l' where l': "bckt_split l self = Inr (l', True)"
      "same_ids (bl_ins l 0 \<lparr>b_id = c, b_nodes = []\<rparr>) l'" "bl_inv l'" "all_nodes l' = all_nodes l" by auto
    have ne: "bl_items l \<noteq> []" "0 < length (bl_items l)" using one by auto
    note f = same_ids_facts[OF l'(2)] and n = ins_nth[OF ne, where b = "\<lparr>b_id = c, b_nodes = []\<rparr>"]
    have two: "length (bl_items l') = 2" and id1: "b_id (bl_items l' ! 1) = c"
      using f(1) f(3)[of 1] n one by simp_all
    have "post {OutOfFuel} (\<lambda>l''. l'' = l') (nbhd_split f l' self)"
      by (rule split_high_second[OF l'(3) l(2,3) two]) (simp_all add: id1[simplified] c)
    moreover have "split_ok self l'" using l(3) two id1 c by (simp add: split_ok_def)
    ultimately show ?thesis using Suc l'
      by (cases "nbhd_split f l' self") auto
  qed
qed simp

lemma nbhd_split_inv:
  assumes "nbhd_ok g self l" "is_id self"
  shows "post {OutOfFuel} (\<lambda>l'. nbhd_ok False self l' \<and> all_nodes l' = all_nodes l) (nbhd_split fuel l self)"
proof -
  have l: "bl_inv l" "split_ok self l" "\<forall>n \<in> all_nodes l. node_ok n" using assms(1) by (simp_all add: nbhd_ok_def)
  have "post {OutOfFuel} (\<lambda>l'. bl_inv l' \<and> split_ok self l' \<and> all_nodes l' = all_nodes l) (nbhd_split fuel l self)"
  proof (cases "be_nat self < 2 ^ 159")
    case True
    then have "low self l" using l assms(2) by (simp add: low_iff_split_ok)
    from split_low_any[OF this] show ?thesis by (rule post_weaken) (auto simp: low_iff_split_ok)
  next
    case high: False
    show ?thesis
    proof (cases "length (bl_items l) = 1")
      case True
      with split_high_first[OF l(1) assms(2)] high show ?thesis by simp
    next
      case False
      with l(2) high have two: "length (bl_items l) = 2" "bckt_significant_bit (b_id (bl_items l ! 1)) = 0"
        "be_nat (b_id (bl_items l ! 1)) = 2 ^ 159" by (simp_all add: split_ok_def split: if_splits)
      have "post {OutOfFuel} (\<lambda>l'. l' = l) (nbhd_split fuel l self)"
        using split_high_second[OF l(1) assms(2) _ two(1,3,2)] high by simp
      with l show ?thesis by (auto intro: post_weaken)
    qed
  qed
  then show ?thesis by (rule post_weaken) (use l(3) in \<open>auto simp: nbhd_ok_def\<close>)
qed

section \<open>Properties of expiry\<close>

text \<open>What nbhd_expire really removes: it faults on no well-formed table, keeps the table well
  formed, deletes only nodes with four or more unanswered pings and in every bucket the first such
  node; but because its bound shrinks with each deletion, a bucket whose n nodes are all dead still
  has n div 2 of them afterwards.\<close>
lemma nbhd_expire_partial:
  assumes "main_inv False m"
  shows "\<exists>l. nbhd_expire m = Inr (m\<lparr>nbhd := l\<rparr>) \<and> main_inv False (m\<lparr>nbhd := l\<rparr>) \<and>
    length (bl_items l) = length (bl_items (nbhd m)) \<and>
    (\<forall>k < length (bl_items l). set (bl_nodes l k) \<subseteq> set (bl_nodes (nbhd m) k) \<and>
      filter (\<lambda>n. n_pinged n < 4) (bl_nodes l k) = filter (\<lambda>n. n_pinged n < 4) (bl_nodes (nbhd m) k) \<and>
      ((\<exists>n \<in> set (bl_nodes (nbhd m) k). 4 \<le> n_pinged n) \<longrightarrow>
        length (bl_nodes l k) < length (bl_nodes (nbhd m) k)) \<and>
      ((\<forall>n \<in> set (bl_nodes (nbhd m) k). 4 \<le> n_pinged n) \<longrightarrow>
        length (bl_nodes l k) = length (bl_nodes (nbhd m) k) div 2))"
proof -
  obtain l where l: "nbhd_expire m = Inr (m\<lparr>nbhd := l\<rparr>)" "main_inv False (m\<lparr>nbhd := l\<rparr>)"
    "length (bl_items l) = length (bl_items (nbhd m))"
    "\<And>k. k < length (bl_items l) \<Longrightarrow> bl_nodes l k = expired_nodes (bl_nodes (nbhd m) k)"
    using nbhd_expire_spec[OF assms] by blast
  have keep: "filter (\<lambda>n. n_pinged n < 4) (expired_nodes ns) = filter (\<lambda>n. n_pinged n < 4) ns" for ns
    using counted_sweep_keeps[of bad_node "length ns" ns] by (simp add: expired_nodes_def not_le)
  have fewer: "length (expired_nodes ns) < length ns" if "\<exists>n \<in> set ns. 4 \<le> n_pinged n" for ns
  proof -
    have "length (filter bad_node (expired_nodes ns)) < length (filter bad_node ns)"
      using counted_sweep_progress[of ns bad_node] that by (simp add: expired_nodes_def)
    moreover have "length xs = length (filter bad_node xs) + length (filter (\<lambda>n. n_pinged n < 4) xs)" for xs
      using sum_length_filter_compl[of bad_node xs] by (simp add: not_le)
    ultimately show ?thesis using arg_cong[OF keep[of ns], of length] by (metis add_less_cancel_right)
  qed
  have half: "length (expired_nodes ns) = length ns div 2" if "\<forall>n \<in> set ns. 4 \<le> n_pinged n" for ns
    using counted_sweep_all_bad[of ns bad_node "length ns"] that by (simp add: expired_nodes_def)
  have "set (expired_nodes ns) \<subseteq> set ns" for ns
    unfolding expired_nodes_def by (rule counted_sweep_sub)
  with l keep fewer half show ?thesis by (intro exI[of _ l]) simp
qed

definition dead_nodes :: BLIST where
  "dead_nodes = \<lparr>bl_items = [\<lparr>b_id = replicate 20 0, b_nodes =
     map (\<lambda>c. (node_of (replicate 20 c))\<lparr>n_pinged := 4\<rparr>) [3, 4, 5, 6]\<rparr>], bl_stop = Some 0\<rparr>"

lemma dead_nodes_inv: "main_inv False (main0\<lparr>nbhd := dead_nodes\<rparr>)"
proof -
  have "bl_shape dead_nodes"
    by (simp add: bl_shape_def dead_nodes_def is_id_def SHA_DIGEST_LENGTH_def be_nat_replicate)
  then have "bl_inv dead_nodes"
    by (auto simp: bl_inv_def dead_nodes_def bl_nodes_def node_of_def is_id_def SHA_DIGEST_LENGTH_def
        bckt_find_best_match_def)
  then have "nbhd_ok False x dead_nodes" for x
    by (auto simp: nbhd_ok_def split_ok_def all_nodes_def dead_nodes_def bl_nodes_def node_of_def node_ok_def
        is_id_def SHA_DIGEST_LENGTH_def addr_ok_def no_addr_def)
  then show ?thesis by (intro main_inv_nbhd) simp_all
qed

lemma nbhd_expire_partial_example:
  "\<exists>l. nbhd_expire (main0\<lparr>nbhd := dead_nodes\<rparr>) = Inr (main0\<lparr>nbhd := l\<rparr>) \<and> length (bl_nodes l 0) = 2"
  using nbhd_expire_partial[OF dead_nodes_inv]
  by (fastforce simp: dead_nodes_def bl_nodes_def node_of_def)

end
