(* ===== verification/P2p.thy ===== *)
theory P2p
  imports Lookup NbhdExpire
begin

text \<open>
  The protocol, \<open>src/src/p2p.c\<close>: handling a datagram (\<open>p2p_parse\<close>), the periodic work
  (\<open>p2p_cron\<close>) and the functions they call, with \<open>udp_multicast\<close>, \<open>udp_cron\<close> and the loop of
  \<open>udp_input\<close> from \<open>src/src/udp.c\<close>. A datagram is the memory at \<open>bencode\<close>, which is the receive
  buffer, with its declared size. \<open>gettimeofday\<close> is an argument, the clock at that moment. The
  mutex is not modelled: a handler is one step. Releasing the decoded packet is left out.
  \<open>fuel\<close> bounds the decoder and the splitting loop, the two places that may not come to an end.
\<close>

section \<open>Checking fields\<close>

text \<open>\<open>node->v.s->s\<close>\<close>

definition str_of :: "ben option \<Rightarrow> bytes res" where
  "str_of node = (case node of None \<Rightarrow> Inl NullDeref | Some n \<Rightarrow> str_bytes n)"

definition p2p_is_hash :: "ben option \<Rightarrow> bool res" where
  "p2p_is_hash node = (if node = None then Inr False
     else if \<not> ben_is_str node then Inr False
     else bindr (ben_str_size node) (\<lambda>n. Inr (n = SHA_DIGEST_LENGTH)))"

definition p2p_is_ip :: "ben option \<Rightarrow> bool res" where
  "p2p_is_ip node = (if node = None then Inr False
     else if \<not> ben_is_str node then Inr False
     else bindr (ben_str_size node) (\<lambda>n. Inr (n = 16)))"

definition p2p_is_port :: "ben option \<Rightarrow> bool res" where
  "p2p_is_port node = (if node = None then Inr False
     else if \<not> ben_is_str node then Inr False
     else bindr (ben_str_size node) (\<lambda>n. Inr (n = 2)))"

text \<open>The pattern \<open>x = ben_searchDictStr( packet, k ); if( !check( x ) ) return;\<close> followed by the
  uses of \<open>x->v.s->s\<close>.\<close>

definition with_field :: "(ben option \<Rightarrow> bool res) \<Rightarrow> ben option \<Rightarrow> bytes \<Rightarrow> 'r \<Rightarrow> (bytes \<Rightarrow> 'r res) \<Rightarrow> 'r res" where
  "with_field check packet k m f = bindr (ben_searchDictStr packet k) (\<lambda>x.
     bindr (check x) (\<lambda>ok. if \<not> ok then Inr m else bindr (str_of x) f))"

section \<open>Requests\<close>

definition p2p_ping :: "MAIN \<Rightarrow> bytes \<Rightarrow> IP \<Rightarrow> MAIN res" where
  "p2p_ping m session_id from = send_pong m from session_id"

definition p2p_find :: "MAIN \<Rightarrow> ben \<Rightarrow> bytes \<Rightarrow> IP \<Rightarrow> MAIN res" where
  "p2p_find m packet session_id from = with_field p2p_is_hash (Some packet) K_f m (\<lambda>find_id.
     nbhd_send m from find_id None session_id Q_nodes_find)"

definition p2p_announce :: "MAIN \<Rightarrow> ben \<Rightarrow> bytes \<Rightarrow> IP \<Rightarrow> MAIN res" where
  "p2p_announce m packet session_id from = with_field p2p_is_hash (Some packet) K_f m (\<lambda>host_id.
     with_field p2p_is_hash (Some packet) K_l m (\<lambda>lkp_id.
       bindr (db_put m host_id from) (\<lambda>m'. nbhd_send m' from host_id (Some lkp_id) session_id Q_nodes_announce)))"

definition p2p_lookup :: "MAIN \<Rightarrow> ben \<Rightarrow> bytes \<Rightarrow> IP \<Rightarrow> MAIN res" where
  "p2p_lookup m packet session_id from = with_field p2p_is_hash (Some packet) K_f m (\<lambda>find_id.
     with_field p2p_is_hash (Some packet) K_l m (\<lambda>lkp_id.
       bindr (db_send m from find_id lkp_id session_id) (\<lambda>(sent, m').
         if \<not> sent then nbhd_send m' from find_id (Some lkp_id) session_id Q_nodes_lookup else Inr m')))"

section \<open>Replies\<close>

definition p2p_pong :: "MAIN \<Rightarrow> bytes \<Rightarrow> bytes \<Rightarrow> IP \<Rightarrow> MAIN res" where
  "p2p_pong m node_id session_id from = bindr (cache_validate m session_id) (\<lambda>(known, m').
     if \<not> known then Inr m' else nbhd_ponged m' node_id from)"

definition AF_INET6 :: u16 where "AF_INET6 = 10"

definition node_addr :: "bytes \<Rightarrow> bytes \<Rightarrow> IP" where
  "node_addr ip po = \<lparr>sin6_family = AF_INET6, sin6_port = po, sin6_flowinfo = 0, sin6_addr = ip, sin6_scope_id = 0\<rparr>"

text \<open>The loop over the nodes of a reply. \<open>p2p_node_find\<close>, \<open>p2p_node_announce\<close> and
  \<open>p2p_node_lookup\<close> repeat it; \<open>visit\<close> is what they do with a node before they store it.\<close>

fun nodes_loop :: "(bytes \<Rightarrow> IP \<Rightarrow> MAIN \<Rightarrow> MAIN res) \<Rightarrow> ben list \<Rightarrow> MAIN \<Rightarrow> MAIN res" where
  "nodes_loop visit [] m = Inr m"
| "nodes_loop visit (node # items) m = (if \<not> ben_is_dict (Some node) then Inr m
     else with_field p2p_is_hash (Some node) K_i m (\<lambda>nid.
          with_field p2p_is_ip (Some node) K_a m (\<lambda>ip.
          with_field p2p_is_port (Some node) K_p m (\<lambda>po.
            let sin = node_addr ip po
            in bindr (visit nid sin m) (\<lambda>m1. bindr (nbhd_put m1 nid sin) (nodes_loop visit items))))))"

definition list_of :: "ben option \<Rightarrow> ben list res" where
  "list_of node = (case node of Some (BList l) \<Rightarrow> Inr l | _ \<Rightarrow> Inl NullDeref)"

definition p2p_node_find :: "MAIN \<Rightarrow> ben \<Rightarrow> bytes \<Rightarrow> bytes \<Rightarrow> IP \<Rightarrow> MAIN res" where
  "p2p_node_find m packet node_id session_id from = bindr (cache_validate m session_id) (\<lambda>(known, m1).
     if \<not> known then Inr m1
     else bindr (ben_searchDictStr (Some packet) K_n) (\<lambda>nodes. if \<not> ben_is_list nodes then Inr m1
       else bindr (list_of nodes) (\<lambda>items. nodes_loop (\<lambda>nid sin m. Inr m) items m1)))"

definition p2p_node_announce :: "MAIN \<Rightarrow> ben \<Rightarrow> bytes \<Rightarrow> bytes \<Rightarrow> IP \<Rightarrow> MAIN res" where
  "p2p_node_announce m packet node_id session_id from = bindr (cache_validate m session_id) (\<lambda>(known, m1).
     if \<not> known then Inr m1
     else bindr (ben_searchDictStr (Some packet) K_n) (\<lambda>nodes. if \<not> ben_is_list nodes then Inr m1
       else with_field p2p_is_hash (Some packet) K_l m1 (\<lambda>lkp_id.
         let visit = (\<lambda>nid sin m. if conf_hostname (conf m) \<noteq> None then announce_resolve m lkp_id nid sin else Inr m)
         in bindr (visit node_id from m1) (\<lambda>m2. bindr (list_of nodes) (\<lambda>items. nodes_loop visit items m2)))))"

definition p2p_node_lookup :: "MAIN \<Rightarrow> ben \<Rightarrow> bytes \<Rightarrow> bytes \<Rightarrow> IP \<Rightarrow> MAIN res" where
  "p2p_node_lookup m packet node_id session_id from = bindr (cache_validate m session_id) (\<lambda>(known, m1).
     if \<not> known then Inr m1
     else bindr (ben_searchDictStr (Some packet) K_n) (\<lambda>nodes. if \<not> ben_is_list nodes then Inr m1
       else with_field p2p_is_hash (Some packet) K_l m1 (\<lambda>lkp_id.
         let visit = (\<lambda>nid sin m. lkp_resolve m lkp_id nid sin)
         in bindr (visit node_id from m1) (\<lambda>m2. bindr (list_of nodes) (\<lambda>items. nodes_loop visit items m2)))))"

definition p2p_value :: "MAIN \<Rightarrow> ben \<Rightarrow> bytes \<Rightarrow> bytes \<Rightarrow> IP \<Rightarrow> MAIN res" where
  "p2p_value m packet node_id session_id from = bindr (cache_validate m session_id) (\<lambda>(known, m1).
     if \<not> known then Inr m1
     else with_field p2p_is_ip (Some packet) K_a m1 (\<lambda>address.
       with_field p2p_is_hash (Some packet) K_l m1 (\<lambda>lkp_id. lkp_success m1 lkp_id node_id address)))"

section \<open>A datagram\<close>

text \<open>\<open>p2p_decode\<close> after the packet has been decoded to a dictionary. The own packets are dropped;
  \<open>nbhd_empty\<close> only decides whether that is logged.\<close>

definition p2p_query :: "MAIN \<Rightarrow> ben \<Rightarrow> u8 \<Rightarrow> bytes \<Rightarrow> bytes \<Rightarrow> IP \<Rightarrow> MAIN res" where
  "p2p_query m packet q node_id key from =
    (if q = Q_ping then p2p_ping m key from
     else if q = Q_find then p2p_find m packet key from
     else if q = Q_announce then p2p_announce m packet key from
     else if q = Q_lookup then p2p_lookup m packet key from
     else if q = Q_pong then p2p_pong m node_id key from
     else if q = Q_nodes_find then p2p_node_find m packet node_id key from
     else if q = Q_nodes_announce then p2p_node_announce m packet node_id key from
     else if q = Q_nodes_lookup then p2p_node_lookup m packet node_id key from
     else if q = Q_value then p2p_value m packet node_id key from
     else Inr m)"

definition p2p_packet :: "MAIN \<Rightarrow> ben \<Rightarrow> IP \<Rightarrow> MAIN res" where
  "p2p_packet m packet from = with_field p2p_is_hash (Some packet) K_i m (\<lambda>node_id.
     if node_me (self_id m) node_id then Inr m
     else with_field p2p_is_hash (Some packet) K_k m (\<lambda>key.
       bindr (nbhd_put m node_id from) (\<lambda>m1.
       bindr (ben_searchDictStr (Some packet) K_q) (\<lambda>q.
       if \<not> ben_is_str q then Inr m1
       else bindr (ben_str_size q) (\<lambda>n. if n \<noteq> 1 then Inr m1
         else bindr (str_of q) (\<lambda>s. p2p_query m1 packet (s ! 0) node_id key from))))))"

definition p2p_decode :: "nat \<Rightarrow> MAIN \<Rightarrow> bytes \<Rightarrow> nat \<Rightarrow> IP \<Rightarrow> MAIN res" where
  "p2p_decode fuel m bencode bensize from = bindr (ben_dec fuel bencode) (\<lambda>packet.
     case packet of None \<Rightarrow> Inr m
     | Some p \<Rightarrow> if ben_t p \<noteq> BEN_DICT then Inr m else p2p_packet m p from)"

definition p2p_parse :: "nat \<Rightarrow> MAIN \<Rightarrow> int \<Rightarrow> bytes \<Rightarrow> nat \<Rightarrow> IP \<Rightarrow> MAIN res" where
  "p2p_parse fuel m t bencode bensize from =
    (let m0 = m\<lparr>p2p := (p2p m)\<lparr>time_now := t\<rparr>\<rparr>
     in if bensize < 1 then Inr m0
        else bindr (ben_validate bencode bensize) (\<lambda>ok.
          if \<not> ok then Inr m0 else p2p_decode fuel m0 bencode bensize from))"

section \<open>Periodic work\<close>

definition p2p_init :: "int \<Rightarrow> P2P" where
  "p2p_init t = \<lparr>time_now = t, time_maintainance = 0, time_multicast = 0, time_announce = 0, time_restart = 0,
     time_expire = 0, time_split = 0, time_ping = 0, time_find = 0\<rparr>"

definition p2p_bootstrap :: "MAIN \<Rightarrow> MAIN res" where
  "p2p_bootstrap m = (case e_bootstrap (env m) of None \<Rightarrow> Inr m
     | Some info \<Rightarrow> fold_res (\<lambda>p m'. send_ping m' p (if sin6_addr p ! 0 = 0xff then SEND_MULTICAST else SEND_UNICAST))
         info m)"

definition p2p_announce_myself :: "MAIN \<Rightarrow> MAIN res" where
  "p2p_announce_myself m = (if conf_hostname (conf m) \<noteq> None
     then case rand_urandom m SHA_DIGEST_LENGTH of (lkp_id, m1) \<Rightarrow> announce_put m1 lkp_id (conf_host_id (conf m1))
     else Inr m)"

text \<open>Joining the multicast group: whether \<open>getaddrinfo\<close> and \<open>if_nametoindex\<close> succeed, which else
  ends the process, and whether \<open>setsockopt\<close> does, is up to the environment.\<close>

definition udp_multicast :: "MAIN \<Rightarrow> MAIN res" where
  "udp_multicast m = bindr (e_multicast (env m)) (\<lambda>joined. Inr (if joined then m\<lparr>multicast := 1\<rparr> else m))"

text \<open>The blocks of \<open>p2p_cron\<close>, one per timer.\<close>

definition set_timer :: "(int \<Rightarrow> P2P \<Rightarrow> P2P) \<Rightarrow> int \<times> MAIN \<Rightarrow> MAIN" where
  "set_timer f tm = (case tm of (t, m) \<Rightarrow> m\<lparr>p2p := f t (p2p m)\<rparr>)"

definition cron_expire :: "MAIN \<Rightarrow> MAIN res" where
  "cron_expire m = (if now m > time_expire (p2p m)
     then bindr (announce_expire m) (\<lambda>m. bindr (cache_expire m) (\<lambda>m. bindr (nbhd_expire m) (\<lambda>m.
          bindr (lkp_expire m) (\<lambda>m. bindr (db_expire m) (\<lambda>m.
            Inr (set_timer (\<lambda>t. time_expire_update (\<lambda>_. t)) (time_add_2_min_approx m)))))))
     else Inr m)"

definition cron_restart :: "MAIN \<Rightarrow> MAIN res" where
  "cron_restart m = (if now m > time_restart (p2p m)
     then bindr (p2p_bootstrap m) (\<lambda>m. Inr (set_timer (\<lambda>t. time_restart_update (\<lambda>_. t)) (time_add_2_min_approx m)))
     else Inr m)"

definition cron_split :: "nat \<Rightarrow> MAIN \<Rightarrow> MAIN res" where
  "cron_split fuel m = (if now m > time_split (p2p m)
     then bindr (nbhd_split fuel (nbhd m) (self_id m)) (\<lambda>l.
       Inr (set_timer (\<lambda>t. time_split_update (\<lambda>_. t)) (time_add_2_min_approx (m\<lparr>nbhd := l\<rparr>))))
     else Inr m)"

definition cron_ping :: "MAIN \<Rightarrow> MAIN res" where
  "cron_ping m = (if now m > time_ping (p2p m)
     then bindr (nbhd_ping m) (\<lambda>m. Inr (set_timer (\<lambda>t. time_ping_update (\<lambda>_. t)) (time_add_2_min_approx m)))
     else Inr m)"

definition cron_find :: "MAIN \<Rightarrow> MAIN res" where
  "cron_find m = (if now m > time_find (p2p m)
     then bindr (nbhd_find_myself m) (\<lambda>m. Inr (set_timer (\<lambda>t. time_find_update (\<lambda>_. t)) (time_add_2_min_approx m)))
     else Inr m)"

definition cron_maintainance :: "MAIN \<Rightarrow> MAIN res" where
  "cron_maintainance m = (if now m > time_maintainance (p2p m)
     then bindr (nbhd_find_random m) (\<lambda>m.
       Inr (set_timer (\<lambda>t. time_maintainance_update (\<lambda>_. t)) (time_add_2_min_approx m)))
     else Inr m)"

definition cron_announce :: "MAIN \<Rightarrow> MAIN res" where
  "cron_announce m = (if now m > time_announce (p2p m)
     then bindr (p2p_announce_myself m) (\<lambda>m.
       Inr (set_timer (\<lambda>t. time_announce_update (\<lambda>_. t)) (time_add_5_min_approx m)))
     else Inr m)"

definition cron_multicast :: "MAIN \<Rightarrow> MAIN res" where
  "cron_multicast m = (if multicast m = 0 \<and> now m > time_multicast (p2p m)
     then bindr (udp_multicast m) (\<lambda>m.
       Inr (set_timer (\<lambda>t. time_multicast_update (\<lambda>_. t)) (time_add_5_min_approx m)))
     else Inr m)"

definition p2p_cron :: "nat \<Rightarrow> MAIN \<Rightarrow> int \<Rightarrow> MAIN res" where
  "p2p_cron fuel m t = bindr (cron_expire (m\<lparr>p2p := (p2p m)\<lparr>time_now := t\<rparr>\<rparr>)) (\<lambda>m1.
     bindr (if nbhd_empty m1 then cron_restart m1
       else bindr (cron_split fuel m1) (\<lambda>m. bindr (cron_ping m) (\<lambda>m. bindr (cron_find m) (\<lambda>m.
            bindr (cron_maintainance m) cron_announce)))) cron_multicast)"

section \<open>The receive loop\<close>

definition UDP_BUF :: nat where "UDP_BUF = 1460"

text \<open>\<open>recvfrom\<close> into the cleared buffer of \<open>UDP_BUF + 1\<close> bytes; what does not fit is cut off.\<close>

definition received :: "bytes \<Rightarrow> bytes" where
  "received data = take UDP_BUF data @ replicate (Suc UDP_BUF - length (take UDP_BUF data)) 0"

text \<open>\<open>udp_input\<close> on the datagrams that are waiting, with the two clock readings that follow each;
  an empty datagram ends the loop as the end of the queue does. The decoder gets \<open>2 * n + 1\<close> units of
  fuel for \<open>n\<close> bytes: enough for every datagram that it can decode.\<close>

fun udp_input :: "nat \<Rightarrow> (bytes \<times> IP \<times> int \<times> int) list \<Rightarrow> MAIN \<Rightarrow> MAIN res" where
  "udp_input fuel [] m = Inr m"
| "udp_input fuel ((data, from, t1, t2) # rest) m = (if data = [] then Inr m
     else bindr (p2p_parse (2 * length (take UDP_BUF data) + 1) m t1 (received data)
            (length (take UDP_BUF data)) from) (\<lambda>m1.
          bindr (p2p_cron fuel m1 t2) (udp_input fuel rest)))"

end
