(* ===== verification/P2pInv.thy ===== *)
theory P2pInv
  imports P2p
begin

text \<open>
  Every handler of a datagram and every periodic task keeps the invariant of the daemon, and the
  faults that are left: NULL is dereferenced only when a bucket is empty while there are others,
  and the decoder can fail to return only on a datagram that is no list and no dictionary.
\<close>

section \<open>Fields of a packet\<close>

lemma search_ok:
  "ben_ok_tuples d \<Longrightarrow> \<exists>r. search_tuples d k = Inr r \<and> (\<forall>v. r = Some v \<longrightarrow> ben_ok v)"
proof (induction d k rule: search_tuples.induct)
  case (2 key v rest k)
  from "2.prems" obtain s where "key = BStr (Some s)" by (cases key) (auto split: option.splits)
  with 2 show ?case by auto
qed simp

lemma searchDictStr_ok:
  assumes "ben_ok p" "k \<noteq> []"
  shows "\<exists>r. ben_searchDictStr (Some p) k = Inr r \<and> (\<forall>v. r = Some v \<longrightarrow> ben_ok v)"
proof (cases p)
  case (BDict d)
  with search_ok[of d k] assms show ?thesis
    by (auto simp: ben_searchDictStr_def ben_searchDictKey_def ben_str_def ben_init_def)
qed (use assms in \<open>simp_all add: ben_searchDictStr_def ben_searchDictKey_def ben_str_def ben_init_def\<close>)

lemma ok_str: "ben_ok v \<Longrightarrow> ben_is_str (Some v) \<Longrightarrow> \<exists>s. v = BStr (Some s) \<and> s \<noteq> []"
  by (cases v) (auto simp: ben_is_str_def split: option.splits)

text \<open>A checked field is a string of the right size, whatever the packet.\<close>

lemma with_field_post:
  assumes p: "ben_ok p" "k \<noteq> []" and m: "P m"
    and check: "check None = Inr False" "\<And>v. \<not> ben_is_str (Some v) \<Longrightarrow> check (Some v) = Inr False"
      "\<And>s. check (Some (BStr (Some s))) = Inr (length s = n)"
    and f: "\<And>s. length s = n \<Longrightarrow> post F P (f s)"
  shows "post F P (with_field check (Some p) k m f)"
proof -
  obtain r where r: "ben_searchDictStr (Some p) k = Inr r" "\<And>v. r = Some v \<Longrightarrow> ben_ok v"
    using searchDictStr_ok[OF p] by blast
  show ?thesis
  proof (cases "\<exists>v. r = Some v \<and> ben_is_str (Some v)")
    case True
    then obtain s where "r = Some (BStr (Some s))" using r(2) ok_str by blast
    with r(1) check(3) f m show ?thesis by (simp add: with_field_def str_of_def)
  next
    case False
    then have "check r = Inr False" using check(1,2) by (cases r) auto
    with r(1) m show ?thesis by (simp add: with_field_def)
  qed
qed

lemma with_hash_post:
  assumes "ben_ok p" "k \<noteq> []" "P m" "\<And>s. is_id s \<Longrightarrow> post F P (f s)"
  shows "post F P (with_field p2p_is_hash (Some p) k m f)"
  by (rule with_field_post[where P = P and n = 20, OF assms(1,2,3)])
    (use assms(4) in \<open>auto simp: p2p_is_hash_def ben_is_str_def ben_str_size_def is_id_def SHA_DIGEST_LENGTH_def\<close>)

lemma with_ip_post:
  assumes "ben_ok p" "k \<noteq> []" "P m" "\<And>s. length s = 16 \<Longrightarrow> post F P (f s)"
  shows "post F P (with_field p2p_is_ip (Some p) k m f)"
  by (rule with_field_post[where P = P and n = 16, OF assms(1,2,3)])
    (use assms(4) in \<open>auto simp: p2p_is_ip_def ben_is_str_def ben_str_size_def\<close>)

lemma with_port_post:
  assumes "ben_ok p" "k \<noteq> []" "P m" "\<And>s. length s = 2 \<Longrightarrow> post F P (f s)"
  shows "post F P (with_field p2p_is_port (Some p) k m f)"
  by (rule with_field_post[where P = P and n = 2, OF assms(1,2,3)])
    (use assms(4) in \<open>auto simp: p2p_is_port_def ben_is_str_def ben_str_size_def\<close>)

lemma node_addr_ok [simp]: "length ip = 16 \<Longrightarrow> length po = 2 \<Longrightarrow> addr_ok (node_addr ip po)"
  by (simp add: addr_ok_def node_addr_def)

section \<open>Handlers\<close>

lemma cache_validate_inv:
  assumes "main_inv g m"
  shows "post F (\<lambda>(b, m'). main_inv g m' \<and> (b \<longleftrightarrow> sessions m sid \<noteq> None)) (cache_validate m sid)"
  using cache_validate_spec[OF main_inv_parts(2)[OF assms], of sid] main_inv_cache[OF assms] by auto

lemma post_no_faults: "post {} P r \<Longrightarrow> post F P r"
  by (rule post_weaken) auto

lemma nodes_loop_inv:
  assumes visit: "\<And>nid sin m. main_inv g m \<Longrightarrow> is_id nid \<Longrightarrow> addr_ok sin \<Longrightarrow> post F (main_inv g) (visit nid sin m)"
  shows "ben_ok_items items \<Longrightarrow> main_inv g m \<Longrightarrow> post F (main_inv g) (nodes_loop visit items m)"
proof (induction items arbitrary: m)
  case (Cons node items)
  show ?case
  proof (cases "ben_is_dict (Some node)")
    case True
    have node: "ben_ok node" using Cons.prems(1) by simp
    have "post F (main_inv g) (bindr (visit nid (node_addr ip po) m)
        (\<lambda>m1. bindr (nbhd_put m1 nid (node_addr ip po)) (nodes_loop visit items)))"
      if "is_id nid" "length ip = 16" "length po = 2" for nid ip po
    proof (rule post_bind[OF visit])
      fix m1
      assume m1: "main_inv g m1"
      show "post F (main_inv g) (bindr (nbhd_put m1 nid (node_addr ip po)) (nodes_loop visit items))"
        by (rule post_bind[OF post_no_faults[OF nbhd_put_inv[OF m1]]])
          (use that Cons in simp_all)
    qed (use that Cons.prems in simp_all)
    with True node Cons.prems(2) show ?thesis
      by (simp add: Let_def with_hash_post with_ip_post with_port_post)
  qed (use Cons.prems in simp)
qed simp

lemma ben_ok_list:
  assumes "ben_ok p" "k \<noteq> []"
  obtains (no_list) r where "ben_searchDictStr (Some p) k = Inr r" "\<not> ben_is_list r"
  | (items) l where "ben_searchDictStr (Some p) k = Inr (Some (BList l))" "ben_ok_items l"
proof -
  obtain r where r: "ben_searchDictStr (Some p) k = Inr r" "\<And>v. r = Some v \<Longrightarrow> ben_ok v"
    using searchDictStr_ok[OF assms] by blast
  show thesis
  proof (cases "ben_is_list r")
    case True
    then obtain l where "r = Some (BList l)"
      by (auto simp: ben_is_list_def split: option.splits) (metis ben.exhaust ben_t.simps ben_type.distinct)
    with r show ?thesis by (intro items) auto
  qed (use r in \<open>auto intro: no_list\<close>)
qed

text \<open>The requests.\<close>

lemma p2p_ping_inv [wf_intros]:
  "main_inv g m \<Longrightarrow> is_id key \<Longrightarrow> post F (main_inv g) (p2p_ping m key from)"
  unfolding p2p_ping_def by (rule post_sends[OF send_pong_spec]) (simp_all add: main_inv_parts)

lemma p2p_find_inv [wf_intros]:
  assumes "main_inv g m" "ben_ok p" "is_id key"
  shows "post (match_faults g) (main_inv g) (p2p_find m p key from)"
  unfolding p2p_find_def
  by (rule with_hash_post) (use assms in \<open>auto intro!: nbhd_send_inv\<close>)

lemma p2p_announce_inv [wf_intros]:
  assumes m: "main_inv g m" and p: "ben_ok p" "is_id key" and fr: "addr_ok from"
  shows "post (match_faults g) (main_inv g) (p2p_announce m p key from)"
  unfolding p2p_announce_def
proof (rule with_hash_post[where P = "main_inv g", OF p(1) _ m], simp, rule with_hash_post[where P = "main_inv g", OF p(1) _ m], simp)
  fix h l :: bytes
  assume ids: "is_id h" "is_id l"
  show "post (match_faults g) (main_inv g)
      (bindr (db_put m h from) (\<lambda>m'. nbhd_send m' from h (Some l) key Q_nodes_announce))"
    by (rule post_bind[OF post_no_faults[OF db_put_inv[OF m ids(1) fr]]])
      (use ids p in \<open>simp add: nbhd_send_inv\<close>)
qed

lemma p2p_lookup_inv [wf_intros]:
  assumes m: "main_inv g m" and p: "ben_ok p" "is_id key"
  shows "post (match_faults g) (main_inv g) (p2p_lookup m p key from)"
  unfolding p2p_lookup_def
proof (rule with_hash_post[where P = "main_inv g", OF p(1) _ m], simp, rule with_hash_post[where P = "main_inv g", OF p(1) _ m], simp)
  fix h l :: bytes
  assume ids: "is_id h" "is_id l"
  show "post (match_faults g) (main_inv g) (bindr (db_send m from h l key) (\<lambda>(sent, m').
      if \<not> sent then nbhd_send m' from h (Some l) key Q_nodes_lookup else Inr m'))"
    by (rule post_bind[OF post_no_faults[OF db_send_inv[OF m ids p(2), of "from"]]])
      (use ids p in \<open>auto simp: nbhd_send_inv\<close>)
qed

text \<open>The replies: refused unless the session is known.\<close>

lemma validated_post:
  assumes "main_inv g m" "\<And>m1. main_inv g m1 \<Longrightarrow> post F (main_inv g) (f m1)"
  shows "post F (main_inv g) (bindr (cache_validate m key) (\<lambda>(known, m1). if \<not> known then Inr m1 else f m1))"
  by (rule post_bind[OF cache_validate_inv[OF assms(1)]]) (use assms(2) in auto)

lemma p2p_pong_inv [wf_intros]:
  assumes "main_inv g m" "is_id nid" "addr_ok from"
  shows "post F (main_inv g) (p2p_pong m nid key from)"
  unfolding p2p_pong_def
  by (rule validated_post) (use assms in \<open>simp_all add: post_no_faults[OF nbhd_ponged_inv]\<close>)

lemma p2p_node_find_inv [wf_intros]:
  assumes m: "main_inv g m" and p: "ben_ok p"
  shows "post F (main_inv g) (p2p_node_find m p nid key from)"
  unfolding p2p_node_find_def
proof (rule validated_post[OF m])
  fix m1
  assume m1: "main_inv g m1"
  show "post F (main_inv g) (bindr (ben_searchDictStr (Some p) K_n) (\<lambda>nodes. if \<not> ben_is_list nodes then Inr m1
       else bindr (list_of nodes) (\<lambda>items. nodes_loop (\<lambda>nid sin m. Inr m) items m1)))"
    by (rule ben_ok_list[OF p, of K_n])
      (simp_all add: m1 list_of_def ben_is_list_def nodes_loop_inv)
qed

lemma visited_nodes_inv:
  assumes visit: "\<And>l nid sin m. main_inv g m \<Longrightarrow> is_id nid \<Longrightarrow> addr_ok sin \<Longrightarrow> post F (main_inv g) (visit l nid sin m)"
    and m1: "main_inv g m1" and p: "ben_ok p" "is_id nid" "addr_ok from"
  shows "post F (main_inv g) (bindr (ben_searchDictStr (Some p) K_n) (\<lambda>nodes. if \<not> ben_is_list nodes then Inr m1
       else with_field p2p_is_hash (Some p) K_l m1 (\<lambda>l. bindr (visit l nid from m1) (\<lambda>m2.
         bindr (list_of nodes) (\<lambda>items. nodes_loop (visit l) items m2)))))"
proof (rule ben_ok_list[OF p(1), of K_n])
  fix items
  assume items: "ben_searchDictStr (Some p) K_n = Inr (Some (BList items))" "ben_ok_items items"
  have "post F (main_inv g) (bindr (visit l nid from m1) (nodes_loop (visit l) items))" for l
    by (rule post_bind[OF visit[OF m1 p(2,3)]]) (rule nodes_loop_inv[OF visit items(2)])
  then show ?thesis using items m1 p by (simp add: list_of_def ben_is_list_def with_hash_post)
qed (simp_all add: m1)

lemma p2p_node_announce_inv [wf_intros]:
  assumes m: "main_inv g m" and p: "ben_ok p" "is_id nid" "addr_ok from"
  shows "post F (main_inv g) (p2p_node_announce m p nid key from)"
  unfolding p2p_node_announce_def Let_def
  by (rule validated_post[OF m], rule visited_nodes_inv)
    (use p in \<open>simp_all add: post_no_faults[OF announce_resolve_inv]\<close>)

lemma p2p_node_lookup_inv [wf_intros]:
  assumes m: "main_inv g m" and p: "ben_ok p" "is_id nid" "addr_ok from"
  shows "post F (main_inv g) (p2p_node_lookup m p nid key from)"
  unfolding p2p_node_lookup_def Let_def
  by (rule validated_post[OF m], rule visited_nodes_inv)
    (use p in \<open>simp_all add: post_no_faults[OF lkp_resolve_inv]\<close>)

lemma p2p_value_inv [wf_intros]:
  assumes m: "main_inv g m" and p: "ben_ok p"
  shows "post F (main_inv g) (p2p_value m p nid key from)"
  unfolding p2p_value_def
  by (rule validated_post[OF m], rule with_ip_post[OF p], simp, assumption, rule with_hash_post[OF p], simp, assumption)
    (simp add: post_no_faults[OF lkp_success_inv])

section \<open>Datagrams\<close>

lemma match_faults_post: "post {} P r \<Longrightarrow> post (match_faults g) P r"
  by (rule post_no_faults)

lemma p2p_query_inv:
  assumes "main_inv g m" "ben_ok p" "is_id nid" "is_id key" "addr_ok from"
  shows "post (match_faults g) (main_inv g) (p2p_query m p q nid key from)"
  using assms unfolding p2p_query_def by (simp add: wf_intros)

lemma p2p_packet_inv:
  assumes m: "main_inv g m" and p: "ben_ok p" and fr: "addr_ok from"
  shows "post (match_faults g) (main_inv g) (p2p_packet m p from)"
  unfolding p2p_packet_def
proof (rule with_hash_post[where P = "main_inv g", OF p _ m], simp)
  fix nid :: bytes
  assume nid: "is_id nid"
  show "post (match_faults g) (main_inv g) (if node_me (self_id m) nid then Inr m
     else with_field p2p_is_hash (Some p) K_k m (\<lambda>key.
       bindr (nbhd_put m nid from) (\<lambda>m1.
       bindr (ben_searchDictStr (Some p) K_q) (\<lambda>q.
       if \<not> ben_is_str q then Inr m1
       else bindr (ben_str_size q) (\<lambda>n. if n \<noteq> 1 then Inr m1
         else bindr (str_of q) (\<lambda>s. p2p_query m1 p (s ! 0) nid key from))))))"
  proof (cases "node_me (self_id m) nid")
    case False
    have "post (match_faults g) (main_inv g) (bindr (nbhd_put m nid from) (\<lambda>m1.
       bindr (ben_searchDictStr (Some p) K_q) (\<lambda>q.
       if \<not> ben_is_str q then Inr m1
       else bindr (ben_str_size q) (\<lambda>n. if n \<noteq> 1 then Inr m1
         else bindr (str_of q) (\<lambda>s. p2p_query m1 p (s ! 0) nid key from)))))" if key: "is_id key" for key
    proof (rule post_bind[OF match_faults_post[OF nbhd_put_inv[OF m nid fr]]])
      fix m1
      assume m1: "main_inv g m1"
      obtain q where q: "ben_searchDictStr (Some p) K_q = Inr q" "\<And>v. q = Some v \<Longrightarrow> ben_ok v"
        using searchDictStr_ok[OF p, of K_q] by auto
      show "post (match_faults g) (main_inv g) (bindr (ben_searchDictStr (Some p) K_q) (\<lambda>q.
         if \<not> ben_is_str q then Inr m1
         else bindr (ben_str_size q) (\<lambda>n. if n \<noteq> 1 then Inr m1
           else bindr (str_of q) (\<lambda>s. p2p_query m1 p (s ! 0) nid key from))))"
      proof (cases "ben_is_str q")
        case True
        then obtain s where "q = Some (BStr (Some s))"
          using q(2) ok_str by (cases q) (auto simp: ben_is_str_def)
        with q(1) m1 p2p_query_inv[OF m1 p nid key fr] show ?thesis
          by (simp add: ben_is_str_def ben_str_size_def str_of_def)
      qed (simp add: q m1)
    qed
    with False show ?thesis by (simp add: with_hash_post p m)
  qed (simp add: m)
qed

text \<open>A buffer as \<open>udp_input\<close> fills it: a 0 byte follows the datagram.\<close>

definition buffer_ok :: "bytes \<Rightarrow> nat \<Rightarrow> bool" where
  "buffer_ok bencode bensize \<longleftrightarrow> bensize < length bencode \<and> bencode ! bensize = 0"

lemma received_ok [simp]: "buffer_ok (received data) (length (take UDP_BUF data))"
  by (simp add: buffer_ok_def received_def nth_append)

lemma decode_inv:
  assumes m: "main_inv g m" and fr: "addr_ok from" and b: "buffer_ok code sz"
    and v: "ben_validate code sz = Inr True"
  shows "post (match_faults g \<union> (if code ! 0 = CH_d \<or> code ! 0 = CH_l then {} else {OutOfFuel})) (main_inv g)
    (p2p_decode (2 * sz + 1) m code sz from)"
proof (cases "code ! 0 = CH_d \<or> code ! 0 = CH_l")
  case True
  have "sz \<le> length code" using b by (simp add: buffer_ok_def)
  from container_decodes[OF this v True] obtain n where n: "ben_dec (2 * sz + 1) code = Inr (Some n)" "ben_ok n"
    by blast
  with True m p2p_packet_inv[OF m n(2) fr] show ?thesis by (auto simp: p2p_decode_def)
next
  case False
  with scalar_decodes[of sz code] b v m show ?thesis
    by (auto simp: p2p_decode_def buffer_ok_def)
qed

lemma p2p_parse_inv:
  assumes m: "main_inv g m" and fr: "addr_ok from" and b: "buffer_ok code sz"
  shows "post (match_faults g \<union> (if code ! 0 = CH_d \<or> code ! 0 = CH_l then {} else {OutOfFuel})) (main_inv g)
    (p2p_parse (2 * sz + 1) m t code sz from)"
proof -
  let ?m = "m\<lparr>p2p := (p2p m)\<lparr>time_now := t\<rparr>\<rparr>"
  have m0: "main_inv g ?m" using m by (rule main_inv_p2p)
  obtain ok where "ben_validate code sz = Inr ok" using validate_total[of sz code] b by (auto simp: buffer_ok_def)
  with m0 decode_inv[OF m0 fr b] show ?thesis by (cases ok) (auto simp: p2p_parse_def Let_def)
qed

end
