(* ===== verification/Cron.thy ===== *)
theory Cron
  imports P2pInv
begin

text \<open>
  The periodic work keeps the invariant of the daemon. It can dereference NULL in the searches
  (an empty bucket next to others), fail to come to an end in \<open>nbhd_split\<close> (an own identifier that
  starts with a 1 bit) and exit when the multicast address cannot be resolved.
\<close>

section \<open>Timers\<close>

lemma set_timer_inv [wf_intros]:
  assumes "main_inv g m" "f = time_add_2_min_approx \<or> f = time_add_5_min_approx"
  shows "main_inv g (set_timer u (f m))"
  using assms(2)
proof
  assume f: "f = time_add_2_min_approx"
  obtain t m' where t: "time_add_2_min_approx m = (t, m')" by fastforce
  with time_2_min[OF t] assms(1) show ?thesis unfolding f by (simp add: set_timer_def main_inv_p2p)
next
  assume f: "f = time_add_5_min_approx"
  obtain t m' where t: "time_add_5_min_approx m = (t, m')" by fastforce
  with time_5_min[OF t] assms(1) show ?thesis unfolding f by (simp add: set_timer_def main_inv_p2p)
qed

lemma set_timer_conf [simp]:
  "conf (set_timer u (time_add_2_min_approx m)) = conf m"
  by (simp add: set_timer_def time_add_2_min_approx_def random_def)

lemma timed_post:
  assumes "post F (main_inv g) r" "f = time_add_2_min_approx \<or> f = time_add_5_min_approx"
  shows "post F (main_inv g) (bindr r (\<lambda>m. Inr (set_timer u (f m))))"
  by (rule post_bind[OF assms(1)]) (simp add: set_timer_inv assms(2))

section \<open>The blocks\<close>

lemma cron_expire_inv:
  assumes "main_inv False m"
  shows "\<exists>m'. cron_expire m = Inr m' \<and> main_inv False m' \<and> conf m' = conf m"
proof (cases "now m > time_expire (p2p m)")
  case True
  let ?m1 = "m\<lparr>announce := store_sweep a_lkp_id (\<lambda>a. now m > a_time_find a) (announce m)\<rparr>"
  have 1: "announce_expire m = Inr ?m1" "main_inv False ?m1"
    using announce_expire_sweep[OF main_inv_parts(5)[OF assms]] announce_expire_inv[OF assms] by simp_all
  obtain s where 2: "cache_expire ?m1 = Inr (?m1\<lparr>cache := s\<rparr>)" "cache_ok (?m1\<lparr>cache := s\<rparr>)"
    using cache_expire_ok[OF main_inv_parts(2)[OF 1(2)]] by blast
  let ?m2 = "?m1\<lparr>cache := s\<rparr>"
  have m2: "main_inv False ?m2" by (rule main_inv_cache[OF 1(2) 2(2)])
  obtain l where 3: "nbhd_expire ?m2 = Inr (?m2\<lparr>nbhd := l\<rparr>)" "main_inv False (?m2\<lparr>nbhd := l\<rparr>)"
    using nbhd_expire_spec[OF m2] by blast
  let ?m3 = "?m2\<lparr>nbhd := l\<rparr>"
  obtain m4 where 4: "lkp_expire ?m3 = Inr m4" "main_inv False m4" "conf m4 = conf m"
    using lkp_expire_sweep[OF main_inv_parts(4)[OF 3(2)]] lkp_expire_inv[OF 3(2)] by simp
  obtain d where 5: "db_expire m4 = Inr (m4\<lparr>database := d\<rparr>)" "main_inv False (m4\<lparr>database := d\<rparr>)"
    using db_expire_spec[OF main_inv_parts(6)[OF 4(2)]] main_inv_database[OF 4(2)] by blast
  let ?m' = "set_timer (\<lambda>t. time_expire_update (\<lambda>_. t)) (time_add_2_min_approx (m4\<lparr>database := d\<rparr>))"
  have "cron_expire m = Inr ?m'" using True 1 2 3 4 5 by (simp add: cron_expire_def)
  with 4(3) 5(2) show ?thesis by (simp add: set_timer_inv)
qed (use assms in \<open>simp add: cron_expire_def\<close>)

lemma cron_restart_inv:
  assumes "main_inv g m"
  shows "post {} (main_inv g) (cron_restart m)"
proof -
  have "post {} (main_inv g) (p2p_bootstrap m)"
  proof (cases "e_bootstrap (env m)")
    case (Some info)
    then show ?thesis unfolding p2p_bootstrap_def
      by simp (rule post_fold[where P = "main_inv g", OF assms], rule send_ping_inv)
  qed (simp add: p2p_bootstrap_def assms)
  then show ?thesis by (simp add: cron_restart_def timed_post assms)
qed

text \<open>Splitting comes to an end for an own identifier that starts with a 0 bit.\<close>

definition split_faults :: "nat \<Rightarrow> bytes \<Rightarrow> fault set" where
  "split_faults fuel self = (if be_nat self < 2 ^ 159 \<and> 161 \<le> fuel then {} else {OutOfFuel})"

lemma nbhd_split_faults:
  assumes "nbhd_ok g self l" "is_id self"
  shows "post (split_faults fuel self) (\<lambda>l'. nbhd_ok False self l' \<and> all_nodes l' = all_nodes l)
    (nbhd_split fuel l self)"
proof (cases "be_nat self < 2 ^ 159 \<and> 161 \<le> fuel")
  case True
  have low: "low self l" using assms True by (simp add: low_iff_split_ok nbhd_ok_def)
  then obtain k where k: "bckt_find_best_match l self = Some k" "k < length (bl_items l)" by (rule low_best)
  have "- 1 \<le> depth l k" using depth_bounds[of l k] low k(2) by (simp add: low_def bl_inv_def)
  then have "160 - depth l k \<le> int fuel" using True by simp
  from nbhd_split_enough[OF low k(1) this] obtain l' where "nbhd_split fuel l self = Inr l'" by blast
  with nbhd_split_inv[OF assms, of fuel] show ?thesis by simp
next
  case False
  then have "split_faults fuel self = {OutOfFuel}" unfolding split_faults_def by (rule if_not_P)
  with nbhd_split_inv[OF assms, of fuel] show ?thesis by simp
qed

lemma cron_split_inv:
  assumes "main_inv False m"
  shows "post (split_faults fuel (self_id m)) (main_inv False) (cron_split fuel m)"
proof (cases "now m > time_split (p2p m)")
  case True
  then show ?thesis unfolding cron_split_def
    by simp (rule post_bind[OF nbhd_split_faults[OF main_inv_parts(3,8)[OF assms]]],
      simp add: set_timer_inv main_inv_nbhd assms)
qed (simp add: cron_split_def assms)

lemma cron_ping_inv: "main_inv g m \<Longrightarrow> post {} (main_inv g) (cron_ping m)"
  by (simp add: cron_ping_def timed_post nbhd_ping_inv)

lemma cron_find_inv: "main_inv g m \<Longrightarrow> post (match_faults g) (main_inv g) (cron_find m)"
  by (simp add: cron_find_def timed_post nbhd_find_myself_inv)

lemma cron_maintainance_inv: "main_inv g m \<Longrightarrow> post (match_faults g) (main_inv g) (cron_maintainance m)"
  by (simp add: cron_maintainance_def timed_post nbhd_find_random_inv)

lemma announce_myself_inv:
  assumes "main_inv g m"
  shows "post (match_faults g) (main_inv g) (p2p_announce_myself m)"
proof (cases "rand_urandom m SHA_DIGEST_LENGTH")
  case (Pair lid m1)
  with urandom_inv[OF Pair assms] assms show ?thesis
    by (auto simp: p2p_announce_myself_def intro!: announce_put_inv main_inv_parts(9))
qed

lemma cron_announce_inv: "main_inv g m \<Longrightarrow> post (match_faults g) (main_inv g) (cron_announce m)"
  by (simp add: cron_announce_def timed_post announce_myself_inv)

lemma cron_multicast_inv:
  assumes "main_inv g m" "\<And>e. e_multicast (env m) = Inl e \<Longrightarrow> e \<in> F"
  shows "post F (main_inv g) (cron_multicast m)"
proof -
  have "post F (main_inv g) (udp_multicast m)"
    using assms by (cases "e_multicast (env m)") (simp_all add: udp_multicast_def main_inv_multicast)
  then show ?thesis using assms(1) by (simp add: cron_multicast_def timed_post)
qed

section \<open>All of it\<close>

lemma cron_busy_inv:
  assumes "main_inv False m"
  shows "post ({NullDeref} \<union> split_faults fuel (self_id m)) (main_inv False)
    (bindr (cron_split fuel m) (\<lambda>m. bindr (cron_ping m) (\<lambda>m. bindr (cron_find m) (\<lambda>m.
      bindr (cron_maintainance m) cron_announce))))"
proof -
  let ?F = "{NullDeref} \<union> split_faults fuel (self_id m)"
  have null: "post (match_faults False) P r \<Longrightarrow> post ?F P r" for P r
    by (rule post_weaken) (auto simp: match_faults_def)
  have "post ?F (main_inv False) (cron_split fuel m)"
    by (rule post_weaken[OF cron_split_inv[OF assms]]) auto
  then show ?thesis
    by (rule post_bind, intro post_bind[OF post_no_faults[OF cron_ping_inv]] post_bind[OF null[OF cron_find_inv]]
        post_bind[OF null[OF cron_maintainance_inv]] null cron_announce_inv) assumption+
qed

lemma p2p_cron_inv:
  assumes "main_inv False m"
  shows "post ({NullDeref, ExitFailure} \<union> split_faults fuel (self_id m)) (main_inv False) (p2p_cron fuel m t)"
proof -
  let ?F = "{NullDeref, ExitFailure} \<union> split_faults fuel (self_id m)"
  let ?m = "m\<lparr>p2p := (p2p m)\<lparr>time_now := t\<rparr>\<rparr>"
  obtain m1 where m1: "cron_expire ?m = Inr m1" "main_inv False m1" "conf m1 = conf m"
    using cron_expire_inv[OF main_inv_p2p[OF assms]] by auto
  have "post ?F (main_inv False) (if nbhd_empty m1 then cron_restart m1
       else bindr (cron_split fuel m1) (\<lambda>m. bindr (cron_ping m) (\<lambda>m. bindr (cron_find m) (\<lambda>m.
            bindr (cron_maintainance m) cron_announce))))"
    using post_no_faults[OF cron_restart_inv[OF m1(2)]] cron_busy_inv[OF m1(2), of fuel] m1(3)
    by (auto elim: post_weaken)
  then have "post ?F (main_inv False) (bindr (if nbhd_empty m1 then cron_restart m1
       else bindr (cron_split fuel m1) (\<lambda>m. bindr (cron_ping m) (\<lambda>m. bindr (cron_find m) (\<lambda>m.
            bindr (cron_maintainance m) cron_announce)))) cron_multicast)"
    by (rule post_bind) (rule cron_multicast_inv, simp_all add: main_inv_def conf_ok_def)
  with m1(1) show ?thesis by (simp add: p2p_cron_def)
qed

end
