(* ===== verification/Daemon.thy ===== *)
theory Daemon
  imports Cron
begin

text \<open>
  The daemon as a whole: its steps, what holds in every state it can reach, and what one datagram
  can do to it. A step is a datagram, a tick of the clock, a lookup that a front end
  (\<open>masala-dns.c\<close>, \<open>masala-web.c\<close>, \<open>masala-nss.c\<close>, \<open>masala-cmd.c\<close>) starts with \<open>lkp_put\<close>, or a
  PING that the remote control sends.
\<close>

section \<open>Steps\<close>

datatype event = Datagram bytes IP int | Tick int | Lookup bytes "nat option" | Ping IP int

text \<open>What the process does on an event; \<open>fuel\<close> is that of the splitting loop.\<close>

fun handle :: "nat \<Rightarrow> event \<Rightarrow> MAIN \<Rightarrow> MAIN res" where
  "handle fuel (Datagram data src t) m = (let n = length (take UDP_BUF data)
     in p2p_parse (2 * n + 1) m t (received data) n src)"
| "handle fuel (Tick t) m = p2p_cron fuel m t"
| "handle fuel (Lookup find_id callback) m = lkp_put m find_id callback"
| "handle fuel (Ping addr kind) m = send_ping m addr kind"

fun event_ok :: "event \<Rightarrow> bool" where
  "event_ok (Datagram data src t) \<longleftrightarrow> addr_ok src"
| "event_ok (Tick t) \<longleftrightarrow> True"
| "event_ok (Lookup find_id callback) \<longleftrightarrow> is_id find_id"
| "event_ok (Ping addr kind) \<longleftrightarrow> True"

inductive step :: "nat \<Rightarrow> MAIN \<Rightarrow> event \<Rightarrow> MAIN \<Rightarrow> bool" for fuel where
  step: "event_ok e \<Longrightarrow> handle fuel e m = Inr m' \<Longrightarrow> step fuel m e m'"

inductive runs :: "nat \<Rightarrow> MAIN \<Rightarrow> event list \<Rightarrow> MAIN \<Rightarrow> bool" for fuel where
  runs_Nil: "runs fuel m [] m"
| runs_snoc: "runs fuel m es m' \<Longrightarrow> step fuel m' e m'' \<Longrightarrow> runs fuel m (es @ [e]) m''"

inductive_simps step_simp: "step fuel m e m'"
inductive_cases runs_snocE: "runs fuel m (es @ [e]) m'"

lemmas handlers = p2p_parse_inv p2p_cron_inv lkp_put_inv

text \<open>Every event keeps the invariant or ends in one of three ways.\<close>

lemma handle_inv:
  assumes "main_inv False m" "event_ok e"
  shows "post {NullDeref, OutOfFuel, ExitFailure} (main_inv False) (handle fuel e m)"
proof (cases e)
  case (Datagram data src t)
  with assms(2) have "addr_ok src" by simp
  from p2p_parse_inv[OF assms(1) this received_ok] show ?thesis
    unfolding Datagram handle.simps Let_def by (rule post_weaken) (auto simp: match_faults_def)
next
  case (Tick t)
  show ?thesis unfolding Tick handle.simps
    by (rule post_weaken[OF p2p_cron_inv[OF assms(1)]]) (auto simp: split_faults_def)
next
  case (Lookup find_id callback)
  with assms(2) have "is_id find_id" by simp
  from lkp_put_inv[OF assms(1) this] show ?thesis
    unfolding Lookup handle.simps by (rule post_weaken) (auto simp: match_faults_def)
next
  case (Ping addr kind)
  show ?thesis unfolding Ping handle.simps by (rule send_ping_inv[OF assms(1)])
qed

lemma runs_inv: "runs fuel m es m' \<Longrightarrow> main_inv False m \<Longrightarrow> main_inv False m'"
proof (induction rule: runs.induct)
  case (runs_snoc m es m' e m'')
  then have "event_ok e" "handle fuel e m' = Inr m''" by (simp_all add: step_simp)
  with handle_inv[of m' e fuel] runs_snoc show ?case by simp
qed

section \<open>Packets with given fields\<close>

text \<open>A datagram that encodes a dictionary is handled as that dictionary.\<close>

lemma encodes_dict_start:
  assumes "encodes code (BDict d)"
  shows "code \<noteq> [] \<and> (code @ rest) ! 0 = CH_d"
proof -
  obtain p where "ben_enc_rec (BDict d) = Inr p"
    using assms ben_ok_encodes(1)[of "BDict d"] by (auto simp: encodes_def)
  moreover from this have "code = p" using ben_enc_rec_enc assms by (auto simp: encodes_def)
  ultimately show ?thesis by (auto simp: bindr_eq_Inr)
qed

lemma parse_encoded:
  assumes "encodes code (BDict d)"
  shows "p2p_parse (2 * length code + 1) m t (code @ rest) (length code) src
    = p2p_packet (m\<lparr>p2p := (p2p m)\<lparr>time_now := t\<rparr>\<rparr>) (BDict d) src"
  using assms encodes_dict_start[OF assms]
  by (simp add: p2p_parse_def p2p_decode_def encodes_def Suc_le_eq)

lemma hash_field:
  "k \<noteq> [] \<Longrightarrow> kvs \<noteq> [] \<Longrightarrow> map_of kvs k = Some v \<Longrightarrow> is_id v \<Longrightarrow>
    with_field p2p_is_hash (Some (BDict (map field kvs))) k m f = f v"
  by (simp add: with_field_def searchDictStr_field p2p_is_hash_def ben_is_str_def ben_str_size_def
      is_id_def str_of_def)

lemma packet_fields:
  assumes "kvs = (K_i, nid) # (K_k, key) # rest" "map_of rest K_q = Some [q]" "is_id nid" "is_id key"
    and "\<not> node_me (self_id m) nid"
  shows "p2p_packet m (BDict (map field kvs)) src
    = bindr (nbhd_put m nid src) (\<lambda>m1. p2p_query m1 (BDict (map field kvs)) q nid key src)"
proof -
  have i: "with_field p2p_is_hash (Some (BDict (map field kvs))) K_i m f = f nid" for f
    by (rule hash_field) (use assms in simp_all)
  have k: "with_field p2p_is_hash (Some (BDict (map field kvs))) K_k m f = f key" for f
    by (rule hash_field) (use assms in simp_all)
  have "ben_searchDictStr (Some (BDict (map field kvs))) K_q = Inr (Some (BStr (Some [q])))"
    using assms(1,2) by (subst searchDictStr_field) simp_all
  with i k assms(5) show ?thesis
    by (simp add: p2p_packet_def ben_is_str_def ben_str_size_def str_of_def)
qed

section \<open>Contact\<close>

lemma all_nodes_at:
  "k < length (bl_items l) \<Longrightarrow> n \<in> set (bl_nodes l k) \<Longrightarrow> n \<in> all_nodes l"
  by (auto simp: all_nodes_def)

text \<open>What stays when a packet is handled.\<close>

definition keeps :: "MAIN \<Rightarrow> MAIN \<Rightarrow> bool" where
  "keeps m m' \<longleftrightarrow> conf m' = conf m \<and> sockfd m' = sockfd m \<and> p2p m' = p2p m \<and>
     (\<forall>sid. sessions m sid \<noteq> None \<longrightarrow> sessions m' sid \<noteq> None)"

lemma sends_keeps: "sends m m' \<Longrightarrow> cache_ok m \<Longrightarrow> keeps m m'"
  by (simp add: sends_def keeps_def)

lemma keeps_trans: "keeps a b \<Longrightarrow> keeps b c \<Longrightarrow> keeps a c"
  by (simp add: keeps_def)

lemma time5_keeps: "time_add_5_min_approx m = (t, m') \<Longrightarrow> keeps m m' \<and> cache m' = cache m"
  by (auto dest!: time_5_min simp: keeps_def)

text \<open>A new node goes into its bucket, with one unanswered ping.\<close>

lemma nbhd_put_unknown:
  assumes m: "main_inv g m" and id: "is_id nid" "\<not> node_me (self_id m) nid" and sa: "addr_ok sa"
    and none: "bckt_find_node (nbhd m) nid = None" "bckt_find_best_match (nbhd m) nid = Some k"
  shows "\<exists>m' n. nbhd_put m nid sa = Inr m' \<and> keeps m m' \<and>
    nbhd m' = bl_set_nodes (nbhd m) k (bl_nodes (nbhd m) k @ [n]) \<and> n_id n = nid \<and> n_addr n = sa \<and> n_pinged n = 1"
proof -
  obtain tp m1 where t1: "time_add_5_min_approx m = (tp, m1)" by fastforce
  obtain tf m2 where t2: "time_add_5_min_approx m1 = (tf, m2)" by fastforce
  let ?n = "\<lparr>n_addr = sa, n_id = nid, n_time_ping = tp, n_time_find = tf, n_pinged = 1\<rparr>"
  let ?l = "bl_set_nodes (nbhd m) k (bl_nodes (nbhd m) k @ [?n])"
  let ?m2 = "m2\<lparr>nbhd := ?l\<rparr>"
  have m2: "main_inv g m2" "nbhd m2 = nbhd m" using time5_inv[OF t1 m] time5_inv[OF t2] by auto
  have k2: "keeps m m2" using keeps_trans time5_keeps[OF t1] time5_keeps[OF t2] by blast
  have c: "conf_ok ?m2" "cache_ok ?m2"
    using main_inv_parts(1,2)[OF m2(1)] by (simp_all add: conf_ok_def cache_ok_def)
  obtain m3 where m3: "send_ping ?m2 sa SEND_UNICAST = Inr m3" "sends ?m2 m3" using send_ping_spec[OF c(1)] by blast
  have c3: "conf_ok m3" "cache_ok m3" "is_id (self_id m3)"
    using conf_ok_sends[OF m3(2) c(1)] m3(2) c(2) by (auto simp: sends_def conf_ok_def)
  obtain m4 where m4: "send_find m3 sa (self_id m3) = Inr m4" "sends m3 m4"
    using send_find_spec[OF c3(1,3)] by blast
  have s: "sends ?m2 m4" by (rule sends_trans[OF m3(2) m4(2)])
  have "bckt_put (nbhd m2) (Some ?n) = Inr ?l" using none m2(2) by (simp add: bckt_put_def)
  then have "nbhd_put m nid sa = Inr m4" using id(2) none(1) t1 t2 m3(1) m4(1) by (simp add: nbhd_put_def)
  moreover have "keeps m ?m2" using k2 by (simp add: keeps_def)
  then have "keeps m m4" by (rule keeps_trans) (rule sends_keeps[OF s c(2)])
  moreover have "nbhd m4 = ?l" using s by (simp add: sends_def)
  ultimately show ?thesis by (intro exI[of _ m4] exI[of _ ?n]) simp
qed

lemma set_nodes_mem:
  "k < length (bl_items l) \<Longrightarrow> n \<in> set ns \<Longrightarrow> n \<in> all_nodes (bl_set_nodes l k ns)"
  by (rule all_nodes_at[of k]) simp_all

lemma nbhd_put_knows:
  assumes m: "main_inv g m" and id: "is_id nid" "\<not> node_me (self_id m) nid" and sa: "addr_ok sa"
  shows "\<exists>m' n. nbhd_put m nid sa = Inr m' \<and> main_inv g m' \<and> keeps m m' \<and>
    n \<in> all_nodes (nbhd m') \<and> n_id n = nid \<and> n_addr n = sa"
proof -
  have inv: "post {} (main_inv g) (nbhd_put m nid sa)" by (rule nbhd_put_inv[OF m id(1) sa])
  from m id(1) show ?thesis
  proof (cases rule: node_at_cases)
    case (absent k)
    from nbhd_put_unknown[OF m id sa absent(1,2)] obtain m' n where
      *: "nbhd_put m nid sa = Inr m'" "keeps m m'" "nbhd m' = bl_set_nodes (nbhd m) k (bl_nodes (nbhd m) k @ [n])"
      "n_id n = nid" "n_addr n = sa" by blast
    moreover have "n \<in> all_nodes (nbhd m')" unfolding *(3) by (rule set_nodes_mem[OF absent(3)]) simp
    ultimately show ?thesis using inv by auto
  next
    case (present k j)
    let ?n = "nbhd_update_address (bl_nodes (nbhd m) k ! j) sa"
    have "?n \<in> all_nodes (nbhd (set_node m k j ?n))"
      unfolding set_node_def using present(2,3) by (simp add: set_nodes_mem set_update_memI)
    moreover have "nbhd_put m nid sa = Inr (set_node m k j ?n)" using id(2) present by (simp add: nbhd_put_def)
    moreover have "keeps m (set_node m k j ?n)" by (simp add: keeps_def)
    moreover have "n_id ?n = nid \<and> n_addr ?n = sa" using present(4) by (simp add: nbhd_update_address_def)
    ultimately show ?thesis using inv by (intro exI[of _ "set_node m k j ?n"] exI[of _ ?n]) simp
  qed
qed

lemma nbhd_ponged_marks:
  assumes m: "main_inv g m" and id: "is_id nid" "nid \<in> n_id ` all_nodes (nbhd m)"
  shows "\<exists>m' n. nbhd_ponged m nid sa = Inr m' \<and> n \<in> all_nodes (nbhd m') \<and> n_id n = nid \<and> n_addr n = sa \<and>
    n_pinged n = 0 \<and> now m + 240 \<le> n_time_ping n"
  using m id(1)
proof (cases rule: node_at_cases)
  case (absent k)
  with id(2) show ?thesis by blast
next
  case (present k j)
  obtain t m1 where t: "time_add_5_min_approx m = (t, m1)" by fastforce
  let ?n = "(bl_nodes (nbhd m) k ! j)\<lparr>n_pinged := 0, n_time_ping := t, n_addr := sa\<rparr>"
  have same: "nbhd m1 = nbhd m" "240 + now m \<le> t" using time_5_min[OF t] by auto
  have "?n \<in> all_nodes (nbhd (set_node m1 k j ?n))"
    unfolding set_node_def using present(2,3) same(1) by (simp add: set_nodes_mem set_update_memI)
  moreover have "nbhd_ponged m nid sa = Inr (set_node m1 k j ?n)" using present t by (simp add: nbhd_ponged_def)
  ultimately show ?thesis using present(4) same(2)
    by (intro exI[of _ "set_node m1 k j ?n"] exI[of _ ?n]) simp
qed

end
