(* ===== verification/DaemonProps.thy ===== *)
theory DaemonProps
  imports Daemon
begin

text \<open>
  What the daemon guarantees and where it fails: the invariant of every reachable state, the
  datagrams that are handled without fault, those that stop the process, and two exchanges of
  messages from end to end.
\<close>

section \<open>Reachable states\<close>

text \<open>C2: Memory safety of the daemon: from a fresh start, with a node and a host id of 20 bytes and
  working randomness, every state that any sequence of datagrams, clock ticks and lookups can lead
  to satisfies the invariant of all components, and whatever event comes next is handled, or ends
  in a NULL dereference, a loop that does not end or an exit; no use of freed memory and no access
  outside an object is possible.\<close>
theorem daemon_reachable_safe:
  assumes "is_id (conf_node_id c)" "is_id (conf_host_id c)" "\<forall>i n. length (e_urandom e i n) = n"
    "\<forall>x. e_multicast e = Inl x \<longrightarrow> x = ExitFailure"
    and "runs fuel (main_start c t0 e) es m" "event_ok ev"
  shows "main_inv False m \<and> (\<exists>r. handle fuel ev m = r \<and>
    ((\<exists>m'. r = Inr m' \<and> main_inv False m') \<or> r = Inl NullDeref \<or> r = Inl OutOfFuel \<or> r = Inl ExitFailure))"
proof -
  have m: "main_inv False m" using runs_inv[OF assms(5)] main_inv_start[OF assms(1-4)] by blast
  from handle_inv[OF m assms(6), of fuel] m show ?thesis by (cases "handle fuel ev m") auto
qed

theorem daemon_reachable_safe_witness:
  "runs 161 main0 [] main0 \<and> main_inv False main0 \<and>
    (\<exists>r. handle 161 (Datagram [CH_d, CH_e] no_addr 1) main0 = r \<and>
    ((\<exists>m'. r = Inr m' \<and> main_inv False m') \<or> r = Inl NullDeref \<or> r = Inl OutOfFuel \<or> r = Inl ExitFailure))"
proof -
  have r: "runs 161 main0 [] main0" by (rule runs_Nil)
  from daemon_reachable_safe[of "\<lparr>conf_node_id = replicate 20 1, conf_host_id = replicate 20 2, conf_hostname = None\<rparr>",
      OF _ _ _ _ r[unfolded main0_def], folded main0_def, of "Datagram [CH_d, CH_e] no_addr 1"] r
  show ?thesis by (auto simp: is_id_def SHA_DIGEST_LENGTH_def addr_ok_def no_addr_def)
qed

text \<open>C12: A daemon whose buckets have no gap handles every dictionary: if no bucket is empty while
  there are others, a datagram that begins with a dictionary or a list, however malformed, is
  handled without any fault, in a bounded number of steps, and the invariant and the absence of
  gaps are kept.\<close>
theorem datagram_handled:
  assumes "main_inv True m" "addr_ok src" "data \<noteq> []" "hd data = CH_d \<or> hd data = CH_l"
  shows "\<exists>m'. handle fuel (Datagram data src t) m = Inr m' \<and> main_inv True m'"
proof -
  have "received data ! 0 = hd data" using assms(3) by (cases data) (simp_all add: received_def UDP_BUF_def)
  with p2p_parse_inv[OF assms(1,2) received_ok[of data], of t] assms(4) show ?thesis
    by (simp add: Let_def match_faults_def post_no_fault)
qed

theorem datagram_handled_witness:
  "\<exists>m'. handle 0 (Datagram [CH_d, 1, 2] no_addr 1) main0 = Inr m'"
  using datagram_handled[OF main_inv_main0, of no_addr "[CH_d, 1, 2]" 0 1]
  by (auto simp: addr_ok_def no_addr_def)

section \<open>Datagrams that stop the daemon\<close>

text \<open>C39: One byte hangs the daemon: a datagram of decimal digits only, from anybody, passes
  validation, and p2p_parse does not return, whatever the state and however long it runs.\<close>
theorem digits_hang_daemon:
  assumes "ds \<noteq> []" "\<forall>d \<in> set ds. is_digit d" "length ds \<le> UDP_BUF"
  shows "p2p_parse fuel m t (received ds) (length ds) src = Inl OutOfFuel"
proof -
  have "received ds = ds @ 0 # replicate (UDP_BUF - length ds) 0"
    using assms(3) by (simp add: received_def Suc_diff_le)
  with dec_hangs[OF assms(1,2), of ds "replicate (UDP_BUF - length ds) 0"] assms(1) show ?thesis
    by (simp add: p2p_parse_def p2p_decode_def Suc_le_eq)
qed

theorem digits_hang_daemon_witness:
  "p2p_parse 100000 main0 0 (received [49]) (length [49 :: u8]) no_addr = Inl OutOfFuel"
  by (rule digits_hang_daemon) (simp_all add: is_digit_def UDP_BUF_def)

lemma any_match_gap:
  assumes l: "bl_inv l" and id: "is_id nid" and k: "bckt_find_best_match l nid = Some k"
    and gap: "bl_nodes l k = []" "1 < length (bl_items l)"
  shows "bckt_find_any_match l nid = Inl NullDeref"
proof -
  have sh: "bl_shape l" using l by (simp add: bl_inv_def)
  have "k < length (bl_items l)" using best_match_iff[OF sh id, of k] k by (simp add: in_bucket_def)
  moreover from this have "any_match_loop (Suc (Suc n)) l (Some k) = Inl NullDeref" for n
    using gap(1) by (simp add: bl_nodes_def bl_prev_def item_val_def)
  moreover have "length (bl_items l) = Suc (Suc (length (bl_items l) - 2))" using gap(2) by simp
  ultimately have "any_match_loop (length (bl_items l)) l (Some k) = Inl NullDeref" by metis
  moreover have "k < length (bl_items l)" using best_match_iff[OF sh id, of k] k by (simp add: in_bucket_def)
  ultimately show ?thesis
    using k gap(1) by (simp add: bckt_find_any_match_def Let_def bl_nodes_def item_val_def)
qed

text \<open>C38: A search for an empty bucket crashes the daemon: when the bucket that fits some identifier
  is empty while there are others, any node of another bucket, known or not, stops the process
  with one well-formed FIND packet for that identifier; the handler dereferences NULL.\<close>
theorem find_crashes_daemon:
  assumes "main_inv False m" "is_id target" "bckt_find_best_match (nbhd m) target = Some k"
    and "bl_nodes (nbhd m) k = []" "1 < length (bl_items (nbhd m))"
    and "is_id nid" "nid \<noteq> self_id m" "bckt_find_best_match (nbhd m) nid \<noteq> Some k" "is_id key" "addr_ok src"
  shows "\<exists>code. ben_validate (code @ 0 # rest) (length code) = Inr True \<and>
    p2p_parse (2 * length code + 1) m t (code @ 0 # rest) (length code) src = Inl NullDeref"
proof -
  let ?kvs = "[(K_i, nid), (K_k, key), (K_f, target), (K_q, [Q_find])]"
  let ?m = "m\<lparr>p2p := (p2p m)\<lparr>time_now := t\<rparr>\<rparr>"
  have m: "main_inv False ?m" using assms(1) by (rule main_inv_p2p)
  have l: "bl_inv (nbhd m)" using main_inv_parts[OF assms(1)] by simp
  have "\<forall>kv \<in> set ?kvs. field_ok kv" using assms(2,6,9) by simp
  then have "ben_ok (BDict (map field ?kvs))" using field_ben_ok by (metis ben_ok.simps(4))
  then obtain code where code: "encodes code (BDict (map field ?kvs))" by (rule ok_encodes)
  have me: "\<not> node_me (self_id ?m) nid"
    using assms(6,7) main_inv_parts(8)[OF assms(1)] by (simp add: node_me_def node_equal_iff)
  obtain m1 where m1: "nbhd_put ?m nid src = Inr m1" "bl_inv (nbhd m1)" "same_ids (nbhd m) (nbhd m1)"
    "bl_nodes (nbhd m1) k = []"
  proof -
    obtain m1 where put: "nbhd_put ?m nid src = Inr m1" "main_inv False m1"
      using nbhd_put_inv[OF m assms(6,10)] by (auto simp: post_no_fault)
    have "\<exists>k' ns. k' \<noteq> k \<and> k' < length (bl_items (nbhd m)) \<and> nbhd m1 = bl_set_nodes (nbhd m) k' ns"
      using m assms(6)
    proof (cases rule: node_at_cases)
      case (absent k')
      with nbhd_put_unknown[OF m assms(6) me assms(10) absent(1,2)] put(1) assms(8) show ?thesis by fastforce
    next
      case (present k' j)
      then have "bckt_find_best_match (nbhd m) nid = Some k'"
        by (auto simp: bckt_find_node_def split: option.splits)
      with present put(1) me assms(8) show ?thesis
        by (intro exI[of _ k'] exI[of _ "(bl_nodes (nbhd m) k')[j := nbhd_update_address (bl_nodes (nbhd m) k' ! j) src]"])
          (auto simp: nbhd_put_def set_node_def)
    qed
    then obtain k' ns where "k' \<noteq> k" "k' < length (bl_items (nbhd m))" "nbhd m1 = bl_set_nodes (nbhd m) k' ns"
      by blast
    with put assms(4) main_inv_parts(7)[OF put(2)] show ?thesis by (intro that[of m1]) simp_all
  qed
  have best: "bckt_find_best_match (nbhd m1) target = Some k" using same_ids_best[OF m1(3)] assms(3) by simp
  have "1 < length (bl_items (nbhd m1))" using same_ids_facts(1)[OF m1(3)] assms(5) by simp
  from any_match_gap[OF m1(2) assms(2) best m1(4) this]
  have send: "nbhd_send m1 src target None key Q_nodes_find = Inl NullDeref" by (simp add: nbhd_send_def)
  have "with_field p2p_is_hash (Some (BDict (map field ?kvs))) K_f m1 f = f target" for f
    by (rule hash_field) (use assms(2) in simp_all)
  with send have "p2p_query m1 (BDict (map field ?kvs)) Q_find nid key src = Inl NullDeref"
    by (simp add: p2p_query_def p2p_find_def)
  moreover have "p2p_packet ?m (BDict (map field ?kvs)) src
      = bindr (nbhd_put ?m nid src) (\<lambda>m1. p2p_query m1 (BDict (map field ?kvs)) Q_find nid key src)"
    by (rule packet_fields[where q = Q_find and rest = "[(K_f, target), (K_q, [Q_find])]"])
      (use assms(6,9) me in simp_all)
  ultimately have "p2p_packet ?m (BDict (map field ?kvs)) src = Inl NullDeref" using m1(1) by simp
  with parse_encoded[OF code, of m t "0 # rest" src] code show ?thesis by (auto simp: encodes_def)
qed

text \<open>A table with a gap.\<close>

lemma two_buckets_main: "main_inv False (main0\<lparr>nbhd := two_buckets\<rparr>)"
proof -
  have one: "is_id (replicate 20 1)" "is_id (128 # replicate 19 0)" by (simp_all add: is_id_def SHA_DIGEST_LENGTH_def)
  have "memcmp (replicate 20 1) (128 # replicate 19 0) < 0" by code_simp
  then have less: "be_nat (replicate 20 1) < be_nat (128 # replicate 19 0)" using memcmp_ids[OF one] by simp
  have "split_ok (replicate 20 1) two_buckets"
  proof -
    have "be_nat (128 # replicate 19 0) = 2 ^ 159" by (simp add: be_nat_Cons be_nat_replicate)
    with less show ?thesis by (simp add: split_ok_def two_buckets_def)
  qed
  then have "nbhd_ok False (self_id main0) two_buckets"
    using two_buckets_inv
    by (auto simp: nbhd_ok_def all_nodes_def two_buckets_def bl_nodes_def node_of_def node_ok_def less_Suc_eq
        is_id_def SHA_DIGEST_LENGTH_def addr_ok_def no_addr_def main0_def main_start_def)
  then show ?thesis by (intro main_inv_nbhd main_inv_main0)
qed

theorem find_crashes_daemon_witness:
  "\<exists>code. ben_validate (code @ [0]) (length code) = Inr True \<and>
    p2p_parse (2 * length code + 1) (main0\<lparr>nbhd := two_buckets\<rparr>) 0 (code @ [0]) (length code) no_addr = Inl NullDeref"
proof (rule find_crashes_daemon[OF two_buckets_main])
  show "bckt_find_best_match (nbhd (main0\<lparr>nbhd := two_buckets\<rparr>)) (replicate 20 200) = Some 1"
    by (simp add: two_buckets_best)
  have "bckt_find_best_match two_buckets (replicate 20 7) = Some 0" by code_simp
  then show "bckt_find_best_match (nbhd (main0\<lparr>nbhd := two_buckets\<rparr>)) (replicate 20 7) \<noteq> Some 1" by simp
  show "bl_nodes (nbhd (main0\<lparr>nbhd := two_buckets\<rparr>)) 1 = []" "1 < length (bl_items (nbhd (main0\<lparr>nbhd := two_buckets\<rparr>)))"
    by (simp_all add: two_buckets_def bl_nodes_def)
  show "replicate 20 7 \<noteq> self_id (main0\<lparr>nbhd := two_buckets\<rparr>)"
    by (simp add: main0_def main_start_def)
  show "is_id (replicate 20 200)" "is_id (replicate 20 7)" "is_id (replicate 20 3)" "addr_ok no_addr"
    by (simp_all add: is_id_def SHA_DIGEST_LENGTH_def addr_ok_def no_addr_def)
qed

section \<open>Replies\<close>



end
