(* ===== verification/Exchange.thy ===== *)
theory Exchange
  imports Daemon
begin

text \<open>
  Two daemons that talk to each other, from \<open>sendto\<close> of the one to the handler of the other: a
  PING is answered by a PONG that is accepted, and an announced host is found by a lookup.
\<close>

section \<open>What is sent\<close>

lemma transmit_keeps [simp]: "keeps m (transmit m sa code)"
  by (simp add: keeps_def transmit_def)

lemma send_ping_packet:
  assumes m: "main_inv g m" and up: "0 \<le> sockfd m"
  shows "\<exists>sid code m'. is_id sid \<and>
    encodes code (BDict (map field [(K_i, self_id m), (K_k, sid), (K_q, [Q_ping])])) \<and>
    send_ping m sa t = Inr m' \<and> main_inv g m' \<and> keeps m m' \<and> nbhd m' = nbhd m \<and>
    sessions m' sid \<noteq> None \<and> last (e_sent (env m')) = (sa, code)"
proof (cases "rand_urandom m SHA_DIGEST_LENGTH")
  case (Pair sid m1)
  have c: "conf_ok m" "cache_ok m" using main_inv_parts[OF m] by simp_all
  let ?kvs = "[(K_i, self_id m), (K_k, sid), (K_q, [Q_ping])]"
  from send_request[OF c(1) Pair, of ?kvs t sa] c(1) obtain code where
    1: "is_id sid" "sends m (cache_put m1 sid t)" "encodes code (BDict (map field ?kvs))"
    "send_fields (cache_put m1 sid t) sa ?kvs = Inr (transmit (cache_put m1 sid t) sa code)"
    by (auto simp: conf_ok_def)
  let ?m' = "transmit (cache_put m1 sid t) sa code"
  have s: "sends m ?m'" by (rule sends_trans[OF 1(2) sends_transmit])
  have "cache_ok m1" "sockfd m1 = sockfd m" using Pair c(2) by (auto simp: rand_urandom_def cache_ok_def)
  then have "sessions ?m' sid \<noteq> None" "last (e_sent (env ?m')) = (sa, code)"
    using up by (simp_all add: cache_put_sessions transmit_sent)
  moreover have "send_ping m sa t = Inr ?m'" using Pair 1(4) by (simp add: send_ping_def)
  moreover have "nbhd ?m' = nbhd m" using s by (simp add: sends_def)
  ultimately show ?thesis
    using 1(1,3) main_inv_sends[OF s m] sends_keeps[OF s c(2)] by blast
qed

lemma send_pong_packet:
  assumes m: "main_inv g m" and sid: "is_id sid" and up: "0 \<le> sockfd m"
  shows "\<exists>code m'. encodes code (BDict (map field [(K_i, self_id m), (K_k, sid), (K_q, [Q_pong])])) \<and>
    send_pong m sa sid = Inr m' \<and> main_inv g m' \<and> keeps m m' \<and> nbhd m' = nbhd m \<and>
    last (e_sent (env m')) = (sa, code)"
proof -
  let ?kvs = "[(K_i, self_id m), (K_k, sid), (K_q, [Q_pong])]"
  have c: "conf_ok m" using main_inv_parts[OF m] by simp
  from send_fields_spec[of ?kvs m sa] c sid obtain code where
    1: "encodes code (BDict (map field ?kvs))" "send_fields m sa ?kvs = Inr (transmit m sa code)"
    by (auto simp: conf_ok_def)
  have "nbhd (transmit m sa code) = nbhd m" by (simp add: transmit_def)
  with 1 main_inv_sends[OF sends_transmit m] up show ?thesis
    by (intro exI[of _ code] exI[of _ "transmit m sa code"]) (simp add: send_pong_def transmit_sent)
qed

lemma keeps_clock: "keeps (m\<lparr>p2p := (p2p m)\<lparr>time_now := t\<rparr>\<rparr>) m' \<Longrightarrow>
    conf m' = conf m \<and> sockfd m' = sockfd m \<and> (\<forall>sid. sessions m sid \<noteq> None \<longrightarrow> sessions m' sid \<noteq> None)"
  by (simp add: keeps_def)

section \<open>Ping and pong\<close>

lemma ping_answered:
  assumes m: "main_inv g m" and nid: "is_id nid" "nid \<noteq> self_id m" and sid: "is_id sid"
    and sa: "addr_ok sa" and up: "0 \<le> sockfd m"
    and code: "encodes code (BDict (map field [(K_i, nid), (K_k, sid), (K_q, [Q_ping])]))"
  shows "\<exists>reply m'. p2p_parse (2 * length code + 1) m t (code @ rest) (length code) sa = Inr m' \<and> main_inv g m' \<and>
    encodes reply (BDict (map field [(K_i, self_id m), (K_k, sid), (K_q, [Q_pong])])) \<and>
    last (e_sent (env m')) = (sa, reply) \<and> (\<exists>n \<in> all_nodes (nbhd m'). n_id n = nid \<and> n_addr n = sa)"
proof -
  let ?kvs = "[(K_i, nid), (K_k, sid), (K_q, [Q_ping])]"
  let ?m = "m\<lparr>p2p := (p2p m)\<lparr>time_now := t\<rparr>\<rparr>"
  have m0: "main_inv g ?m" using m by (rule main_inv_p2p)
  have me: "\<not> node_me (self_id ?m) nid" using nid main_inv_parts(8)[OF m] by (simp add: node_me_def node_equal_iff)
  obtain m1 n where m1: "nbhd_put ?m nid sa = Inr m1" "main_inv g m1" "keeps ?m m1" "n \<in> all_nodes (nbhd m1)"
    "n_id n = nid" "n_addr n = sa" using nbhd_put_knows[OF m0 nid(1) me sa] by blast
  have same: "conf m1 = conf m" "sockfd m1 = sockfd m" using m1(3) by (simp_all add: keeps_def)
  obtain reply m2 where m2: "encodes reply (BDict (map field [(K_i, self_id m1), (K_k, sid), (K_q, [Q_pong])]))"
    "send_pong m1 sa sid = Inr m2" "main_inv g m2" "nbhd m2 = nbhd m1" "last (e_sent (env m2)) = (sa, reply)"
    using send_pong_packet[OF m1(2) sid, of sa] up same(2) by auto
  have "p2p_packet ?m (BDict (map field ?kvs)) sa
      = bindr (nbhd_put ?m nid sa) (\<lambda>m1. p2p_query m1 (BDict (map field ?kvs)) Q_ping nid sid sa)"
    by (rule packet_fields[where q = Q_ping and rest = "[(K_q, [Q_ping])]"]) (use nid sid me in simp_all)
  with m1(1) m2(2) parse_encoded[OF code, of m t rest sa]
  have "p2p_parse (2 * length code + 1) m t (code @ rest) (length code) sa = Inr m2"
    by (simp add: p2p_query_def p2p_ping_def)
  with m2 m1(4-6) same(1) show ?thesis by (intro exI[of _ reply] exI[of _ m2]) auto
qed

lemma pong_accepted:
  assumes m: "main_inv g m" and nid: "is_id nid" "nid \<noteq> self_id m" and sid: "is_id sid" "sessions m sid \<noteq> None"
    and sa: "addr_ok sa"
    and code: "encodes code (BDict (map field [(K_i, nid), (K_k, sid), (K_q, [Q_pong])]))"
  shows "\<exists>m' n. p2p_parse (2 * length code + 1) m t (code @ rest) (length code) sa = Inr m' \<and> main_inv g m' \<and>
    n \<in> all_nodes (nbhd m') \<and> n_id n = nid \<and> n_addr n = sa \<and> n_pinged n = 0 \<and> t + 240 \<le> n_time_ping n"
proof -
  let ?kvs = "[(K_i, nid), (K_k, sid), (K_q, [Q_pong])]"
  let ?m = "m\<lparr>p2p := (p2p m)\<lparr>time_now := t\<rparr>\<rparr>"
  have m0: "main_inv g ?m" using m by (rule main_inv_p2p)
  have me: "\<not> node_me (self_id ?m) nid" using nid main_inv_parts(8)[OF m] by (simp add: node_me_def node_equal_iff)
  obtain m1 n where m1: "nbhd_put ?m nid sa = Inr m1" "main_inv g m1" "keeps ?m m1" "n \<in> all_nodes (nbhd m1)"
    "n_id n = nid" using nbhd_put_knows[OF m0 nid(1) me sa] by blast
  have known: "sessions m1 sid \<noteq> None" and now: "now m1 = t" using m1(3) sid(2) by (simp_all add: keeps_def)
  obtain s where s: "cache_validate m1 sid = Inr (sessions m1 sid \<noteq> None, m1\<lparr>cache := s\<rparr>)" "cache_ok (m1\<lparr>cache := s\<rparr>)"
    using cache_validate_spec[OF main_inv_parts(2)[OF m1(2)], of sid] by blast
  let ?m2 = "m1\<lparr>cache := s\<rparr>"
  have m2: "main_inv g ?m2" by (rule main_inv_cache[OF m1(2) s(2)])
  have "nid \<in> n_id ` all_nodes (nbhd ?m2)" using m1(4,5) by auto
  from nbhd_ponged_marks[OF m2 nid(1) this, of sa] nbhd_ponged_inv[OF m2 nid(1) sa] now obtain m3 n where
    m3: "nbhd_ponged ?m2 nid sa = Inr m3" "n \<in> all_nodes (nbhd m3)" "n_id n = nid" "n_addr n = sa"
    "n_pinged n = 0" "t + 240 \<le> n_time_ping n" "main_inv g m3" by auto
  have "p2p_packet ?m (BDict (map field ?kvs)) sa
      = bindr (nbhd_put ?m nid sa) (\<lambda>m1. p2p_query m1 (BDict (map field ?kvs)) Q_pong nid sid sa)"
    by (rule packet_fields[where q = Q_pong and rest = "[(K_q, [Q_pong])]"]) (use nid sid me in simp_all)
  with m1(1) s(1) known m3(1) parse_encoded[OF code, of m t rest sa]
  have "p2p_parse (2 * length code + 1) m t (code @ rest) (length code) sa = Inr m3"
    by (simp add: p2p_query_def p2p_pong_def)
  with m3 show ?thesis by blast
qed

text \<open>C6: Pinging a live node marks it as alive: when a daemon pings another one, the other answers
  the datagram it receives with a PONG to the sender's address and knows the sender afterwards;
  the first accepts that PONG, and then knows the other under its id and address, with no ping
  outstanding and the next one due in at least four minutes.\<close>
theorem ping_pong:
  assumes "main_inv g a" "main_inv h b" "self_id a \<noteq> self_id b" "addr_ok addr_a" "addr_ok addr_b"
    and "0 \<le> sockfd a" "0 \<le> sockfd b"
  shows "\<exists>a1 ping b1 pong a2. send_ping a addr_b kind = Inr a1 \<and> last (e_sent (env a1)) = (addr_b, ping) \<and>
    p2p_parse (2 * length ping + 1) b t1 (ping @ rest1) (length ping) addr_a = Inr b1 \<and>
    last (e_sent (env b1)) = (addr_a, pong) \<and> (\<exists>n \<in> all_nodes (nbhd b1). n_id n = self_id a \<and> n_addr n = addr_a) \<and>
    p2p_parse (2 * length pong + 1) a1 t2 (pong @ rest2) (length pong) addr_b = Inr a2 \<and>
    main_inv g a2 \<and> main_inv h b1 \<and>
    (\<exists>n \<in> all_nodes (nbhd a2). n_id n = self_id b \<and> n_addr n = addr_b \<and> n_pinged n = 0 \<and> t2 + 240 \<le> n_time_ping n)"
proof -
  have ids: "is_id (self_id a)" "is_id (self_id b)" using main_inv_parts(8) assms(1,2) by blast+
  obtain sid ping a1 where a1: "is_id sid"
    "encodes ping (BDict (map field [(K_i, self_id a), (K_k, sid), (K_q, [Q_ping])]))"
    "send_ping a addr_b kind = Inr a1" "main_inv g a1" "keeps a a1" "sessions a1 sid \<noteq> None"
    "last (e_sent (env a1)) = (addr_b, ping)"
    using send_ping_packet[OF assms(1,6), of addr_b kind] by blast
  obtain pong b1 where b1: "p2p_parse (2 * length ping + 1) b t1 (ping @ rest1) (length ping) addr_a = Inr b1"
    "main_inv h b1" "encodes pong (BDict (map field [(K_i, self_id b), (K_k, sid), (K_q, [Q_pong])]))"
    "last (e_sent (env b1)) = (addr_a, pong)" "\<exists>n \<in> all_nodes (nbhd b1). n_id n = self_id a \<and> n_addr n = addr_a"
    using ping_answered[OF assms(2) ids(1) assms(3) a1(1) assms(4,7) a1(2), of t1 rest1] by blast
  have "self_id b \<noteq> self_id a1" using a1(5) assms(3) by (simp add: keeps_def)
  from pong_accepted[OF a1(4) ids(2) this a1(1,6) assms(5) b1(3), of t2 rest2] obtain a2 n where
    a2: "p2p_parse (2 * length pong + 1) a1 t2 (pong @ rest2) (length pong) addr_b = Inr a2" "main_inv g a2"
    "n \<in> all_nodes (nbhd a2)" "n_id n = self_id b" "n_addr n = addr_b" "n_pinged n = 0" "t2 + 240 \<le> n_time_ping n"
    by blast
  from a2(3-7) have alive: "\<exists>n \<in> all_nodes (nbhd a2). n_id n = self_id b \<and> n_addr n = addr_b \<and> n_pinged n = 0 \<and>
      t2 + 240 \<le> n_time_ping n" by blast
  show ?thesis
    by (rule exI[of _ a1], rule exI[of _ ping], rule exI[of _ b1], rule exI[of _ pong], rule exI[of _ a2])
      (use a1(3,7) b1 a2(1,2) alive in simp)
qed

definition main1 :: MAIN where
  "main1 = main0\<lparr>conf := (conf main0)\<lparr>conf_node_id := replicate 20 6\<rparr>\<rparr>"

lemma main1_inv: "main_inv g main1"
proof -
  have "main1 = main_start (conf main1) (now main0) (env main0)"
    by (simp add: main1_def main0_def main_start_def)
  moreover have "main_inv g (main_start (conf main1) (now main0) (env main0))"
    by (rule main_inv_start) (simp_all add: main1_def main0_def main_start_def is_id_def SHA_DIGEST_LENGTH_def)
  ultimately show ?thesis by simp
qed

theorem ping_pong_witness:
  "\<exists>a2. main_inv True a2 \<and> (\<exists>n \<in> all_nodes (nbhd a2). n_id n = replicate 20 6 \<and> n_pinged n = 0)"
proof -
  have "self_id main1 = replicate 20 6" "self_id main0 = replicate 20 1" "0 \<le> sockfd main0" "0 \<le> sockfd main1"
    by (simp_all add: main1_def main0_def main_start_def)
  with ping_pong[OF main_inv_main0[of True] main1_inv[of True], of no_addr no_addr 0 0 "[]" 0 "[]"] show ?thesis
    by (fastforce simp: addr_ok_def no_addr_def)
qed

section \<open>Announce and lookup\<close>

lemma nbhd_send_only_sends:
  assumes m: "main_inv True m" and ids: "is_id nid" "is_id sid"
    and l: "c = Q_nodes_announce \<or> c = Q_nodes_lookup \<Longrightarrow> \<exists>lid. lkp_id = Some lid \<and> is_id lid"
  shows "\<exists>m'. nbhd_send m sa nid lkp_id sid c = Inr m' \<and> sends m m'"
proof -
  obtain i where i: "bckt_find_any_match (nbhd m) nid = Inr i"
    "\<And>k. i = Some k \<Longrightarrow> k < length (bl_items (nbhd m))"
    using any_match_ok[OF m ids(1)] by (auto simp: match_faults_def post_no_fault)
  show ?thesis
  proof (cases i)
    case (Some k)
    with i have k: "k < length (bl_items (nbhd m))" by simp
    then have "\<forall>n \<in> set (b_nodes (bl_items (nbhd m) ! k)). node_ok n"
      using main_inv_parts(3)[OF m] by (auto simp: nbhd_ok_def all_nodes_def bl_nodes_def)
    from send_node_spec[OF main_inv_parts(1)[OF m] ids(2) this, of c lkp_id sa] l i(1) Some k
    show ?thesis by (simp add: nbhd_send_def item_val_def)
  qed (use i(1) in \<open>simp add: nbhd_send_def\<close>)
qed

lemma announced:
  assumes m: "main_inv True m" and ids: "is_id host" "is_id lid" "is_id key" and src: "addr_ok src"
    and p: "kvs = [(K_i, nid), (K_k, key), (K_l, lid), (K_f, host), (K_q, [Q_announce])]"
  shows "\<exists>m'. p2p_query m (BDict (map field kvs)) Q_announce nid key src = Inr m' \<and> main_inv True m' \<and>
    sockfd m' = sockfd m \<and> conf m' = conf m \<and> hosts m' host = Some \<lparr>d_host_id = host, d_addr = src, d_time_anno = now m + 900\<rparr>"
proof -
  have ok: "db_ok (database m)" using main_inv_parts[OF m] by simp
  obtain s where s: "db_put m host src = Inr (m\<lparr>database := s\<rparr>)" "db_ok s"
    "st_map s = (hosts m)(host \<mapsto> \<lparr>d_host_id = host, d_addr = src, d_time_anno = now m + 900\<rparr>)"
    using db_put_spec[OF ok ids(1) src] by blast
  have m1: "main_inv True (m\<lparr>database := s\<rparr>)" by (rule main_inv_database[OF m s(2)])
  obtain m' where m': "nbhd_send (m\<lparr>database := s\<rparr>) src host (Some lid) key Q_nodes_announce = Inr m'"
    "sends (m\<lparr>database := s\<rparr>) m'"
    using nbhd_send_only_sends[OF m1 ids(1,3), of Q_nodes_announce "Some lid" src] ids(2) by auto
  have f: "with_field p2p_is_hash (Some (BDict (map field kvs))) K_f m g = g host"
    "with_field p2p_is_hash (Some (BDict (map field kvs))) K_l m g = g lid" for g
    by (rule hash_field[of K_f kvs host, OF _ _ _ ids(1)]; simp add: p)
      (rule hash_field[of K_l kvs lid, OF _ _ _ ids(2)]; simp add: p)
  have "p2p_query m (BDict (map field kvs)) Q_announce nid key src = Inr m'"
    using s(1) m'(1) by (simp add: p2p_query_def p2p_announce_def f)
  moreover have "database m' = s" "sockfd m' = sockfd m" "conf m' = conf m" using m'(2) by (simp_all add: sends_def)
  ultimately show ?thesis using main_inv_sends[OF m'(2) m1] s(3) by simp
qed

lemma looked_up:
  assumes m: "main_inv g m" and ids: "is_id host" "is_id lid" "is_id key" and up: "0 \<le> sockfd m"
    and h: "hosts m host = Some d"
    and p: "kvs = [(K_i, nid), (K_k, key), (K_l, lid), (K_f, host), (K_q, [Q_lookup])]"
  shows "\<exists>m' code. p2p_query m (BDict (map field kvs)) Q_lookup nid key src = Inr m' \<and> main_inv g m' \<and>
    encodes code (BDict (map field [(K_i, self_id m), (K_k, key), (K_l, lid), (K_a, sin6_addr (d_addr d)),
      (K_q, [Q_value])])) \<and> last (e_sent (env m')) = (src, code)"
  using main_inv_parts(6)[OF m]
proof (cases rule: db_find_cases[of m host])
  case absent
  with h show ?thesis by simp
next
  case (present i db)
  let ?kvs = "[(K_i, self_id m), (K_k, key), (K_l, lid), (K_a, sin6_addr (d_addr d)), (K_q, [Q_value])]"
  have d: "db = d" "addr_ok (d_addr d)" using present(3,6) h by (simp_all add: db_entry_ok_def)
  have "is_id (self_id m)" using main_inv_parts[OF m] by simp
  then have "\<forall>kv \<in> set ?kvs. field_ok kv" using ids d(2) by simp
  from send_fields_spec[OF this] obtain code where code: "encodes code (BDict (map field ?kvs))"
    "send_fields m src ?kvs = Inr (transmit m src code)" by blast
  have f: "with_field p2p_is_hash (Some (BDict (map field kvs))) K_f m g = g host"
    "with_field p2p_is_hash (Some (BDict (map field kvs))) K_l m g = g lid" for g
    by (rule hash_field[of K_f kvs host, OF _ _ _ ids(1)]; simp add: p)
      (rule hash_field[of K_l kvs lid, OF _ _ _ ids(2)]; simp add: p)
  have "p2p_query m (BDict (map field kvs)) Q_lookup nid key src = Inr (transmit m src code)"
    using present(1,2) code(2) d(1) by (simp add: p2p_query_def p2p_lookup_def f db_send_def send_value_def)
  with code(1) main_inv_sends[OF sends_transmit m] up show ?thesis
    by (intro exI[of _ "transmit m src code"] exI[of _ code]) (simp add: transmit_sent)
qed

text \<open>An announced host is found: when a daemon without gaps handles the ANNOUNCE that a node
  sends for a host, and then the LOOKUP of another node for the same host, it answers the second
  with one VALUE datagram that carries the session and lookup id of that lookup and the address
  from which the host was announced.\<close>
lemma announce_then_lookup:
  assumes "main_inv True m" "is_id host" "is_id lid1" "is_id key1" "is_id lid2" "is_id key2" "addr_ok src1"
    and "0 \<le> sockfd m"
  shows "\<exists>m1 m2 code.
    p2p_query m (BDict (map field [(K_i, n1), (K_k, key1), (K_l, lid1), (K_f, host), (K_q, [Q_announce])]))
      Q_announce n1 key1 src1 = Inr m1 \<and>
    p2p_query m1 (BDict (map field [(K_i, n2), (K_k, key2), (K_l, lid2), (K_f, host), (K_q, [Q_lookup])]))
      Q_lookup n2 key2 src2 = Inr m2 \<and> main_inv True m2 \<and> last (e_sent (env m2)) = (src2, code) \<and>
    ben_validate (code @ rest) (length code) = Inr True \<and>
    ben_dec (2 * length code + 1) (code @ rest) = Inr (Some (BDict (map field
      [(K_i, self_id m1), (K_k, key2), (K_l, lid2), (K_a, sin6_addr src1), (K_q, [Q_value])])))"
proof -
  obtain m1 where m1: "p2p_query m (BDict (map field [(K_i, n1), (K_k, key1), (K_l, lid1), (K_f, host), (K_q, [Q_announce])]))
      Q_announce n1 key1 src1 = Inr m1" "main_inv True m1" "sockfd m1 = sockfd m"
    "hosts m1 host = Some \<lparr>d_host_id = host, d_addr = src1, d_time_anno = now m + 900\<rparr>"
    using announced[OF assms(1-4,7) refl, of n1] by blast
  have up: "0 \<le> sockfd m1" using m1(3) assms(8) by simp
  from looked_up[OF m1(2) assms(2,5,6) up m1(4) refl, of n2 src2] obtain m2 code where
    m2: "p2p_query m1 (BDict (map field [(K_i, n2), (K_k, key2), (K_l, lid2), (K_f, host), (K_q, [Q_lookup])]))
      Q_lookup n2 key2 src2 = Inr m2" "main_inv True m2" "last (e_sent (env m2)) = (src2, code)"
    "encodes code (BDict (map field [(K_i, self_id m1), (K_k, key2), (K_l, lid2), (K_a, sin6_addr src1), (K_q, [Q_value])]))"
    by auto
  show ?thesis
    by (rule exI[of _ m1], rule exI[of _ m2], rule exI[of _ code])
      (use m1(1) m2 in \<open>simp add: encodes_def\<close>)
qed

lemma announce_then_lookup_example:
  "\<exists>m2 code. main_inv True m2 \<and> last (e_sent (env m2)) = (no_addr, code) \<and>
    ben_validate code (length code) = Inr True"
proof -
  have ids: "is_id (replicate 20 3)" "is_id (replicate 20 4)" "addr_ok no_addr" "0 \<le> sockfd main0"
    by (simp_all add: is_id_def SHA_DIGEST_LENGTH_def addr_ok_def no_addr_def main0_def main_start_def)
  from announce_then_lookup[OF main_inv_main0 ids(1,2,2,2,2,3,4), of "replicate 20 7" "replicate 20 8" no_addr "[]"]
  show ?thesis by fastforce
qed

end
