(* ===== verification/Reply.thy ===== *)
theory Reply
  imports Daemon
begin

text \<open>
  How many nodes fit into a reply: \<open>send_node\<close> puts a whole bucket into one datagram, and the
  receiver reads at most \<open>UDP_BUF\<close> bytes of it. The first section shows that \<open>ben_validate\<close> depends
  on nothing but the bytes below the declared size, so no proper prefix of an encoded dictionary
  passes it; the second computes the size of a reply.
\<close>

section \<open>The validator reads below the declared size only\<close>

definition agree :: "nat \<Rightarrow> bytes \<Rightarrow> bytes \<Rightarrow> bool" where
  "agree sz c1 c2 \<longleftrightarrow> sz \<le> length c1 \<and> sz \<le> length c2 \<and> take sz c1 = take sz c2"

lemma agree_rd: "agree sz c1 c2 \<Longrightarrow> p < sz \<Longrightarrow> rd c1 p = rd c2 p"
  unfolding agree_def rd_def by (metis nth_take order.strict_trans2)

lemma agree_slice:
  assumes "agree sz c1 c2" "start + i \<le> sz"
  shows "take i (drop start c1) = take i (drop start c2)"
proof -
  have "take i (drop start (take sz c1)) = take i (drop start (take sz c2))"
    using assms(1) by (simp add: agree_def)
  moreover have "min i (sz - start) = i" using assms(2) by simp
  ultimately show ?thesis by (simp add: drop_take)
qed

lemma validate_s_loop_local:
  "agree sz c1 c2 \<Longrightarrow> start + i = p \<Longrightarrow> validate_s_loop c1 sz start i p = validate_s_loop c2 sz start i p"
proof (induction c1 sz start i p rule: validate_s_loop.induct)
  case (1 c1 sz start i p)
  show ?case
  proof (cases "p < sz")
    case True
    have r: "rd c1 p = rd c2 p" "take i (drop start c1) = take i (drop start c2)"
      using agree_rd[OF "1.prems"(1) True] agree_slice[OF "1.prems"(1), of start i] True "1.prems"(2) by simp_all
    have go: "rd c2 p = Inr c \<Longrightarrow> is_digit c \<Longrightarrow>
        validate_s_loop c1 sz start (Suc i) (Suc p) = validate_s_loop c2 sz start (Suc i) (Suc p)" for c
      using "1.IH"[OF True _ _ "1.prems"(1)] "1.prems"(2) r(1) by simp
    show ?thesis
      by (subst (1 2) validate_s_loop.simps) (use True r go in \<open>cases "rd c2 p"; simp add: Let_def\<close>)
  qed (subst (1 2) validate_s_loop.simps, simp)
qed

lemma validate_i_loop_local:
  "agree sz c1 c2 \<Longrightarrow> start + i = p \<Longrightarrow> validate_i_loop c1 sz start i p = validate_i_loop c2 sz start i p"
proof (induction c1 sz start i p rule: validate_i_loop.induct)
  case (1 c1 sz start i p)
  show ?case
  proof (cases "p < sz")
    case True
    have r: "rd c1 p = rd c2 p" "take i (drop start c1) = take i (drop start c2)"
      using agree_rd[OF "1.prems"(1) True] agree_slice[OF "1.prems"(1), of start i] True "1.prems"(2) by simp_all
    have go: "rd c2 p = Inr c \<Longrightarrow> is_digit c \<Longrightarrow>
        validate_i_loop c1 sz start (Suc i) (Suc p) = validate_i_loop c2 sz start (Suc i) (Suc p)" for c
      using "1.IH"[OF True _ _ "1.prems"(1)] "1.prems"(2) r(1) by simp
    show ?thesis
      by (subst (1 2) validate_i_loop.simps) (use True r go in \<open>cases "rd c2 p"; simp add: Let_def\<close>)
  qed (subst (1 2) validate_i_loop.simps, simp)
qed

lemma validate_s_local: "agree sz c1 c2 \<Longrightarrow> ben_validate_s c1 sz p = ben_validate_s c2 sz p"
  by (simp add: ben_validate_s_def validate_s_loop_local)

lemma validate_i_local: "agree sz c1 c2 \<Longrightarrow> ben_validate_i c1 sz p = ben_validate_i c2 sz p"
  using agree_rd[of sz c1 c2 "Suc p"] validate_i_loop_local[of sz c1 c2 _ 0]
  by (simp add: ben_validate_i_def Let_def cong: if_cong)

lemma validate_local:
  assumes "agree sz c1 c2"
  shows "ben_validate_r fuel c1 sz p = ben_validate_r fuel c2 sz p"
    and "p < sz \<Longrightarrow> validate_d_loop fuel c1 sz p = validate_d_loop fuel c2 sz p"
    and "p < sz \<Longrightarrow> validate_l_loop fuel c1 sz p = validate_l_loop fuel c2 sz p"
proof (induction fuel arbitrary: p)
  case (Suc fuel)
  note r = agree_rd[OF assms] and v = validate_s_local[OF assms] validate_i_local[OF assms] and IH = Suc.IH
  {
    case 1
    show ?case
    proof (cases "Suc p < sz")
      case True
      with r[of p] v IH(2,3)[of "Suc p"] show ?thesis by (simp cong: if_cong)
    next
      case False
      with r[of p] v show ?thesis by (cases "p < sz") (simp_all cong: if_cong)
    qed
  next
    case 2
    with r[of p] v(1) IH(1,2) show ?case by (simp cong: if_cong)
  next
    case 3
    with r[of p] IH(1,3) show ?case by (simp cong: if_cong)
  }
qed simp_all

text \<open>More fuel does not change a verdict: \<open>below r r'\<close> says that \<open>r'\<close> has the value of \<open>r\<close> where \<open>r\<close>
  has one.\<close>

definition below :: "'a res \<Rightarrow> 'a res \<Rightarrow> bool" where
  "below r r' \<longleftrightarrow> (\<forall>v. r = Inr v \<longrightarrow> r' = Inr v)"

lemma below_intros:
  "below r r" "below (Inl e) r"
  "below r r' \<Longrightarrow> (\<And>x. below (f x) (f' x)) \<Longrightarrow> below (bindr r f) (bindr r' f')"
  "below a a' \<Longrightarrow> below b b' \<Longrightarrow> below (if c then a else b) (if c then a' else b')"
  "(\<And>x y. below (h x y) (h' x y)) \<Longrightarrow> below (case p of (x, y) \<Rightarrow> h x y) (case p of (x, y) \<Rightarrow> h' x y)"
  by (auto simp: below_def bindr_eq_Inr split: prod.splits)

lemma validate_more_fuel:
  "below (ben_validate_r fuel code sz p) (ben_validate_r (Suc fuel) code sz p)"
  "below (validate_d_loop fuel code sz p) (validate_d_loop (Suc fuel) code sz p)"
  "below (validate_l_loop fuel code sz p) (validate_l_loop (Suc fuel) code sz p)"
proof (induction fuel arbitrary: p)
  case (Suc fuel)
  note step = ben_validate_r.simps(2)[of "Suc fuel"] ben_validate_r.simps(2)[of fuel]
    validate_d_loop.simps(2)[of "Suc fuel"] validate_d_loop.simps(2)[of fuel]
    validate_l_loop.simps(2)[of "Suc fuel"] validate_l_loop.simps(2)[of fuel]
  {
    case 1
    show ?case by (subst step(1), subst step(2), intro below_intros Suc.IH)
  next
    case 2
    show ?case by (subst step(3), subst step(4), intro below_intros Suc.IH)
  next
    case 3
    show ?case by (subst step(5), subst step(6), intro below_intros Suc.IH)
  }
qed (simp_all add: below_intros)

lemma validate_fuel:
  assumes "fuel \<le> fuel'" "ben_validate_r fuel code sz p = Inr v"
  shows "ben_validate_r fuel' code sz p = Inr v"
  using assms(1)
  by (induction rule: dec_induct) (use assms(2) validate_more_fuel(1)[unfolded below_def] in blast)+

text \<open>A proper prefix of an encoded dictionary or list does not pass, whatever follows it.\<close>

lemma prefix_rejected:
  assumes "encodes code (BDict d)" "n < length code" "n \<noteq> 0"
  shows "ben_validate (take n code @ rest) n = Inr False"
proof (rule ccontr)
  assume no: "\<not> ?thesis"
  obtain p where p: "ben_enc_rec (BDict d) = Inr p" "ben_ok (BDict d)"
    using assms(1) ben_ok_encodes(1)[of "BDict d"] by (auto simp: encodes_def)
  then have c: "code = p" using ben_enc_rec_enc assms(1) by (auto simp: encodes_def)
  have ag: "agree n (take n code @ rest) code" using assms(2) by (simp add: agree_def)
  have "n \<le> length (take n code @ rest)" using assms(2) by simp
  from validate_total[OF this] no have "ben_validate (take n code @ rest) n = Inr True" by auto
  with validate_local(1)[OF ag] have "ben_validate code n = Inr True" by (simp add: ben_validate_def)
  then obtain p' where v: "ben_validate_r (2 * n + 1) code n 0 = Inr (True, p')"
    unfolding ben_validate_def by (auto simp: bindr_eq_Inr simp del: ben_validate_r.simps)
  have le: "n \<le> length code" using assms(2) by simp
  have p': "p' \<le> n" using validate_enough(1)[OF le, of 0 "2 * n + 1"] v by (simp del: ben_validate_r.simps)
  have "code ! 0 = CH_d" using encodes_dict_start[OF assms(1), of "[]"] by simp
  moreover have "ben_validate_r (2 * length p + 1) code n 0 = Inr (True, p')"
    using assms(2) c by (intro validate_fuel[OF _ v]) simp
  moreover have "2 * (n - 0) + 1 \<le> 2 * length p + 1" using assms(2) c by simp
  ultimately obtain x where "ben_dec_r (2 * length p + 1) code 0 = Inr (x, p')"
    using validated_decodes(1)[OF le] by blast
  moreover have "ben_dec_r (2 * length p + 1) code 0 = Inr (Some (BDict d), length p)"
    using decode_encoded(1)[OF p(2,1) order_refl, of "[]" "[]"] c by (simp del: ben_dec_r.simps)
  ultimately show False using p' assms(2) c by simp
qed

section \<open>The size of a reply\<close>

lemma enc_size_str: "ben_enc_size (BStr (Some b)) = Inr (length (dec_digits (length b)) + 1 + length b)"
  by simp

lemma digits_length: "length (dec_digits (Suc 0)) = 1" "length (dec_digits 2) = 1" "length (dec_digits 16) = 2"
  "length (dec_digits 20) = 2"
  by code_simp+

lemma node_dict_size: "node_ok n \<Longrightarrow> ben_enc_size (node_dict n) = Inr 57"
  by (simp add: node_dict_def field_def node_ok_def is_id_def addr_ok_def SHA_DIGEST_LENGTH_def digits_length)

lemma node_dicts_size: "\<forall>n \<in> set ns. node_ok n \<Longrightarrow> enc_size_items (map node_dict ns) = Inr (57 * length ns)"
  by (induction ns) (simp_all add: node_dict_size)

abbreviation reliable :: "NODE list \<Rightarrow> NODE list" where
  "reliable ns \<equiv> filter (\<lambda>n. n_pinged n \<le> 0) ns"

abbreviation reply_lid :: "u8 \<Rightarrow> bytes \<Rightarrow> bytes option" where
  "reply_lid c lid \<equiv> if c = Q_nodes_find then None else Some lid"

lemma node_fields_size:
  assumes "is_id self" "is_id sid" "is_id lid" "\<forall>n \<in> set ns. node_ok n" "c \<in> {Q_nodes_find, Q_nodes_announce, Q_nodes_lookup}"
  shows "ben_enc_size (BDict (node_fields self sid (reply_lid c lid) c ns))
    = Inr ((if c = Q_nodes_find then 65 else 91) + 57 * length (reliable ns))"
proof -
  have "\<forall>n \<in> set (reliable ns). node_ok n" using assms(4) by simp
  from node_dicts_size[OF this] assms show ?thesis
    by (auto simp: node_fields_def field_def is_id_def SHA_DIGEST_LENGTH_def digits_length)
qed

lemma encodes_length: "encodes code n \<Longrightarrow> ben_enc_size n = Inr k \<Longrightarrow> length code = k"
  by (auto simp: encodes_def ben_enc_def bindr_eq_Inr split: if_splits)

lemma reply_limit_exact:
  assumes m: "conf_ok m" "0 \<le> sockfd m" and ids: "is_id sid" "is_id lid" and ns: "\<forall>n \<in> set (b_nodes b). node_ok n"
    and c: "c \<in> {Q_nodes_find, Q_nodes_announce, Q_nodes_lookup}"
  shows "\<exists>code m'. send_node m sa b sid (reply_lid c lid) c = Inr m' \<and> last (e_sent (env m')) = (sa, code) \<and>
    handle fuel (Datagram code src t) a = (let a0 = a\<lparr>p2p := (p2p a)\<lparr>time_now := t\<rparr>\<rparr>
      in if length (reliable (b_nodes b)) \<le> 24
         then p2p_packet a0 (BDict (node_fields (self_id m) sid (reply_lid c lid) c (b_nodes b))) src
         else Inr a0)"
proof -
  let ?d = "node_fields (self_id m) sid (reply_lid c lid) c (b_nodes b)" and ?n = "length (reliable (b_nodes b))"
  obtain code where code: "encodes code (BDict ?d)" "send_node m sa b sid (reply_lid c lid) c = Inr (transmit m sa code)"
    using send_node_packet[OF m(1) ids(1) ns, of c "reply_lid c lid" sa] ids(2) c by auto
  have self: "is_id (self_id m)" using m(1) by (simp add: conf_ok_def)
  have len: "length code = (if c = Q_nodes_find then 65 else 91) + 57 * ?n"
    by (rule encodes_length[OF code(1) node_fields_size[OF self ids ns c]])
  have "handle fuel (Datagram code src t) a = (let a0 = a\<lparr>p2p := (p2p a)\<lparr>time_now := t\<rparr>\<rparr>
      in if ?n \<le> 24 then p2p_packet a0 (BDict ?d) src else Inr a0)"
  proof (cases "?n \<le> 24")
    case True
    then have "length code \<le> UDP_BUF" using len by (auto simp: UDP_BUF_def)
    with True parse_encoded[OF code(1), of a t "replicate (Suc UDP_BUF - length code) 0" src] show ?thesis
      by (simp add: received_def Let_def)
  next
    case False
    then have "UDP_BUF < length code" using len by (auto simp: UDP_BUF_def)
    with False prefix_rejected[OF code(1), of UDP_BUF "[0]"] show ?thesis
      by (simp add: received_def Let_def p2p_parse_def UDP_BUF_def)
  qed
  with code(2) m(2) show ?thesis
    by (intro exI[of _ code] exI[of _ "transmit m sa code"]) (simp add: transmit_sent)
qed

text \<open>C21: A bucket of more than 24 nodes cannot be announced: the reply to a FIND, ANNOUNCE or LOOKUP
  carries every node of the bucket without an outstanding ping in one datagram; with at most 24 of
  them the receiver handles the dictionary that was sent, with more it reads a cut-off datagram,
  refuses it and changes nothing but its clock. Only the bucket of the own id is ever split, so
  the other buckets have no bound.\<close>
theorem reply_limit:
  assumes "main_inv g m" "0 \<le> sockfd m" "is_id sid" "is_id lid" "k < length (bl_items (nbhd m))"
    and "c \<in> {Q_nodes_find, Q_nodes_announce, Q_nodes_lookup}"
  shows "\<exists>code m'. send_node m sa (bl_items (nbhd m) ! k) sid (reply_lid c lid) c = Inr m' \<and>
    last (e_sent (env m')) = (sa, code) \<and>
    handle fuel (Datagram code src t) a = (let a0 = a\<lparr>p2p := (p2p a)\<lparr>time_now := t\<rparr>\<rparr>
      in if length (reliable (bl_nodes (nbhd m) k)) \<le> 24
         then p2p_packet a0 (BDict (node_fields (self_id m) sid (reply_lid c lid) c (bl_nodes (nbhd m) k))) src
         else Inr a0)"
proof -
  have "\<forall>n \<in> set (b_nodes (bl_items (nbhd m) ! k)). node_ok n"
    using main_inv_parts(3)[OF assms(1)] assms(5) by (auto simp: nbhd_ok_def all_nodes_def bl_nodes_def)
  from reply_limit_exact[OF main_inv_parts(1)[OF assms(1)] assms(2-4) this assms(6)]
  show ?thesis unfolding bl_nodes_def .
qed

text \<open>A daemon that knows 25 nodes, all in its only bucket.\<close>

lemma one_bucket_inv:
  assumes "distinct (map n_id ns)" "\<forall>n \<in> set ns. node_ok n"
  shows "nbhd_ok g self \<lparr>bl_items = [\<lparr>b_id = replicate 20 0, b_nodes = ns\<rparr>], bl_stop = Some 0\<rparr>"
proof -
  let ?l = "\<lparr>bl_items = [\<lparr>b_id = replicate 20 0, b_nodes = ns\<rparr>], bl_stop = Some 0\<rparr>"
  have sh: "bl_shape ?l" by (simp add: bl_shape_def is_id_def SHA_DIGEST_LENGTH_def)
  have "bckt_find_best_match ?l nid = Some 0" if "is_id nid" for nid
    using best_match_iff[OF sh that] by (simp add: in_bucket_def)
  with sh assms show ?thesis
    by (auto simp: nbhd_ok_def bl_inv_def bl_nodes_def all_nodes_def split_ok_def no_gap_def node_ok_def)
qed

definition crowd :: "NODE list" where
  "crowd = map (\<lambda>i. node_of (replicate 19 0 @ [i])) [2, 3, 4, 5, 6, 7, 8, 9, 10, 11, 12, 13, 14, 15, 16, 17, 18, 19,
     20, 21, 22, 23, 24, 25, 26]"

lemma crowd_ok: "distinct (map n_id crowd)" "\<forall>n \<in> set crowd. node_ok n" "length (reliable crowd) = 25"
  by (simp_all add: crowd_def node_of_def node_ok_def is_id_def SHA_DIGEST_LENGTH_def addr_ok_def no_addr_def)

definition main_crowded :: MAIN where
  "main_crowded = main0\<lparr>nbhd := \<lparr>bl_items = [\<lparr>b_id = replicate 20 0, b_nodes = crowd\<rparr>], bl_stop = Some 0\<rparr>\<rparr>"

theorem reply_limit_witness:
  "\<exists>code m'. send_node main_crowded no_addr (bl_items (nbhd main_crowded) ! 0) (replicate 20 3) None Q_nodes_find = Inr m' \<and>
    last (e_sent (env m')) = (no_addr, code) \<and>
    handle 0 (Datagram code no_addr 7) main0 = Inr (main0\<lparr>p2p := (p2p main0)\<lparr>time_now := 7\<rparr>\<rparr>)"
proof -
  have m: "main_inv True main_crowded"
    unfolding main_crowded_def by (intro main_inv_nbhd main_inv_main0 one_bucket_inv crowd_ok)
  have "is_id (replicate 20 3)" "0 \<le> sockfd main_crowded" "length (reliable (bl_nodes (nbhd main_crowded) 0)) = 25"
    by (simp_all add: is_id_def SHA_DIGEST_LENGTH_def main_crowded_def main0_def main_start_def bl_nodes_def crowd_ok)
  with reply_limit[OF m, of "replicate 20 3" "replicate 20 3" 0 Q_nodes_find no_addr 0 no_addr 7 main0] show ?thesis
    by (simp add: main_crowded_def Let_def)
qed

end
