(* ===== verification/Contact.thy ===== *)
theory Contact
  imports Exchange Reply
begin

text \<open>
  What exchanges between several daemons share: how one step leads the state of a daemon onward, the
  requests a daemon has sent and waits for, the walk over the first nodes of a bucket, and what
  happens when such a request, or another encoded dictionary, is delivered.
\<close>

section \<open>Going onward\<close>

definition onward :: "bool \<Rightarrow> MAIN \<Rightarrow> MAIN \<Rightarrow> bool" where
  "onward g m m' \<longleftrightarrow> main_inv g m' \<and> keeps m m' \<and> set (e_sent (env m)) \<subseteq> set (e_sent (env m')) \<and>
     e_called (env m') = e_called (env m)"

lemma onward_refl: "main_inv g m \<Longrightarrow> onward g m m"
  by (simp add: onward_def keeps_def)

lemma onward_trans: "onward g a b \<Longrightarrow> onward g b c \<Longrightarrow> onward g a c"
  unfolding onward_def using keeps_trans by fastforce

lemma onward_parts: "onward g m m' \<Longrightarrow> main_inv g m' \<and> self_id m' = self_id m \<and> sockfd m' = sockfd m"
  by (simp add: onward_def keeps_def)

text \<open>A LOOKUP or an ANNOUNCE, by its query type; \<open>awaits q m sa lid host\<close>: a request of type \<open>q\<close> for \<open>host\<close> was
  sent to \<open>sa\<close>, and its answer will be accepted.\<close>

abbreviation request_fields :: "u8 \<Rightarrow> bytes \<Rightarrow> bytes \<Rightarrow> bytes \<Rightarrow> bytes \<Rightarrow> (bytes \<times> bytes) list" where
  "request_fields q self sid lid host \<equiv> [(K_i, self), (K_k, sid), (K_l, lid), (K_f, host), (K_q, [q])]"

abbreviation request_packet :: "u8 \<Rightarrow> bytes \<Rightarrow> bytes \<Rightarrow> bytes \<Rightarrow> bytes \<Rightarrow> ben" where
  "request_packet q self sid lid host \<equiv> BDict (map field (request_fields q self sid lid host))"

definition awaits :: "u8 \<Rightarrow> MAIN \<Rightarrow> IP \<Rightarrow> bytes \<Rightarrow> bytes \<Rightarrow> bool" where
  "awaits q m sa lid host \<longleftrightarrow> (\<exists>sid code. is_id sid \<and> sessions m sid \<noteq> None \<and> (sa, code) \<in> set (e_sent (env m)) \<and>
     encodes code (request_packet q (self_id m) sid lid host))"

lemma awaits_onward: "awaits q m sa lid host \<Longrightarrow> onward g m m' \<Longrightarrow> awaits q m' sa lid host"
  unfolding awaits_def by (elim exE conjE, intro exI conjI) (auto simp: onward_def keeps_def)

lemma awaits_packet:
  assumes "awaits q m sa lid host"
  obtains sid code where "is_id sid" "sessions m sid \<noteq> None" "(sa, code) \<in> set (e_sent (env m))"
    "encodes code (request_packet q (self_id m) sid lid host)"
  using assms unfolding awaits_def by blast

text \<open>\<open>send_lookup\<close> and \<open>send_announce\<close> draw a session id, note it and send it with the two identifiers.\<close>

definition send_request_of :: "u8 \<Rightarrow> MAIN \<Rightarrow> IP \<Rightarrow> bytes \<Rightarrow> bytes \<Rightarrow> MAIN res" where
  "send_request_of q m sa host lid = (case rand_urandom m SHA_DIGEST_LENGTH of (sid, m1) \<Rightarrow>
     send_fields (cache_put m1 sid SEND_UNICAST) sa (request_fields q (self_id m) sid lid host))"

lemma send_is_request:
  "send_lookup m sa host lid = send_request_of Q_lookup m sa host lid"
  "send_announce m sa lid host = send_request_of Q_announce m sa host lid"
  by (simp_all add: send_lookup_def send_announce_def send_request_of_def)

lemma request_awaits:
  assumes m: "main_inv g m" and up: "0 \<le> sockfd m" and ids: "is_id host" "is_id lid"
  shows "\<exists>m'. send_request_of q m sa host lid = Inr m' \<and> sends m m' \<and> onward g m m' \<and> awaits q m' sa lid host"
proof (cases "rand_urandom m SHA_DIGEST_LENGTH")
  case (Pair sid m1)
  have c: "conf_ok m" "cache_ok m" using main_inv_parts[OF m] by simp_all
  have "is_id (self_id m)" using c(1) by (simp add: conf_ok_def)
  with ids send_request[OF c(1) Pair, of "request_fields q (self_id m) sid lid host" SEND_UNICAST sa] obtain code where
    p: "is_id sid" "sends m (cache_put m1 sid SEND_UNICAST)" "encodes code (request_packet q (self_id m) sid lid host)"
    "send_fields (cache_put m1 sid SEND_UNICAST) sa (request_fields q (self_id m) sid lid host)
      = Inr (transmit (cache_put m1 sid SEND_UNICAST) sa code)" by auto
  let ?m' = "transmit (cache_put m1 sid SEND_UNICAST) sa code"
  have m1: "cache m1 = cache m" "env m1 = (env m)\<lparr>e_urandom_pos := Suc (e_urandom_pos (env m))\<rparr>" "sockfd m1 = sockfd m"
    using Pair by (auto simp: rand_urandom_def)
  then have "cache_ok m1" using c(2) by (simp add: cache_ok_def)
  then have sid: "sessions ?m' sid \<noteq> None" by (simp add: cache_put_sessions)
  have s: "sends m ?m'" by (rule sends_trans[OF p(2) sends_transmit])
  have sent: "e_sent (env ?m') = e_sent (env m) @ [(sa, code)]" using up m1 by (simp add: transmit_sent)
  have "self_id ?m' = self_id m" using s by (simp add: sends_def)
  with p(1,3) sid sent have "awaits q ?m' sa lid host" unfolding awaits_def by auto
  moreover have "onward g m ?m'"
    using main_inv_sends[OF s m] sends_keeps[OF s c(2)] sent s unfolding onward_def by (auto simp: sends_def)
  moreover have "send_request_of q m sa host lid = Inr ?m'" using Pair p(4) by (simp add: send_request_of_def)
  ultimately show ?thesis using s by blast
qed

text \<open>Meeting a node sends at most a PING and a FIND.\<close>

lemma send_exec_grows: "send_exec m sa raw = Inr m' \<Longrightarrow> lkps m' = lkps m \<and> database m' = database m \<and>
    e_called (env m') = e_called (env m) \<and> set (e_sent (env m)) \<subseteq> set (e_sent (env m'))"
  by (auto simp: send_exec_def split: if_splits option.splits)

lemma send_grows:
  "send_ping m sa t = Inr m' \<or> send_find m sa nid = Inr m' \<Longrightarrow> lkps m' = lkps m \<and> database m' = database m \<and>
    e_called (env m') = e_called (env m) \<and> set (e_sent (env m)) \<subseteq> set (e_sent (env m'))"
  by (auto simp: send_ping_def send_find_def send_fields_def bindr_eq_Inr rand_urandom_def
      dest!: send_exec_grows split: prod.splits)

lemma nbhd_put_grows: "nbhd_put m nid sa = Inr m' \<Longrightarrow> lkps m' = lkps m \<and> database m' = database m \<and>
    e_called (env m') = e_called (env m) \<and> set (e_sent (env m)) \<subseteq> set (e_sent (env m'))"
  by (auto simp: nbhd_put_def bindr_eq_Inr set_node_def Let_def dest!: send_grows[OF disjI1] send_grows[OF disjI2] time_5_min
      split: if_splits option.splits prod.splits)

lemma put_onward:
  assumes m: "main_inv g m" and id: "is_id nid" and sa: "addr_ok sa"
  shows "\<exists>m'. nbhd_put m nid sa = Inr m' \<and> onward g m m' \<and> lkps m' = lkps m \<and> database m' = database m"
proof (cases "node_me (self_id m) nid")
  case True
  with m show ?thesis by (intro exI[of _ m]) (simp add: nbhd_put_def onward_refl)
next
  case False
  from nbhd_put_knows[OF m id this sa] obtain m' where "nbhd_put m nid sa = Inr m'" "main_inv g m'" "keeps m m'"
    by blast
  with nbhd_put_grows[of m nid sa m'] show ?thesis by (auto simp: onward_def)
qed

section \<open>Asking the nodes of a bucket\<close>

text \<open>\<open>nbhd_lookup\<close> and \<open>nbhd_announce\<close> walk over the first eight nodes of a bucket; \<open>rem\<close> notes a node in the request.\<close>

lemma walk_awaits:
  assumes step: "\<And>j x m. j \<in> set js \<Longrightarrow> ok x \<Longrightarrow> main_inv g m \<Longrightarrow> 0 \<le> sockfd m \<Longrightarrow> nbhd m = nb \<Longrightarrow>
      \<exists>m1. f j (x, m) = Inr (rem j x, m1) \<and> sends m m1 \<and> onward g m m1 \<and> awaits q m1 (dst j) lid host"
    and rem: "\<And>j x. ok x \<Longrightarrow> ok (rem j x)"
  shows "ok x \<Longrightarrow> main_inv g m \<Longrightarrow> 0 \<le> sockfd m \<Longrightarrow> nbhd m = nb \<Longrightarrow>
    \<exists>m'. fold_res f js (x, m) = Inr (fold rem js x, m') \<and> sends m m' \<and> onward g m m' \<and>
      (\<forall>j \<in> set js. awaits q m' (dst j) lid host)"
  using step
proof (induction js arbitrary: x m)
  case Nil
  then show ?case by (simp add: onward_refl)
next
  case (Cons j js)
  obtain m1 where m1: "f j (x, m) = Inr (rem j x, m1)" "sends m m1" "onward g m m1" "awaits q m1 (dst j) lid host"
    using Cons.prems(5)[OF _ Cons.prems(1-4), of j] by auto
  have p1: "main_inv g m1" "0 \<le> sockfd m1" "nbhd m1 = nb"
    using onward_parts[OF m1(3)] m1(2) Cons.prems(3,4) by (simp_all add: sends_def)
  have "\<exists>m'. fold_res f js (rem j x, m1) = Inr (fold rem js (rem j x), m') \<and> sends m1 m' \<and> onward g m1 m' \<and>
      (\<forall>j \<in> set js. awaits q m' (dst j) lid host)"
    by (rule Cons.IH[OF rem[OF Cons.prems(1)] p1]) (rule Cons.prems(5); simp)
  then obtain m' where m': "fold_res f js (rem j x, m1) = Inr (fold rem js (rem j x), m')" "sends m1 m'" "onward g m1 m'"
    "\<forall>j \<in> set js. awaits q m' (dst j) lid host" by blast
  with m1 sends_trans[OF m1(2) m'(2)] onward_trans[OF m1(3) m'(3)] awaits_onward[OF m1(4) m'(3)] show ?case by auto
qed

lemma first_nodes: "set (take 8 xs) = (\<lambda>j. xs ! j) ` set [0..<min 8 (length xs)]"
proof -
  have "take 8 xs = map (\<lambda>j. xs ! j) [0..<min 8 (length xs)]" by (rule nth_equalityI) simp_all
  then show ?thesis by simp
qed

lemma full_bucket_matches:
  "bckt_find_best_match l nid = Some k \<Longrightarrow> k < length (bl_items l) \<Longrightarrow> bl_nodes l k \<noteq> [] \<Longrightarrow>
    bckt_find_any_match l nid = Inr (Some k)"
  by (simp add: bckt_find_any_match_def item_val_def bl_nodes_def Let_def)

section \<open>Delivery\<close>

lemma handle_encoded:
  "encodes code (BDict d) \<Longrightarrow> length code \<le> UDP_BUF \<Longrightarrow>
    handle fuel (Datagram code src t) m = p2p_packet (m\<lparr>p2p := (p2p m)\<lparr>time_now := t\<rparr>\<rparr>) (BDict d) src"
  using parse_encoded[of code d m t "replicate (Suc UDP_BUF - length code) 0" src] by (simp add: received_def Let_def)

text \<open>Meeting another node leaves a node in its bucket.\<close>

lemma set_nodes_other: "k' \<noteq> k \<Longrightarrow> bl_nodes (bl_set_nodes l k' ns) k = bl_nodes l k"
  by (simp add: bl_nodes_def bl_set_nodes_def)

lemma put_keeps_node:
  assumes m: "main_inv g m" and id: "is_id nid" and sa: "addr_ok sa"
    and k: "k < length (bl_items (nbhd m))" "n \<in> set (bl_nodes (nbhd m) k)" "n_id n \<noteq> nid"
  shows "\<exists>m'. nbhd_put m nid sa = Inr m' \<and> onward g m m' \<and> lkps m' = lkps m \<and> database m' = database m \<and>
    same_ids (nbhd m) (nbhd m') \<and> n \<in> set (bl_nodes (nbhd m') k) \<and>
    length (bl_nodes (nbhd m') k) \<le> Suc (length (bl_nodes (nbhd m) k))"
proof -
  obtain m' where m': "nbhd_put m nid sa = Inr m'" "onward g m m'" "lkps m' = lkps m" "database m' = database m"
    using put_onward[OF m id sa] by blast
  have "\<exists>k' ns. nbhd m' = bl_set_nodes (nbhd m) k' ns \<and> (k' = k \<longrightarrow> n \<in> set ns \<and> length ns \<le> Suc (length (bl_nodes (nbhd m) k)))"
  proof (cases "node_me (self_id m) nid")
    case True
    with m'(1) have "m' = m" by (simp add: nbhd_put_def)
    moreover have "bl_set_nodes (nbhd m) k (bl_nodes (nbhd m) k) = nbhd m" by (simp add: bl_set_nodes_def bl_nodes_def)
    ultimately show ?thesis using k(2) by (intro exI[of _ k] exI[of _ "bl_nodes (nbhd m) k"]) simp
  next
    case False
    from m id show ?thesis
    proof (cases rule: node_at_cases)
      case (absent k')
      obtain m2 x where "nbhd_put m nid sa = Inr m2" "nbhd m2 = bl_set_nodes (nbhd m) k' (bl_nodes (nbhd m) k' @ [x])"
        using nbhd_put_unknown[OF m id False sa absent(1,2)] by blast
      with m'(1) k(2) show ?thesis by (intro exI[of _ k'] exI[of _ "bl_nodes (nbhd m) k' @ [x]"]) simp
    next
      case (present k' j)
      let ?ns = "(bl_nodes (nbhd m) k')[j := nbhd_update_address (bl_nodes (nbhd m) k' ! j) sa]"
      have "n \<in> set ?ns" if "k' = k"
      proof -
        obtain i where i: "i < length (bl_nodes (nbhd m) k)" "bl_nodes (nbhd m) k ! i = n"
          using k(2) by (auto simp: in_set_conv_nth)
        with present(4) k(3) that have "i \<noteq> j" by auto
        with i that have "?ns ! i = n" "i < length ?ns" by simp_all
        then show ?thesis by (metis nth_mem)
      qed
      with present m'(1) False show ?thesis
        by (intro exI[of _ k'] exI[of _ ?ns]) (auto simp: nbhd_put_def set_node_def)
    qed
  qed
  then obtain k' ns where "nbhd m' = bl_set_nodes (nbhd m) k' ns"
    "k' = k \<longrightarrow> n \<in> set ns \<and> length ns \<le> Suc (length (bl_nodes (nbhd m) k))" by blast
  with k(1,2) m' show ?thesis by (cases "k' = k") (simp_all add: set_nodes_other)
qed

lemma request_packet_size:
  assumes "encodes code (request_packet q self sid lid host)" "is_id self" "is_id sid" "is_id lid" "is_id host"
  shows "length code \<le> UDP_BUF"
proof -
  have "ben_enc_size (request_packet q self sid lid host) = Inr 112"
    using assms(2-5) by (simp add: field_def is_id_def SHA_DIGEST_LENGTH_def digits_length)
  from encodes_length[OF assms(1) this] show ?thesis by (simp add: UDP_BUF_def)
qed

lemma request_handled:
  assumes code: "encodes code (request_packet q nid sid lid host)" and m: "main_inv g m"
    and ids: "is_id nid" "nid \<noteq> self_id m" "is_id sid" "is_id lid" "is_id host"
  shows "handle fuel (Datagram code src t) m = bindr (nbhd_put (m\<lparr>p2p := (p2p m)\<lparr>time_now := t\<rparr>\<rparr>) nid src)
    (\<lambda>m1. p2p_query m1 (request_packet q nid sid lid host) q nid sid src)"
proof -
  have me: "\<not> node_me (self_id m) nid" using ids main_inv_parts(8)[OF m] by (simp add: node_me_def node_equal_iff)
  show ?thesis unfolding handle_encoded[OF code request_packet_size[OF code ids(1,3-5)]]
    by (rule packet_fields[where rest = "[(K_l, lid), (K_f, host), (K_q, [q])]"]) (use ids me in simp_all)
qed

end
