(* ===== verification/Search.thy ===== *)
theory Search
  imports Contact
begin

text \<open>
  A lookup across three daemons: \<open>lkp_put\<close> of the one that searches, \<open>p2p_lookup\<close> of a node that
  does not know the host and names the nodes of its bucket, \<open>p2p_node_lookup\<close>, \<open>p2p_lookup\<close> of the
  node at which the host was announced, and \<open>p2p_value\<close>, which calls the callback. Each lemma
  follows one of these steps; the theorem composes them.
\<close>

section \<open>The lookup at the daemon that searches\<close>

definition running :: "MAIN \<Rightarrow> bytes \<Rightarrow> bytes \<Rightarrow> nat option \<Rightarrow> bytes set \<Rightarrow> bool" where
  "running m lid host callback A \<longleftrightarrow> (\<exists>l. st_map (lkps m) lid = Some l \<and> l_find_id l = host \<and>
     l_callback l = callback \<and> {k. hash_exists (l_hash l) k} = A)"

lemma running_cong: "lkps m' = lkps m \<Longrightarrow> running m' lid host c A \<longleftrightarrow> running m lid host c A"
  by (simp add: running_def)

lemma remembers:
  assumes "lookup_ok l"
  shows "{k. hash_exists (l_hash (lkp_remember l nid)) k} = insert nid {k. hash_exists (l_hash l) k}"
  using assms remember_put[of "l_list l" "l_hash l" nid] by (auto simp: lookup_ok_def remember_ok_def lkp_remember_def)

lemma remember_fields [simp]: "l_find_id (lkp_remember l nid) = l_find_id l" "l_callback (lkp_remember l nid) = l_callback l"
  "l_lkp_id (lkp_remember l nid) = l_lkp_id l"
  by (simp_all add: lkp_remember_def)

lemma resolve_asks:
  assumes m: "main_inv g m" and up: "0 \<le> sockfd m" and id: "is_id nid" and r: "running m lid host c A"
  shows "\<exists>m'. lkp_resolve m lid nid sa = Inr m' \<and> onward g m m' \<and> running m' lid host c (insert nid A) \<and>
    (nid \<notin> A \<and> nid \<noteq> self_id m \<longrightarrow> awaits Q_lookup m' sa lid host)"
  using main_inv_parts(4)[OF m]
proof (cases rule: lkp_find_cases[of m lid])
  case absent
  with r show ?thesis by (simp add: running_def st_map_def)
next
  case (present i l)
  have ok: "st_ok l_lkp_id (lkps m)" using lkps_parts(1)[OF main_inv_parts(4)[OF m]] .
  have l: "st_map (lkps m) lid = Some l"
    using present(1) store_item[OF ok present(3)] by (simp add: st_map_def)
  with r have lf: "l_find_id l = host" "l_callback l = c" "{k. hash_exists (l_hash l) k} = A"
    by (auto simp: running_def)
  show ?thesis
  proof (cases "nid \<in> A")
    case True
    with lf(3) present m r show ?thesis
      by (intro exI[of _ m]) (auto simp: lkp_resolve_def onward_refl insert_absorb)
  next
    case False
    have ids: "is_id host" "is_id lid" using present(4,5) lf(1) by (auto simp: lookup_ok_def)
    have "\<exists>m1. (if \<not> node_me (self_id m) nid then send_lookup m sa host lid else Inr m) = Inr m1 \<and> sends m m1 \<and>
        onward g m m1 \<and> (nid \<noteq> self_id m \<longrightarrow> awaits Q_lookup m1 sa lid host)"
    proof (cases "node_me (self_id m) nid")
      case True
      with id main_inv_parts(8)[OF m] have "nid = self_id m" by (simp add: node_me_def node_equal_iff)
      with True m show ?thesis by (simp add: onward_refl)
    qed (use request_awaits[OF m up ids, of Q_lookup sa] send_is_request(1) in auto)
    then obtain m1 where m1: "(if \<not> node_me (self_id m) nid then send_lookup m sa host lid else Inr m) = Inr m1"
      "sends m m1" "onward g m m1" "nid \<noteq> self_id m \<longrightarrow> awaits Q_lookup m1 sa lid host" by blast
    let ?l = "lkp_remember l nid"
    let ?m = "m1\<lparr>lkps := store_set (lkps m1) i ?l\<rparr>"
    have same: "lkps m1 = lkps m" using m1(2) by (simp add: sends_def)
    have res: "lkp_resolve m lid nid sa = Inr ?m"
      using present(1,2) lf(1,3) False m1(1) by (auto simp: lkp_resolve_def)
    have inv: "main_inv g ?m" using lkp_resolve_inv[OF m id, of lid sa] res by simp
    have "onward g m ?m" using m1(3) inv by (simp add: onward_def keeps_def)
    moreover have "running ?m lid host c (insert nid A)"
      using st_map_set[OF ok present(1), of ?l] remembers[OF present(5)] lf same
      by (simp add: running_def)
    moreover have "nid \<noteq> self_id m \<longrightarrow> awaits Q_lookup ?m sa lid host" using m1(4) by (simp add: awaits_def)
    ultimately show ?thesis using res by blast
  qed
qed

text \<open>The address a reply carries of a node.\<close>

abbreviation wire :: "IP \<Rightarrow> IP" where
  "wire sa \<equiv> node_addr (sin6_addr sa) (sin6_port sa)"

lemma ip_field:
  "k \<noteq> [] \<Longrightarrow> kvs \<noteq> [] \<Longrightarrow> map_of kvs k = Some v \<Longrightarrow> length v = 16 \<Longrightarrow>
    with_field p2p_is_ip (Some (BDict (map field kvs))) k m f = f v"
  by (simp add: with_field_def searchDictStr_field p2p_is_ip_def ben_is_str_def ben_str_size_def str_of_def)

lemma port_field:
  "k \<noteq> [] \<Longrightarrow> kvs \<noteq> [] \<Longrightarrow> map_of kvs k = Some v \<Longrightarrow> length v = 2 \<Longrightarrow>
    with_field p2p_is_port (Some (BDict (map field kvs))) k m f = f v"
  by (simp add: with_field_def searchDictStr_field p2p_is_port_def ben_is_str_def ben_str_size_def str_of_def)

lemma nodes_loop_Cons:
  assumes "node_ok n"
  shows "nodes_loop visit (node_dict n # items) m = bindr (visit (n_id n) (wire (n_addr n)) m)
    (\<lambda>m1. bindr (nbhd_put m1 (n_id n) (wire (n_addr n))) (nodes_loop visit items))"
proof -
  let ?kvs = "[(K_i, n_id n), (K_a, sin6_addr (n_addr n)), (K_p, sin6_port (n_addr n))]"
  have "with_field p2p_is_hash (Some (node_dict n)) K_i m f = f (n_id n)" for f
    unfolding node_dict_def by (rule hash_field) (use assms in \<open>simp_all add: node_ok_def\<close>)
  moreover have "with_field p2p_is_ip (Some (node_dict n)) K_a m f = f (sin6_addr (n_addr n))" for f
    unfolding node_dict_def by (rule ip_field) (use assms in \<open>simp_all add: node_ok_def addr_ok_def\<close>)
  moreover have "with_field p2p_is_port (Some (node_dict n)) K_p m f = f (sin6_port (n_addr n))" for f
    unfolding node_dict_def by (rule port_field) (use assms in \<open>simp_all add: node_ok_def addr_ok_def\<close>)
  moreover have "ben_is_dict (Some (node_dict n))" by (simp add: node_dict_def ben_is_dict_def)
  ultimately show ?thesis by (simp add: Let_def)
qed

lemma loop_asks:
  "main_inv g m \<Longrightarrow> 0 \<le> sockfd m \<Longrightarrow> running m lid host c A \<Longrightarrow> \<forall>n \<in> set ns. node_ok n \<Longrightarrow> distinct (map n_id ns) \<Longrightarrow>
    \<exists>m'. nodes_loop (\<lambda>nid sin m. lkp_resolve m lid nid sin) (map node_dict ns) m = Inr m' \<and> onward g m m' \<and>
      running m' lid host c (A \<union> n_id ` set ns) \<and>
      (\<forall>n \<in> set ns. n_id n \<notin> A \<and> n_id n \<noteq> self_id m \<longrightarrow> awaits Q_lookup m' (wire (n_addr n)) lid host)"
proof (induction ns arbitrary: m A)
  case Nil
  then show ?case by (simp add: onward_refl)
next
  case (Cons n ns)
  have n: "node_ok n" "is_id (n_id n)" "addr_ok (wire (n_addr n))"
    using Cons.prems(4) by (simp_all add: node_ok_def addr_ok_def node_addr_def)
  obtain m1 where m1: "lkp_resolve m lid (n_id n) (wire (n_addr n)) = Inr m1" "onward g m m1"
    "running m1 lid host c (insert (n_id n) A)"
    "n_id n \<notin> A \<and> n_id n \<noteq> self_id m \<longrightarrow> awaits Q_lookup m1 (wire (n_addr n)) lid host"
    using resolve_asks[OF Cons.prems(1,2) n(2) Cons.prems(3), of "wire (n_addr n)"] by blast
  have inv1: "main_inv g m1" using onward_parts[OF m1(2)] by simp
  obtain m2 where m2: "nbhd_put m1 (n_id n) (wire (n_addr n)) = Inr m2" "onward g m1 m2" "lkps m2 = lkps m1"
    using put_onward[OF inv1 n(2,3)] by blast
  have o2: "onward g m m2" by (rule onward_trans[OF m1(2) m2(2)])
  have p2: "main_inv g m2" "self_id m2 = self_id m" "sockfd m2 = sockfd m" using onward_parts[OF o2] by simp_all
  have "running m2 lid host c (insert (n_id n) A)" using m1(3) running_cong[OF m2(3)] by simp
  from Cons.IH[OF p2(1) _ this] Cons.prems(2,4,5) p2(3) obtain m' where m':
    "nodes_loop (\<lambda>nid sin m. lkp_resolve m lid nid sin) (map node_dict ns) m2 = Inr m'" "onward g m2 m'"
    "running m' lid host c (insert (n_id n) A \<union> n_id ` set ns)"
    "\<forall>x \<in> set ns. n_id x \<notin> insert (n_id n) A \<and> n_id x \<noteq> self_id m2 \<longrightarrow> awaits Q_lookup m' (wire (n_addr x)) lid host" by auto
  have "nodes_loop (\<lambda>nid sin m. lkp_resolve m lid nid sin) (map node_dict (n # ns)) m = Inr m'"
    unfolding list.map(2) nodes_loop_Cons[OF n(1)] by (simp add: m1(1) m2(1) m'(1) del: nodes_loop.simps)
  moreover have "onward g m m'" by (rule onward_trans[OF o2 m'(2)])
  moreover have "running m' lid host c (A \<union> n_id ` set (n # ns))" using m'(3) by (simp add: insert_commute)
  moreover have "awaits Q_lookup m' (wire (n_addr n)) lid host" if "n_id n \<notin> A" "n_id n \<noteq> self_id m"
    using awaits_onward[OF awaits_onward[OF _ m2(2)] m'(2)] m1(4) that by blast
  moreover have "n_id x \<noteq> n_id n" if "x \<in> set ns" for x using Cons.prems(5) that by (metis distinct.simps(2) imageI list.map(2) list.set_map)
  ultimately show ?case using m'(4) p2(2) by (intro exI[of _ m']) auto
qed

section \<open>Starting a lookup\<close>

lemma remembered:
  "lookup_ok l \<Longrightarrow> lookup_ok (fold (\<lambda>j l. lkp_remember l (nid j)) js l) \<and>
    l_find_id (fold (\<lambda>j l. lkp_remember l (nid j)) js l) = l_find_id l \<and>
    l_lkp_id (fold (\<lambda>j l. lkp_remember l (nid j)) js l) = l_lkp_id l \<and>
    l_callback (fold (\<lambda>j l. lkp_remember l (nid j)) js l) = l_callback l \<and>
    {x. hash_exists (l_hash (fold (\<lambda>j l. lkp_remember l (nid j)) js l)) x} = {x. hash_exists (l_hash l) x} \<union> nid ` set js"
proof (induction js arbitrary: l)
  case (Cons j js)
  have "lookup_ok (lkp_remember l (nid j))" using lkp_remember_ok[OF Cons.prems] by blast
  from Cons.IH[OF this] remembers[OF Cons.prems, of "nid j"] show ?case by auto
qed simp

lemma put_asks:
  assumes m: "main_inv g m" and up: "0 \<le> sockfd m" and host: "is_id host"
    and k: "bckt_find_best_match (nbhd m) host = Some k" "bl_nodes (nbhd m) k \<noteq> []"
  shows "\<exists>lid m'. is_id lid \<and> lkp_put m host callback = Inr m' \<and> onward g m m' \<and>
    running m' lid host callback (n_id ` set (take 8 (bl_nodes (nbhd m) k))) \<and>
    (\<forall>n \<in> set (take 8 (bl_nodes (nbhd m) k)). awaits Q_lookup m' (n_addr n) lid host)"
proof (cases "rand_urandom m SHA_DIGEST_LENGTH")
  case (Pair lid m1)
  let ?ns = "bl_nodes (nbhd m) k"
  let ?l = "\<lparr>l_list = [], l_hash = hash_init 100, l_find_id = host, l_lkp_id = lid,
           l_callback = callback, l_time_find = time_add_x_sec m1 5\<rparr>"
  let ?m2 = "m1\<lparr>lkps := store_put (lkps m1) lid ?l\<rparr>"
  have s1: "sends m m1" using sends_urandom[OF Pair] by simp
  have m1: "main_inv g m1" "is_id lid" using urandom_inv[OF Pair m] by simp_all
  have l: "lookup_ok ?l" using host m1(2) by (simp add: lookup_ok_def)
  have m2: "main_inv g ?m2"
    using main_inv_lkps[OF m1(1)] lkps_ok_put[OF _ l] main_inv_parts(4)[OF m1(1)] by simp
  have same: "nbhd m1 = nbhd m" "sockfd m1 = sockfd m" "e_sent (env m1) = e_sent (env m)" "e_called (env m1) = e_called (env m)"
    using s1 Pair by (auto simp: sends_def rand_urandom_def)
  have kl: "k < length (bl_items (nbhd m))" using inv_best[OF main_inv_parts(7)[OF m] host] k(1) by auto
  let ?ask = "\<lambda>j (l, m'). bindr (node_at m' k j) (\<lambda>n. let l' = lkp_remember l (n_id n)
     in bindr (send_lookup m' (n_addr n) (l_find_id l') (l_lkp_id l')) (\<lambda>m1. Inr (l', m1)))"
  let ?rem = "\<lambda>j l. lkp_remember l (n_id (?ns ! j))" and ?js = "[0..<min 8 (length ?ns)]"
  let ?ok = "\<lambda>l. lookup_ok l \<and> l_find_id l = host \<and> l_lkp_id l = lid"
  have step: "\<exists>m1. ?ask j (l, m) = Inr (?rem j l, m1) \<and> sends m m1 \<and> onward g m m1 \<and>
      awaits Q_lookup m1 (n_addr (?ns ! j)) lid host"
    if "j \<in> set ?js" "?ok l" "main_inv g m" "0 \<le> sockfd m" "nbhd m = nbhd ?m2" for j l m
  proof -
    have "node_at m k j = Inr (?ns ! j)" using that(1,5) same(1) kl by (simp add: node_at_def)
    with request_awaits[OF that(3,4) host m1(2), of Q_lookup "n_addr (?ns ! j)"] that(2) show ?thesis
      by (auto simp: Let_def send_is_request)
  qed
  have ok: "?ok (?rem j l)" if "?ok l" for j l using that lkp_remember_ok[of l] by simp
  have l2: "?ok ?l" "0 \<le> sockfd ?m2" using l same up by simp_all
  obtain m3 where w: "fold_res ?ask ?js (?l, ?m2) = Inr (fold ?rem ?js ?l, m3)" "sends ?m2 m3" "onward g ?m2 m3"
    "\<forall>j \<in> set ?js. awaits Q_lookup m3 (n_addr (?ns ! j)) lid host"
    using walk_awaits[of ?js ?ok g "nbhd ?m2" ?ask ?rem Q_lookup "\<lambda>j. n_addr (?ns ! j)" lid host ?l ?m2, OF step ok l2(1) m2 l2(2) refl]
    by blast
  let ?l' = "fold ?rem ?js ?l"
  have r: "l_find_id ?l' = host" "l_callback ?l' = callback" "{x. hash_exists (l_hash ?l') x} = n_id ` set (take 8 ?ns)"
    using remembered[OF l, of "\<lambda>j. n_id (?ns ! j)" ?js] unfolding first_nodes image_image by (simp_all add: hash_exists_def)
  note any = full_bucket_matches[OF k(1) kl k(2)]
  let ?i = "s_new (lkps m1)" and ?m' = "m3\<lparr>lkps := store_set (lkps m3) (s_new (lkps m1)) ?l'\<rparr>"
  have put: "lkp_put m host callback = Inr ?m'"
    using Pair any w(1) same(1) by (simp add: lkp_put_def nbhd_lookup_def Let_def)
  have inv: "main_inv g ?m'" using lkp_put_inv[OF m host, of callback] put by simp
  have "keeps m ?m2" using sends_keeps[OF s1] main_inv_parts[OF m] by (simp add: keeps_def)
  then have "onward g m ?m'" using w(3) same(3,4) inv by (auto simp: onward_def keeps_def)
  moreover have "running ?m' lid host callback (n_id ` set (take 8 ?ns))"
  proof -
    have ok: "st_ok l_lkp_id (lkps ?m2)" using lkps_parts(1)[OF main_inv_parts(4)[OF m2]] .
    have "lkps m3 = lkps ?m2" using w(2) by (simp add: sends_def)
    moreover have "hash_get (s_hash (lkps ?m2)) lid = Some ?i" "(?i, ?l) \<in> set (s_list (lkps ?m2))"
      using lkps_parts(1)[OF main_inv_parts(4)[OF m1(1)]]
      by (simp_all add: store_put_def seq_put_def hm.get_put store_ok_def)
    ultimately show ?thesis using st_map_set[OF ok, of lid ?i ?l'] r by (simp add: running_def)
  qed
  moreover have "\<forall>n \<in> set (take 8 ?ns). awaits Q_lookup ?m' (n_addr n) lid host" using w(4) unfolding first_nodes by (auto simp: awaits_def)
  ultimately show ?thesis using put m1(2) by blast
qed

abbreviation nodes_packet :: "bytes \<Rightarrow> bytes \<Rightarrow> bytes \<Rightarrow> NODE list \<Rightarrow> ben" where
  "nodes_packet self sid lid ns \<equiv> BDict (node_fields self sid (Some lid) Q_nodes_lookup ns)"

lemma lookup_forwarded:
  assumes p: "kvs = [(K_i, nid), (K_k, sid), (K_l, lid), (K_f, host), (K_q, [Q_lookup])]" and ids: "is_id lid" "is_id host"
    and absent: "db_find m host = None"
  shows "p2p_query m (BDict (map field kvs)) Q_lookup nid sid src = nbhd_send m src host (Some lid) sid Q_nodes_lookup"
proof -
  have f: "with_field p2p_is_hash (Some (BDict (map field kvs))) K_f m g = g host"
    "with_field p2p_is_hash (Some (BDict (map field kvs))) K_l m g = g lid" for g
    by (rule hash_field[of K_f kvs host, OF _ _ _ ids(2)]; simp add: p)
      (rule hash_field[of K_l kvs lid, OF _ _ _ ids(1)]; simp add: p)
  show ?thesis by (simp add: p2p_query_def p2p_lookup_def f db_send_def absent)
qed

lemma names_nodes:
  assumes b: "main_inv True b" and up: "0 \<le> sockfd b" and ids: "is_id nid" "nid \<noteq> self_id b" "is_id sid" "is_id lid" "is_id host"
    and src: "addr_ok src" and none: "hosts b host = None"
    and k: "bckt_find_best_match (nbhd b) host = Some k" "n \<in> set (bl_nodes (nbhd b) k)" "n_id n \<noteq> nid"
      "length (bl_nodes (nbhd b) k) \<le> 23"
    and code: "encodes code (request_packet Q_lookup nid sid lid host)"
  shows "\<exists>reply b' ns. handle fuel (Datagram code src t) b = Inr b' \<and> main_inv True b' \<and> last (e_sent (env b')) = (src, reply) \<and>
    length reply \<le> UDP_BUF \<and> encodes reply (nodes_packet (self_id b) sid lid ns) \<and> n \<in> set ns \<and>
    (\<forall>x \<in> set ns. node_ok x) \<and> distinct (map n_id ns)"
proof -
  let ?b = "b\<lparr>p2p := (p2p b)\<lparr>time_now := t\<rparr>\<rparr>"
  have b0: "main_inv True ?b" using b by (rule main_inv_p2p)
  have k0: "k < length (bl_items (nbhd ?b))" "n \<in> set (bl_nodes (nbhd ?b) k)"
    using inv_best[OF main_inv_parts(7)[OF b] ids(5)] k(1,2) by auto
  obtain b1 where b1: "nbhd_put ?b nid src = Inr b1" "onward True ?b b1" "database b1 = database b"
    "same_ids (nbhd b) (nbhd b1)" "n \<in> set (bl_nodes (nbhd b1) k)" "length (bl_nodes (nbhd b1) k) \<le> 24"
    using put_keeps_node[OF b0 ids(1) src k0 k(3)] k(4) by auto
  have p1: "main_inv True b1" "self_id b1 = self_id b" "0 \<le> sockfd b1" using onward_parts[OF b1(2)] up by simp_all
  have k1: "k < length (bl_items (nbhd b1))" using same_ids_facts(1)[OF b1(4)] k0(1) by simp
  have "bckt_find_best_match (nbhd b1) host = Some k" using same_ids_best[OF b1(4)] k(1) by simp
  then have any: "bckt_find_any_match (nbhd b1) host = Inr (Some k)"
    using k1 b1(5) by (auto simp: bckt_find_any_match_def item_val_def bl_nodes_def Let_def)
  let ?k = "bl_items (nbhd b1) ! k" and ?ns = "bl_nodes (nbhd b1) k"
  have ns: "\<forall>x \<in> set (b_nodes ?k). node_ok x" "distinct (map n_id ?ns)"
    using main_inv_parts(3)[OF p1(1)] k1 by (auto simp: nbhd_ok_def bl_inv_def all_nodes_def bl_nodes_def)
  obtain reply where r: "encodes reply (nodes_packet (self_id b) sid lid ?ns)"
    "send_node b1 src ?k sid (Some lid) Q_nodes_lookup = Inr (transmit b1 src reply)"
    using send_node_packet[OF main_inv_parts(1)[OF p1(1)] ids(3) ns(1), of Q_nodes_lookup "Some lid" src] ids(4) p1(2)
    by (auto simp: bl_nodes_def)
  have "is_id (self_id b)" using main_inv_parts[OF b] by simp
  from encodes_length[OF r(1)] node_fields_size[OF this ids(3,4), of ?ns Q_nodes_lookup] ns(1)
  have "length reply = 91 + 57 * length (reliable ?ns)" by (simp add: bl_nodes_def)
  moreover have "length (reliable ?ns) \<le> 24" using b1(6) length_filter_le order_trans by blast
  ultimately have len: "length reply \<le> UDP_BUF" by (simp add: UDP_BUF_def)
  have absent: "db_find b1 host = None"
    using main_inv_parts(6)[OF p1(1)] by (cases rule: db_find_cases[of b1 host]) (use none b1(3) in simp_all)
  have "p2p_query b1 (request_packet Q_lookup nid sid lid host) Q_lookup nid sid src = Inr (transmit b1 src reply)"
    unfolding lookup_forwarded[OF refl ids(4,5) absent] using any k1 r(2) by (simp add: nbhd_send_def item_val_def)
  then have "handle fuel (Datagram code src t) b = Inr (transmit b1 src reply)"
    unfolding request_handled[OF code b ids] using b1(1) by simp
  moreover have "main_inv True (transmit b1 src reply)" by (rule main_inv_sends[OF sends_transmit p1(1)])
  moreover have "last (e_sent (env (transmit b1 src reply))) = (src, reply)" using p1(3) by (simp add: transmit_sent)
  ultimately show ?thesis using len r(1) b1(5) ns
    by (intro exI[of _ reply] exI[of _ "transmit b1 src reply"] exI[of _ ?ns]) (simp add: bl_nodes_def)
qed

lemma gives_value:
  assumes c: "main_inv h c" and up: "0 \<le> sockfd c" and ids: "is_id nid" "nid \<noteq> self_id c" "is_id sid" "is_id lid" "is_id host"
    and src: "addr_ok src" and some: "hosts c host = Some d" and code: "encodes code (request_packet Q_lookup nid sid lid host)"
  shows "\<exists>reply c'. handle fuel (Datagram code src t) c = Inr c' \<and> main_inv h c' \<and> last (e_sent (env c')) = (src, reply) \<and>
    encodes reply (BDict (map field [(K_i, self_id c), (K_k, sid), (K_l, lid), (K_a, sin6_addr (d_addr d)), (K_q, [Q_value])]))"
proof -
  have c0: "main_inv h (c\<lparr>p2p := (p2p c)\<lparr>time_now := t\<rparr>\<rparr>)" using c by (rule main_inv_p2p)
  obtain c1 where c1: "nbhd_put (c\<lparr>p2p := (p2p c)\<lparr>time_now := t\<rparr>\<rparr>) nid src = Inr c1"
    "onward h (c\<lparr>p2p := (p2p c)\<lparr>time_now := t\<rparr>\<rparr>) c1" "database c1 = database c"
    using put_onward[OF c0 ids(1) src] by auto
  have p1: "main_inv h c1" "self_id c1 = self_id c" "0 \<le> sockfd c1" using onward_parts[OF c1(2)] up by simp_all
  have "hosts c1 host = Some d" using some c1(3) by simp
  from looked_up[OF p1(1) ids(5,4,3) p1(3) this refl, of nid src] c1(1) p1(2) show ?thesis
    unfolding request_handled[OF code c ids] by auto
qed

section \<open>The answers at the daemon that searches\<close>

lemma nodes_packet_fields:
  "ben_searchDictStr (Some (nodes_packet self sid lid ns)) K_i = Inr (Some (BStr (Some self)))"
  "ben_searchDictStr (Some (nodes_packet self sid lid ns)) K_k = Inr (Some (BStr (Some sid)))"
  "ben_searchDictStr (Some (nodes_packet self sid lid ns)) K_l = Inr (Some (BStr (Some lid)))"
  "ben_searchDictStr (Some (nodes_packet self sid lid ns)) K_n = Inr (Some (BList (map node_dict (reliable ns))))"
  "ben_searchDictStr (Some (nodes_packet self sid lid ns)) K_q = Inr (Some (BStr (Some [Q_nodes_lookup])))"
  by (simp_all add: ben_searchDictStr_def ben_searchDictKey_def ben_str_def ben_init_def node_fields_def field_def memcmp_eq_0)

lemma nodes_packet_hash:
  assumes "is_id self" "is_id sid" "is_id lid"
  shows "with_field p2p_is_hash (Some (nodes_packet self sid lid ns)) K_i m f = f self"
    "with_field p2p_is_hash (Some (nodes_packet self sid lid ns)) K_k m f = f sid"
    "with_field p2p_is_hash (Some (nodes_packet self sid lid ns)) K_l m f = f lid"
  using assms by (simp_all add: with_field_def nodes_packet_fields p2p_is_hash_def ben_is_str_def ben_str_size_def
      is_id_def str_of_def)

lemma asks_named:
  assumes a: "main_inv g a" and up: "0 \<le> sockfd a" and ids: "is_id nid" "nid \<noteq> self_id a" "is_id sid" "is_id lid"
    and src: "addr_ok src" and r: "running a lid host c A" and known: "sessions a sid \<noteq> None"
    and code: "encodes code (nodes_packet nid sid lid ns)" "length code \<le> UDP_BUF"
    and ns: "\<forall>x \<in> set ns. node_ok x" "distinct (map n_id ns)"
    and n: "n \<in> set ns" "n_pinged n \<le> 0" "n_id n \<notin> A" "n_id n \<noteq> nid" "n_id n \<noteq> self_id a"
  shows "\<exists>a' A'. handle fuel (Datagram code src t) a = Inr a' \<and> main_inv g a' \<and> self_id a' = self_id a \<and>
    sockfd a' = sockfd a \<and> e_called (env a') = e_called (env a) \<and> running a' lid host c A' \<and>
    awaits Q_lookup a' (wire (n_addr n)) lid host"
proof -
  let ?a = "a\<lparr>p2p := (p2p a)\<lparr>time_now := t\<rparr>\<rparr>"
  have a0: "main_inv g ?a" using a by (rule main_inv_p2p)
  have me: "\<not> node_me (self_id ?a) nid" using ids main_inv_parts(8)[OF a] by (simp add: node_me_def node_equal_iff)
  obtain a1 where a1: "nbhd_put ?a nid src = Inr a1" "onward g ?a a1" "lkps a1 = lkps a"
    using put_onward[OF a0 ids(1) src] by auto
  have p1: "main_inv g a1" "self_id a1 = self_id a" "sockfd a1 = sockfd a" "sessions a1 sid \<noteq> None"
    using onward_parts[OF a1(2)] a1(2) known by (auto simp: onward_def keeps_def)
  obtain s where s: "cache_validate a1 sid = Inr (True, a1\<lparr>cache := s\<rparr>)" "cache_ok (a1\<lparr>cache := s\<rparr>)"
    using cache_validate_spec[OF main_inv_parts(2)[OF p1(1)], of sid] p1(4) by auto
  let ?a2 = "a1\<lparr>cache := s\<rparr>"
  have a2: "main_inv g ?a2" by (rule main_inv_cache[OF p1(1) s(2)])
  have r2: "running ?a2 lid host c A" using r a1(3) by (simp add: running_def)
  obtain a3 where a3: "lkp_resolve ?a2 lid nid src = Inr a3" "onward g ?a2 a3" "running a3 lid host c (insert nid A)"
    using resolve_asks[OF a2 _ ids(1) r2, of src] p1(3) up by auto
  have p3: "main_inv g a3" "self_id a3 = self_id a" "sockfd a3 = sockfd a" using onward_parts[OF a3(2)] p1 by simp_all
  let ?ns = "reliable ns"
  have ns': "\<forall>x \<in> set ?ns. node_ok x" "distinct (map n_id ?ns)" "n \<in> set ?ns"
    using ns n(1,2) by (simp_all add: distinct_map_filter)
  obtain a4 where a4: "nodes_loop (\<lambda>nid sin m. lkp_resolve m lid nid sin) (map node_dict ?ns) a3 = Inr a4" "onward g a3 a4"
    "running a4 lid host c (insert nid A \<union> n_id ` set ?ns)"
    "\<forall>x \<in> set ?ns. n_id x \<notin> insert nid A \<and> n_id x \<noteq> self_id a3 \<longrightarrow> awaits Q_lookup a4 (wire (n_addr x)) lid host"
    using loop_asks[OF p3(1) _ a3(3) ns'(1,2)] p3(3) up by auto
  let ?p = "nodes_packet nid sid lid ns"
  have "p2p_query a1 ?p Q_nodes_lookup nid sid src = Inr a4"
    using s(1) a3(1) a4(1) by (simp add: p2p_query_def p2p_node_lookup_def nodes_packet_fields ben_is_list_def list_of_def
        nodes_packet_hash[OF ids(1,3,4)] Let_def del: nodes_loop.simps)
  then have "p2p_packet ?a ?p src = Inr a4"
    using me a1(1) by (simp add: p2p_packet_def nodes_packet_hash[OF ids(1,3,4)] nodes_packet_fields ben_is_str_def
        ben_str_size_def str_of_def)
  then have "handle fuel (Datagram code src t) a = Inr a4" unfolding handle_encoded[OF code] .
  moreover have "main_inv g a4" "self_id a4 = self_id a" "sockfd a4 = sockfd a"
    using onward_parts[OF a4(2)] p3 by simp_all
  moreover have "e_called (env a4) = e_called (env a)" using a1(2) a3(2) a4(2) by (simp add: onward_def)
  moreover have "awaits Q_lookup a4 (wire (n_addr n)) lid host" using a4(4) ns'(3) n(3-5) p3(2) by simp
  ultimately show ?thesis using a4(3) by blast
qed

lemma value_packet_size:
  assumes "encodes code (BDict (map field [(K_i, self), (K_k, sid), (K_l, lid), (K_a, ip), (K_q, [Q_value])]))"
    and "is_id self" "is_id sid" "is_id lid" "length ip = 16"
  shows "length code \<le> UDP_BUF"
proof -
  have "ben_enc_size (BDict (map field [(K_i, self), (K_k, sid), (K_l, lid), (K_a, ip), (K_q, [Q_value])])) = Inr 108"
    using assms(2-5) by (simp add: field_def is_id_def SHA_DIGEST_LENGTH_def digits_length)
  from encodes_length[OF assms(1) this] show ?thesis by (simp add: UDP_BUF_def)
qed

lemma value_reported:
  assumes a: "main_inv g a" and ids: "is_id nid" "nid \<noteq> self_id a" "is_id sid" "is_id lid" and ip: "length ip = 16"
    and src: "addr_ok src" and r: "running a lid host (Some ctx) A" and known: "sessions a sid \<noteq> None"
    and kvs: "kvs = [(K_i, nid), (K_k, sid), (K_l, lid), (K_a, ip), (K_q, [Q_value])]" and code: "encodes code (BDict (map field kvs))"
  shows "\<exists>a'. handle fuel (Datagram code src t) a = Inr a' \<and> main_inv g a' \<and>
    e_called (env a') = e_called (env a) @ [(ctx, nid, Some ip)]"
proof -
  let ?a = "a\<lparr>p2p := (p2p a)\<lparr>time_now := t\<rparr>\<rparr>"
  have a0: "main_inv g ?a" using a by (rule main_inv_p2p)
  have me: "\<not> node_me (self_id ?a) nid" using ids main_inv_parts(8)[OF a] by (simp add: node_me_def node_equal_iff)
  obtain a1 where a1: "nbhd_put ?a nid src = Inr a1" "onward g ?a a1" "lkps a1 = lkps a"
    using put_onward[OF a0 ids(1) src] by auto
  have p1: "main_inv g a1" "sessions a1 sid \<noteq> None" "e_called (env a1) = e_called (env a)"
    using onward_parts[OF a1(2)] a1(2) known by (auto simp: onward_def keeps_def)
  obtain s where s: "cache_validate a1 sid = Inr (True, a1\<lparr>cache := s\<rparr>)" "cache_ok (a1\<lparr>cache := s\<rparr>)"
    using cache_validate_spec[OF main_inv_parts(2)[OF p1(1)], of sid] p1(2) by auto
  let ?a2 = "a1\<lparr>cache := s\<rparr>"
  have a2: "main_inv g ?a2" by (rule main_inv_cache[OF p1(1) s(2)])
  have r2: "running ?a2 lid host (Some ctx) A" using r a1(3) by (simp add: running_def)
  obtain i l where l: "hash_get (s_hash (lkps ?a2)) lid = Some i" "(i, l) \<in> set (s_list (lkps ?a2))" "l_callback l = Some ctx"
    using main_inv_parts(4)[OF a2]
  proof (cases rule: lkp_find_cases[of ?a2 lid])
    case (present i l)
    then have "st_map (lkps ?a2) lid = Some l"
      using store_item[OF lkps_parts(1)[OF main_inv_parts(4)[OF a2]] present(3)] by (simp add: st_map_def)
    with r2 present show ?thesis by (intro that[of i l]) (simp_all add: running_def)
  qed (use r2 in \<open>simp add: running_def st_map_def\<close>)
  obtain a3 where a3: "lkp_success ?a2 lid nid ip = Inr a3" "main_inv g a3"
    "e_called (env a3) = e_called (env a) @ [(ctx, nid, Some ip)]"
    using lkp_success_known[OF a2 l(1,2), of nid ip] l(3) p1(3) by auto
  have f: "with_field p2p_is_ip (Some (BDict (map field kvs))) K_a ?a2 g = g ip"
    "with_field p2p_is_hash (Some (BDict (map field kvs))) K_l ?a2 g = g lid" for g
    by (rule ip_field[of K_a kvs ip, OF _ _ _ ip]; simp add: kvs)
      (rule hash_field[of K_l kvs lid, OF _ _ _ ids(4)]; simp add: kvs)
  have "p2p_query a1 (BDict (map field kvs)) Q_value nid sid src = Inr a3"
    using s(1) a3(1) by (simp add: p2p_query_def p2p_value_def f)
  moreover have "p2p_packet ?a (BDict (map field kvs)) src
      = bindr (nbhd_put ?a nid src) (\<lambda>m1. p2p_query m1 (BDict (map field kvs)) Q_value nid sid src)"
    by (rule packet_fields[where rest = "[(K_l, lid), (K_a, ip), (K_q, [Q_value])]"]) (use ids me kvs in simp_all)
  ultimately have "handle fuel (Datagram code src t) a = Inr a3"
    using handle_encoded[OF code value_packet_size[OF code[unfolded kvs] ids(1,3,4) ip]] a1(1) by simp
  with a3 show ?thesis by blast
qed

section \<open>From the question to the callback\<close>

text \<open>C3: A lookup finds what another daemon holds: let the searching daemon A know B, among the first
  eight nodes of the bucket that fits the host, let B not know the host but know C, as a live node
  of a bucket of at most 23 nodes, and let the host be announced at C. Then the datagrams that
  A's lookup makes the three send, delivered in turn, are all handled: B's answer names C, A
  asks C under the address it was given, and C's answer calls the callback of the lookup once, with
  C's id and the address from which the host was announced.\<close>
theorem lookup_finds:
  assumes "main_inv g a" "main_inv True b" "main_inv h c" "0 \<le> sockfd a" "0 \<le> sockfd b" "0 \<le> sockfd c"
    and "distinct [self_id a, self_id b, self_id c]" "addr_ok addr_a" "is_id host"
    and "bckt_find_best_match (nbhd a) host = Some ka" "nb \<in> set (take 8 (bl_nodes (nbhd a) ka))" "n_id nb = self_id b"
    and "self_id c \<notin> n_id ` set (take 8 (bl_nodes (nbhd a) ka))"
    and "hosts b host = None" "bckt_find_best_match (nbhd b) host = Some kb" "nc \<in> set (bl_nodes (nbhd b) kb)"
    and "n_id nc = self_id c" "n_pinged nc \<le> 0" "length (bl_nodes (nbhd b) kb) \<le> 23" "hosts c host = Some d"
  shows "\<exists>a1 q1 b1 r1 a2 q2 c1 r2 a3. handle fuel (Lookup host (Some ctx)) a = Inr a1 \<and>
    (n_addr nb, q1) \<in> set (e_sent (env a1)) \<and> e_called (env a1) = e_called (env a) \<and>
    handle fuel (Datagram q1 addr_a t1) b = Inr b1 \<and> last (e_sent (env b1)) = (addr_a, r1) \<and>
    handle fuel (Datagram r1 (n_addr nb) t2) a1 = Inr a2 \<and> (wire (n_addr nc), q2) \<in> set (e_sent (env a2)) \<and>
    e_called (env a2) = e_called (env a) \<and>
    handle fuel (Datagram q2 addr_a t3) c = Inr c1 \<and> last (e_sent (env c1)) = (addr_a, r2) \<and>
    handle fuel (Datagram r2 (wire (n_addr nc)) t4) a2 = Inr a3 \<and> main_inv g a3 \<and>
    e_called (env a3) = e_called (env a) @ [(ctx, self_id c, Some (sin6_addr (d_addr d)))]"
proof -
  have ids: "is_id (self_id a)" "is_id (self_id b)" "is_id (self_id c)" using main_inv_parts(8) assms(1-3) by blast+
  have ne: "self_id a \<noteq> self_id b" "self_id a \<noteq> self_id c" "self_id b \<noteq> self_id c" using assms(7) by auto
  have k: "ka < length (bl_items (nbhd a))" "kb < length (bl_items (nbhd b))"
    using inv_best[OF main_inv_parts(7)[OF assms(1)] assms(9)] inv_best[OF main_inv_parts(7)[OF assms(2)] assms(9)]
      assms(10,15) by auto
  have "nb \<in> all_nodes (nbhd a)" "nc \<in> all_nodes (nbhd b)"
    by (rule all_nodes_at[OF k(1) in_set_takeD[OF assms(11)]], rule all_nodes_at[OF k(2) assms(16)])
  then have nodes: "node_ok nb" "node_ok nc"
    using main_inv_parts(3)[OF assms(1)] main_inv_parts(3)[OF assms(2)] by (simp_all add: nbhd_ok_def)
  have addrs: "addr_ok (n_addr nb)" "addr_ok (wire (n_addr nc))"
    using nodes by (auto simp: node_ok_def addr_ok_def node_addr_def)
  have ip: "length (sin6_addr (d_addr d)) = 16"
    using main_inv_parts(6)[OF assms(3)]
    by (cases rule: db_find_cases[of c host]) (use assms(20) in \<open>simp_all add: db_entry_ok_def addr_ok_def\<close>)
  have full: "bl_nodes (nbhd a) ka \<noteq> []" using assms(11) by auto
  obtain lid a1 where a1: "is_id lid" "handle fuel (Lookup host (Some ctx)) a = Inr a1" "onward g a a1"
    "running a1 lid host (Some ctx) (n_id ` set (take 8 (bl_nodes (nbhd a) ka)))" "awaits Q_lookup a1 (n_addr nb) lid host"
    using put_asks[OF assms(1,4,9,10) full, of "Some ctx"] assms(11) by auto
  have p1: "main_inv g a1" "self_id a1 = self_id a" "sockfd a1 = sockfd a" "e_called (env a1) = e_called (env a)"
    using onward_parts[OF a1(3)] a1(3) by (simp_all add: onward_def)
  obtain sid1 q1 where q1: "is_id sid1" "sessions a1 sid1 \<noteq> None" "(n_addr nb, q1) \<in> set (e_sent (env a1))"
    "encodes q1 (request_packet Q_lookup (self_id a) sid1 lid host)" using a1(5) p1(2) unfolding awaits_def by auto
  have nc: "n_id nc \<noteq> self_id a" using assms(17) ne by simp
  obtain r1 b1 ns where b1: "handle fuel (Datagram q1 addr_a t1) b = Inr b1" "last (e_sent (env b1)) = (addr_a, r1)"
    "length r1 \<le> UDP_BUF" "encodes r1 (nodes_packet (self_id b) sid1 lid ns)" "nc \<in> set ns" "\<forall>x \<in> set ns. node_ok x"
    "distinct (map n_id ns)"
    using names_nodes[OF assms(2,5) ids(1) ne(1) q1(1) a1(1) assms(9,8,14-16) nc assms(19) q1(4), of fuel t1] by blast
  have up1: "0 \<le> sockfd a1" and ne1: "self_id b \<noteq> self_id a1" "n_id nc \<noteq> self_id b" "n_id nc \<noteq> self_id a1"
    and new: "n_id nc \<notin> n_id ` set (take 8 (bl_nodes (nbhd a) ka))"
    using p1 assms(4,13,17) ne by auto
  obtain a2 A where a2: "handle fuel (Datagram r1 (n_addr nb) t2) a1 = Inr a2" "main_inv g a2" "self_id a2 = self_id a1"
    "e_called (env a2) = e_called (env a1)" "running a2 lid host (Some ctx) A" "awaits Q_lookup a2 (wire (n_addr nc)) lid host"
    using asks_named[OF p1(1) up1 ids(2) ne1(1) q1(1) a1(1) addrs(1) a1(4) q1(2) b1(4,3,6,7,5) assms(18) new ne1(2,3),
      of fuel t2] by blast
  obtain sid2 q2 where q2: "is_id sid2" "sessions a2 sid2 \<noteq> None" "(wire (n_addr nc), q2) \<in> set (e_sent (env a2))"
    "encodes q2 (request_packet Q_lookup (self_id a) sid2 lid host)" using a2(3,6) p1(2) unfolding awaits_def by auto
  obtain r2 c1 where c1: "handle fuel (Datagram q2 addr_a t3) c = Inr c1" "last (e_sent (env c1)) = (addr_a, r2)"
    "encodes r2 (BDict (map field [(K_i, self_id c), (K_k, sid2), (K_l, lid), (K_a, sin6_addr (d_addr d)), (K_q, [Q_value])]))"
    using gives_value[OF assms(3,6) ids(1) ne(2) q2(1) a1(1) assms(9,8,20) q2(4), of fuel t3] by blast
  have "self_id c \<noteq> self_id a2" using a2(3) p1(2) ne by simp
  from value_reported[OF a2(2) ids(3) this q2(1) a1(1) ip addrs(2) a2(5) q2(2) refl c1(3), of fuel t4] obtain a3 where
    a3: "handle fuel (Datagram r2 (wire (n_addr nc)) t4) a2 = Inr a3" "main_inv g a3"
    "e_called (env a3) = e_called (env a) @ [(ctx, self_id c, Some (sin6_addr (d_addr d)))]"
    using a2(4) p1(4) by auto
  have called: "e_called (env a2) = e_called (env a)" using a2(4) p1(4) by simp
  show ?thesis
    by (intro exI conjI) (fact a1(2) q1(3) p1(4) b1(1) b1(2) a2(1) q2(3) called c1(1) c1(2) a3(1) a3(2) a3(3))+
qed

text \<open>Three daemons in a row, and a host that is announced at the third.\<close>

definition main_with :: "u8 \<Rightarrow> NODE list \<Rightarrow> DB STORE \<Rightarrow> MAIN" where
  "main_with i ns db = main0\<lparr>conf := (conf main0)\<lparr>conf_node_id := replicate 20 i\<rparr>,
     nbhd := \<lparr>bl_items = [\<lparr>b_id = replicate 20 0, b_nodes = ns\<rparr>], bl_stop = Some 0\<rparr>, database := db\<rparr>"

abbreviation host_entry :: DB where
  "host_entry \<equiv> \<lparr>d_host_id = replicate 20 3, d_addr = no_addr, d_time_anno = 2000\<rparr>"

lemma main_with_inv:
  assumes "distinct (map n_id ns)" "\<forall>n \<in> set ns. node_ok n" "db_ok db"
  shows "main_inv g (main_with i ns db)"
proof -
  let ?e = "env main0" and ?c = "(conf main0)\<lparr>conf_node_id := replicate 20 i\<rparr>"
  have e: "\<forall>x. e_multicast ?e = Inl x \<longrightarrow> x = ExitFailure" "\<forall>i n. length (e_urandom ?e i n) = n"
    by (simp_all add: main0_def main_start_def)
  have c: "is_id (conf_node_id ?c)" "is_id (conf_host_id ?c)"
    by (simp_all add: main0_def main_start_def is_id_def SHA_DIGEST_LENGTH_def)
  have "main_with i ns db = (main_start ?c (now main0) ?e)\<lparr>
      nbhd := \<lparr>bl_items = [\<lparr>b_id = replicate 20 0, b_nodes = ns\<rparr>], bl_stop = Some 0\<rparr>\<rparr>\<lparr>database := db\<rparr>"
    by (simp add: main_with_def main0_def main_start_def)
  with main_inv_start[OF c e(2,1)] one_bucket_inv[OF assms(1,2)] assms(3) show ?thesis
    by (simp add: main_inv_nbhd main_inv_database)
qed

lemma main_with_facts:
  "self_id (main_with i ns db) = replicate 20 i" "sockfd (main_with i ns db) = 3" "database (main_with i ns db) = db"
  "bl_nodes (nbhd (main_with i ns db)) 0 = ns" "e_called (env (main_with i ns db)) = []"
  "is_id nid \<Longrightarrow> bckt_find_best_match (nbhd (main_with i ns db)) nid = Some 0"
proof -
  let ?l = "\<lparr>bl_items = [\<lparr>b_id = replicate 20 0, b_nodes = ns\<rparr>], bl_stop = Some 0\<rparr>"
  have "bl_shape ?l" by (simp add: bl_shape_def is_id_def SHA_DIGEST_LENGTH_def)
  then show "is_id nid \<Longrightarrow> bckt_find_best_match (nbhd (main_with i ns db)) nid = Some 0"
    using best_match_iff[of ?l nid 0] by (simp add: main_with_def in_bucket_def)
qed (simp_all add: main_with_def main0_def main_start_def bl_nodes_def)

theorem lookup_finds_witness:
  "\<exists>a1 a2 a3 r1 r2. handle 0 (Lookup (replicate 20 3) (Some 7)) (main_with 1 [node_of (replicate 20 6)] (store_init 4096)) = Inr a1 \<and>
    handle 0 (Datagram r1 no_addr 0) a1 = Inr a2 \<and> handle 0 (Datagram r2 (wire no_addr) 0) a2 = Inr a3 \<and>
    e_called (env a3) = [(7, replicate 20 8, Some (replicate 16 0))]"
proof -
  let ?host = "replicate 20 3 :: bytes" and ?db = "store_put (store_init 4096) (replicate 20 3) host_entry"
  have ids: "is_id (replicate 20 i)" for i by (simp add: is_id_def SHA_DIGEST_LENGTH_def)
  have node: "node_ok (node_of (replicate 20 i))" for i
    by (simp add: node_ok_def node_of_def no_addr_def addr_ok_def is_id_def SHA_DIGEST_LENGTH_def)
  have st: "st_ok d_host_id (store_init 4096)" "st_full d_host_id (store_init 4096 :: DB STORE)" using st_init[of 4096] by auto
  have db0: "db_ok (store_init 4096)" using st by (simp add: db_ok_def store_init_def)
  have "hash_get (s_hash (store_init 4096 :: DB STORE)) ?host = None" by (simp add: store_init_def)
  with st have db: "db_ok ?db"
    using store_put_ok[OF st(1), of host_entry ?host] store_put_full[OF st, of ?host host_entry] ids[of 3]
    by (auto simp: db_ok_def store_put_def store_init_def seq_put_def db_entry_ok_def addr_ok_def no_addr_def)
  have a: "main_inv True (main_with 1 [node_of (replicate 20 6)] (store_init 4096))"
    and b: "main_inv True (main_with 6 [node_of (replicate 20 8)] (store_init 4096))"
    and c: "main_inv True (main_with 8 [] ?db)" by (simp_all add: main_with_inv db0 db node)
  have "hosts (main_with 8 [] ?db) ?host = Some host_entry" by (simp add: main_with_facts st_map_put[OF st(1)])
  from lookup_finds[OF a b c, of no_addr ?host 0 "node_of (replicate 20 6)" 0 "node_of (replicate 20 8)" host_entry 0 7 0 0 0 0]
    this ids show ?thesis
    by (simp add: main_with_facts node_of_def st_map_init addr_ok_def) (force simp: no_addr_def)
qed

end
