(* ===== verification/Spread.thy ===== *)
theory Spread
  imports Search
begin

text \<open>
  An announcement from the daemon that makes it, \<open>p2p_announce_myself\<close> with \<open>announce_put\<close> and
  \<open>nbhd_announce\<close>, to the database of a daemon that receives it, and from there to a lookup.
\<close>

section \<open>Announcing\<close>

lemma myself_asks:
  assumes m: "main_inv g m" and up: "0 \<le> sockfd m" and named: "conf_hostname (conf m) \<noteq> None"
    and k: "bckt_find_best_match (nbhd m) (conf_host_id (conf m)) = Some k" "bl_nodes (nbhd m) k \<noteq> []"
  shows "\<exists>lid m'. is_id lid \<and> p2p_announce_myself m = Inr m' \<and> onward g m m' \<and>
    (\<forall>n \<in> set (take 8 (bl_nodes (nbhd m) k)). awaits Q_announce m' (n_addr n) lid (conf_host_id (conf m)))"
proof (cases "rand_urandom m SHA_DIGEST_LENGTH")
  case (Pair lid m1)
  let ?host = "conf_host_id (conf m)" and ?ns = "bl_nodes (nbhd m) k"
  let ?a = "\<lparr>a_list = [], a_hash = hash_init 100, a_lkp_id = lid, a_time_find = time_add_x_sec m1 10\<rparr>"
  let ?m2 = "m1\<lparr>announce := store_put (announce m1) lid ?a\<rparr>"
  have s1: "sends m m1" using sends_urandom[OF Pair] by simp
  have m1: "main_inv g m1" "is_id lid" using urandom_inv[OF Pair m] by simp_all
  have host: "is_id ?host" using main_inv_parts[OF m] by simp
  have a: "ann_ok ?a" using m1(2) by (simp add: ann_ok_def)
  have m2: "main_inv g ?m2"
    using main_inv_announce[OF m1(1)] announce_ok_put[OF _ a] main_inv_parts(5)[OF m1(1)] by simp
  have same: "nbhd m1 = nbhd m" "sockfd m1 = sockfd m" "e_sent (env m1) = e_sent (env m)" "e_called (env m1) = e_called (env m)"
    "conf m1 = conf m"
    using s1 Pair by (auto simp: sends_def rand_urandom_def)
  have kl: "k < length (bl_items (nbhd m))" using inv_best[OF main_inv_parts(7)[OF m] host] k(1) by auto
  let ?ask = "\<lambda>j (a, m'). bindr (node_at m' k j) (\<lambda>n. let a' = announce_remember a (n_id n)
     in bindr (send_announce m' (n_addr n) (a_lkp_id a') ?host) (\<lambda>m1. Inr (a', m1)))"
  let ?rem = "\<lambda>j a. announce_remember a (n_id (?ns ! j))" and ?js = "[0..<min 8 (length ?ns)]"
  let ?ok = "\<lambda>a. ann_ok a \<and> a_lkp_id a = lid"
  have step: "\<exists>m1. ?ask j (a, m) = Inr (?rem j a, m1) \<and> sends m m1 \<and> onward g m m1 \<and>
      awaits Q_announce m1 (n_addr (?ns ! j)) lid ?host"
    if "j \<in> set ?js" "?ok a" "main_inv g m" "0 \<le> sockfd m" "nbhd m = nbhd ?m2" for j a m
  proof -
    have "node_at m k j = Inr (?ns ! j)" using that(1,5) same(1) kl by (simp add: node_at_def)
    with request_awaits[OF that(3,4) host m1(2), of Q_announce "n_addr (?ns ! j)"] that(2)
      announce_remember_ok[of a "n_id (?ns ! j)"] show ?thesis
      by (auto simp: Let_def send_is_request)
  qed
  have ok: "?ok (?rem j a)" if "?ok a" for j a using that announce_remember_ok[of a] by simp
  have l2: "?ok ?a" "0 \<le> sockfd ?m2" using a same up by simp_all
  obtain m3 where w: "fold_res ?ask ?js (?a, ?m2) = Inr (fold ?rem ?js ?a, m3)" "sends ?m2 m3" "onward g ?m2 m3"
    "\<forall>j \<in> set ?js. awaits Q_announce m3 (n_addr (?ns ! j)) lid ?host"
    using walk_awaits[of ?js ?ok g "nbhd ?m2" ?ask ?rem Q_announce "\<lambda>j. n_addr (?ns ! j)" lid ?host ?a ?m2, OF step ok l2(1) m2 l2(2) refl]
    by blast
  note any = full_bucket_matches[OF k(1) kl k(2)]
  let ?m' = "m3\<lparr>announce := store_set (announce m3) (s_new (announce m1)) (fold ?rem ?js ?a)\<rparr>"
  have put: "announce_put m1 lid ?host = Inr ?m'"
    using any w(1) same(1) by (simp add: announce_put_def nbhd_announce_def Let_def)
  have inv: "main_inv g ?m'" using announce_put_inv[OF m1(1,2) host] put by (auto simp: match_faults_def split: if_splits)
  have "p2p_announce_myself m = Inr ?m'" using Pair named put same(5) by (simp add: p2p_announce_myself_def)
  moreover have "keeps m ?m2" using sends_keeps[OF s1] main_inv_parts[OF m] by (simp add: keeps_def)
  then have "onward g m ?m'" using w(3) same(3,4) inv by (auto simp: onward_def keeps_def)
  moreover have "\<forall>n \<in> set (take 8 ?ns). awaits Q_announce ?m' (n_addr n) lid ?host"
    using w(4) unfolding first_nodes by (auto simp: awaits_def)
  ultimately show ?thesis using m1(2) by blast
qed

section \<open>Storing\<close>

lemma stores_host:
  assumes b: "main_inv True b" and ids: "is_id nid" "nid \<noteq> self_id b" "is_id sid" "is_id lid" "is_id host"
    and src: "addr_ok src" and code: "encodes code (request_packet Q_announce nid sid lid host)"
  shows "\<exists>b'. handle fuel (Datagram code src t) b = Inr b' \<and> main_inv True b' \<and> self_id b' = self_id b \<and> sockfd b' = sockfd b \<and>
    hosts b' host = Some \<lparr>d_host_id = host, d_addr = src, d_time_anno = t + 900\<rparr>"
proof -
  let ?b = "b\<lparr>p2p := (p2p b)\<lparr>time_now := t\<rparr>\<rparr>"
  have b0: "main_inv True ?b" using b by (rule main_inv_p2p)
  obtain b1 where b1: "nbhd_put ?b nid src = Inr b1" "onward True ?b b1" using put_onward[OF b0 ids(1) src] by blast
  have p1: "main_inv True b1" "self_id b1 = self_id b" "sockfd b1 = sockfd b" "now b1 = t"
    using onward_parts[OF b1(2)] b1(2) by (simp_all add: onward_def keeps_def)
  from announced[OF p1(1) ids(5,4,3) src refl, of nid] b1(1) p1 show ?thesis
    unfolding request_handled[OF code b ids] by auto
qed

text \<open>C4: An announcement reaches the database of another daemon: when a daemon A with a host name
  announces itself and B is among the first eight nodes of the bucket that fits the host id, A sends
  B an ANNOUNCE; B, without gaps, handles it and then has A's host id in its database, with the address
  the datagram came from, for the next 15 minutes. By \<open>lookup_finds\<close> with B in the place of C, lookups
  of other daemons then report this address.\<close>
theorem announcement_stored:
  assumes "main_inv g a" "main_inv True b" "0 \<le> sockfd a" "self_id a \<noteq> self_id b" "addr_ok addr_a"
    and "conf_hostname (conf a) \<noteq> None" "bckt_find_best_match (nbhd a) (conf_host_id (conf a)) = Some k"
    and "nb \<in> set (take 8 (bl_nodes (nbhd a) k))" "n_id nb = self_id b"
  shows "\<exists>a1 q b1. p2p_announce_myself a = Inr a1 \<and> main_inv g a1 \<and> (n_addr nb, q) \<in> set (e_sent (env a1)) \<and>
    handle fuel (Datagram q addr_a t) b = Inr b1 \<and> main_inv True b1 \<and> self_id b1 = self_id b \<and> sockfd b1 = sockfd b \<and>
    hosts b1 (conf_host_id (conf a)) = Some \<lparr>d_host_id = conf_host_id (conf a), d_addr = addr_a, d_time_anno = t + 900\<rparr>"
proof -
  have ids: "is_id (self_id a)" "is_id (conf_host_id (conf a))" using main_inv_parts[OF assms(1)] by simp_all
  have full: "bl_nodes (nbhd a) k \<noteq> []" using assms(8) by auto
  obtain lid a1 where a1: "is_id lid" "p2p_announce_myself a = Inr a1" "onward g a a1"
    "awaits Q_announce a1 (n_addr nb) lid (conf_host_id (conf a))"
    using myself_asks[OF assms(1,3,6,7) full] assms(8) by blast
  have p1: "main_inv g a1" "self_id a1 = self_id a" using onward_parts[OF a1(3)] by simp_all
  from a1(4) obtain sid q where q: "is_id sid" "(n_addr nb, q) \<in> set (e_sent (env a1))"
    "encodes q (request_packet Q_announce (self_id a) sid lid (conf_host_id (conf a)))"
    unfolding p1(2)[symmetric] by (rule awaits_packet)
  from stores_host[OF assms(2) ids(1) assms(4) q(1) a1(1) ids(2) assms(5) q(3), of fuel t] a1(2) p1(1) q(2)
  show ?thesis by blast
qed

text \<open>A daemon with the host name \<open>foo\<close>.\<close>

definition main_named :: MAIN where
  "main_named = (main_with 1 [node_of (replicate 20 6)] (store_init 4096))\<lparr>conf := \<lparr>conf_node_id = replicate 20 1,
     conf_host_id = replicate 20 2, conf_hostname = Some [102, 111, 111]\<rparr>\<rparr>"

theorem announcement_stored_witness:
  "\<exists>a1 q b1. p2p_announce_myself main_named = Inr a1 \<and> (no_addr, q) \<in> set (e_sent (env a1)) \<and>
    handle 0 (Datagram q no_addr 100) (main_with 6 [] (store_init 4096)) = Inr b1 \<and>
    hosts b1 (replicate 20 2) = Some \<lparr>d_host_id = replicate 20 2, d_addr = no_addr, d_time_anno = 1000\<rparr>"
proof -
  have ids: "is_id (replicate 20 i)" for i by (simp add: is_id_def SHA_DIGEST_LENGTH_def)
  have db0: "db_ok (store_init 4096)" using st_init[of 4096] by (auto simp: db_ok_def store_init_def)
  have "node_ok (node_of (replicate 20 6))"
    by (simp add: node_ok_def node_of_def no_addr_def addr_ok_def is_id_def SHA_DIGEST_LENGTH_def)
  then have a0: "main_inv True (main_with 1 [node_of (replicate 20 6)] (store_init 4096))"
    and b: "main_inv True (main_with 6 [] (store_init 4096))" by (simp_all add: main_with_inv db0)
  have self: "self_id main_named = self_id (main_with 1 [node_of (replicate 20 6)] (store_init 4096))"
    by (simp add: main_named_def main_with_facts)
  have a: "main_inv True main_named"
    using a0 ids[of 2] ids[of 1] unfolding main_inv_def self
    by (simp add: main_named_def conf_ok_def cache_ok_def)
  have facts: "nbhd main_named = nbhd (main_with 1 [node_of (replicate 20 6)] (store_init 4096))" "sockfd main_named = 3"
    "conf_hostname (conf main_named) \<noteq> None" "conf_host_id (conf main_named) = replicate 20 2"
    by (simp_all add: main_named_def main_with_facts)
  show ?thesis
    using announcement_stored[OF a b, of no_addr 0 "node_of (replicate 20 6)" 0 100] ids
    by (simp add: facts self main_with_facts node_of_def addr_ok_def) (auto simp: no_addr_def)
qed

end
