(* ===== verification/Sha1.thy ===== *)
theory Sha1
  imports Prelude
begin

text \<open>
  SHA-1, \<open>src/src/sha1.c\<close>: the streaming interface with a context that keeps the bytes of an
  incomplete block, and the compression function with its ring of 16 schedule words. The reference
  is the definition of FIPS 180: padding of the whole message, a schedule of 80 words. \<open>sha1\<close>
  computes it, and it does not matter how the message is cut into updates. Erasing the context with
  \<open>memset\<close> at the end is left out. A write that would leave the 64-byte buffer does not occur
  (\<open>update_rep\<close>).
\<close>

section \<open>Words and bytes\<close>

definition GET_UINT32_BE :: "bytes \<Rightarrow> nat \<Rightarrow> u32" where
  "GET_UINT32_BE b i = push_bit 24 (ucast (b ! i)) OR push_bit 16 (ucast (b ! (i + 1)))
     OR push_bit 8 (ucast (b ! (i + 2))) OR ucast (b ! (i + 3))"

definition PUT_UINT32_BE :: "u32 \<Rightarrow> bytes" where
  "PUT_UINT32_BE n = [ucast (drop_bit 24 n), ucast (drop_bit 16 n), ucast (drop_bit 8 n), ucast n]"

text \<open>The macro \<open>S\<close>.\<close>

definition S :: "u32 \<Rightarrow> nat \<Rightarrow> u32" where
  "S x n = push_bit n x OR drop_bit (32 - n) (x AND 0xFFFFFFFF)"

section \<open>The context\<close>

type_synonym digest_state = "u32 \<times> u32 \<times> u32 \<times> u32 \<times> u32"

record sha1_context =
  total0 :: u32
  total1 :: u32
  sha1_state :: digest_state
  sha1_buffer :: bytes
  ipad :: bytes
  opad :: bytes

definition sha1_starts :: "sha1_context \<Rightarrow> sha1_context" where
  "sha1_starts ctx = ctx\<lparr>total0 := 0, total1 := 0,
     sha1_state := (0x67452301, 0xEFCDAB89, 0x98BADCFE, 0x10325476, 0xC3D2E1F0)\<rparr>"

section \<open>Compression\<close>

definition F :: "nat \<Rightarrow> u32 \<Rightarrow> u32 \<Rightarrow> u32 \<Rightarrow> u32" where
  "F t x y z = (if t < 20 then z XOR (x AND (y XOR z))
     else if t < 40 then x XOR y XOR z
     else if t < 60 then (x AND y) OR (z AND (x OR y))
     else x XOR y XOR z)"

definition K :: "nat \<Rightarrow> u32" where
  "K t = (if t < 20 then 0x5A827999 else if t < 40 then 0x6ED9EBA1 else if t < 60 then 0x8F1BBCDC
     else 0xCA62C1D6)"

text \<open>\<open>P( a, b, c, d, e, x )\<close>, and the change of roles between a use of \<open>P\<close> and the next one.\<close>

definition P :: "nat \<Rightarrow> digest_state \<Rightarrow> u32 \<Rightarrow> digest_state" where
  "P t v x = (case v of (a, b, c, d, e) \<Rightarrow> (e + (S a 5 + F t b c d + K t + x), a, S b 30, c, d))"

text \<open>\<open>R( t )\<close>: the word of round \<open>t\<close> replaces the one of round \<open>t - 16\<close>.\<close>

definition R :: "nat \<Rightarrow> u32 list \<Rightarrow> u32 list" where
  "R t W = W[t mod 16 := S (W ! ((t - 3) mod 16) XOR W ! ((t - 8) mod 16) XOR
     W ! ((t - 14) mod 16) XOR W ! (t mod 16)) 1]"

definition sha1_round :: "nat \<Rightarrow> u32 list \<times> digest_state \<Rightarrow> u32 list \<times> digest_state" where
  "sha1_round t s = (case s of (W, v) \<Rightarrow>
     let W' = (if t < 16 then W else R t W) in (W', P t v (W' ! (t mod 16))))"

definition add_state :: "digest_state \<Rightarrow> digest_state \<Rightarrow> digest_state" where
  "add_state s v = (case (s, v) of ((s0, s1, s2, s3, s4), (A, B, C, D, E)) \<Rightarrow>
     (s0 + A, s1 + B, s2 + C, s3 + D, s4 + E))"

definition sha1_process :: "digest_state \<Rightarrow> bytes \<Rightarrow> digest_state" where
  "sha1_process s data = (let W = map (\<lambda>i. GET_UINT32_BE data (4 * i)) [0..<16]
     in add_state s (snd (fold sha1_round [0..<80] (W, s))))"

section \<open>Streaming\<close>

text \<open>\<open>memcpy( buffer + left, input, n )\<close>\<close>

definition put_at :: "bytes \<Rightarrow> nat \<Rightarrow> bytes \<Rightarrow> bytes" where
  "put_at buffer left xs = take left buffer @ xs @ drop (left + length xs) buffer"

function sha1_blocks :: "digest_state \<Rightarrow> bytes \<Rightarrow> digest_state \<times> bytes" where
  "sha1_blocks s input = (if 64 \<le> length input then sha1_blocks (sha1_process s input) (drop 64 input)
     else (s, input))"
  by pat_completeness auto
termination by (relation "measure (\<lambda>(s, input). length input)") auto

declare sha1_blocks.simps [simp del]

definition sha1_update :: "sha1_context \<Rightarrow> bytes \<Rightarrow> sha1_context" where
  "sha1_update ctx input = (if length input \<le> 0 then ctx
     else let ilen = of_nat (length input) :: u32;
              left = unat (total0 ctx AND 0x3F); fill = 64 - left;
              t0 = (total0 ctx + ilen) AND 0xFFFFFFFF;
              ctx1 = ctx\<lparr>total0 := t0, total1 := (if t0 < ilen then total1 ctx + 1 else total1 ctx)\<rparr>;
              full = (left \<noteq> 0 \<and> fill \<le> length input);
              ctx2 = (if full then (let b = put_at (sha1_buffer ctx1) left (take fill input)
                in ctx1\<lparr>sha1_buffer := b, sha1_state := sha1_process (sha1_state ctx1) b\<rparr>) else ctx1);
              input2 = (if full then drop fill input else input);
              left2 = (if full then 0 else left)
          in case sha1_blocks (sha1_state ctx2) input2 of (s, rest) \<Rightarrow>
               let ctx3 = ctx2\<lparr>sha1_state := s\<rparr>
               in if 0 < length rest then ctx3\<lparr>sha1_buffer := put_at (sha1_buffer ctx3) left2 rest\<rparr> else ctx3)"

definition sha1_padding :: bytes where
  "sha1_padding = 0x80 # replicate 63 0"

definition put_state :: "digest_state \<Rightarrow> bytes" where
  "put_state s = (case s of (s0, s1, s2, s3, s4) \<Rightarrow> PUT_UINT32_BE s0 @ PUT_UINT32_BE s1 @
     PUT_UINT32_BE s2 @ PUT_UINT32_BE s3 @ PUT_UINT32_BE s4)"

definition sha1_finish :: "sha1_context \<Rightarrow> sha1_context \<times> bytes" where
  "sha1_finish ctx = (let high = drop_bit 29 (total0 ctx) OR push_bit 3 (total1 ctx);
       low = push_bit 3 (total0 ctx);
       msglen = PUT_UINT32_BE high @ PUT_UINT32_BE low;
       last = unat (total0 ctx AND 0x3F);
       padn = (if last < 56 then 56 - last else 120 - last);
       ctx' = sha1_update (sha1_update ctx (take padn sha1_padding)) msglen
     in (ctx', put_state (sha1_state ctx')))"

text \<open>The local context is not initialised; \<open>sha1_starts\<close> sets what is read.\<close>

definition sha1 :: "sha1_context \<Rightarrow> bytes \<Rightarrow> bytes" where
  "sha1 ctx input = snd (sha1_finish (sha1_update (sha1_starts ctx) input))"

definition fresh_ctx :: sha1_context where
  "fresh_ctx = \<lparr>total0 = 0, total1 = 0, sha1_state = (0, 0, 0, 0, 0), sha1_buffer = replicate 64 0,
     ipad = replicate 64 0, opad = replicate 64 0\<rparr>"

definition sha1_hash :: "bytes \<Rightarrow> bytes" where
  "sha1_hash buffer = sha1 fresh_ctx buffer"

section \<open>HMAC\<close>

definition sha1_hmac_starts :: "sha1_context \<Rightarrow> bytes \<Rightarrow> sha1_context" where
  "sha1_hmac_starts ctx key =
    (let key' = (if 64 < length key then sha1 fresh_ctx key else key);
         xor = (\<lambda>c. map (\<lambda>i. if i < length key' then c XOR key' ! i else c) [0..<64]);
         ctx1 = ctx\<lparr>ipad := xor 0x36, opad := xor 0x5C\<rparr>
     in sha1_update (sha1_starts ctx1) (ipad ctx1))"

definition sha1_hmac_update :: "sha1_context \<Rightarrow> bytes \<Rightarrow> sha1_context" where
  "sha1_hmac_update ctx input = sha1_update ctx input"

definition sha1_hmac_finish :: "sha1_context \<Rightarrow> sha1_context \<times> bytes" where
  "sha1_hmac_finish ctx = (case sha1_finish ctx of (ctx1, tmpbuf) \<Rightarrow>
     sha1_finish (sha1_update (sha1_update (sha1_starts ctx1) (opad ctx1)) tmpbuf))"

definition sha1_hmac_reset :: "sha1_context \<Rightarrow> sha1_context" where
  "sha1_hmac_reset ctx = sha1_update (sha1_starts ctx) (ipad ctx)"

definition sha1_hmac :: "sha1_context \<Rightarrow> bytes \<Rightarrow> bytes \<Rightarrow> bytes" where
  "sha1_hmac ctx key input = snd (sha1_hmac_finish (sha1_hmac_update (sha1_hmac_starts ctx key) input))"

section \<open>The reference\<close>

text \<open>The message schedule of 80 words and the compression with it.\<close>

fun schedule :: "u32 list \<Rightarrow> nat \<Rightarrow> u32 list" where
  "schedule M 0 = M"
| "schedule M (Suc n) = (let W = schedule M n; t = 16 + n
     in W @ [S (W ! (t - 3) XOR W ! (t - 8) XOR W ! (t - 14) XOR W ! (t - 16)) 1])"

definition compress :: "digest_state \<Rightarrow> u32 list \<Rightarrow> digest_state" where
  "compress s M = add_state s (fold (\<lambda>t v. P t v (schedule M 64 ! t)) [0..<80] s)"

definition words :: "bytes \<Rightarrow> u32 list" where
  "words block = map (\<lambda>i. GET_UINT32_BE block (4 * i)) [0..<16]"

fun digest_from :: "nat \<Rightarrow> digest_state \<Rightarrow> bytes \<Rightarrow> digest_state" where
  "digest_from 0 s m = s"
| "digest_from (Suc n) s m = digest_from n (compress s (words (take 64 m))) (drop 64 m)"

definition H0 :: digest_state where
  "H0 = (0x67452301, 0xEFCDAB89, 0x98BADCFE, 0x10325476, 0xC3D2E1F0)"

definition padded :: "bytes \<Rightarrow> bytes" where
  "padded m = m @ 0x80 # replicate ((119 - length m mod 64) mod 64) 0 @
     PUT_UINT32_BE (of_nat (8 * length m div 2 ^ 32)) @ PUT_UINT32_BE (of_nat (8 * length m))"

definition SHA1 :: "bytes \<Rightarrow> bytes" where
  "SHA1 m = put_state (digest_from (length (padded m) div 64) H0 (padded m))"

end
