(* ===== verification/Sha1Correct.thy ===== *)
theory Sha1Correct
  imports Sha1
begin

text \<open>
  The streaming implementation of SHA-1 computes the digest of FIPS 180: the ring of 16 words holds
  the last 16 words of the schedule, and the context after any updates represents the message so
  far (\<open>rep\<close>).
\<close>

section \<open>The schedule\<close>

lemma length_schedule [simp]: "length (schedule M n) = length M + n"
  by (induction n) (simp_all add: Let_def)

lemma schedule_prefix:
  "i < length M + n \<Longrightarrow> n \<le> m \<Longrightarrow> schedule M m ! i = schedule M n ! i"
proof (induction m)
  case (Suc m)
  then show ?case by (cases "n = Suc m") (auto simp: Let_def nth_append)
qed simp

lemma schedule_first: "i < length M \<Longrightarrow> schedule M n ! i = M ! i"
  using schedule_prefix[of i M 0 n] by simp

lemma schedule_step:
  assumes "length M = 16" "16 \<le> t" "t < 80"
  shows "schedule M 64 ! t = S (schedule M 64 ! (t - 3) XOR schedule M 64 ! (t - 8) XOR
    schedule M 64 ! (t - 14) XOR schedule M 64 ! (t - 16)) 1"
proof -
  define n where "n = t - 16"
  have t: "t = 16 + n" "n < 64" using assms by (simp_all add: n_def)
  have old: "schedule M 64 ! i = schedule M n ! i" if "i < 16 + n" for i
    using schedule_prefix[of i M n 64] that assms(1) t(2) by simp
  have "schedule M 64 ! t = schedule M (Suc n) ! t"
    using schedule_prefix[of t M "Suc n" 64] assms(1) t by simp
  also have "\<dots> = S (schedule M n ! (t - 3) XOR schedule M n ! (t - 8) XOR schedule M n ! (t - 14) XOR
      schedule M n ! (t - 16)) 1"
    using assms(1) t(1) by (simp add: Let_def nth_append)
  finally show ?thesis using old t by simp
qed

text \<open>The ring before round \<open>t\<close>: the 16 words before \<open>t\<close>, or the block.\<close>

definition ring :: "u32 list \<Rightarrow> nat \<Rightarrow> u32 list \<Rightarrow> bool" where
  "ring M t W \<longleftrightarrow> length W = 16 \<and>
     (\<forall>i. i < max 16 t \<longrightarrow> max 16 t \<le> i + 16 \<longrightarrow> W ! (i mod 16) = schedule M 64 ! i)"

lemma ring_start: "length M = 16 \<Longrightarrow> ring M 0 M"
  by (simp add: ring_def schedule_first)

lemma ring_R:
  assumes "length M = 16" "ring M t W" "16 \<le> t" "t < 80"
  shows "ring M (Suc t) (R t W)" "R t W ! (t mod 16) = schedule M 64 ! t"
proof -
  have len: "length W = 16" and win: "\<And>i. i < t \<Longrightarrow> t \<le> i + 16 \<Longrightarrow> W ! (i mod 16) = schedule M 64 ! i"
    using assms(2,3) by (simp_all add: ring_def max_def split: if_splits)
  have "t mod 16 = (t - 16) mod 16" using assms(3) by (simp add: le_mod_geq)
  then have "W ! (t mod 16) = schedule M 64 ! (t - 16)" using win[of "t - 16"] assms(3) by simp
  then have new: "S (W ! ((t - 3) mod 16) XOR W ! ((t - 8) mod 16) XOR W ! ((t - 14) mod 16) XOR W ! (t mod 16)) 1
      = schedule M 64 ! t"
    using schedule_step[OF assms(1,3,4)] win[of "t - 3"] win[of "t - 8"] win[of "t - 14"] assms(3) by simp
  then show at: "R t W ! (t mod 16) = schedule M 64 ! t" using len by (simp add: R_def)
  have "R t W ! (i mod 16) = schedule M 64 ! i" if "i < Suc t" "Suc t \<le> i + 16" for i
  proof (cases "i = t")
    case False
    then have "i < t" using that by simp
    have "i mod 16 \<noteq> t mod 16"
    proof
      assume "i mod 16 = t mod 16"
      then have "16 dvd t - i" using mod_eq_dvd_iff_nat[of i t 16] \<open>i < t\<close> by simp
      then have "16 \<le> t - i" using \<open>i < t\<close> by (intro dvd_imp_le) simp_all
      with that show False by simp
    qed
    then show ?thesis using win[of i] \<open>i < t\<close> that by (simp add: R_def)
  qed (use at in simp)
  then show "ring M (Suc t) (R t W)" using len assms(3) by (simp add: ring_def R_def)
qed

lemma sha1_round_pair:
  "sha1_round t (W, v) = (if t < 16 then W else R t W, P t v ((if t < 16 then W else R t W) ! (t mod 16)))"
  by (simp add: sha1_round_def Let_def)

lemma rounds_reference:
  assumes "length M = 16"
  shows "t \<le> 80 \<Longrightarrow> ring M t (fst (fold sha1_round [0..<t] (M, s))) \<and>
    snd (fold sha1_round [0..<t] (M, s)) = fold (\<lambda>t v. P t v (schedule M 64 ! t)) [0..<t] s"
proof (induction t)
  case 0
  then show ?case using ring_start[OF assms] by simp
next
  case (Suc t)
  obtain W v where wv: "fold sha1_round [0..<t] (M, s) = (W, v)" by (meson surj_pair)
  with Suc have r: "ring M t W" and v: "v = fold (\<lambda>t v. P t v (schedule M 64 ! t)) [0..<t] s" by simp_all
  show ?case
  proof (cases "t < 16")
    case True
    then have "W ! (t mod 16) = schedule M 64 ! t" using r by (simp add: ring_def)
    moreover have "ring M (Suc t) W" using r True by (simp add: ring_def)
    ultimately show ?thesis using True wv v by (simp add: sha1_round_pair)
  next
    case False
    with ring_R[OF assms r] Suc.prems wv v show ?thesis by (simp add: sha1_round_pair)
  qed
qed

lemma process_compress: "sha1_process s block = compress s (words block)"
  using rounds_reference[of "words block" 80 s]
  by (simp add: sha1_process_def compress_def words_def)

section \<open>Blocks\<close>

lemma digest_from_add: "digest_from (a + b) s m = digest_from b (digest_from a s m) (drop (64 * a) m)"
  by (induction a arbitrary: s m) (simp_all add: add.commute)

lemma words_cong: "take 64 a = take 64 b \<Longrightarrow> length (take 64 a) = 64 \<Longrightarrow> words (take 64 a) = words (take 64 b)"
  by simp

lemma digest_from_prefix: "64 * n \<le> length m \<Longrightarrow> digest_from n s (m @ x) = digest_from n s m"
  by (induction n arbitrary: s m) simp_all

lemma blocks_digest:
  "sha1_blocks s m = (digest_from (length m div 64) s m, drop (64 * (length m div 64)) m)"
proof (induction s m rule: sha1_blocks.induct)
  case (1 s m)
  show ?case
  proof (cases "64 \<le> length m")
    case True
    then have n: "length m div 64 = Suc ((length m - 64) div 64)" by (simp add: le_div_geq)
    have "words m = words (take 64 m)" by (simp add: words_def GET_UINT32_BE_def)
    with 1[OF True] True show ?thesis
      by (subst sha1_blocks.simps) (simp add: n process_compress add.commute)
  qed (subst sha1_blocks.simps, simp)
qed

section \<open>What a context represents\<close>

definition rep :: "sha1_context \<Rightarrow> bytes \<Rightarrow> bool" where
  "rep ctx m \<longleftrightarrow> total0 ctx = of_nat (length m) \<and> total1 ctx = of_nat (length m div 2 ^ 32) \<and>
     sha1_state ctx = digest_from (length m div 64) H0 m \<and> length (sha1_buffer ctx) = 64 \<and>
     take (length m mod 64) (sha1_buffer ctx) = drop (64 * (length m div 64)) m"

lemma rep_start: "length (sha1_buffer ctx) = 64 \<Longrightarrow> rep (sha1_starts ctx) []"
  by (simp add: rep_def sha1_starts_def H0_def)

lemma and_3F: "unat ((of_nat n :: u32) AND 0x3F) = n mod 64"
proof -
  have "(0x3F :: u32) = mask 6" by (simp add: mask_eq_exp_minus_1)
  then have "(of_nat n :: u32) AND 0x3F = take_bit 6 (of_nat n)" by (simp only: take_bit_eq_mask)
  then have "unat ((of_nat n :: u32) AND 0x3F) = take_bit 6 (take_bit 32 n)"
    by (simp add: unsigned_take_bit_eq unsigned_of_nat)
  then show ?thesis using mod_mod_cancel[of 64 "2 ^ 32" n] by (simp add: take_bit_eq_mod)
qed

lemma and_all: "(x :: u32) AND 0xFFFFFFFF = x"
proof -
  have "(0xFFFFFFFF :: u32) = mask 32" by (simp add: mask_eq_exp_minus_1)
  then have "x AND 0xFFFFFFFF = take_bit 32 x" by (simp only: take_bit_eq_mask)
  moreover have "take_bit 32 x = x" by (rule bit_word_eqI) (simp add: bit_simps)
  ultimately show ?thesis by simp
qed

lemma carry:
  assumes "b < 2 ^ 32"
  shows "((of_nat (a + b) :: u32) < of_nat b) \<longleftrightarrow> (a + b) div 2 ^ 32 \<noteq> a div 2 ^ 32"
    and "(a + b) div 2 ^ 32 \<noteq> a div 2 ^ 32 \<Longrightarrow> (a + b) div 2 ^ 32 = a div 2 ^ 32 + 1"
proof -
  have u: "unat (of_nat n :: u32) = n mod 2 ^ 32" for n by (simp add: unsigned_of_nat take_bit_eq_mod)
  define q where "q = a div 2 ^ 32"
  define r where "r = a mod 2 ^ 32"
  have a: "a = q * 2 ^ 32 + r" "r < 2 ^ 32" by (simp_all add: q_def r_def)
  have d: "(a + b) div 2 ^ 32 = q + (r + b) div 2 ^ 32" "(a + b) mod 2 ^ 32 = (r + b) mod 2 ^ 32"
    unfolding a(1) by (simp_all add: add.assoc)
  have rb: "(r + b) div 2 ^ 32 = (if r + b < 2 ^ 32 then 0 else 1)" "(r + b) mod 2 ^ 32 = (if r + b < 2 ^ 32 then r + b else r + b - 2 ^ 32)"
    using a(2) assms by (auto simp: not_less le_div_geq le_mod_geq)
  show "((of_nat (a + b) :: u32) < of_nat b) \<longleftrightarrow> (a + b) div 2 ^ 32 \<noteq> a div 2 ^ 32"
    unfolding word_less_nat_alt u d rb q_def[symmetric] using a(2) assms by auto
  show "(a + b) div 2 ^ 32 \<noteq> a div 2 ^ 32 \<Longrightarrow> (a + b) div 2 ^ 32 = a div 2 ^ 32 + 1"
    unfolding d rb q_def[symmetric] by (auto split: if_splits)
qed

lemma put_at_take:
  "length b = 64 \<Longrightarrow> left + length xs \<le> 64 \<Longrightarrow>
    length (put_at b left xs) = 64 \<and> take (left + length xs) (put_at b left xs) = take left b @ xs"
  by (simp add: put_at_def)

lemma blocks_rep:
  assumes "length p = 64 * q" "s = digest_from q H0 p"
  shows "sha1_blocks s y = (digest_from (length (p @ y) div 64) H0 (p @ y), drop (64 * (length (p @ y) div 64)) (p @ y))"
proof -
  have n: "length (p @ y) div 64 = q + length y div 64" using assms(1) by simp
  have "digest_from q H0 (p @ y) = s" using digest_from_prefix[of q p] assms by simp
  moreover have "drop (64 * q) (p @ y) = y" using assms(1) by simp
  ultimately show ?thesis
    unfolding blocks_digest n digest_from_add using assms(1) by simp
qed

text \<open>What \<open>sha1_update\<close> does to the length, the state and the buffer.\<close>

definition count :: "sha1_context \<Rightarrow> nat \<Rightarrow> sha1_context" where
  "count ctx n = (let t0 = total0 ctx + of_nat n in ctx\<lparr>total0 := t0,
     total1 := (if t0 < of_nat n then total1 ctx + 1 else total1 ctx)\<rparr>)"

lemma update_cases:
  assumes "x \<noteq> []" "rep ctx m"
  shows "sha1_update ctx x = (let l = length m mod 64; b = sha1_buffer ctx; s = sha1_state ctx in
    if l \<noteq> 0 \<and> 64 - l \<le> length x
    then let b1 = put_at b l (take (64 - l) x) in
      (case sha1_blocks (sha1_process s b1) (drop (64 - l) x) of (s', rest) \<Rightarrow>
        (count ctx (length x))\<lparr>sha1_state := s', sha1_buffer := (if rest = [] then b1 else put_at b1 0 rest)\<rparr>)
    else (case sha1_blocks s x of (s', rest) \<Rightarrow>
        (count ctx (length x))\<lparr>sha1_state := s', sha1_buffer := (if rest = [] then b else put_at b l rest)\<rparr>))"
proof -
  have l: "unat (total0 ctx AND 0x3F) = length m mod 64" using assms(2) by (simp add: rep_def and_3F del: and_numerals)
  have x: "\<not> length x \<le> 0" using assms(1) by simp
  show ?thesis
  proof (cases "length m mod 64 \<noteq> 0 \<and> 64 - length m mod 64 \<le> length x")
    case True
    show ?thesis
      unfolding sha1_update_def Let_def l if_P[OF True] if_not_P[OF x] and_all
      by (cases "sha1_blocks (sha1_process (sha1_state ctx) (put_at (sha1_buffer ctx) (length m mod 64)
          (take (64 - length m mod 64) x))) (drop (64 - length m mod 64) x)")
        (simp add: count_def Let_def)
  next
    case False
    show ?thesis
      unfolding sha1_update_def Let_def l if_not_P[OF False] if_not_P[OF x] and_all
      by (cases "sha1_blocks (sha1_state ctx) x") (simp add: count_def Let_def)
  qed
qed

lemma count_rep:
  assumes "rep ctx m" "length x < 2 ^ 32"
  shows "total0 (count ctx (length x)) = of_nat (length (m @ x)) \<and>
    total1 (count ctx (length x)) = of_nat (length (m @ x) div 2 ^ 32)"
proof -
  have t: "total0 ctx + of_nat (length x) = of_nat (length m + length x)" using assms(1) by (simp add: rep_def)
  show ?thesis
    unfolding count_def Let_def t using carry[OF assms(2), of "length m"] assms(1)
    by (auto simp: rep_def simp del: of_nat_add)
qed

lemma block_rest: "n = 64 * k + r \<Longrightarrow> r + y < 64 \<Longrightarrow> (n + y) div 64 = k \<and> (n + y) mod 64 = r + y" for k r n y :: nat
  by (simp add: add.assoc)

lemma length_rest: "length (drop (64 * (length z div 64)) z) = length z mod 64"
  by (simp add: minus_mult_div_eq_mod)

lemma fill_block: "l < 64 \<Longrightarrow> n = 64 * k + l \<Longrightarrow> n + (64 - l) = 64 * Suc k" for k l n :: nat
  by simp

lemma update_rep:
  assumes rep: "rep ctx m" and x: "length x < 2 ^ 32"
  shows "rep (sha1_update ctx x) (m @ x)"
proof (cases "x = []")
  case False
  let ?l = "length m mod 64" and ?k = "length m div 64" and ?b = "sha1_buffer ctx"
  have st: "sha1_state ctx = digest_from ?k H0 m" and b: "length ?b = 64" "take ?l ?b = drop (64 * ?k) m"
    using rep by (simp_all add: rep_def)
  have n: "length m = 64 * ?k + ?l" by simp
  note tot = count_rep[OF rep x]
  show ?thesis
  proof (cases "?l \<noteq> 0 \<and> 64 - ?l \<le> length x")
    case True
    let ?x1 = "take (64 - ?l) x" and ?y = "drop (64 - ?l) x"
    let ?p = "m @ ?x1" and ?b1 = "put_at ?b ?l ?x1"
    have len: "length ?x1 = 64 - ?l" "?l < 64" using True by simp_all
    then have b1: "?b1 = drop (64 * ?k) m @ ?x1" "length ?b1 = 64"
      using b put_at_take[OF b(1), of ?l ?x1] by (simp_all add: put_at_def)
    have p: "length ?p = 64 * Suc ?k" unfolding length_append len(1) by (rule fill_block[OF len(2) n])
    have "drop (64 * ?k) ?p = ?b1" using b1(1) n by simp
    then have "digest_from (Suc ?k) H0 ?p = compress (digest_from ?k H0 m) (words ?b1)"
      using digest_from_add[of ?k 1 H0 ?p] digest_from_prefix[of ?k m H0 ?x1] n b1(2) by simp
    then have s: "sha1_process (sha1_state ctx) ?b1 = digest_from (Suc ?k) H0 ?p"
      using st by (simp add: process_compress)
    have mx: "?p @ ?y = m @ x" by simp
    define rest where "rest = drop (64 * (length (m @ x) div 64)) (m @ x)"
    have blocks: "sha1_blocks (sha1_process (sha1_state ctx) ?b1) ?y
        = (digest_from (length (m @ x) div 64) H0 (m @ x), rest)"
      using blocks_rep[OF p s, of ?y] unfolding mx rest_def .
    have "length rest = length (m @ x) mod 64" unfolding rest_def by (rule length_rest)
    then have r: "take (length (m @ x) mod 64) (if rest = [] then ?b1 else put_at ?b1 0 rest) = rest"
      "length (if rest = [] then ?b1 else put_at ?b1 0 rest) = 64"
      using put_at_take[OF b1(2), of 0 rest] b1(2) by auto
    show ?thesis
      using True blocks tot r unfolding update_cases[OF False rep] Let_def rep_def rest_def[symmetric]
      by (simp add: rest_def[symmetric] del: length_append)
  next
    case small: False
    show ?thesis
    proof (cases "?l = 0")
      case True
      define rest where "rest = drop (64 * (length (m @ x) div 64)) (m @ x)"
      have "length m = 64 * ?k" using True n by simp
      from blocks_rep[OF this st, of x]
      have blocks: "sha1_blocks (sha1_state ctx) x = (digest_from (length (m @ x) div 64) H0 (m @ x), rest)"
        unfolding rest_def .
      have "length rest = length (m @ x) mod 64" unfolding rest_def by (rule length_rest)
      then have r: "take (length (m @ x) mod 64) (if rest = [] then ?b else put_at ?b 0 rest) = rest"
        "length (if rest = [] then ?b else put_at ?b 0 rest) = 64"
        using put_at_take[OF b(1), of 0 rest] b(1) by auto
      show ?thesis
        using True blocks tot r unfolding update_cases[OF False rep] Let_def rep_def rest_def[symmetric]
        by (cases "rest = []") (simp_all add: rest_def[symmetric] del: length_append)
    next
      case l: False
      with small have sx: "?l + length x < 64" by simp
      have d: "length (m @ x) div 64 = ?k" "length (m @ x) mod 64 = ?l + length x"
        using block_rest[OF n sx] by simp_all
      have blocks: "sha1_blocks (sha1_state ctx) x = (sha1_state ctx, x)"
        using sx by (subst sha1_blocks.simps) simp
      have "64 * ?k \<le> length m" using n by simp
      then have dr: "drop (64 * ?k) (m @ x) = drop (64 * ?k) m @ x" "digest_from ?k H0 (m @ x) = digest_from ?k H0 m"
        using digest_from_prefix by simp_all
      have "sha1_update ctx x = (count ctx (length x))\<lparr>sha1_state := sha1_state ctx, sha1_buffer := put_at ?b ?l x\<rparr>"
        unfolding update_cases[OF False rep] Let_def if_not_P[OF small] blocks using False by simp
      then show ?thesis
        using tot put_at_take[OF b(1), of ?l x] sx st b(2) dr by (simp add: rep_def d del: length_append)
    qed
  qed
qed (simp add: sha1_update_def rep)

section \<open>Padding\<close>

lemma length_PUT [simp]: "length (PUT_UINT32_BE w) = 4"
  by (simp add: PUT_UINT32_BE_def)

lemma high_word: "drop_bit 29 (of_nat n :: u32) OR push_bit 3 (of_nat (n div 2 ^ 32)) = of_nat (8 * n div 2 ^ 32)"
proof -
  have e: "8 * n div 2 ^ 32 = drop_bit 29 n"
  proof -
    have "8 * n div (8 * 2 ^ 29) = n div 2 ^ 29" by (rule div_mult_mult1) simp
    then show ?thesis by (simp add: drop_bit_eq_div)
  qed
  have d: "n div 2 ^ 32 = drop_bit 32 n" by (simp only: drop_bit_eq_div)
  show ?thesis unfolding e d by (rule bit_word_eqI) (auto simp: bit_simps)
qed

lemma low_word: "push_bit 3 (of_nat n :: u32) = of_nat (8 * n)"
  by (simp add: push_bit_eq_mult mult.commute)

lemma padding_length:
  fixes n :: nat
  defines "l \<equiv> n mod 64"
  shows "(if l < 56 then 56 - l else 120 - l) = Suc ((119 - l) mod 64)"
proof -
  have "l < 64" by (simp add: l_def)
  then show ?thesis by (auto simp: not_less le_mod_geq)
qed

lemma padded_blocks: "64 dvd length (padded m)"
proof -
  define l where "l = length m mod 64"
  have n: "length m = 64 * (length m div 64) + l" and l: "l < 64" by (simp_all add: l_def)
  have "length (padded m) = length m + (Suc ((119 - l) mod 64) + 8)" by (simp add: padded_def l_def)
  also have "\<dots> = 64 * (length m div 64) + (l + (if l < 56 then 56 - l else 120 - l) + 8)"
    unfolding padding_length[of "length m", folded l_def] using n by linarith
  finally have e: "length (padded m) = 64 * (length m div 64) + (l + (if l < 56 then 56 - l else 120 - l) + 8)" .
  have "64 dvd l + (if l < 56 then 56 - l else 120 - l) + 8" using l by auto
  then show ?thesis unfolding e by simp
qed

lemma finish_digest:
  assumes "rep ctx m"
  shows "snd (sha1_finish ctx) = SHA1 m"
proof -
  let ?pad = "0x80 # replicate ((119 - length m mod 64) mod 64) 0 :: bytes"
  let ?len = "PUT_UINT32_BE (of_nat (8 * length m div 2 ^ 32)) @ PUT_UINT32_BE (of_nat (8 * length m))"
  have last: "unat (total0 ctx AND 0x3F) = length m mod 64" using assms by (simp add: rep_def and_3F del: and_numerals)
  have padn: "take (Suc ((119 - length m mod 64) mod 64)) sha1_padding = ?pad"
    by (simp add: sha1_padding_def min_def)
  have len: "PUT_UINT32_BE (drop_bit 29 (total0 ctx) OR push_bit 3 (total1 ctx)) @ PUT_UINT32_BE (push_bit 3 (total0 ctx)) = ?len"
    using assms high_word[of "length m"] low_word[of "length m"] by (simp add: rep_def)
  let ?c = "sha1_update (sha1_update ctx ?pad) ?len"
  have "rep (sha1_update ctx ?pad) (m @ ?pad)"
  proof (rule update_rep[OF assms])
    have "(119 - length m mod 64) mod 64 < 64" by simp
    then have "length ?pad \<le> 64" by simp
    then show "length ?pad < 2 ^ 32" by (rule le_less_trans) simp
  qed
  then have "rep ?c ((m @ ?pad) @ ?len)" by (rule update_rep) simp
  then have "rep ?c (padded m)" by (simp add: padded_def)
  then have "sha1_state ?c = digest_from (length (padded m) div 64) H0 (padded m)" by (simp add: rep_def)
  then show ?thesis
    unfolding sha1_finish_def Let_def last padding_length padn len SHA1_def by simp
qed

section \<open>Properties of SHA-1\<close>

lemma updates_rep:
  "\<forall>x \<in> set chunks. length x < 2 ^ 32 \<Longrightarrow> rep ctx m \<Longrightarrow>
    rep (fold (\<lambda>x ctx. sha1_update ctx x) chunks ctx) (m @ concat chunks)"
proof (induction chunks arbitrary: ctx m)
  case (Cons x chunks)
  with Cons.IH[of "sha1_update ctx x" "m @ x"] update_rep[of ctx m x] show ?case by simp
qed simp

text \<open>C18: The streaming SHA-1 computes the standard digest: however a message is cut into updates of
  less than 2^32 bytes, sha1_starts, the updates and sha1_finish yield the digest that FIPS 180
  defines on the whole message, with its padding and its schedule of 80 words.\<close>
theorem sha1_streaming_correct:
  assumes "\<forall>x \<in> set chunks. length x < 2 ^ 32" "length (sha1_buffer ctx) = 64"
  shows "snd (sha1_finish (fold (\<lambda>x ctx. sha1_update ctx x) chunks (sha1_starts ctx))) = SHA1 (concat chunks)"
  using finish_digest[OF updates_rep[OF assms(1) rep_start[OF assms(2)]]] by simp

theorem sha1_streaming_correct_witness:
  "snd (sha1_finish (sha1_update (sha1_update (sha1_starts fresh_ctx) [97]) [98, 99])) = SHA1 [97, 98, 99]"
  using sha1_streaming_correct[of "[[97], [98, 99]]" fresh_ctx] by (simp add: fresh_ctx_def)

lemma sha1_one: "length m < 2 ^ 32 \<Longrightarrow> length (sha1_buffer ctx) = 64 \<Longrightarrow> sha1 ctx m = SHA1 m"
  using finish_digest[OF update_rep[OF rep_start]] by (simp add: sha1_def)

lemma length_SHA1 [simp]: "length (SHA1 m) = 20"
  by (simp add: SHA1_def put_state_def split: prod.split)

section \<open>HMAC\<close>

lemma update_pads [simp]: "ipad (sha1_update ctx x) = ipad ctx" "opad (sha1_update ctx x) = opad ctx"
  by (simp_all add: sha1_update_def Let_def split: prod.split)

lemma start_pads [simp]: "ipad (sha1_starts ctx) = ipad ctx" "opad (sha1_starts ctx) = opad ctx"
  "sha1_buffer (sha1_starts ctx) = sha1_buffer ctx"
  by (simp_all add: sha1_starts_def)

lemma finish_pads:
  assumes "rep ctx m"
  shows "length (sha1_buffer (fst (sha1_finish ctx))) = 64 \<and> opad (fst (sha1_finish ctx)) = opad ctx"
proof -
  obtain p1 p2 where f: "fst (sha1_finish ctx) = sha1_update (sha1_update ctx p1) p2" "length p1 \<le> 64" "length p2 = 8"
    by (simp add: sha1_finish_def Let_def sha1_padding_def)
  have "rep (sha1_update ctx p1) (m @ p1)" by (rule update_rep[OF assms le_less_trans[OF f(2)]]) simp
  then have "rep (sha1_update (sha1_update ctx p1) p2) ((m @ p1) @ p2)" by (rule update_rep) (simp add: f(3))
  then show ?thesis by (simp add: f(1) rep_def)
qed

definition hmac_key :: "bytes \<Rightarrow> bytes" where
  "hmac_key key = (let k = (if 64 < length key then SHA1 key else key) in k @ replicate (64 - length k) 0)"

definition HMAC :: "bytes \<Rightarrow> bytes \<Rightarrow> bytes" where
  "HMAC key m = SHA1 (map (\<lambda>b. 0x5C XOR b) (hmac_key key) @ SHA1 (map (\<lambda>b. 0x36 XOR b) (hmac_key key) @ m))"

lemma xor_key:
  "length k \<le> 64 \<Longrightarrow> map (\<lambda>i. if i < length k then c XOR k ! i else c) [0..<64]
    = map (\<lambda>b. c XOR b) (k @ replicate (64 - length k) (0 :: u8))"
  by (rule nth_equalityI) (auto simp: nth_append)

text \<open>The HMAC of the standard: sha1_hmac, which keeps the two padded keys in its context and
  streams the message through SHA-1, computes H(K xor opad, H(K xor ipad, message)) with long keys
  hashed first.\<close>
lemma sha1_hmac_correct:
  assumes "length key < 2 ^ 32" "length m < 2 ^ 32" "length (sha1_buffer ctx) = 64"
  shows "sha1_hmac ctx key m = HMAC key m"
proof -
  define k where "k = (if 64 < length key then sha1 fresh_ctx key else key)"
  define x :: "u8 \<Rightarrow> bytes" where "x = (\<lambda>c. map (\<lambda>i. if i < length k then c XOR k ! i else c) [0..<64])"
  have k: "k = (if 64 < length key then SHA1 key else key)"
    using sha1_one[OF assms(1), of fresh_ctx] by (simp add: fresh_ctx_def k_def)
  then have len: "length k \<le> 64" by simp
  have hk: "hmac_key key = k @ replicate (64 - length k) 0" unfolding k by (simp only: hmac_key_def Let_def)
  have xk: "x c = map (\<lambda>b. c XOR b) (hmac_key key)" for c
    unfolding hk x_def by (rule xor_key[OF len])
  have xs: "map (\<lambda>i. if i < length k then c XOR k ! i else c) [0..<64] = x c" for c by (simp only: x_def)
  have lx: "length (x c) = 64" for c by (simp add: x_def)
  let ?c1 = "ctx\<lparr>ipad := x 0x36, opad := x 0x5C\<rparr>"
  have starts: "sha1_hmac_starts ctx key = sha1_update (sha1_starts ?c1) (x 0x36)"
    unfolding sha1_hmac_starts_def Let_def k_def[symmetric] xs by simp
  let ?c2 = "sha1_update (sha1_update (sha1_starts ?c1) (x 0x36)) m"
  have "rep (sha1_starts ?c1) []" by (rule rep_start) (simp add: assms(3))
  then have "rep (sha1_update (sha1_starts ?c1) (x 0x36)) ([] @ x 0x36)" by (rule update_rep) (simp add: lx)
  then have r2: "rep ?c2 (([] @ x 0x36) @ m)" by (rule update_rep[OF _ assms(2)])
  then have inner: "snd (sha1_finish ?c2) = SHA1 (x 0x36 @ m)" using finish_digest by simp
  obtain c3 where c3: "sha1_finish ?c2 = (c3, SHA1 (x 0x36 @ m))" using inner by (metis surjective_pairing)
  have c3': "length (sha1_buffer c3) = 64" "opad c3 = x 0x5C" using finish_pads[OF r2] c3 by simp_all
  then have "rep (sha1_update (sha1_starts c3) (x 0x5C)) ([] @ x 0x5C)"
    by (intro update_rep rep_start) (simp_all add: lx)
  then have "rep (sha1_update (sha1_update (sha1_starts c3) (x 0x5C)) (SHA1 (x 0x36 @ m)))
      (([] @ x 0x5C) @ SHA1 (x 0x36 @ m))" by (rule update_rep) simp
  from finish_digest[OF this] have "snd (sha1_finish (sha1_update (sha1_update (sha1_starts c3) (x 0x5C)) (SHA1 (x 0x36 @ m))))
      = SHA1 (x 0x5C @ SHA1 (x 0x36 @ m))" by simp
  then show ?thesis
    unfolding HMAC_def xk[symmetric] sha1_hmac_def sha1_hmac_finish_def sha1_hmac_update_def starts c3
    by (simp add: c3'(2))
qed

lemma sha1_hmac_correct_example:
  "sha1_hmac fresh_ctx [107] [109] = HMAC [107] [109]"
  by (rule sha1_hmac_correct) (simp_all add: fresh_ctx_def)

end
