(* ===== verification/Str.thy ===== *)
theory Str
  imports Sha1Correct
begin

text \<open>
  String helpers, \<open>src/src/str.c\<close>, the printed form of an identifier (\<open>id_str\<close> of
  \<open>src/src/log.c\<close>), and \<open>p2p_compute_id\<close> of \<open>src/src/p2p.c\<close>, which turns the name of a host into
  the key it is announced and looked up under. A string of C is the list of its bytes without the
  terminating zero; where a function indexes a string, it indexes the list with the zero. \<open>char\<close> is
  signed, as on the platforms the daemon is packaged for: \<open>schar\<close> is the promoted value.
\<close>

definition HEX_LEN :: nat where "HEX_LEN = 2 * SHA_DIGEST_LENGTH"

lemma HEX_LEN_40 [simp]: "HEX_LEN = 40"
  by (simp add: HEX_LEN_def SHA_DIGEST_LENGTH_def)

definition schar :: "u8 \<Rightarrow> int" where "schar c = sint c"

definition between :: "int \<Rightarrow> u8 \<Rightarrow> int \<Rightarrow> bool" where
  "between lo c hi \<longleftrightarrow> schar c \<ge> lo \<and> schar c \<le> hi"

section \<open>Classes of characters\<close>

text \<open>The loop \<open>for( i=0; i<size; i++ )\<close> that returns 0 at the first character outside a class.\<close>

fun every_char :: "(u8 \<Rightarrow> bool) \<Rightarrow> bytes \<Rightarrow> nat \<Rightarrow> nat \<Rightarrow> bool res" where
  "every_char ok mem i 0 = Inr True"
| "every_char ok mem i (Suc left) = bindr (rd mem i) (\<lambda>c.
     if ok c then every_char ok mem (Suc i) left else Inr False)"

definition hex_char :: "u8 \<Rightarrow> bool" where
  "hex_char c \<longleftrightarrow> between 48 c 57 \<or> between 65 c 70 \<or> between 97 c 102"

definition str_isHex :: "bytes \<Rightarrow> nat \<Rightarrow> bool res" where
  "str_isHex string n = every_char hex_char (string @ [0]) 0 n"

definition name_char :: "u8 \<Rightarrow> bool" where
  "name_char c \<longleftrightarrow> between 48 c 57 \<or> between 65 c 90 \<or> between 97 c 122 \<or> c = 45 \<or> c = 95 \<or> c = 46"

definition str_isValidHostname :: "bytes \<Rightarrow> nat \<Rightarrow> bool res" where
  "str_isValidHostname hostname n = every_char name_char (hostname @ [0]) 0 n"

definition str_isValidFilename :: "bytes \<Rightarrow> bool res" where
  "str_isValidFilename string = every_char name_char (string @ [0]) 0 (length string)"

lemma every_char_take:
  "i + n \<le> length mem \<Longrightarrow> every_char ok mem i n = Inr (\<forall>c \<in> set (take n (drop i mem)). ok c)"
proof (induction n arbitrary: i)
  case (Suc n)
  then have "take (Suc n) (drop i mem) = mem ! i # take n (drop (Suc i) mem)"
    by (simp add: Cons_nth_drop_Suc[symmetric])
  with Suc show ?case by simp
qed simp

text \<open>On a string the scan stops at the terminating zero at the latest, whatever size it is given.\<close>

lemma every_char_stops:
  assumes "\<not> ok 0"
  shows "i \<le> length s \<Longrightarrow> every_char ok (s @ [0]) i n
    = Inr (n \<le> length s - i \<and> (\<forall>c \<in> set (take n (drop i s)). ok c))"
proof (induction n arbitrary: i)
  case (Suc n)
  show ?case
  proof (cases "i = length s")
    case True
    then show ?thesis using assms by (simp add: rd_def nth_append)
  next
    case False
    with Suc.prems have "take (Suc n) (drop i s) = s ! i # take n (drop (Suc i) s)"
      by (simp add: Cons_nth_drop_Suc[symmetric])
    moreover have "(s @ [0]) ! i = s ! i" using False Suc.prems by (simp add: nth_append)
    ultimately show ?thesis using Suc.IH[of "Suc i"] Suc.prems False by (auto simp: rd_def)
  qed
qed simp

lemma classes_not_zero [simp]: "\<not> hex_char 0" "\<not> name_char 0"
  by (simp_all add: hex_char_def name_char_def between_def schar_def)

lemma str_isHex_iff: "str_isHex s n = Inr (n \<le> length s \<and> (\<forall>c \<in> set (take n s). hex_char c))"
  unfolding str_isHex_def using every_char_stops[of hex_char 0 s n] by simp

lemma str_isValidHostname_iff:
  "str_isValidHostname s n = Inr (n \<le> length s \<and> (\<forall>c \<in> set (take n s). name_char c))"
  unfolding str_isValidHostname_def using every_char_stops[of name_char 0 s n] by simp

lemma str_isValidFilename_iff: "str_isValidFilename s = Inr (\<forall>c \<in> set s. name_char c)"
  unfolding str_isValidFilename_def using every_char_stops[of name_char 0 s "length s"] by simp

section \<open>Numbers\<close>

fun str_isNumber :: "bytes \<Rightarrow> bool" where
  "str_isNumber [] = True"
| "str_isNumber (c # p) = (if schar c < 48 \<or> schar c > 57 then False else str_isNumber p)"

text \<open>\<open>atoi\<close> of the C library on a string of digits: \<open>strtol\<close>, cut to an \<open>int\<close>.\<close>

definition atoi :: "bytes \<Rightarrow> int" where
  "atoi ds = sint (word_of_int (int (atol ds)) :: 32 word)"

definition CONF_PORTMIN :: int where "CONF_PORTMIN = 1"
definition CONF_PORTMAX :: int where "CONF_PORTMAX = 65535"

definition str_isSafePort :: "bytes \<Rightarrow> int" where
  "str_isSafePort string = (if str_isNumber string then
       (let number = atoi string in if number < CONF_PORTMIN \<or> number > CONF_PORTMAX then - 1 else number)
     else - 1)"

lemma schar_unat: "schar c = (if unat c < 128 then int (unat c) else int (unat c) - 256)"
proof -
  define n where "n = unat c"
  then have u: "uint c = int n" and lt: "n < 256" by simp_all
  have "sint c = signed_take_bit 7 (int n)" by (simp add: sint_uint u)
  also have "\<dots> = (int n + 128) mod 256 - 128"
    unfolding signed_take_bit_eq_take_bit_shift take_bit_eq_mod by simp
  also have "\<dots> = (if n < 128 then int n else int n - 256)"
  proof (cases "n < 128")
    case False
    then have "int n + 128 = int n - 128 + 256 * 1" "0 \<le> int n - 128" "int n - 128 < 256" using lt by linarith+
    then have "(int n + 128) mod 256 = int n - 128" by (metis mod_mult_self2 mod_pos_pos_trivial)
    then show ?thesis using False by simp
  qed simp
  finally show ?thesis by (simp add: schar_def n_def del: of_nat_unat)
qed

lemma is_digit_unat: "is_digit c \<longleftrightarrow> 48 \<le> unat c \<and> unat c \<le> 57"
  by (simp add: is_digit_def word_le_nat_alt)

lemma between_unat: "0 < lo \<Longrightarrow> hi < 128 \<Longrightarrow> between (int lo) c (int hi) \<longleftrightarrow> lo \<le> unat c \<and> unat c \<le> hi"
  unfolding between_def schar_unat using unat_u8_less[of c]
  by (simp del: unat_u8_less of_nat_unat)

lemma is_digit_schar: "is_digit c \<longleftrightarrow> \<not> (schar c < 48 \<or> schar c > 57)"
  using between_unat[of 48 57 c] by (auto simp: is_digit_unat between_def)

lemma str_isNumber_iff: "str_isNumber s \<longleftrightarrow> (\<forall>c \<in> set s. is_digit c)"
  by (induction s) (auto simp: is_digit_schar)

text \<open>A port is accepted exactly when its digits denote a number of the range, as long as the number
  fits an \<open>int\<close>; a larger one is cut to 32 bits first and may be taken for a port.\<close>

lemma atoi_small:
  assumes "digits_val s < 2 ^ 31"
  shows "atoi s = int (digits_val s)"
proof -
  have "atoi s = sint (word_of_int (int (digits_val s)) :: 32 word)"
    using assms by (simp add: atoi_def atol_def LONG_MAX_def min_def)
  also have "\<dots> = int (digits_val s)"
    unfolding sint_sbintrunc' by (rule signed_take_bit_int_eq_self) (use assms in simp_all)
  finally show ?thesis .
qed

lemma str_isSafePort_value:
  assumes "str_isNumber s" "digits_val s < 2 ^ 31"
  shows "str_isSafePort s = (if 1 \<le> digits_val s \<and> digits_val s \<le> 65535 then int (digits_val s) else - 1)"
  using assms by (auto simp: str_isSafePort_def atoi_small Let_def CONF_PORTMIN_def CONF_PORTMAX_def)

lemma str_isSafePort_wraps: "str_isSafePort (dec_digits (2 ^ 32 + 8337)) = 8337"
proof -
  have "atoi (dec_digits (2 ^ 32 + 8337)) = 8337"
    unfolding atoi_def by (subst atol_dec_digits) (simp_all add: LONG_MAX_def)
  then show ?thesis
    by (simp add: str_isSafePort_def str_isNumber_iff dec_digits_all CONF_PORTMIN_def CONF_PORTMAX_def)
qed

section \<open>UTF-8\<close>

text \<open>The number of bytes that must follow a first byte, \<open>None\<close> where the code returns 0.\<close>

definition utf8_tail_length :: "u8 \<Rightarrow> nat option" where
  "utf8_tail_length c = (if schar c < 0x80 then Some 0
     else if schar c AND 0xE0 = 0xC0 then Some 1
     else if schar c AND 0xF0 = 0xE0 then Some 2
     else if schar c AND 0xF8 = 0xF0 then Some 3
     else if schar c AND 0xFC = 0xF8 then Some 4
     else if schar c AND 0xFE = 0xFC then Some 5
     else None)"

text \<open>The inner loop: the position after the continuation bytes.\<close>

fun utf8_tail :: "bytes \<Rightarrow> nat \<Rightarrow> nat \<Rightarrow> nat option" where
  "utf8_tail string i 0 = Some i"
| "utf8_tail string i (Suc n) = (if Suc i = length string \<or> schar (string ! Suc i) AND 0xC0 \<noteq> 0x80 then None
     else utf8_tail string (Suc i) n)"

lemma utf8_tail_grows: "utf8_tail string i n = Some k \<Longrightarrow> i \<le> k"
  by (induction string i n rule: utf8_tail.induct) (auto split: if_splits)

function utf8_loop :: "bytes \<Rightarrow> nat \<Rightarrow> bool" where
  "utf8_loop string i = (if i < length string
     then (case utf8_tail_length (string ! i) of None \<Rightarrow> False
       | Some n \<Rightarrow> (case utf8_tail string i n of None \<Rightarrow> False | Some k \<Rightarrow> utf8_loop string (Suc k)))
     else True)"
  by pat_completeness auto
termination
  by (relation "measure (\<lambda>(string, i). length string - i)") (auto dest!: utf8_tail_grows)

declare utf8_loop.simps [simp del]

definition str_isValidUTF8 :: "bytes \<Rightarrow> bool" where
  "str_isValidUTF8 string = utf8_loop string 0"

text \<open>A \<open>char\<close> is always less than 0x80, so every string passes.\<close>

lemma str_isValidUTF8_all: "str_isValidUTF8 string"
proof -
  have lt: "schar c < 128" for c using unat_u8_less[of c] by (simp add: schar_unat del: unat_u8_less of_nat_unat)
  have "utf8_loop string i" for i
  proof (induction "length string - i" arbitrary: i rule: less_induct)
    case less
    then show ?case by (subst utf8_loop.simps) (auto simp: utf8_tail_length_def lt)
  qed
  then show ?thesis by (simp add: str_isValidUTF8_def)
qed

section \<open>Occurrences of a word\<close>

fun strstr :: "bytes \<Rightarrow> bytes \<Rightarrow> bytes option" where
  "strstr [] needle = (if needle = [] then Some [] else None)"
| "strstr (c # p) needle = (if take (length needle) (c # p) = needle then Some (c # p) else strstr p needle)"

fun count_loop :: "nat \<Rightarrow> bytes \<Rightarrow> bytes \<Rightarrow> nat \<Rightarrow> nat res" where
  "count_loop 0 p search counter = Inl OutOfFuel"
| "count_loop (Suc fuel) p search counter = (case strstr p search of None \<Rightarrow> Inr counter
     | Some q \<Rightarrow> count_loop fuel (drop (length search) q) search (Suc counter))"

definition str_count :: "bytes \<Rightarrow> bytes \<Rightarrow> nat res" where
  "str_count buffer search = count_loop (Suc (length buffer)) buffer search 0"

lemma strstr_suffix: "strstr p s = Some q \<Longrightarrow> length q \<le> length p \<and> length s \<le> length q \<and> take (length s) q = s"
  by (induction p) (auto split: if_splits simp: min_def dest: arg_cong[where f = length])

text \<open>The fuel is enough for every word that is not empty; for the empty one no fuel is enough.\<close>

lemma count_loop_returns:
  "s \<noteq> [] \<Longrightarrow> length p < fuel \<Longrightarrow> \<exists>n. count_loop fuel p s k = Inr n"
proof (induction fuel arbitrary: p k)
  case (Suc fuel)
  show ?case
  proof (cases "strstr p s")
    case (Some q)
    have "length (drop (length s) q) < fuel"
      using strstr_suffix[OF Some] Suc.prems by (cases s) auto
    with Suc Some show ?thesis by simp
  qed simp
qed simp

lemma str_count_returns: "search \<noteq> [] \<Longrightarrow> \<exists>n. str_count buffer search = Inr n"
  unfolding str_count_def by (rule count_loop_returns) simp_all

lemma str_count_empty_hangs: "count_loop fuel p [] k = Inl OutOfFuel"
proof (induction fuel arbitrary: p k)
  case (Suc fuel)
  then show ?case by (cases p) simp_all
qed simp

section \<open>Identifiers in hexadecimal\<close>

text \<open>\<open>printf\<close> with \<open>%02x\<close>.\<close>

definition hex_digit :: "nat \<Rightarrow> u8" where
  "hex_digit n = (if n < 10 then of_nat (48 + n) else of_nat (87 + n))"

definition hex2 :: "u8 \<Rightarrow> bytes" where
  "hex2 b = [hex_digit (unat b div 16), hex_digit (unat b mod 16)]"

fun id_str_loop :: "bytes \<Rightarrow> nat \<Rightarrow> nat \<Rightarrow> bytes res" where
  "id_str_loop mem p0 0 = Inr []"
| "id_str_loop mem p0 (Suc left) = bindr (rd mem p0) (\<lambda>b.
     bindr (id_str_loop mem (Suc p0) left) (\<lambda>buf. Inr (hex2 b @ buf)))"

definition id_str :: "bytes \<Rightarrow> bytes res" where
  "id_str mem = id_str_loop mem 0 SHA_DIGEST_LENGTH"

fun fromHex_loop :: "bytes \<Rightarrow> nat \<Rightarrow> nat \<Rightarrow> int \<Rightarrow> bytes \<Rightarrow> bytes res" where
  "fromHex_loop hex i 0 xv nid = Inr nid"
| "fromHex_loop hex i (Suc left) xv nid = bindr (rd hex i) (\<lambda>c.
     let xv' = (if schar c \<ge> 97 then xv + (schar c - 97) + 10
                else if schar c \<ge> 65 then xv + (schar c - 65) + 10
                else xv + (schar c - 48))
     in if i mod 2 \<noteq> 0
        then (if i div 2 < length nid
              then fromHex_loop hex (Suc i) left 0 (nid[i div 2 := word_of_int xv'])
              else Inl OutOfBounds)
        else fromHex_loop hex (Suc i) left (xv' * 16) nid)"

definition str_fromHex :: "bytes \<Rightarrow> bytes \<Rightarrow> nat \<Rightarrow> bytes res" where
  "str_fromHex nid hex n = fromHex_loop (hex @ [0]) 0 n 0 nid"

text \<open>The key of a host.\<close>

definition p2p_compute_id :: "bytes \<Rightarrow> bytes res" where
  "p2p_compute_id hostname =
    (let hash = Inr (sha1_hash hostname)
     in if HEX_LEN \<le> length hostname
        then bindr (str_isHex hostname HEX_LEN) (\<lambda>b.
          if b then str_fromHex (replicate SHA_DIGEST_LENGTH 0) hostname HEX_LEN else hash)
        else hash)"

text \<open>The bytes a string of hexadecimal digits denotes.\<close>

definition hex_val :: "u8 \<Rightarrow> int" where
  "hex_val c = (if schar c \<ge> 97 then schar c - 87 else if schar c \<ge> 65 then schar c - 55 else schar c - 48)"

fun hex_bytes :: "bytes \<Rightarrow> bytes" where
  "hex_bytes (h # l # s) = word_of_int (hex_val h * 16 + hex_val l) # hex_bytes s"
| "hex_bytes _ = []"

lemma fromHex_step:
  assumes "length s = 2 * k" "k < length nid"
  shows "fromHex_loop (s @ h # l # t) (2 * k) (Suc (Suc n)) 0 nid
    = fromHex_loop (s @ h # l # t) (2 * Suc k) n 0 (nid[k := word_of_int (hex_val h * 16 + hex_val l)])"
proof -
  have "(s @ h # l # t) ! (2 * k) = h" "(s @ h # l # t) ! Suc (2 * k) = l"
    using assms(1) by (simp_all add: nth_append)
  then show ?thesis using assms by (simp add: rd_def hex_val_def)
qed

lemma fromHex_bytes:
  "length t = 2 * n \<Longrightarrow> length s = 2 * k \<Longrightarrow> k + n \<le> length nid \<Longrightarrow>
    fromHex_loop (s @ t @ r) (2 * k) (2 * n) 0 nid = Inr (take k nid @ hex_bytes t @ drop (k + n) nid)"
proof (induction n arbitrary: s t k nid)
  case (Suc n)
  then obtain h l t' where t: "t = h # l # t'" "length t' = 2 * n"
    by (cases t rule: hex_bytes.cases) auto
  have k: "k < length nid" using Suc.prems(3) by simp
  let ?b = "word_of_int (hex_val h * 16 + hex_val l)"
  have "fromHex_loop (s @ t @ r) (2 * k) (2 * Suc n) 0 nid
      = fromHex_loop ((s @ [h, l]) @ t' @ r) (2 * Suc k) (2 * n) 0 (nid[k := ?b])"
    using fromHex_step[OF Suc.prems(2) k, of h l "t' @ r" "2 * n"] by (simp add: t)
  also have "\<dots> = Inr (take (Suc k) (nid[k := ?b]) @ hex_bytes t' @ drop (Suc k + n) (nid[k := ?b]))"
    by (rule Suc.IH) (use Suc.prems t in simp_all)
  also have "take (Suc k) (nid[k := ?b]) = take k nid @ [?b]"
    using k by (simp add: take_Suc_conv_app_nth)
  finally show ?case by (simp add: t)
qed simp

lemma str_fromHex_bytes:
  "length nid = n \<Longrightarrow> 2 * n \<le> length s \<Longrightarrow> str_fromHex nid s (2 * n) = Inr (hex_bytes (take (2 * n) s))"
  using fromHex_bytes[of "take (2 * n) s" n "[]" 0 nid "drop (2 * n) s @ [0]"]
  by (simp add: str_fromHex_def flip: append_assoc)

lemma hex_digit_char:
  assumes "n < 16"
  shows "hex_char (hex_digit n)" "hex_val (hex_digit n) = int n"
proof -
  have "unat (hex_digit n) = (if n < 10 then 48 + n else 87 + n)"
    using assms by (auto simp: hex_digit_def unat_of_nat simp del: of_nat_add)
  moreover have "schar (hex_digit n) = int (unat (hex_digit n))"
    using assms calculation by (simp add: schar_unat)
  ultimately show "hex_char (hex_digit n)" "hex_val (hex_digit n) = int n"
    using assms by (auto simp: hex_char_def hex_val_def between_def)
qed

lemma hex2_bytes: "hex_bytes (hex2 b @ s) = b # hex_bytes s"
proof -
  have "unat b div 16 < 16" using unat_u8_less[of b] by (simp add: less_mult_imp_div_less)
  moreover have "int (unat b div 16) * 16 + int (unat b mod 16) = uint b"
    by (metis div_mult_mod_eq of_nat_add of_nat_mult of_nat_numeral of_nat_unat)
  ultimately show ?thesis by (simp add: hex2_def hex_digit_char del: of_nat_unat)
qed

lemma hex2_chars: "\<forall>c \<in> set (hex2 b). hex_char c"
proof -
  have "unat b div 16 < 16" using unat_u8_less[of b] by (simp add: less_mult_imp_div_less)
  then show ?thesis by (simp add: hex2_def hex_digit_char)
qed

lemma id_str_loop_hex:
  "p + n \<le> length mem \<Longrightarrow> id_str_loop mem p n = Inr (concat (map hex2 (take n (drop p mem))))"
proof (induction n arbitrary: p)
  case (Suc n)
  then have "take (Suc n) (drop p mem) = mem ! p # take n (drop (Suc p) mem)"
    by (simp add: Cons_nth_drop_Suc[symmetric])
  with Suc show ?case by simp
qed simp

lemma id_str_hex: "is_id x \<Longrightarrow> id_str x = Inr (concat (map hex2 x))"
  using id_str_loop_hex[of 0 20 x] by (simp add: id_str_def is_id_def SHA_DIGEST_LENGTH_def)

lemma hex_bytes_hex: "hex_bytes (concat (map hex2 x)) = x"
  by (induction x) (simp_all add: hex2_bytes)

lemma length_hex: "length (concat (map hex2 x)) = 2 * length x"
  by (induction x) (simp_all add: hex2_def)

lemma length_hex_bytes: "length (hex_bytes s) = length s div 2"
  by (induction s rule: hex_bytes.induct) simp_all

text \<open>What the function computes.\<close>

definition host_key :: "bytes \<Rightarrow> bytes" where
  "host_key h = (if 40 \<le> length h \<and> (\<forall>c \<in> set (take 40 h). hex_char c) then hex_bytes (take 40 h) else SHA1 h)"

lemma compute_id_key:
  assumes "length h < 2 ^ 32"
  shows "p2p_compute_id h = Inr (host_key h)" "is_id (host_key h)"
proof -
  have sha: "sha1_hash h = SHA1 h"
    unfolding sha1_hash_def by (rule sha1_one[OF assms]) (simp add: fresh_ctx_def)
  have "str_fromHex (replicate 20 0) h 40 = Inr (hex_bytes (take 40 h))" if "40 \<le> length h"
    using str_fromHex_bytes[of "replicate 20 0" 20 h] that by simp
  then show "p2p_compute_id h = Inr (host_key h)"
    by (auto simp: p2p_compute_id_def host_key_def sha str_isHex_iff SHA_DIGEST_LENGTH_def Let_def)
  show "is_id (host_key h)"
    by (simp add: host_key_def is_id_def SHA_DIGEST_LENGTH_def length_hex_bytes)
qed

text \<open>The name of a host determines its key: a name that begins with 40 hexadecimal digits is the
  identifier those digits denote, whatever follows, and every other name has its SHA-1 digest. The
  printed form of an identifier (id_str) is a name with that identifier as its key.\<close>
lemma compute_id_roundtrip:
  assumes "length h < 2 ^ 32" "is_id x" "length suffix < 2 ^ 31"
  shows "p2p_compute_id h = Inr (host_key h) \<and> is_id (host_key h) \<and>
    bindr (id_str x) (\<lambda>s. p2p_compute_id (s @ suffix)) = Inr x"
proof -
  let ?s = "concat (map hex2 x)"
  have len: "length ?s = 40" using assms(2) by (simp only: length_hex length_id)
  have "\<forall>c \<in> set ?s. hex_char c" using hex2_chars by auto
  then have "host_key (?s @ suffix) = x"
    using len by (simp add: host_key_def hex_bytes_hex)
  moreover have "length (?s @ suffix) < 2 ^ 32" using assms(3) len by simp
  ultimately show ?thesis using compute_id_key[OF assms(1)] compute_id_key[of "?s @ suffix"]
    by (simp add: id_str_hex[OF assms(2)])
qed

lemma compute_id_roundtrip_example:
  "bindr (id_str (replicate 20 0xAB)) (\<lambda>s. p2p_compute_id (s @ [46, 112, 50, 112])) = Inr (replicate 20 0xAB)"
  using compute_id_roundtrip[of "[]" "replicate 20 0xAB" "[46, 112, 50, 112]"]
  by (simp add: is_id_def SHA_DIGEST_LENGTH_def)

end
