(* ===== verification/Dns.thy ===== *)
theory Dns
  imports Lookup Str
begin

text \<open>
  The DNS server of the daemon, \<open>src/src/masala-dns.c\<close>: decoding of a query, encoding of the answer,
  and one turn of the receive loop. The receive buffer is an object of 1500 bytes of which a datagram
  fills the first \<open>rc\<close>; the rest keeps what earlier datagrams left. The reply is written into an
  object of 512 bytes. A position in an object stands for the C pointer; reading or writing outside
  the object is the fault \<open>OutOfBounds\<close>. A struct task lives in memory of its own from \<open>myalloc\<close> until
  \<open>myfree\<close>; \<open>d_tasks\<close> holds the live ones.
\<close>

section \<open>Data\<close>

definition AAAA_Resource_RecordType :: u32 where "AAAA_Resource_RecordType = 28"

definition QR_MASK :: u32 where "QR_MASK = 0x8000"
definition OPCODE_MASK :: u32 where "OPCODE_MASK = 0x7800"
definition AA_MASK :: u32 where "AA_MASK = 0x0400"
definition TC_MASK :: u32 where "TC_MASK = 0x0200"
definition RD_MASK :: u32 where "RD_MASK = 0x0100"
definition RA_MASK :: u32 where "RA_MASK = 0x8000"
definition RCODE_MASK :: u32 where "RCODE_MASK = 0x000F"

record question =
  qName :: "bytes option"
  qType :: u32
  qClass :: u32

record ResourceRecord =
  rr_name :: "bytes option"
  rr_type :: u32
  rr_class :: u32
  rr_ttl :: u32
  rd_length :: u32
  aaaa_addr :: bytes

record message =
  m_id :: u32
  m_qr :: u32
  m_opcode :: u32
  m_aa :: u32
  m_tc :: u32
  m_rd :: u32
  m_ra :: u32
  m_rcode :: u32
  m_qdCount :: u32
  m_anCount :: u32
  m_nsCount :: u32
  m_arCount :: u32
  m_question :: question
  m_answer :: ResourceRecord
  qName_buffer :: bytes

record task =
  t_sockfd :: int
  t_clientaddr :: IP
  t_msg :: message

text \<open>\<open>memset( task, 0, sizeof(struct task) )\<close>\<close>

definition message0 :: message where
  "message0 = \<lparr>m_id = 0, m_qr = 0, m_opcode = 0, m_aa = 0, m_tc = 0, m_rd = 0, m_ra = 0, m_rcode = 0,
     m_qdCount = 0, m_anCount = 0, m_nsCount = 0, m_arCount = 0,
     m_question = \<lparr>qName = None, qType = 0, qClass = 0\<rparr>,
     m_answer = \<lparr>rr_name = None, rr_type = 0, rr_class = 0, rr_ttl = 0, rd_length = 0, aaaa_addr = replicate 16 0\<rparr>,
     qName_buffer = replicate 256 0\<rparr>"

section \<open>Memory\<close>

definition get16bits :: "bytes \<Rightarrow> nat \<Rightarrow> (u32 \<times> nat) res" where
  "get16bits mem p = bindr (rd mem p) (\<lambda>a. bindr (rd mem (p + 1)) (\<lambda>b.
     Inr (push_bit 8 (ucast a) + ucast b, p + 2)))"

definition put16bits :: "bytes \<times> nat \<Rightarrow> u32 \<Rightarrow> (bytes \<times> nat) res" where
  "put16bits w v = (case w of (mem, p) \<Rightarrow>
     bindr (wr mem p [ucast (drop_bit 8 (v AND 0xFF00)), ucast (v AND 0xFF)]) (\<lambda>mem'. Inr (mem', p + 2)))"

definition put32bits :: "bytes \<times> nat \<Rightarrow> u64 \<Rightarrow> (bytes \<times> nat) res" where
  "put32bits w v = (case w of (mem, p) \<Rightarrow>
     bindr (wr mem p [ucast (drop_bit 24 (v AND 0xFF000000)), ucast (drop_bit 16 (v AND 0xFF0000)),
       ucast (drop_bit 16 (v AND 0xFF00)), ucast (drop_bit 16 (v AND 0xFF))]) (\<lambda>mem'. Inr (mem', p + 4)))"

section \<open>Decoding\<close>

text \<open>The loop of \<open>dns_decode_domain\<close>: the name so far, the position \<open>p\<close> in the query, the length \<open>i\<close> of
  the name. \<open>None\<close> is the return value -1.\<close>

function decode_domain_loop :: "bytes \<Rightarrow> bytes \<Rightarrow> nat \<Rightarrow> nat \<Rightarrow> int \<Rightarrow> (bytes \<times> nat) option res" where
  "decode_domain_loop domain buffer p i sz = bindr (rd buffer p) (\<lambda>c.
     if c = 0 then bindr (wr domain i [0]) (\<lambda>domain'. Inr (Some (domain', p + 1)))
     else bindr (if i \<noteq> 0 then wr domain i [46] else Inr domain) (\<lambda>domain1.
       let i1 = (if i \<noteq> 0 then i + 1 else i); len = unat c
       in if i1 + len \<ge> 256 \<or> int (i1 + len) \<ge> sz then Inr None
          else bindr (rds buffer (p + 1) len) (\<lambda>label.
            bindr (wr domain1 i1 label) (\<lambda>domain2.
              decode_domain_loop domain2 buffer (p + 1 + len) (i1 + len) sz))))"
  by pat_completeness auto
termination by (relation "measure (\<lambda>(domain, buffer, p, i, sz). length buffer - p)") auto

declare decode_domain_loop.simps [simp del]

definition dns_decode_domain :: "bytes \<Rightarrow> bytes \<Rightarrow> nat \<Rightarrow> int \<Rightarrow> (bytes \<times> nat) option res" where
  "dns_decode_domain domain buffer p sz = decode_domain_loop domain buffer p 0 sz"

definition dns_decode_header :: "message \<Rightarrow> bytes \<Rightarrow> nat \<Rightarrow> int \<Rightarrow> (message \<times> nat) option res" where
  "dns_decode_header msg buffer p sz = (if sz < 12 then Inr None else
     bindr (get16bits buffer p) (\<lambda>(a, p). bindr (get16bits buffer p) (\<lambda>(fields, p).
     bindr (get16bits buffer p) (\<lambda>(qd, p). bindr (get16bits buffer p) (\<lambda>(an, p).
     bindr (get16bits buffer p) (\<lambda>(ns, p). bindr (get16bits buffer p) (\<lambda>(ar, p).
       Inr (Some (msg\<lparr>m_id := a, m_qr := fields AND QR_MASK, m_opcode := fields AND OPCODE_MASK,
         m_aa := fields AND AA_MASK, m_tc := fields AND TC_MASK, m_rd := fields AND RD_MASK,
         m_ra := fields AND RA_MASK, m_rcode := fields AND RCODE_MASK, m_qdCount := qd,
         m_anCount := an, m_nsCount := ns, m_arCount := ar\<rparr>, p)))))))))"

text \<open>The string at the start of an object.\<close>

definition cstr :: "bytes \<Rightarrow> bytes" where "cstr mem = takeWhile (\<lambda>c. c \<noteq> 0) mem"

text \<open>The loop over the questions. The size goes down by the length of a name, but not by the four bytes
  of type and class.\<close>

fun questions_loop :: "nat \<Rightarrow> message \<Rightarrow> bytes \<Rightarrow> nat \<Rightarrow> int \<Rightarrow> message option res" where
  "questions_loop 0 msg buffer p sz = Inr None"
| "questions_loop (Suc left) msg buffer p sz =
     bindr (dns_decode_domain (qName_buffer msg) buffer p sz) (\<lambda>r. case r of None \<Rightarrow> Inr None
       | Some (domain, p1) \<Rightarrow>
         let sz1 = sz - int (p1 - p); msg1 = msg\<lparr>qName_buffer := domain\<rparr>
         in if sz1 < 4 then Inr None
            else bindr (get16bits buffer p1) (\<lambda>(ty, p2). bindr (get16bits buffer p2) (\<lambda>(cl, p3).
              if ty = AAAA_Resource_RecordType
              then Inr (Some (msg1\<lparr>m_question := \<lparr>qName = Some (cstr domain), qType = ty, qClass = cl\<rparr>\<rparr>))
              else questions_loop left msg1 buffer p3 sz1)))"

definition dns_decode_query :: "message \<Rightarrow> bytes \<Rightarrow> int \<Rightarrow> message option res" where
  "dns_decode_query msg buffer sz = bindr (dns_decode_header msg buffer 0 sz) (\<lambda>r. case r of None \<Rightarrow> Inr None
     | Some (msg1, p) \<Rightarrow>
       if m_anCount msg1 + m_nsCount msg1 + m_arCount msg1 \<noteq> 0 then Inr None
       else questions_loop (unat (m_qdCount msg1)) msg1 buffer p (sz - 12))"

section \<open>Encoding\<close>

text \<open>\<open>strchr( beg, '.' )\<close> splits the name; the length of a label is stored in one byte.\<close>

function code_domain_loop :: "bytes \<times> nat \<Rightarrow> bytes \<Rightarrow> (bytes \<times> nat) res" where
  "code_domain_loop w beg = (case w of (mem, i) \<Rightarrow>
     if 46 \<in> set beg then
       let len = length (takeWhile (\<lambda>c. c \<noteq> 46) beg)
       in bindr (wr mem i [of_nat len]) (\<lambda>mem1. bindr (wr mem1 (i + 1) (take len beg)) (\<lambda>mem2.
            code_domain_loop (mem2, i + 1 + len) (drop (len + 1) beg)))
     else let len = length beg
       in bindr (wr mem i [of_nat len]) (\<lambda>mem1. bindr (wr mem1 (i + 1) beg) (\<lambda>mem2.
            bindr (wr mem2 (i + 1 + len) [0]) (\<lambda>mem3. Inr (mem3, i + 2 + len)))))"
  by pat_completeness auto
termination by (relation "measure (\<lambda>(w, beg). length beg)") (auto intro!: diff_less simp: length_pos_if_in_set)

declare code_domain_loop.simps [simp del]

definition dns_code_domain :: "bytes \<times> nat \<Rightarrow> bytes \<Rightarrow> (bytes \<times> nat) res" where
  "dns_code_domain w domain = code_domain_loop w domain"

definition dns_code_header :: "message \<Rightarrow> bytes \<times> nat \<Rightarrow> (bytes \<times> nat) res" where
  "dns_code_header msg w = bindr (put16bits w (m_id msg)) (\<lambda>w. bindr (put16bits w (push_bit 15 1)) (\<lambda>w.
     bindr (put16bits w (m_qdCount msg)) (\<lambda>w. bindr (put16bits w (m_anCount msg)) (\<lambda>w.
     bindr (put16bits w (m_nsCount msg)) (\<lambda>w. put16bits w (m_arCount msg))))))"

definition deref_str :: "bytes option \<Rightarrow> bytes res" where
  "deref_str s = (case s of None \<Rightarrow> Inl NullDeref | Some x \<Rightarrow> Inr x)"

definition dns_code_response :: "message \<Rightarrow> bytes \<times> nat \<Rightarrow> (bytes \<times> nat) res" where
  "dns_code_response msg w = bindr (dns_code_header msg w) (\<lambda>w.
     if m_anCount msg = 1 then
       bindr (deref_str (qName (m_question msg))) (\<lambda>name. bindr (dns_code_domain w name) (\<lambda>w.
       bindr (put16bits w (qType (m_question msg))) (\<lambda>w. bindr (put16bits w (qClass (m_question msg))) (\<lambda>w.
       bindr (deref_str (rr_name (m_answer msg))) (\<lambda>name. bindr (dns_code_domain w name) (\<lambda>w.
       bindr (put16bits w (rr_type (m_answer msg))) (\<lambda>w. bindr (put16bits w (rr_class (m_answer msg))) (\<lambda>w.
       bindr (put32bits w (ucast (rr_ttl (m_answer msg)))) (\<lambda>w. bindr (put16bits w (rd_length (m_answer msg))) (\<lambda>w.
       (case w of (mem, p) \<Rightarrow> bindr (wr mem p (take 16 (aaaa_addr (m_answer msg)))) (\<lambda>mem'. Inr (mem', p + 16)))))))))))))
     else Inr w)"

section \<open>The server\<close>

record DNS =
  d_tasks :: "(nat \<times> task) list"
  d_next :: nat
  d_sent :: "(IP \<times> bytes) list"

definition free_task :: "DNS \<Rightarrow> nat \<Rightarrow> DNS" where
  "free_task d ctx = d\<lparr>d_tasks := filter (\<lambda>e. fst e \<noteq> ctx) (d_tasks d)\<rparr>"

definition dns_reply :: "DNS \<Rightarrow> nat \<Rightarrow> bytes option \<Rightarrow> DNS res" where
  "dns_reply d ctx address = (case map_of (d_tasks d) ctx of None \<Rightarrow> Inl UseAfterFree | Some task \<Rightarrow>
     (case address of None \<Rightarrow> Inr (free_task d ctx)
      | Some a \<Rightarrow> bindr (rds a 0 16) (\<lambda>record_addr.
          let msg = t_msg task; qu = m_question msg;
              rr = \<lparr>rr_name = qName qu, rr_type = qType qu, rr_class = qClass qu, rr_ttl = 0,
                rd_length = 16, aaaa_addr = record_addr\<rparr>;
              msg1 = msg\<lparr>m_qr := 1, m_aa := 1, m_ra := 0, m_rcode := 0, m_anCount := 1, m_nsCount := 0,
                m_arCount := 0, m_answer := rr\<rparr>
          in bindr (dns_code_response msg1 (replicate 512 0, 0)) (\<lambda>(buf, p).
               Inr (free_task (d\<lparr>d_sent := d_sent d @ [(t_clientaddr task, take p buf)]\<rparr>) ctx)))))"

definition dns_lookup :: "MAIN \<Rightarrow> DNS \<Rightarrow> nat \<Rightarrow> bytes \<Rightarrow> (MAIN \<times> DNS) res" where
  "dns_lookup m d ctx host_id = bindr (db_address m host_id) (\<lambda>addr. case addr of
       Some ip \<Rightarrow> bindr (dns_reply d ctx (Some (sin6_addr ip))) (\<lambda>d'. Inr (m, d'))
     | None \<Rightarrow> bindr (lkp_put m host_id (Some ctx)) (\<lambda>m'. Inr (m', d)))"

text \<open>One turn of \<open>dns_loop\<close> for a datagram of \<open>rc\<close> bytes. A task that is not handed to a lookup is
  freed at the start of the next turn.\<close>

definition dns_turn :: "MAIN \<Rightarrow> DNS \<Rightarrow> int \<Rightarrow> IP \<Rightarrow> bytes \<Rightarrow> int \<Rightarrow> (MAIN \<times> DNS) res" where
  "dns_turn m d sock client buffer rc = (let ctx = d_next d; drop_it = Inr (m, d\<lparr>d_next := Suc ctx\<rparr>)
     in bindr (dns_decode_query message0 buffer rc) (\<lambda>r. case r of None \<Rightarrow> drop_it
       | Some msg \<Rightarrow> (case qName (m_question msg) of None \<Rightarrow> drop_it
         | Some hostname \<Rightarrow> bindr (str_isValidHostname hostname (length hostname)) (\<lambda>ok.
             if \<not> ok then drop_it
             else bindr (p2p_compute_id hostname) (\<lambda>host_id.
               let task = \<lparr>t_sockfd = sock, t_clientaddr = client, t_msg = msg\<rparr>;
                   d1 = d\<lparr>d_tasks := (ctx, task) # d_tasks d, d_next := Suc ctx\<rparr>
               in dns_lookup m d1 ctx host_id)))))"

text \<open>The lookup of the program without a callback: the address if the host is known, and a search
  otherwise.\<close>

definition dns_masala_lookup :: "MAIN \<Rightarrow> bytes \<Rightarrow> nat \<Rightarrow> IP \<Rightarrow> (int \<times> IP \<times> MAIN) res" where
  "dns_masala_lookup m hostname n record_ip = bindr (str_isValidHostname hostname n) (\<lambda>ok.
     if \<not> ok then Inr (- 1, record_ip, m)
     else bindr (p2p_compute_id hostname) (\<lambda>host_id. bindr (db_address m host_id) (\<lambda>addr. case addr of
         Some ip \<Rightarrow> Inr (1, record_ip\<lparr>sin6_addr := sin6_addr ip\<rparr>, m)
       | None \<Rightarrow> bindr (lkp_put m host_id None) (\<lambda>m'. Inr (- 1, record_ip, m')))))"

end
