(* ===== verification/DnsProps.thy ===== *)
theory DnsProps
  imports Dns
begin

text \<open>
  What the DNS server of \<open>Dns\<close> does: an answer is the bytes of \<open>answer_bytes\<close>, written whole or not
  at all; a well-formed query is decoded to its name; the answer to a query for a known host goes to
  the client; long names overflow the reply object and many questions make the decoder read past the
  query.
\<close>

section \<open>Encoding as appending\<close>

text \<open>Every writer appends bytes at its position, and it leaves the object exactly when the bytes do not
  fit; so do several writers after each other.\<close>

definition emit :: "bytes \<times> nat \<Rightarrow> bytes \<Rightarrow> (bytes \<times> nat) res" where
  "emit w xs = (case w of (mem, p) \<Rightarrow> bindr (wr mem p xs) (\<lambda>mem'. Inr (mem', p + length xs)))"

lemma emit_emit: "bindr (emit w xs) (\<lambda>w. emit w ys) = emit w (xs @ ys)"
proof (cases w)
  case (Pair mem p)
  have "bindr (emit (mem, p) xs) (\<lambda>w. emit w ys)
      = bindr (bindr (wr mem p xs) (\<lambda>mem'. wr mem' (p + length xs) ys)) (\<lambda>mem'. Inr (mem', p + length (xs @ ys)))"
    by (simp add: emit_def bindr_assoc add.assoc)
  then show ?thesis unfolding wr_wr by (simp add: Pair emit_def)
qed

lemma emit_then: "bindr (emit w xs) (\<lambda>w. bindr (emit w ys) k) = bindr (emit w (xs @ ys)) k"
  unfolding emit_emit[symmetric] bindr_assoc ..

definition be16 :: "u32 \<Rightarrow> bytes" where
  "be16 v = [ucast (drop_bit 8 (v AND 0xFF00)), ucast (v AND 0xFF)]"

lemma put16bits_emit: "put16bits w v = emit w (be16 v)"
  by (cases w) (simp add: put16bits_def emit_def be16_def)

lemma put32bits_emit: "put32bits w 0 = emit w [0, 0, 0, 0]"
  by (cases w) (simp add: put32bits_def emit_def numeral_eq_Suc)

text \<open>The low two bytes of a 32-bit value are shifted out, so a time to live of a minute would be sent as
  zero. The server sends zero anyway.\<close>

lemma put32bits_loses_minute: "put32bits w 60 = emit w [0, 0, 0, 0]"
  by (cases w, simp add: put32bits_def emit_def) (simp add: numeral_eq_Suc)

text \<open>The bytes of a name.\<close>

function name_bytes :: "bytes \<Rightarrow> bytes" where
  "name_bytes beg = (if 46 \<in> set beg then
     let len = length (takeWhile (\<lambda>c. c \<noteq> 46) beg)
     in of_nat len # take len beg @ name_bytes (drop (len + 1) beg)
   else of_nat (length beg) # beg @ [0])"
  by pat_completeness auto
termination by (relation "measure length") (auto intro!: diff_less simp: length_pos_if_in_set)

declare name_bytes.simps [simp del]

lemma code_domain_emit: "code_domain_loop w beg = emit w (name_bytes beg)"
proof (induction "length beg" arbitrary: w beg rule: less_induct)
  case less
  obtain mem i where w: "w = (mem, i)" by (cases w)
  let ?len = "length (takeWhile (\<lambda>c. c \<noteq> 46) beg)"
  have le: "?len \<le> length beg" by (rule length_takeWhile_le)
  show ?case
  proof (cases "46 \<in> set beg")
    case True
    then have "length (drop (?len + 1) beg) < length beg" using length_pos_if_in_set[OF True] by simp
    then have IH: "code_domain_loop w (drop (?len + 1) beg) = emit w (name_bytes (drop (?len + 1) beg))" for w
      by (rule less)
    have "code_domain_loop w beg = bindr (emit w [of_nat ?len]) (\<lambda>w. bindr (emit w (take ?len beg)) (\<lambda>w.
        code_domain_loop w (drop (?len + 1) beg)))"
      using le by (subst code_domain_loop.simps) (simp add: w True emit_def Let_def bindr_assoc min_def)
    also have "\<dots> = bindr (emit w [of_nat ?len]) (\<lambda>w. bindr (emit w (take ?len beg)) (\<lambda>w.
        emit w (name_bytes (drop (?len + 1) beg))))"
      by (simp only: IH)
    finally show ?thesis using True
      by (subst name_bytes.simps) (simp add: emit_then emit_emit Let_def)
  next
    case False
    have "code_domain_loop w beg = bindr (emit w [of_nat (length beg)]) (\<lambda>w. bindr (emit w beg) (\<lambda>w. emit w [0]))"
      by (subst code_domain_loop.simps) (simp add: w False emit_def Let_def bindr_assoc)
    then show ?thesis using False by (subst name_bytes.simps) (simp add: emit_then emit_emit)
  qed
qed

lemmas emit_all = dns_code_domain_def code_domain_emit put16bits_emit put32bits_emit emit_then emit_emit

definition header_bytes :: "message \<Rightarrow> bytes" where
  "header_bytes msg = be16 (m_id msg) @ be16 (push_bit 15 1) @ be16 (m_qdCount msg) @
     be16 (m_anCount msg) @ be16 (m_nsCount msg) @ be16 (m_arCount msg)"

lemma code_header_emit: "dns_code_header msg w = emit w (header_bytes msg)"
  by (simp add: dns_code_header_def emit_all header_bytes_def)

definition answer_bytes :: "u32 \<Rightarrow> u32 \<Rightarrow> bytes \<Rightarrow> u32 \<Rightarrow> u32 \<Rightarrow> bytes \<Rightarrow> bytes" where
  "answer_bytes qid qd name ty cl addr = be16 qid @ [0x80, 0] @ be16 qd @ [0, 1, 0, 0, 0, 0] @
     name_bytes name @ be16 ty @ be16 cl @ name_bytes name @ be16 ty @ be16 cl @ [0, 0, 0, 0, 0, 16] @ addr"

lemma code_response_emit:
  assumes "m_anCount msg = 1" "m_nsCount msg = 0" "m_arCount msg = 0"
    and "m_question msg = \<lparr>qName = Some name, qType = ty, qClass = cl\<rparr>"
    and "m_answer msg = \<lparr>rr_name = Some name, rr_type = ty, rr_class = cl, rr_ttl = 0, rd_length = 16,
      aaaa_addr = addr\<rparr>"
    and "length addr = 16"
  shows "dns_code_response msg w = emit w (answer_bytes (m_id msg) (m_qdCount msg) name ty cl addr)"
proof -
  have last: "(\<lambda>(mem, p). bindr (wr mem p (take 16 addr)) (\<lambda>mem'. Inr (mem', p + 16))) = (\<lambda>w. emit w addr)"
    using assms(6) by (auto simp: emit_def fun_eq_iff)
  have halves: "be16 0x8000 = [0x80, 0]" "be16 1 = [0, 1]" "be16 0 = [0, 0]" "be16 16 = [0, 16]"
    by (simp_all add: be16_def)
  show ?thesis
    unfolding dns_code_response_def code_header_emit
    by (simp add: assms(1-5) deref_str_def last emit_all)
       (simp add: header_bytes_def answer_bytes_def halves assms(1-3))
qed

lemma takeWhile_shorter: "46 \<in> set s \<Longrightarrow> length (takeWhile (\<lambda>c. c \<noteq> 46) s) < length s"
  by (induction s) auto

lemma length_name_bytes: "length (name_bytes s) = length s + 2"
proof (induction "length s" arbitrary: s rule: less_induct)
  case less
  let ?len = "length (takeWhile (\<lambda>c. c \<noteq> 46) s)"
  show ?case
  proof (cases "46 \<in> set s")
    case True
    have lt: "?len < length s"
      by (rule takeWhile_shorter) (rule True)
    then have "length (name_bytes (drop (?len + 1) s)) = length (drop (?len + 1) s) + 2"
      by (intro less) simp
    then show ?thesis using True lt by (subst name_bytes.simps) (simp add: Let_def min_def)
  next
    case False
    then show ?thesis by (subst name_bytes.simps) simp
  qed
qed

lemma length_answer: "length addr = 16 \<Longrightarrow> length (answer_bytes qid qd name ty cl addr) = 46 + 2 * length name"
  by (simp add: answer_bytes_def be16_def length_name_bytes)

section \<open>Names\<close>

text \<open>A name as its labels, on the wire and with dots.\<close>

definition label_ok :: "bytes \<Rightarrow> bool" where
  "label_ok l \<longleftrightarrow> l \<noteq> [] \<and> length l < 256 \<and> 0 \<notin> set l \<and> 46 \<notin> set l"

definition wire :: "bytes list \<Rightarrow> bytes" where
  "wire ls = concat (map (\<lambda>l. of_nat (length l) # l) ls) @ [0]"

definition dotted :: "bytes list \<Rightarrow> bytes" where
  "dotted ls = concat (map (\<lambda>l. 46 # l) ls)"

definition name_of :: "bytes list \<Rightarrow> bytes" where
  "name_of ls = (case ls of [] \<Rightarrow> [] | l # r \<Rightarrow> l @ dotted r)"

lemma wire_simps [simp]: "wire [] = [0]" "wire (l # ls) = of_nat (length l) # l @ wire ls"
  by (simp_all add: wire_def)

lemma dotted_simps [simp]: "dotted [] = []" "dotted (l # ls) = 46 # l @ dotted ls"
  by (simp_all add: dotted_def)

lemma takeWhile_label: "46 \<notin> set l \<Longrightarrow> takeWhile (\<lambda>c. c \<noteq> 46) (l @ 46 # r) = l"
  by (induction l) auto

lemma name_bytes_wire:
  "\<forall>l \<in> set ls. label_ok l \<Longrightarrow> label_ok l \<Longrightarrow> name_bytes (l @ dotted ls) = wire (l # ls)"
proof (induction ls arbitrary: l)
  case Nil
  then show ?case by (subst name_bytes.simps) (simp add: label_ok_def)
next
  case (Cons k ls)
  then have "name_bytes (k @ dotted ls) = wire (k # ls)" "takeWhile (\<lambda>c. c \<noteq> 46) (l @ 46 # k @ dotted ls) = l"
    by (simp_all add: takeWhile_label label_ok_def)
  then show ?case by (subst name_bytes.simps) (simp add: Let_def)
qed

lemma unat_length: "length l < 256 \<Longrightarrow> unat (of_nat (length l) :: u8) = length l"
  by (simp add: unat_of_nat)

lemma label_code_zero: "label_ok l \<Longrightarrow> (of_nat (length l) :: u8) \<noteq> 0"
  using unat_length[of l] by (auto simp: label_ok_def)

lemma decode_step:
  assumes l: "label_ok l" and d: "drop p buf = of_nat (length l) # l @ r" and D: "length D = 256"
    and lt: "i1 = (if i = 0 then 0 else i + 1)" "i1 + length l < 256" "int (i1 + length l) < sz"
  shows "\<exists>D'. decode_domain_loop D buf p i sz = decode_domain_loop D' buf (p + 1 + length l) (i1 + length l) sz \<and>
    length D' = 256 \<and> take (i1 + length l) D' = take i D @ (if i = 0 then [] else [46]) @ l"
proof -
  have p: "p < length buf" "buf ! p = of_nat (length l)" and r: "drop (p + 1) buf = l @ r"
    using drop_nth[OF d] by simp_all
  have ul: "unat (of_nat (length l) :: u8) = length l" using l by (intro unat_length) (simp add: label_ok_def)
  have "\<exists>D1. (if i \<noteq> 0 then wr D i [46] else Inr D) = Inr D1 \<and> length D1 = 256 \<and>
      take i1 D1 = take i D @ (if i = 0 then [] else [46])"
    using wr_take[of i "[46]" D] lt D by (cases "i = 0") auto
  then obtain D1 where D1: "(if i \<noteq> 0 then wr D i [46] else Inr D) = Inr D1" "length D1 = 256"
    "take i1 D1 = take i D @ (if i = 0 then [] else [46])" by blast
  from wr_take[of i1 l D1] lt D1(2) obtain D2 where D2: "wr D1 i1 l = Inr D2" "length D2 = 256"
    "take (i1 + length l) D2 = take i1 D1 @ l" by auto
  have "decode_domain_loop D buf p i sz = decode_domain_loop D2 buf (p + 1 + length l) (i1 + length l) sz"
    using p(1) lt(2,3) label_code_zero[OF l] D1(1) D2(1) rds_drop[OF r]
    by (subst decode_domain_loop.simps) (auto simp: p(2) ul lt(1) Let_def split: if_splits)
  with D2 D1(3) show ?thesis by auto
qed

lemma decode_zero:
  assumes "drop p buf = 0 # r" "length D = 256" "i < 256"
  shows "\<exists>D'. decode_domain_loop D buf p i sz = Inr (Some (D', p + 1)) \<and> length D' = 256 \<and>
    take (i + 1) D' = take i D @ [0]"
  using wr_take[of i "[0]" D] assms drop_nth[OF assms(1)] by (subst decode_domain_loop.simps) auto

lemma decode_rest:
  "\<forall>l \<in> set ls. label_ok l \<Longrightarrow> drop p buf = wire ls @ r \<Longrightarrow> length D = 256 \<Longrightarrow> 0 < i \<Longrightarrow>
    i + length (dotted ls) < 256 \<Longrightarrow> int (i + length (dotted ls)) < sz \<Longrightarrow>
    \<exists>D'. decode_domain_loop D buf p i sz = Inr (Some (D', p + length (wire ls))) \<and> length D' = 256 \<and>
      take (i + length (dotted ls) + 1) D' = take i D @ dotted ls @ [0]"
proof (induction ls arbitrary: p i D)
  case Nil
  then show ?case using decode_zero[of p buf r D i sz] by simp
next
  case (Cons l ls)
  have l: "label_ok l" and d: "drop p buf = of_nat (length l) # l @ wire ls @ r" using Cons.prems by simp_all
  from decode_step[OF l d Cons.prems(3), of "i + 1" i sz] Cons.prems(4-6) obtain D1 where D1:
    "decode_domain_loop D buf p i sz = decode_domain_loop D1 buf (p + 1 + length l) (i + 1 + length l) sz"
    "length D1 = 256" "take (i + 1 + length l) D1 = take i D @ [46] @ l" by auto
  have "drop (p + 1 + length l) buf = drop (1 + length l) (drop p buf)" by (simp add: ac_simps)
  then have d1: "drop (p + 1 + length l) buf = wire ls @ r" unfolding d by simp
  have "\<exists>D'. decode_domain_loop D1 buf (p + 1 + length l) (i + 1 + length l) sz
        = Inr (Some (D', p + 1 + length l + length (wire ls))) \<and> length D' = 256 \<and>
      take (i + 1 + length l + length (dotted ls) + 1) D' = take (i + 1 + length l) D1 @ dotted ls @ [0]"
    by (rule Cons.IH[OF _ d1]) (use Cons.prems D1(2) in simp_all)
  then show ?case using D1(1,3) by (simp add: ac_simps)
qed

lemma name_of_chars: "set (name_of ls) \<subseteq> insert 46 (\<Union> (set ` set ls))"
  by (cases ls) (auto simp: name_of_def dotted_def)

text \<open>A well-formed name that fits the query and the name buffer is decoded to its form with dots.\<close>

lemma decode_domain_name:
  assumes "\<forall>l \<in> set ls. label_ok l" "drop p buf = wire ls @ r" "length D = 256"
    and "length (name_of ls) < 256" "int (length (name_of ls)) < sz"
  shows "\<exists>D'. dns_decode_domain D buf p sz = Inr (Some (D', p + length (wire ls))) \<and> length D' = 256 \<and>
    cstr D' = name_of ls"
proof -
  have "\<exists>D'. decode_domain_loop D buf p 0 sz = Inr (Some (D', p + length (wire ls))) \<and> length D' = 256 \<and>
      take (length (name_of ls) + 1) D' = name_of ls @ [0]"
  proof (cases ls)
    case Nil
    then show ?thesis using decode_zero[of p buf r D 0 sz] assms by (simp add: name_of_def)
  next
    case (Cons l k)
    have l: "label_ok l" and d: "drop p buf = of_nat (length l) # l @ wire k @ r" using assms Cons by simp_all
    from decode_step[OF l d assms(3), of 0 0 sz] assms(4,5) Cons obtain D1 where D1:
      "decode_domain_loop D buf p 0 sz = decode_domain_loop D1 buf (p + 1 + length l) (length l) sz"
      "length D1 = 256" "take (length l) D1 = l" by (auto simp: name_of_def)
    have "drop (p + 1 + length l) buf = drop (1 + length l) (drop p buf)" by (simp add: ac_simps)
    then have d1: "drop (p + 1 + length l) buf = wire k @ r" unfolding d by simp
    have "0 < length l" using l by (simp add: label_ok_def)
    then have "\<exists>D'. decode_domain_loop D1 buf (p + 1 + length l) (length l) sz
          = Inr (Some (D', p + 1 + length l + length (wire k))) \<and> length D' = 256 \<and>
        take (length l + length (dotted k) + 1) D' = take (length l) D1 @ dotted k @ [0]"
      by (intro decode_rest[OF _ d1]) (use assms Cons D1(2) in \<open>simp_all add: name_of_def\<close>)
    then show ?thesis using D1(1,3) Cons by (simp add: name_of_def ac_simps)
  qed
  then obtain D' where D': "decode_domain_loop D buf p 0 sz = Inr (Some (D', p + length (wire ls)))"
    "length D' = 256" "take (length (name_of ls) + 1) D' = name_of ls @ [0]" by blast
  have no0: "c \<noteq> 0" if "c \<in> set (name_of ls)" for c
    using that assms(1) name_of_chars[of ls] by (auto simp: label_ok_def)
  have "D' = (name_of ls @ [0]) @ drop (length (name_of ls) + 1) D'"
    by (metis D'(3) append_take_drop_id)
  then have "cstr D' = name_of ls" using no0
    by (simp add: cstr_def) (metis (mono_tags, lifting) append_Nil2 takeWhile.simps(2) takeWhile_append2)
  with D' show ?thesis by (auto simp: dns_decode_domain_def)
qed

section \<open>A query\<close>

definition word16 :: "u8 \<Rightarrow> u8 \<Rightarrow> u32" where
  "word16 a b = push_bit 8 (ucast a) + ucast b"

lemma be16_word16: "be16 (word16 a b) = [a, b]"
proof -
  have "word16 a b = push_bit 8 (ucast a) OR ucast b"
    unfolding word16_def by (rule disjunctive_add) (auto simp: bit_simps dest: bit_imp_le_length)
  moreover have "ucast (drop_bit 8 ((push_bit 8 (ucast a) OR ucast b :: u32) AND push_bit 8 (mask 8))) = a"
    by (rule bit_word_eqI) (auto simp: bit_simps dest: bit_imp_le_length)
  moreover have "ucast ((push_bit 8 (ucast a) OR ucast b :: u32) AND mask 8) = b"
    by (rule bit_word_eqI) (auto simp: bit_simps dest: bit_imp_le_length)
  moreover have "(0xFF00 :: u32) = push_bit 8 (mask 8)" "(0xFF :: u32) = mask 8" by (simp_all add: mask_eq_exp_minus_1)
  ultimately show ?thesis unfolding be16_def by metis
qed

lemma get16bits_drop: "drop p mem = a # b # r \<Longrightarrow> get16bits mem p = Inr (word16 a b, p + 2)"
  using drop_nth[of p mem a "b # r"] drop_nth[of "Suc p" mem b r] by (simp add: get16bits_def word16_def rd_def)

text \<open>A query with one question for an AAAA record.\<close>

definition query :: "u8 \<Rightarrow> u8 \<Rightarrow> u8 \<Rightarrow> u8 \<Rightarrow> bytes list \<Rightarrow> u8 \<Rightarrow> u8 \<Rightarrow> bytes" where
  "query a b f g ls c1 c2 = [a, b, f, g, 0, 1, 0, 0, 0, 0, 0, 0] @ wire ls @ [0, 28, c1, c2]"

lemma decode_header_query:
  assumes "12 \<le> sz"
  shows "\<exists>msg. dns_decode_header message0 ([a, b, f, g, 0, 1, 0, 0, 0, 0, 0, 0] @ r) 0 sz = Inr (Some (msg, 12)) \<and>
    m_id msg = word16 a b \<and> m_qdCount msg = 1 \<and> m_anCount msg = 0 \<and> m_nsCount msg = 0 \<and> m_arCount msg = 0 \<and>
    length (qName_buffer msg) = 256"
  using assms by (simp add: dns_decode_header_def get16bits_def rd_def word16_def message0_def)

lemma length_wire: "length (wire ls) = length (name_of ls) + (if ls = [] then 1 else 2)"
proof -
  have "length (wire ls) = length (dotted ls) + 1" for ls by (induction ls) simp_all
  then show ?thesis by (cases ls) (simp_all add: name_of_def)
qed

lemma decode_query:
  assumes ls: "\<forall>l \<in> set ls. label_ok l" "length (name_of ls) < 256"
    and sz: "int (length (query a b f g ls c1 c2)) \<le> sz"
  shows "\<exists>msg. dns_decode_query message0 (query a b f g ls c1 c2 @ r) sz = Inr (Some msg) \<and>
    m_id msg = word16 a b \<and> m_qdCount msg = 1 \<and>
    m_question msg = \<lparr>qName = Some (name_of ls), qType = 28, qClass = word16 c1 c2\<rparr>"
proof -
  let ?buf = "query a b f g ls c1 c2 @ r"
  have buf: "?buf = [a, b, f, g, 0, 1, 0, 0, 0, 0, 0, 0] @ (wire ls @ [0, 28, c1, c2] @ r)"
    by (simp add: query_def)
  have len: "int (length (wire ls)) + 16 \<le> sz" using sz by (simp add: query_def)
  obtain msg where h: "dns_decode_header message0 ?buf 0 sz = Inr (Some (msg, 12))" "m_id msg = word16 a b"
    "m_qdCount msg = 1" "m_anCount msg = 0" "m_nsCount msg = 0" "m_arCount msg = 0" "length (qName_buffer msg) = 256"
    using decode_header_query[of sz a b f g "wire ls @ [0, 28, c1, c2] @ r"] len unfolding buf by auto
  have d: "drop 12 ?buf = wire ls @ [0, 28, c1, c2] @ r" by (simp add: query_def)
  have "drop (12 + length (wire ls)) ?buf = drop (length (wire ls)) (drop 12 ?buf)"
    by (simp only: drop_drop add.commute)
  then have d2: "drop (12 + length (wire ls)) ?buf = [0, 28, c1, c2] @ r" unfolding d by simp
  have "drop (12 + length (wire ls) + 2) ?buf = drop 2 (drop (12 + length (wire ls)) ?buf)"
    by (simp only: drop_drop add.commute)
  then have d3: "drop (12 + length (wire ls) + 2) ?buf = [c1, c2] @ r" unfolding d2 by simp
  have "int (length (name_of ls)) < sz - 12" using len by (simp add: length_wire split: if_splits)
  from decode_domain_name[OF ls(1) d h(7) ls(2) this] obtain D where D:
    "dns_decode_domain (qName_buffer msg) ?buf 12 (sz - 12) = Inr (Some (D, 12 + length (wire ls)))"
    "cstr D = name_of ls" by blast
  have "word16 0 28 = 28" by (simp add: word16_def)
  with get16bits_drop[of "12 + length (wire ls)" ?buf] d2 get16bits_drop[of "12 + length (wire ls) + 2" ?buf] d3
  have g: "get16bits ?buf (12 + length (wire ls)) = Inr (28, 12 + length (wire ls) + 2)"
    "get16bits ?buf (12 + length (wire ls) + 2) = Inr (word16 c1 c2, 12 + length (wire ls) + 4)" by simp_all
  then have g2: "get16bits ?buf (14 + length (wire ls)) = Inr (word16 c1 c2, 12 + length (wire ls) + 4)" by simp
  show ?thesis
    using len h(2-6) unfolding dns_decode_query_def h(1)
    by (simp add: D g(1) g2 AAAA_Resource_RecordType_def Let_def)
qed

section \<open>The answer\<close>

definition answer :: "u8 \<Rightarrow> u8 \<Rightarrow> bytes list \<Rightarrow> u8 \<Rightarrow> u8 \<Rightarrow> bytes \<Rightarrow> bytes" where
  "answer a b ls c1 c2 addr = [a, b, 0x80, 0, 0, 1, 0, 1, 0, 0, 0, 0] @ wire ls @ [0, 28, c1, c2] @
     wire ls @ [0, 28, c1, c2, 0, 0, 0, 0, 0, 16] @ addr"

text \<open>A name the server looks up: well-formed labels of the permitted characters.\<close>

definition host_labels :: "bytes list \<Rightarrow> bool" where
  "host_labels ls \<longleftrightarrow> ls \<noteq> [] \<and> (\<forall>l \<in> set ls. label_ok l \<and> (\<forall>c \<in> set l. name_char c)) \<and>
     length (name_of ls) < 256"

lemma host_labels_valid:
  assumes "host_labels ls"
  shows "str_isValidHostname (name_of ls) (length (name_of ls)) = Inr True"
    "p2p_compute_id (name_of ls) = Inr (host_key (name_of ls))"
proof -
  have "name_char 46" by (simp add: name_char_def)
  then have "\<forall>c \<in> set (name_of ls). name_char c" using name_of_chars[of ls] assms by (auto simp: host_labels_def)
  then show "str_isValidHostname (name_of ls) (length (name_of ls)) = Inr True" by (simp add: str_isValidHostname_iff)
  show "p2p_compute_id (name_of ls) = Inr (host_key (name_of ls))"
    by (rule compute_id_key) (use assms in \<open>simp add: host_labels_def\<close>)
qed

text \<open>The task that waits for the address of a host.\<close>

definition waits :: "task \<Rightarrow> IP \<Rightarrow> u8 \<Rightarrow> u8 \<Rightarrow> bytes list \<Rightarrow> u8 \<Rightarrow> u8 \<Rightarrow> bool" where
  "waits t client a b ls c1 c2 \<longleftrightarrow> t_clientaddr t = client \<and> m_id (t_msg t) = word16 a b \<and>
     m_qdCount (t_msg t) = 1 \<and>
     m_question (t_msg t) = \<lparr>qName = Some (name_of ls), qType = 28, qClass = word16 c1 c2\<rparr>"

lemma reply_waiting:
  assumes t: "map_of (d_tasks d) ctx = Some t" "waits t client a b ls c1 c2"
    and ls: "host_labels ls" and addr: "length addr = 16"
  shows "dns_reply d ctx (Some addr) = (if length (name_of ls) \<le> 233
    then Inr (free_task (d\<lparr>d_sent := d_sent d @ [(client, answer a b ls c1 c2 addr)]\<rparr>) ctx) else Inl OutOfBounds)"
proof -
  have name: "name_bytes (name_of ls) = wire ls"
    using ls name_bytes_wire by (cases ls) (auto simp: host_labels_def name_of_def)
  have "be16 28 = [0, 28]" "be16 1 = [0, 1]" by (simp_all add: be16_def)
  then have ans: "answer_bytes (word16 a b) 1 (name_of ls) 28 (word16 c1 c2) addr = answer a b ls c1 c2 addr"
    by (simp add: answer_bytes_def answer_def name be16_word16)
  have len: "length (answer a b ls c1 c2 addr) = 46 + 2 * length (name_of ls)"
    using length_answer[OF addr] unfolding ans[symmetric] .
  have "rds addr 0 16 = Inr addr" using addr by (simp add: rds_def)
  then have "dns_reply d ctx (Some addr) = bindr (emit (replicate 512 0, 0) (answer a b ls c1 c2 addr))
      (\<lambda>(buf, p). Inr (free_task (d\<lparr>d_sent := d_sent d @ [(client, take p buf)]\<rparr>) ctx))"
    using t(2) unfolding dns_reply_def t(1)
    by (simp add: waits_def Let_def ans code_response_emit[where name = "name_of ls" and ty = 28 and cl = "word16 c1 c2" and addr = addr] addr)
  then show ?thesis by (simp add: emit_def wr_def len)
qed

text \<open>What one turn does with a query for a permitted name: the task is handed to the lookup.\<close>

lemma turn_query:
  assumes ls: "host_labels ls" and sz: "int (length (query a b f g ls c1 c2)) \<le> rc"
  shows "\<exists>t. waits t client a b ls c1 c2 \<and> dns_turn m d sock client (query a b f g ls c1 c2 @ r) rc
    = dns_lookup m (d\<lparr>d_tasks := (d_next d, t) # d_tasks d, d_next := Suc (d_next d)\<rparr>) (d_next d) (host_key (name_of ls))"
proof -
  from ls have l: "\<forall>l \<in> set ls. label_ok l" "length (name_of ls) < 256" by (simp_all add: host_labels_def)
  from decode_query[OF l sz] obtain msg where msg: "dns_decode_query message0 (query a b f g ls c1 c2 @ r) rc = Inr (Some msg)"
    "m_id msg = word16 a b" "m_qdCount msg = 1"
    "m_question msg = \<lparr>qName = Some (name_of ls), qType = 28, qClass = word16 c1 c2\<rparr>" by blast
  let ?t = "\<lparr>t_sockfd = sock, t_clientaddr = client, t_msg = msg\<rparr>"
  have "waits ?t client a b ls c1 c2" by (simp add: waits_def msg)
  moreover have "dns_turn m d sock client (query a b f g ls c1 c2 @ r) rc
    = dns_lookup m (d\<lparr>d_tasks := (d_next d, ?t) # d_tasks d, d_next := Suc (d_next d)\<rparr>) (d_next d) (host_key (name_of ls))"
    unfolding dns_turn_def msg(1) by (simp add: msg(4) host_labels_valid[OF ls] Let_def)
  ultimately show ?thesis by blast
qed

text \<open>No live task has the number that is given out next.\<close>

definition tasks_ok :: "DNS \<Rightarrow> bool" where
  "tasks_ok d \<longleftrightarrow> (\<forall>e \<in> set (d_tasks d). fst e < d_next d)"

lemma free_newest:
  assumes "tasks_ok d"
  shows "free_task (d\<lparr>d_tasks := (d_next d, t) # d_tasks d, d_next := n, d_sent := s\<rparr>) (d_next d)
    = d\<lparr>d_next := n, d_sent := s\<rparr>"
proof -
  have "filter (\<lambda>e. fst e \<noteq> d_next d) (d_tasks d) = d_tasks d"
    using assms by (auto simp: tasks_ok_def filter_id_conv)
  then show ?thesis by (simp add: free_task_def)
qed

text \<open>C28: A query for a known host is answered: for every name of permitted characters the server
  sends one datagram, to the client that asked, which repeats the identifier and the question and
  carries the address of the host in the database; nothing else changes and the task is freed. The
  answer has 46 + 2 n bytes for a name of n characters and the reply object has 512: from 234
  characters on, which the decoder admits, the server writes behind the object instead.\<close>
theorem dns_answers:
  assumes "main_inv gap m" "host_labels ls" "hosts m (host_key (name_of ls)) = Some db" "tasks_ok d"
    and "int (length (query a b f g ls c1 c2)) \<le> rc"
  shows "dns_turn m d sock client (query a b f g ls c1 c2 @ r) rc = (if length (name_of ls) \<le> 233
    then Inr (m, d\<lparr>d_next := Suc (d_next d),
      d_sent := d_sent d @ [(client, answer a b ls c1 c2 (sin6_addr (d_addr db)))]\<rparr>)
    else Inl OutOfBounds)"
proof -
  let ?k = "host_key (name_of ls)" and ?addr = "sin6_addr (d_addr db)"
  have ok: "db_ok (database m)" using main_inv_parts[OF assms(1)] by simp
  have "length ?addr = 16"
    using assms(3) db_find_cases[OF ok, of ?k] by (metis addr_ok_def db_entry_ok_def option.distinct(1) option.inject)
  obtain t where t: "waits t client a b ls c1 c2" "dns_turn m d sock client (query a b f g ls c1 c2 @ r) rc
    = dns_lookup m (d\<lparr>d_tasks := (d_next d, t) # d_tasks d, d_next := Suc (d_next d)\<rparr>) (d_next d) ?k"
    using turn_query[OF assms(2,5)] by blast
  note reply = reply_waiting[OF _ t(1) assms(2) \<open>length ?addr = 16\<close>, of
      "d\<lparr>d_tasks := (d_next d, t) # d_tasks d, d_next := Suc (d_next d)\<rparr>" "d_next d"]
  show ?thesis
    unfolding t(2) dns_lookup_def db_address_spec[OF ok] assms(3)
    by (simp add: reply free_newest[OF assms(4)])
qed

text \<open>A daemon that knows a host, and a server without tasks.\<close>

definition dns0 :: DNS where "dns0 = \<lparr>d_tasks = [], d_next = 0, d_sent = []\<rparr>"

lemma knows_host:
  assumes "is_id k"
  shows "\<exists>m. main_inv True m \<and> (\<exists>db. hosts m k = Some db \<and> d_addr db = no_addr)"
proof -
  have "db_ok (database main0)" using main_inv_parts[OF main_inv_main0[of True]] by simp
  moreover have "addr_ok no_addr" by (simp add: addr_ok_def no_addr_def)
  ultimately obtain s where "db_ok s" "st_map s = (hosts main0)(k \<mapsto> \<lparr>d_host_id = k, d_addr = no_addr, d_time_anno = now main0 + 900\<rparr>)"
    using db_put_spec assms by blast
  then show ?thesis using main_inv_database[OF main_inv_main0[of True], of s]
    by (intro exI[of _ "main0\<lparr>database := s\<rparr>"]) simp
qed

lemma foo_labels: "host_labels [[102, 111, 111]]"
  by (simp add: host_labels_def label_ok_def name_of_def dotted_def name_char_def between_def schar_def)

theorem dns_answers_witness:
  "\<exists>m. dns_turn m dns0 3 no_addr (query 7 9 1 0 [[102, 111, 111]] 0 1 @ []) 100
    = Inr (m, \<lparr>d_tasks = [], d_next = 1, d_sent = [(no_addr, answer 7 9 [[102, 111, 111]] 0 1 (replicate 16 0))]\<rparr>)"
proof -
  have "is_id (host_key (name_of [[102, 111, 111]]))"
    by (rule compute_id_key) (simp add: name_of_def)
  from knows_host[OF this] obtain m db where m: "main_inv True m"
    "hosts m (host_key (name_of [[102, 111, 111]])) = Some db" "d_addr db = no_addr" by blast
  have "tasks_ok dns0" by (simp add: tasks_ok_def dns0_def)
  then have "dns_turn m dns0 3 no_addr (query 7 9 1 0 [[102, 111, 111]] 0 1 @ []) 100
    = Inr (m, dns0\<lparr>d_next := Suc (d_next dns0),
      d_sent := d_sent dns0 @ [(no_addr, answer 7 9 [[102, 111, 111]] 0 1 (sin6_addr (d_addr db)))]\<rparr>)"
    using dns_answers[OF m(1) foo_labels m(2)] by (simp add: query_def name_of_def dotted_def)
  then show ?thesis by (intro exI[of _ m]) (simp add: dns0_def m(3) no_addr_def)
qed

text \<open>C29: A query for a host that is not known starts a lookup with the task as its callback, and the
  server sends nothing yet. When the lookup calls back with an address, the server sends the answer
  with that address to the client that asked; when it calls back without, the server sends nothing.
  Either way the task is freed.\<close>
theorem dns_searches:
  assumes "main_inv True m" "host_labels ls" "hosts m (host_key (name_of ls)) = None" "tasks_ok d"
    and "int (length (query a b f g ls c1 c2)) \<le> rc"
  shows "\<exists>m' d'. dns_turn m d sock client (query a b f g ls c1 c2 @ r) rc = Inr (m', d') \<and>
    lkp_put m (host_key (name_of ls)) (Some (d_next d)) = Inr m' \<and> main_inv True m' \<and> d_sent d' = d_sent d \<and>
    dns_reply d' (d_next d) None = Inr (d\<lparr>d_next := Suc (d_next d)\<rparr>) \<and>
    (\<forall>addr. length addr = 16 \<longrightarrow> length (name_of ls) \<le> 233 \<longrightarrow> dns_reply d' (d_next d) (Some addr)
      = Inr (d\<lparr>d_next := Suc (d_next d), d_sent := d_sent d @ [(client, answer a b ls c1 c2 addr)]\<rparr>))"
proof -
  let ?k = "host_key (name_of ls)"
  have ok: "db_ok (database m)" using main_inv_parts[OF assms(1)] by simp
  have "is_id ?k" by (rule compute_id_key) (use assms(2) in \<open>simp add: host_labels_def\<close>)
  from lkp_put_inv[OF assms(1) this, of "Some (d_next d)"] obtain m' where
    m': "lkp_put m ?k (Some (d_next d)) = Inr m'" "main_inv True m'"
    by (auto simp: post_def match_faults_def split: sum.splits)
  obtain t where t: "waits t client a b ls c1 c2" "dns_turn m d sock client (query a b f g ls c1 c2 @ r) rc
    = dns_lookup m (d\<lparr>d_tasks := (d_next d, t) # d_tasks d, d_next := Suc (d_next d)\<rparr>) (d_next d) ?k"
    using turn_query[OF assms(2,5)] by blast
  let ?d = "d\<lparr>d_tasks := (d_next d, t) # d_tasks d, d_next := Suc (d_next d)\<rparr>"
  have turn: "dns_turn m d sock client (query a b f g ls c1 c2 @ r) rc = Inr (m', ?d)"
    unfolding t(2) dns_lookup_def db_address_spec[OF ok] assms(3) by (simp add: m'(1))
  have free: "free_task (?d\<lparr>d_sent := s\<rparr>) (d_next d) = d\<lparr>d_next := Suc (d_next d), d_sent := s\<rparr>" for s
    using free_newest[OF assms(4), where t = t and n = "Suc (d_next d)" and s = s] by simp
  have "dns_reply ?d (d_next d) None = Inr (d\<lparr>d_next := Suc (d_next d)\<rparr>)"
    using free[of "d_sent d"] by (simp add: dns_reply_def)
  moreover have "dns_reply ?d (d_next d) (Some addr)
      = Inr (d\<lparr>d_next := Suc (d_next d), d_sent := d_sent d @ [(client, answer a b ls c1 c2 addr)]\<rparr>)"
    if "length addr = 16" "length (name_of ls) \<le> 233" for addr
    using reply_waiting[OF _ t(1) assms(2) that(1), of ?d "d_next d"] that(2) free by simp
  ultimately show ?thesis using turn m' by (intro exI[of _ m'] exI[of _ ?d]) simp
qed

theorem dns_searches_witness:
  "\<exists>m' d'. dns_turn main0 dns0 3 no_addr (query 7 9 1 0 [[102, 111, 111]] 0 1 @ []) 100 = Inr (m', d') \<and>
    dns_reply d' 0 (Some (replicate 16 5))
      = Inr \<lparr>d_tasks = [], d_next = 1, d_sent = [(no_addr, answer 7 9 [[102, 111, 111]] 0 1 (replicate 16 5))]\<rparr>"
proof -
  have h: "hosts main0 (host_key (name_of [[102, 111, 111]])) = None"
    by (simp add: main0_def main_start_def db_init_def)
  have d: "tasks_ok dns0" by (simp add: tasks_ok_def dns0_def)
  have len: "int (length (query 7 9 1 0 [[102, 111, 111]] 0 1)) \<le> 100" by (simp add: query_def)
  have n: "length (name_of [[102, 111, 111]]) \<le> 233" by (simp add: name_of_def)
  obtain m' d' where t: "dns_turn main0 dns0 3 no_addr (query 7 9 1 0 [[102, 111, 111]] 0 1 @ []) 100 = Inr (m', d')"
    "\<forall>addr. length addr = 16 \<longrightarrow> length (name_of [[102, 111, 111]]) \<le> 233 \<longrightarrow> dns_reply d' (d_next dns0) (Some addr)
      = Inr (dns0\<lparr>d_next := Suc (d_next dns0), d_sent := d_sent dns0 @ [(no_addr, answer 7 9 [[102, 111, 111]] 0 1 addr)]\<rparr>)"
    using dns_searches[OF main_inv_main0 foo_labels h d len, of 3 no_addr "[]"] by blast
  then have "dns_reply d' 0 (Some (replicate 16 5))
      = Inr \<lparr>d_tasks = [], d_next = 1, d_sent = [(no_addr, answer 7 9 [[102, 111, 111]] 0 1 (replicate 16 5))]\<rparr>"
    using n by (simp add: dns0_def)
  with t(1) show ?thesis by blast
qed

section \<open>Reads of the decoder\<close>

lemma domain_safe:
  "length D = 256 \<Longrightarrow> p = p0 + (if i = 0 then 0 else i + 1) \<Longrightarrow> i < 256 \<Longrightarrow> i = 0 \<or> int i < sz \<Longrightarrow> 0 \<le> sz \<Longrightarrow>
    int p0 + sz < int (length buf) \<Longrightarrow>
    \<exists>r. decode_domain_loop D buf p i sz = Inr r \<and>
      (\<forall>D' p'. r = Some (D', p') \<longrightarrow> length D' = 256 \<and> p < p' \<and> int p' \<le> int p0 + sz + 1)"
proof (induction "length buf - p" arbitrary: D p i rule: less_induct)
  case less
  let ?c = "buf ! p" and ?i1 = "if i = 0 then 0 else i + 1"
  have p: "p < length buf" using less(3-) by (auto split: if_splits)
  show ?case
  proof (cases "?c = 0")
    case True
    obtain D' where "wr D i [0] = Inr D'" "length D' = 256" using wr_take[of i "[0]" D] less(2-) by auto
    then show ?thesis using p True less(3-) by (subst decode_domain_loop.simps) (auto split: if_splits)
  next
    case False
    define len where "len = unat ?c"
    have len: "0 < len" using False by (simp add: len_def unat_gt_0)
    have i1: "?i1 \<le> 256" using less(4) by auto
    have "\<exists>D1. (if i \<noteq> 0 then wr D i [46] else Inr D) = Inr D1 \<and> length D1 = 256"
      using wr_take[of i "[46]" D] less(2,4) by (cases "i = 0") auto
    then obtain D1 where D1: "(if i \<noteq> 0 then wr D i [46] else Inr D) = Inr D1" "length D1 = 256" by blast
    show ?thesis
    proof (cases "?i1 + len \<ge> 256 \<or> int (?i1 + len) \<ge> sz")
      case True
      then show ?thesis
        using p False D1 by (subst decode_domain_loop.simps) (auto simp: len_def Let_def)
    next
      case bounds: False
      have src: "p + 1 + len \<le> length buf" using bounds less(3,7) by (auto split: if_splits)
      then have "rds buf (p + 1) len = Inr (take len (drop (p + 1) buf))" by (simp add: rds_def)
      moreover have "length (take len (drop (p + 1) buf)) = len" using src by simp
      then have "\<exists>D2. wr D1 ?i1 (take len (drop (p + 1) buf)) = Inr D2 \<and> length D2 = 256"
        using wr_take[of ?i1 "take len (drop (p + 1) buf)" D1] D1(2) bounds by (metis less_or_eq_imp_le not_le)
      then obtain D2 where "wr D1 ?i1 (take len (drop (p + 1) buf)) = Inr D2" "length D2 = 256" by blast
      ultimately have step: "decode_domain_loop D buf p i sz = decode_domain_loop D2 buf (p + 1 + len) (?i1 + len) sz"
        using p False D1 bounds by (subst decode_domain_loop.simps) (auto simp: len_def Let_def)
      have "p + 1 + len = p0 + (if ?i1 + len = 0 then 0 else ?i1 + len + 1)" using less(3) len by auto
      moreover have "length buf - (p + 1 + len) < length buf - p" using p by simp
      ultimately have "\<exists>r. decode_domain_loop D2 buf (p + 1 + len) (?i1 + len) sz = Inr r \<and>
          (\<forall>D' p'. r = Some (D', p') \<longrightarrow> length D' = 256 \<and> p + 1 + len < p' \<and> int p' \<le> int p0 + sz + 1)"
        using bounds less(6,7) \<open>length D2 = 256\<close> by (intro less(1)) auto
      then obtain r where "decode_domain_loop D2 buf (p + 1 + len) (?i1 + len) sz = Inr r"
        "\<And>D' p'. r = Some (D', p') \<Longrightarrow> length D' = 256 \<and> p + 1 + len < p' \<and> int p' \<le> int p0 + sz + 1"
        by blast
      then show ?thesis unfolding step by (intro exI[of _ r]) fastforce
    qed
  qed
qed

text \<open>With one question, and a datagram that leaves room for a byte, no read leaves the buffer.\<close>

lemma questions_one_safe:
  assumes "length (qName_buffer msg) = 256" "0 \<le> sz" "int p + sz < int (length buf)" "n \<le> 1"
  shows "\<exists>r. questions_loop n msg buf p sz = Inr r"
proof (cases n)
  case (Suc k)
  obtain r where r: "dns_decode_domain (qName_buffer msg) buf p sz = Inr r"
    "\<And>D' p'. r = Some (D', p') \<Longrightarrow> p < p' \<and> int p' \<le> int p + sz + 1"
    using domain_safe[OF assms(1) _ _ _ assms(2,3), of p 0] by (auto simp: dns_decode_domain_def)
  have "get16bits buf q = Inr (word16 (buf ! q) (buf ! (q + 1)), q + 2)" if "q + 1 < length buf" for q
    using that by (simp add: get16bits_def word16_def)
  moreover have "p' + 3 < length buf" if "r = Some (D', p')" "4 \<le> sz - int (p' - p)" for D' p'
    using r(2)[OF that(1)] that(2) assms(3) by auto
  ultimately show ?thesis using r(1) assms(4)
    by (cases r) (auto simp: Suc Let_def)
qed simp

lemma decode_header_any:
  assumes "length buf = 1500" "12 \<le> sz"
  shows "\<exists>msg. dns_decode_header message0 buf 0 sz = Inr (Some (msg, 12)) \<and>
    m_qdCount msg = word16 (buf ! 4) (buf ! 5) \<and> m_anCount msg = word16 (buf ! 6) (buf ! 7) \<and>
    m_nsCount msg = word16 (buf ! 8) (buf ! 9) \<and> m_arCount msg = word16 (buf ! 10) (buf ! 11) \<and>
    length (qName_buffer msg) = 256"
proof -
  have g: "get16bits buf p = Inr (word16 (buf ! p) (buf ! (p + 1)), p + 2)" if "p < 1499" for p
    using that assms(1) by (simp add: get16bits_def word16_def)
  show ?thesis using assms(2) by (simp add: dns_decode_header_def g message0_def) (simp add: numeral_eq_Suc)
qed

text \<open>A query of empty names: the position goes up by five, the size down by one.\<close>

lemma zero_questions:
  assumes buf: "length buf = 1500" "\<forall>j. 12 \<le> j \<longrightarrow> j < 1500 \<longrightarrow> buf ! j = 0"
  shows "length (qName_buffer msg) = 256 \<Longrightarrow> k \<le> 297 \<Longrightarrow> 298 \<le> n + k \<Longrightarrow>
    questions_loop n msg buf (12 + 5 * k) (1488 - int k) = Inl OutOfBounds"
proof (induction n arbitrary: msg k)
  case (Suc n)
  have z: "buf ! j = 0" if "12 \<le> j" "j < 1500" for j using buf(2) that by blast
  obtain D where D: "wr (qName_buffer msg) 0 [0] = Inr D" "length D = 256"
    using wr_take[of 0 "[0]" "qName_buffer msg"] Suc.prems(1) by auto
  have "dns_decode_domain (qName_buffer msg) buf (12 + 5 * k) (1488 - int k) = Inr (Some (D, 13 + 5 * k))"
    unfolding dns_decode_domain_def using Suc.prems(2) buf(1)
    by (subst decode_domain_loop.simps) (simp add: z D)
  moreover have "get16bits buf (13 + 5 * k) = Inr (0, 15 + 5 * k)"
    using Suc.prems(2) buf(1) by (simp add: get16bits_def z)
  moreover have "get16bits buf (15 + 5 * k) = (if k = 297 then Inl OutOfBounds else Inr (0, 17 + 5 * k))"
    using Suc.prems(2) buf(1) by (auto simp: get16bits_def z rd_def)
  moreover have "questions_loop n (msg\<lparr>qName_buffer := D\<rparr>) buf (17 + 5 * k) (1487 - int k) = Inl OutOfBounds" if "k < 297"
    using Suc.IH[of "msg\<lparr>qName_buffer := D\<rparr>" "Suc k"] Suc.prems that D(2) by (simp add: algebra_simps)
  moreover have "(0 :: u32) \<noteq> AAAA_Resource_RecordType" by (simp add: AAAA_Resource_RecordType_def)
  ultimately show ?case using Suc.prems(2) by (auto simp: Let_def)
qed simp

text \<open>C36: Reads of dns_decode_query: a datagram of fewer than 1500 bytes with at most one question is
  decoded without leaving the receive buffer, whatever its bytes and those of earlier datagrams are.
  The size check counts the names of the questions but not their types and classes, so a datagram
  that fills the buffer with 298 or more empty questions is read past the end.\<close>
theorem dns_query_reads:
  "(\<forall>buf rc. length buf = 1500 \<longrightarrow> rc < 1500 \<longrightarrow> unat (word16 (buf ! 4) (buf ! 5)) \<le> 1 \<longrightarrow>
      (\<exists>r. dns_decode_query message0 buf rc = Inr r)) \<and>
    (\<forall>a b f g q1 q2. 298 \<le> unat (word16 q1 q2) \<longrightarrow>
      dns_decode_query message0 ([a, b, f, g, q1, q2, 0, 0, 0, 0, 0, 0] @ replicate 1488 0) 1500 = Inl OutOfBounds)"
proof (intro conjI allI impI)
  fix buf :: bytes and rc :: int
  assume buf: "length buf = 1500" "rc < 1500" "unat (word16 (buf ! 4) (buf ! 5)) \<le> 1"
  show "\<exists>r. dns_decode_query message0 buf rc = Inr r"
  proof (cases "rc < 12")
    case True
    then show ?thesis by (simp add: dns_decode_query_def dns_decode_header_def)
  next
    case False
    then obtain msg where msg: "dns_decode_header message0 buf 0 rc = Inr (Some (msg, 12))"
      "m_qdCount msg = word16 (buf ! 4) (buf ! 5)" "length (qName_buffer msg) = 256"
      using decode_header_any[OF buf(1), of rc] by auto
    have "\<exists>r. questions_loop (unat (m_qdCount msg)) msg buf 12 (rc - 12) = Inr r"
      by (rule questions_one_safe) (use msg buf False in simp_all)
    then show ?thesis by (auto simp: dns_decode_query_def msg(1))
  qed
next
  fix a b f g q1 q2 :: u8
  assume q: "298 \<le> unat (word16 q1 q2)"
  let ?buf = "[a, b, f, g, q1, q2, 0, 0, 0, 0, 0, 0] @ replicate 1488 0"
  have len: "length ?buf = 1500" by simp
  have "?buf ! j = 0" if "12 \<le> j" "j < 1500" for j
    using that by (simp add: nth_Cons' nth_append)
  then have z: "\<forall>j. 12 \<le> j \<longrightarrow> j < 1500 \<longrightarrow> ?buf ! j = 0" by blast
  obtain msg where msg: "dns_decode_header message0 ?buf 0 1500 = Inr (Some (msg, 12))" "length (qName_buffer msg) = 256"
    "m_qdCount msg = word16 q1 q2" "m_anCount msg = 0" "m_nsCount msg = 0" "m_arCount msg = 0"
    using decode_header_any[OF len, of 1500] by (auto simp: word16_def)
  have "questions_loop (unat (word16 q1 q2)) msg ?buf (12 + 5 * 0) (1488 - int 0) = Inl OutOfBounds"
    by (rule zero_questions[OF len z msg(2)]) (use q in simp_all)
  then show "dns_decode_query message0 ?buf 1500 = Inl OutOfBounds"
    unfolding dns_decode_query_def msg(1) by (simp add: msg(3-6))
qed

theorem dns_query_reads_witness:
  "dns_decode_query message0 ([7, 7, 1, 0, 2, 0, 0, 0, 0, 0, 0, 0] @ replicate 1488 0) 1500 = Inl OutOfBounds"
proof -
  have "unat (word16 2 0) = 512" by (simp add: word16_def)
  then show ?thesis using dns_query_reads by simp
qed

end
