(* ===== verification/Nss.thy ===== *)
theory Nss
  imports Lookup Str
begin

text \<open>
  Name resolution of the system through the daemon: the server side \<open>src/src/masala-nss.c\<close>, and the
  plug-in of the C library \<open>src/src/masala-libnss.c\<close>, which runs in the process that resolves a
  name and asks the server over a local socket. The result of the plug-in lies in a buffer of its
  caller, as a name, an address and pointers into the buffer; a pointer is 8 bytes, least significant
  first, and \<open>base\<close> is the address of the buffer. \<open>exchange\<close> is what the local socket does with the
  request: the reply that arrives within the second the plug-in waits, or none.
\<close>

section \<open>The server\<close>

definition nss_reply :: "IP \<Rightarrow> bytes \<Rightarrow> IP \<Rightarrow> (IP \<times> bytes) res" where
  "nss_reply clientaddr node_id node_addr =
     (if length node_id < 20 \<or> length (sin6_addr node_addr) < 16 then Inl OutOfBounds
      else Inr (clientaddr, take SHA_DIGEST_LENGTH node_id @ take 16 (sin6_addr node_addr)))"

text \<open>The second component is what is sent to the local client.\<close>

definition nss_lookup :: "MAIN \<Rightarrow> IP \<Rightarrow> bytes \<Rightarrow> (MAIN \<times> (IP \<times> bytes) list) res" where
  "nss_lookup m clientaddr node_id = bindr (db_address m node_id) (\<lambda>node_addr. case node_addr of
       Some a \<Rightarrow> bindr (nss_reply clientaddr node_id a) (\<lambda>s. Inr (m, [s]))
     | None \<Rightarrow> bindr (lkp_put m node_id None) (\<lambda>m'. Inr (m', [])))"

text \<open>One turn of \<open>nss_loop\<close> for the datagram \<open>request\<close>; \<open>hostname\<close> has 256 bytes.\<close>

definition nss_turn :: "MAIN \<Rightarrow> IP \<Rightarrow> bytes \<Rightarrow> (MAIN \<times> (IP \<times> bytes) list) res" where
  "nss_turn m clientaddr request = (let rc = length request
     in if rc \<le> 0 \<or> rc \<ge> 256 then Inr (m, [])
        else let hostname = takeWhile (\<lambda>c. c \<noteq> 0) request
        in bindr (str_isValidHostname hostname (length hostname)) (\<lambda>ok.
             if \<not> ok then Inr (m, [])
             else bindr (p2p_compute_id hostname) (\<lambda>host_id. nss_lookup m clientaddr host_id)))"

section \<open>The plug-in\<close>

datatype nss_status = NSS_STATUS_TRYAGAIN | NSS_STATUS_UNAVAIL | NSS_STATUS_NOTFOUND | NSS_STATUS_SUCCESS
datatype errno = EAFNOSUPPORT | ENOENT | ENOMEM
datatype h_errno = NO_DATA | HOST_NOT_FOUND | NO_RECOVERY

definition AF_UNSPEC :: int where "AF_UNSPEC = 0"
definition AF_INET6 :: int where "AF_INET6 = 10"

text \<open>\<open>"p2p"\<close>\<close>

definition DOMAIN :: bytes where "DOMAIN = [112, 50, 112]"

record hostent =
  h_name :: nat
  h_aliases :: nat
  h_addrtype :: int
  h_length :: nat
  h_addr_list :: nat

text \<open>What a call leaves behind: the status, the error codes it set, the object it filled in, the
  caller's buffer, the time to live and the canonical name where the caller asked for them.\<close>

record 'o nss_result =
  r_status :: nss_status
  r_errno :: "errno option"
  r_h_errno :: "h_errno option"
  r_object :: "'o option"
  r_buffer :: bytes
  r_ttl :: "int option"
  r_canon :: "nat option"

definition nss_fail :: "bytes \<Rightarrow> nss_status \<Rightarrow> errno \<Rightarrow> h_errno \<Rightarrow> 'o nss_result" where
  "nss_fail buffer st e h = \<lparr>r_status = st, r_errno = Some e, r_h_errno = Some h, r_object = None,
     r_buffer = buffer, r_ttl = None, r_canon = None\<rparr>"

definition nss_masala_valid_hostname :: "bytes \<Rightarrow> nat \<Rightarrow> bool res" where
  "nss_masala_valid_hostname hostname n = every_char name_char (hostname @ [0]) 0 n"

text \<open>The loop that jumps behind the last dot.\<close>

function last_label :: "bytes \<Rightarrow> bytes" where
  "last_label p0 = (if 46 \<in> set p0 then last_label (tl (dropWhile (\<lambda>c. c \<noteq> 46) p0)) else p0)"
  by pat_completeness auto
termination
proof (relation "measure length")
  fix p0 :: bytes
  assume "46 \<in> set p0"
  then have "dropWhile (\<lambda>c. c \<noteq> 46) p0 \<noteq> []" by simp
  then have "length (tl (dropWhile (\<lambda>c. c \<noteq> 46) p0)) < length (dropWhile (\<lambda>c. c \<noteq> 46) p0)" by simp
  also have "\<dots> \<le> length p0" by (rule length_dropWhile_le)
  finally show "(tl (dropWhile (\<lambda>c. c \<noteq> 46) p0), p0) \<in> measure length" by simp
qed simp

declare last_label.simps [simp del]

definition nss_masala_valid_tld :: "bytes \<Rightarrow> nat \<Rightarrow> bool" where
  "nss_masala_valid_tld hostname n = (if n < length DOMAIN + 2 then False else last_label hostname = DOMAIN)"

definition nss_masala_lookup :: "(bytes \<Rightarrow> bytes option) \<Rightarrow> bytes \<Rightarrow> bytes option" where
  "nss_masala_lookup exchange hostname = (case exchange hostname of None \<Rightarrow> None
     | Some reply \<Rightarrow> (if length reply \<noteq> SHA_DIGEST_LENGTH + 16 then None
         else Some (take 16 (drop SHA_DIGEST_LENGTH reply))))"

fun le_bytes :: "nat \<Rightarrow> nat \<Rightarrow> bytes" where
  "le_bytes 0 x = []"
| "le_bytes (Suc n) x = of_nat x # le_bytes n (x div 256)"

definition nss_masala_hostent :: "(bytes \<Rightarrow> bytes option) \<Rightarrow> bytes \<Rightarrow> int \<Rightarrow> nat \<Rightarrow> bytes \<Rightarrow> bool \<Rightarrow> bool \<Rightarrow>
    hostent nss_result res" where
  "nss_masala_hostent exchange hostname af base buffer ttlp canonp =
    (let n = length hostname; buflen = length buffer; s_total = n + 1 + 8 + 16 + 2 * 8
     in if buflen < s_total then Inr (nss_fail buffer NSS_STATUS_TRYAGAIN ENOMEM NO_RECOVERY)
        else (case nss_masala_lookup exchange hostname of
          None \<Rightarrow> Inr (nss_fail buffer NSS_STATUS_NOTFOUND ENOENT HOST_NOT_FOUND)
        | Some address \<Rightarrow>
            let p_name = 0; p_aliases = p_name + n + 1; p_addr = p_aliases + 8; p_addr_list = p_addr + 16
            in bindr (wr (replicate buflen 0) p_name hostname) (\<lambda>b.
               bindr (wr b p_aliases (le_bytes 8 0)) (\<lambda>b.
               bindr (wr b p_addr address) (\<lambda>b.
               bindr (wr b p_addr_list (le_bytes 8 (base + p_addr))) (\<lambda>b.
               bindr (wr b (p_addr_list + 8) (le_bytes 8 0)) (\<lambda>b.
               Inr \<lparr>r_status = NSS_STATUS_SUCCESS, r_errno = None, r_h_errno = None,
                 r_object = Some \<lparr>h_name = base + p_name, h_aliases = base + p_aliases, h_addrtype = af,
                   h_length = 16, h_addr_list = base + p_addr_list\<rparr>,
                 r_buffer = b, r_ttl = (if ttlp then Some 0 else None),
                 r_canon = (if canonp then Some (base + p_name) else None)\<rparr>)))))))"

text \<open>The object of this function is the address of a \<open>struct gaih_addrtuple\<close>: the pointers \<open>next\<close> and
  \<open>name\<close>, \<open>family\<close>, the address, \<open>scopeid\<close>.\<close>

definition nss_masala_gaih_tuple :: "(bytes \<Rightarrow> bytes option) \<Rightarrow> bytes \<Rightarrow> nat \<Rightarrow> bytes \<Rightarrow> bool \<Rightarrow>
    nat nss_result res" where
  "nss_masala_gaih_tuple exchange hostname base buffer ttlp =
    (let n = length hostname; buflen = length buffer; s_total = n + 1 + 40
     in if buflen < s_total then Inr (nss_fail buffer NSS_STATUS_TRYAGAIN ENOMEM NO_RECOVERY)
        else (case nss_masala_lookup exchange hostname of
          None \<Rightarrow> Inr (nss_fail buffer NSS_STATUS_TRYAGAIN ENOMEM NO_RECOVERY)
        | Some address \<Rightarrow>
            let p_name = 0; p_tuple = p_name + n + 1
            in bindr (wr (replicate buflen 0) p_name hostname) (\<lambda>b.
               bindr (wr b p_tuple (le_bytes 8 0)) (\<lambda>b.
               bindr (wr b (p_tuple + 8) (le_bytes 8 (base + p_name))) (\<lambda>b.
               bindr (wr b (p_tuple + 16) (le_bytes 4 (nat AF_INET6))) (\<lambda>b.
               bindr (wr b (p_tuple + 20) address) (\<lambda>b.
               bindr (wr b (p_tuple + 36) (le_bytes 4 0)) (\<lambda>b.
               Inr \<lparr>r_status = NSS_STATUS_SUCCESS, r_errno = None, r_h_errno = None,
                 r_object = Some (base + p_tuple), r_buffer = b,
                 r_ttl = (if ttlp then Some 0 else None), r_canon = None\<rparr>))))))))"

definition nss_masala_gethostbyname3_r :: "(bytes \<Rightarrow> bytes option) \<Rightarrow> bytes \<Rightarrow> int \<Rightarrow> nat \<Rightarrow> bytes \<Rightarrow> bool \<Rightarrow> bool \<Rightarrow>
    hostent nss_result res" where
  "nss_masala_gethostbyname3_r exchange hostname af base buffer ttlp canonp =
    (let n = length hostname; af' = (if af = AF_UNSPEC then AF_INET6 else af)
     in if af' \<noteq> AF_INET6 then Inr (nss_fail buffer NSS_STATUS_UNAVAIL EAFNOSUPPORT NO_DATA)
        else bindr (nss_masala_valid_hostname hostname n) (\<lambda>ok.
          if \<not> ok then Inr (nss_fail buffer NSS_STATUS_NOTFOUND ENOENT HOST_NOT_FOUND)
          else if \<not> nss_masala_valid_tld hostname n then Inr (nss_fail buffer NSS_STATUS_NOTFOUND ENOENT HOST_NOT_FOUND)
          else nss_masala_hostent exchange hostname af' base buffer ttlp canonp))"

definition nss_masala_gethostbyname2_r :: "(bytes \<Rightarrow> bytes option) \<Rightarrow> bytes \<Rightarrow> int \<Rightarrow> nat \<Rightarrow> bytes \<Rightarrow> hostent nss_result res" where
  "nss_masala_gethostbyname2_r exchange hostname af base buffer =
     nss_masala_gethostbyname3_r exchange hostname af base buffer False False"

definition nss_masala_gethostbyname_r :: "(bytes \<Rightarrow> bytes option) \<Rightarrow> bytes \<Rightarrow> nat \<Rightarrow> bytes \<Rightarrow> hostent nss_result res" where
  "nss_masala_gethostbyname_r exchange hostname base buffer =
     nss_masala_gethostbyname3_r exchange hostname AF_UNSPEC base buffer False False"

definition nss_masala_gethostbyname4_r :: "(bytes \<Rightarrow> bytes option) \<Rightarrow> bytes \<Rightarrow> nat \<Rightarrow> bytes \<Rightarrow> bool \<Rightarrow> nat nss_result res" where
  "nss_masala_gethostbyname4_r exchange hostname base buffer ttlp = (let n = length hostname
     in bindr (nss_masala_valid_hostname hostname n) (\<lambda>ok.
          if \<not> ok then Inr (nss_fail buffer NSS_STATUS_NOTFOUND ENOENT HOST_NOT_FOUND)
          else if \<not> nss_masala_valid_tld hostname n then Inr (nss_fail buffer NSS_STATUS_NOTFOUND ENOENT HOST_NOT_FOUND)
          else nss_masala_gaih_tuple exchange hostname base buffer ttlp))"

end
