(* ===== verification/NssProps.thy ===== *)
theory NssProps
  imports Nss
begin

text \<open>
  The plug-in of \<open>Nss\<close> together with the server of the daemon: which names it resolves, what it
  leaves in the caller's buffer, and that it never writes outside that buffer, whatever the server
  replies.
\<close>

section \<open>Names of the network\<close>

lemma last_label_dot: "46 \<notin> set d \<Longrightarrow> last_label (w @ 46 # d) = d"
proof (induction "length w" arbitrary: w rule: less_induct)
  case less
  show ?case
  proof (cases "46 \<in> set w")
    case True
    let ?r = "dropWhile (\<lambda>c. c \<noteq> 46) w"
    have ne: "?r \<noteq> []" and le: "length ?r \<le> length w" using True by (auto intro: length_dropWhile_le)
    have "last_label (w @ 46 # d) = last_label (tl ?r @ 46 # d)"
      using True ne by (subst last_label.simps) (simp add: dropWhile_append1[OF True])
    moreover have "length (tl ?r) < length w" using ne le by (cases ?r) auto
    ultimately show ?thesis using less by simp
  next
    case False
    then have "dropWhile (\<lambda>c. c \<noteq> 46) (w @ 46 # d) = 46 # d" by (induction w) auto
    then have "last_label (w @ 46 # d) = last_label d" by (subst last_label.simps) simp
    then show ?thesis using less.prems by (subst (asm) (2) last_label.simps) simp
  qed
qed

lemma last_label_split: "46 \<in> set s \<Longrightarrow> \<exists>w. s = w @ 46 # last_label s"
proof (induction "length s" arbitrary: s rule: less_induct)
  case less
  from split_list_last[OF less.prems] obtain w d where "s = w @ 46 # d" "46 \<notin> set d" by blast
  then show ?case by (auto simp: last_label_dot)
qed

text \<open>The plug-in accepts exactly the names that end in \<open>.p2p\<close> with something before it.\<close>

lemma valid_tld_iff: "nss_masala_valid_tld s (length s) \<longleftrightarrow> (\<exists>w. w \<noteq> [] \<and> s = w @ 46 # DOMAIN)"
proof
  assume *: "nss_masala_valid_tld s (length s)"
  then have len: "5 \<le> length s" "last_label s = DOMAIN"
    by (auto simp: nss_masala_valid_tld_def DOMAIN_def split: if_splits)
  have "46 \<in> set s"
  proof (rule ccontr)
    assume "46 \<notin> set s"
    then have "last_label s = s" by (subst last_label.simps) simp
    with len(2) have "s = DOMAIN" by simp
    then show False using len(1) by (simp add: DOMAIN_def)
  qed
  from last_label_split[OF this] len obtain w where "s = w @ 46 # DOMAIN" by auto
  with len show "\<exists>w. w \<noteq> [] \<and> s = w @ 46 # DOMAIN" by (auto simp: DOMAIN_def)
next
  assume "\<exists>w. w \<noteq> [] \<and> s = w @ 46 # DOMAIN"
  then obtain w where w: "w \<noteq> []" "s = w @ 46 # DOMAIN" by blast
  then have "last_label s = DOMAIN" using last_label_dot[of DOMAIN w] by (simp add: DOMAIN_def)
  moreover have "1 \<le> length w" using w by (cases w) auto
  ultimately show "nss_masala_valid_tld s (length s)" using w by (simp add: nss_masala_valid_tld_def DOMAIN_def)
qed

section \<open>The buffer of the caller\<close>

fun le_nat :: "bytes \<Rightarrow> nat" where
  "le_nat [] = 0"
| "le_nat (b # bs) = unat b + 256 * le_nat bs"

lemma length_le_bytes [simp]: "length (le_bytes n x) = n"
  by (induction n arbitrary: x) simp_all

lemma le_nat_le_bytes: "le_nat (le_bytes n x) = x mod 256 ^ n"
proof (induction n arbitrary: x)
  case (Suc n)
  have "le_nat (le_bytes (Suc n) x) = x mod 256 + 256 * (x div 256 mod 256 ^ n)"
    by (simp add: Suc unat_of_nat)
  also have "\<dots> = x mod 256 ^ Suc n" by (simp add: mod_mult2_eq add.commute)
  finally show ?case .
qed simp

definition ptr_at :: "bytes \<Rightarrow> nat \<Rightarrow> nat" where
  "ptr_at mem i = le_nat (take 8 (drop i mem))"

text \<open>The buffer after \<open>nss_masala_hostent\<close> and after \<open>nss_masala_gaih_tuple\<close>.\<close>

definition hostent_image :: "bytes \<Rightarrow> bytes \<Rightarrow> nat \<Rightarrow> nat \<Rightarrow> bytes" where
  "hostent_image name address base k = name @ [0] @ le_bytes 8 0 @ address @
     le_bytes 8 (base + length name + 9) @ le_bytes 8 0 @ replicate k 0"

definition tuple_image :: "bytes \<Rightarrow> bytes \<Rightarrow> nat \<Rightarrow> nat \<Rightarrow> bytes" where
  "tuple_image name address base k = name @ [0] @ le_bytes 8 0 @ le_bytes 8 base @
     le_bytes 4 10 @ address @ le_bytes 4 0 @ replicate k 0"

lemma wr_after: "length xs = i \<Longrightarrow> length ys + k = n \<Longrightarrow> wr (xs @ replicate n 0) i ys = Inr (xs @ ys @ replicate k 0)"
  using wr_zeros[of xs ys k] by simp

lemma hostent_writes:
  assumes "length address = 16"
  shows "bindr (wr (replicate (length name + 41 + k) 0) 0 name) (\<lambda>b.
    bindr (wr b (length name + 1) (le_bytes 8 0)) (\<lambda>b.
    bindr (wr b (length name + 1 + 8) address) (\<lambda>b.
    bindr (wr b (length name + 1 + 8 + 16) (le_bytes 8 (base + (length name + 1 + 8)))) (\<lambda>b.
    bindr (wr b (length name + 1 + 8 + 16 + 8) (le_bytes 8 0)) f)))) = f (hostent_image name address base k)"
proof -
  let ?a = "name @ [0] @ le_bytes 8 0" and ?p = "le_bytes 8 (base + length name + 9)"
  have 1: "wr (replicate (length name + 41 + k) 0) 0 name = Inr ((name @ [0]) @ replicate (8 + (32 + k)) 0)"
    by (rule trans[OF wr_after[of "[]", simplified, where k = "41 + k"]]) (simp_all add: numeral_eq_Suc ac_simps)
  have 2: "wr ((name @ [0]) @ replicate (8 + (32 + k)) 0) (length name + 1) (le_bytes 8 0)
      = Inr (?a @ replicate (16 + (16 + k)) 0)"
    by (rule trans[OF wr_after[where k = "32 + k"]]) (simp_all add: assms)
  have 3: "wr (?a @ replicate (16 + (16 + k)) 0) (length name + 1 + 8) address
      = Inr ((?a @ address) @ replicate (8 + (8 + k)) 0)"
    by (rule trans[OF wr_after[where k = "16 + k"]]) (simp_all add: assms)
  have 4: "wr ((?a @ address) @ replicate (8 + (8 + k)) 0) (length name + 1 + 8 + 16) ?p
      = Inr ((?a @ address @ ?p) @ replicate (8 + k) 0)"
    by (rule trans[OF wr_after[where k = "8 + k"]]) (simp_all add: assms)
  have 5: "wr ((?a @ address @ ?p) @ replicate (8 + k) 0) (length name + 1 + 8 + 16 + 8) (le_bytes 8 0)
      = Inr (hostent_image name address base k)"
    by (rule trans[OF wr_after[where k = k]]) (simp_all add: assms hostent_image_def)
  have p: "base + (length name + 1 + 8) = base + length name + 9" by simp
  show ?thesis unfolding p 1 bindr_Inr 2 3 4 5 ..
qed

lemma tuple_writes:
  assumes "length address = 16"
  shows "bindr (wr (replicate (length name + 41 + k) 0) 0 name) (\<lambda>b.
    bindr (wr b (length name + 1) (le_bytes 8 0)) (\<lambda>b.
    bindr (wr b (length name + 1 + 8) (le_bytes 8 (base + 0))) (\<lambda>b.
    bindr (wr b (length name + 1 + 16) (le_bytes 4 (nat AF_INET6))) (\<lambda>b.
    bindr (wr b (length name + 1 + 20) address) (\<lambda>b.
    bindr (wr b (length name + 1 + 36) (le_bytes 4 0)) f))))) = f (tuple_image name address base k)"
proof -
  let ?a = "name @ [0] @ le_bytes 8 0"
  have 1: "wr (replicate (length name + 41 + k) 0) 0 name = Inr ((name @ [0]) @ replicate (8 + (32 + k)) 0)"
    by (rule trans[OF wr_after[of "[]", simplified, where k = "41 + k"]]) (simp_all add: numeral_eq_Suc ac_simps)
  have 2: "wr ((name @ [0]) @ replicate (8 + (32 + k)) 0) (length name + 1) (le_bytes 8 0)
      = Inr (?a @ replicate (8 + (24 + k)) 0)"
    by (rule trans[OF wr_after[where k = "32 + k"]]) (simp_all add: assms)
  have 3: "wr (?a @ replicate (8 + (24 + k)) 0) (length name + 1 + 8) (le_bytes 8 (base + 0))
      = Inr ((?a @ le_bytes 8 base) @ replicate (4 + (20 + k)) 0)"
    by (rule trans[OF wr_after[where k = "24 + k"]]) (simp_all add: assms)
  have 4: "wr ((?a @ le_bytes 8 base) @ replicate (4 + (20 + k)) 0) (length name + 1 + 16) (le_bytes 4 (nat AF_INET6))
      = Inr ((?a @ le_bytes 8 base @ le_bytes 4 10) @ replicate (16 + (4 + k)) 0)"
    by (rule trans[OF wr_after[where k = "20 + k"]]) (simp_all add: assms AF_INET6_def)
  have 5: "wr ((?a @ le_bytes 8 base @ le_bytes 4 10) @ replicate (16 + (4 + k)) 0) (length name + 1 + 20) address
      = Inr ((?a @ le_bytes 8 base @ le_bytes 4 10 @ address) @ replicate (4 + k) 0)"
    by (rule trans[OF wr_after[where k = "4 + k"]]) (simp_all add: assms)
  have 6: "wr ((?a @ le_bytes 8 base @ le_bytes 4 10 @ address) @ replicate (4 + k) 0) (length name + 1 + 36) (le_bytes 4 0)
      = Inr (tuple_image name address base k)"
    by (rule trans[OF wr_after[where k = k]]) (simp_all add: assms tuple_image_def)
  show ?thesis unfolding 1 bindr_Inr 2 3 4 5 6 ..
qed

text \<open>An answer of the lookup always has 16 bytes.\<close>

lemma lookup_length: "nss_masala_lookup exchange name = Some a \<Longrightarrow> length a = 16"
  by (auto simp: nss_masala_lookup_def SHA_DIGEST_LENGTH_def split: option.splits if_splits)

lemma hostent_result:
  "nss_masala_hostent exchange name af base buffer ttlp canonp
    = (if length buffer < length name + 41 then Inr (nss_fail buffer NSS_STATUS_TRYAGAIN ENOMEM NO_RECOVERY)
       else (case nss_masala_lookup exchange name of
         None \<Rightarrow> Inr (nss_fail buffer NSS_STATUS_NOTFOUND ENOENT HOST_NOT_FOUND)
       | Some address \<Rightarrow> Inr \<lparr>r_status = NSS_STATUS_SUCCESS, r_errno = None, r_h_errno = None,
           r_object = Some \<lparr>h_name = base, h_aliases = base + length name + 1, h_addrtype = af, h_length = 16,
             h_addr_list = base + length name + 25\<rparr>,
           r_buffer = hostent_image name address base (length buffer - (length name + 41)),
           r_ttl = (if ttlp then Some 0 else None), r_canon = (if canonp then Some base else None)\<rparr>))"
proof (cases "length buffer < length name + 41")
  case False
  then obtain k where k: "length buffer = length name + 41 + k" by (metis le_iff_add not_less)
  show ?thesis
  proof (cases "nss_masala_lookup exchange name")
    case (Some address)
    show ?thesis
      unfolding nss_masala_hostent_def Some Let_def add_0 k
      by (simp only: hostent_writes[OF lookup_length[OF Some]] option.case) simp
  qed (use False in \<open>simp add: nss_masala_hostent_def\<close>)
qed (simp add: nss_masala_hostent_def)

lemma tuple_result:
  "nss_masala_gaih_tuple exchange name base buffer ttlp
    = (if length buffer < length name + 41 then Inr (nss_fail buffer NSS_STATUS_TRYAGAIN ENOMEM NO_RECOVERY)
       else (case nss_masala_lookup exchange name of
         None \<Rightarrow> Inr (nss_fail buffer NSS_STATUS_TRYAGAIN ENOMEM NO_RECOVERY)
       | Some address \<Rightarrow> Inr \<lparr>r_status = NSS_STATUS_SUCCESS, r_errno = None, r_h_errno = None,
           r_object = Some (base + length name + 1),
           r_buffer = tuple_image name address base (length buffer - (length name + 41)),
           r_ttl = (if ttlp then Some 0 else None), r_canon = None\<rparr>))"
proof (cases "length buffer < length name + 41")
  case False
  then obtain k where k: "length buffer = length name + 41 + k" by (metis le_iff_add not_less)
  show ?thesis
  proof (cases "nss_masala_lookup exchange name")
    case (Some address)
    show ?thesis
      unfolding nss_masala_gaih_tuple_def Some Let_def add_0 k
      by (simp only: tuple_writes[OF lookup_length[OF Some]] option.case) simp
  qed (use False in \<open>simp add: nss_masala_gaih_tuple_def\<close>)
qed (simp add: nss_masala_gaih_tuple_def)

lemma length_images:
  "length address = 16 \<Longrightarrow> length (hostent_image name address base k) = length name + 41 + k"
  "length address = 16 \<Longrightarrow> length (tuple_image name address base k) = length name + 41 + k"
  by (simp_all add: hostent_image_def tuple_image_def)

text \<open>What the caller finds in the image.\<close>

lemma take_drop_mid: "length xs = i \<Longrightarrow> length ys = n \<Longrightarrow> take n (drop i (xs @ ys @ zs)) = ys"
  by simp

lemma hostent_reads:
  fixes k :: nat
  assumes "length address = 16" "base + length name + 41 < 2 ^ 64" "0 \<notin> set name"
  defines "b \<equiv> hostent_image name address base k"
  shows "takeWhile (\<lambda>c. c \<noteq> 0) b = name" "ptr_at b (length name + 1) = 0"
    "ptr_at b (length name + 25) = base + length name + 9" "ptr_at b (length name + 25 + 8) = 0"
    "take 16 (drop (length name + 9) b) = address"
proof -
  let ?n = "le_bytes 8 0" and ?p = "le_bytes 8 (base + length name + 9)"
  have z: "le_nat ?n = 0" "le_nat ?p = base + length name + 9"
    using assms(2) by (simp_all add: le_nat_le_bytes)
  have "\<forall>c \<in> set name. c \<noteq> 0" using assms(3) by auto
  then show "takeWhile (\<lambda>c. c \<noteq> 0) b = name" by (simp add: b_def hostent_image_def)
  have "take 8 (drop (length name + 1) b) = ?n"
    unfolding b_def hostent_image_def
    using take_drop_mid[of "name @ [0]" "length name + 1" ?n 8 "address @ ?p @ ?n @ replicate k 0"] by simp
  then show "ptr_at b (length name + 1) = 0" by (simp add: ptr_at_def z)
  show "take 16 (drop (length name + 9) b) = address"
    unfolding b_def hostent_image_def
    using take_drop_mid[of "name @ [0] @ ?n" "length name + 9" address 16 "?p @ ?n @ replicate k 0"] assms(1) by simp
  have "take 8 (drop (length name + 25) b) = ?p"
    unfolding b_def hostent_image_def
    using take_drop_mid[of "name @ [0] @ ?n @ address" "length name + 25" ?p 8 "?n @ replicate k 0"] assms(1) by simp
  then show "ptr_at b (length name + 25) = base + length name + 9" by (simp add: ptr_at_def z)
  have "take 8 (drop (length name + 25 + 8) b) = ?n"
    unfolding b_def hostent_image_def
    using take_drop_mid[of "name @ [0] @ ?n @ address @ ?p" "length name + 25 + 8" ?n 8 "replicate k 0"] assms(1) by simp
  then show "ptr_at b (length name + 25 + 8) = 0" by (simp add: ptr_at_def z)
qed

section \<open>The plug-in and the server\<close>

text \<open>A local socket with the server of daemon \<open>m\<close> at its other end.\<close>

definition ask :: "MAIN \<Rightarrow> IP \<Rightarrow> bytes \<Rightarrow> bytes option" where
  "ask m client request = (case nss_turn m client request of
     Inr (m', (dest, reply) # _) \<Rightarrow> (if dest = client then Some reply else None) | _ \<Rightarrow> None)"

definition p2p_name :: "bytes \<Rightarrow> bool" where
  "p2p_name name \<longleftrightarrow> (\<exists>w. w \<noteq> [] \<and> name = w @ 46 # DOMAIN) \<and> (\<forall>c \<in> set name. name_char c) \<and> length name < 256"

lemma p2p_name_facts:
  assumes "p2p_name name"
  shows "0 \<notin> set name" "takeWhile (\<lambda>c. c \<noteq> 0) name = name" "0 < length name" "length name < 256"
    "str_isValidHostname name (length name) = Inr True" "nss_masala_valid_hostname name (length name) = Inr True"
    "nss_masala_valid_tld name (length name)" "p2p_compute_id name = Inr (host_key name)" "is_id (host_key name)"
proof -
  have ch: "\<forall>c \<in> set name. name_char c" and len: "length name < 256" using assms by (simp_all add: p2p_name_def)
  show no0: "0 \<notin> set name" using ch by auto
  then have "\<forall>c \<in> set name. c \<noteq> 0" by auto
  then show "takeWhile (\<lambda>c. c \<noteq> 0) name = name" by simp
  show "0 < length name" "length name < 256" using assms by (auto simp: p2p_name_def)
  show "str_isValidHostname name (length name) = Inr True" using ch by (simp add: str_isValidHostname_iff)
  then show "nss_masala_valid_hostname name (length name) = Inr True"
    by (simp add: nss_masala_valid_hostname_def str_isValidHostname_def)
  show "nss_masala_valid_tld name (length name)" using assms unfolding valid_tld_iff by (simp add: p2p_name_def)
  show "p2p_compute_id name = Inr (host_key name)" "is_id (host_key name)"
    by (rule compute_id_key; use len in simp)+
qed

lemma ask_known:
  assumes "main_inv True m" "p2p_name name" "hosts m (host_key name) = Some db"
  shows "nss_masala_lookup (ask m client) name = Some (sin6_addr (d_addr db))" "length (sin6_addr (d_addr db)) = 16"
proof -
  have ok: "db_ok (database m)" using main_inv_parts[OF assms(1)] by simp
  show len: "length (sin6_addr (d_addr db)) = 16"
    using assms(3) db_find_cases[OF ok, of "host_key name"]
    by (metis addr_ok_def db_entry_ok_def option.distinct(1) option.inject)
  note f = p2p_name_facts[OF assms(2)]
  have "nss_turn m client name = Inr (m, [(client, host_key name @ sin6_addr (d_addr db))])"
    using f(3) by (simp add: f f(4)[folded not_le] nss_turn_def nss_lookup_def nss_reply_def db_address_spec[OF ok] assms(3) Let_def len
        length_id[OF f(9)] SHA_DIGEST_LENGTH_def)
  then show "nss_masala_lookup (ask m client) name = Some (sin6_addr (d_addr db))"
    using f(9) len by (simp add: nss_masala_lookup_def ask_def length_id SHA_DIGEST_LENGTH_def)
qed

lemma ask_unknown:
  assumes "main_inv True m" "p2p_name name" "hosts m (host_key name) = None"
  shows "nss_masala_lookup (ask m client) name = None"
    "\<exists>m'. nss_turn m client name = Inr (m', []) \<and> lkp_put m (host_key name) None = Inr m' \<and> main_inv True m'"
proof -
  have ok: "db_ok (database m)" using main_inv_parts[OF assms(1)] by simp
  note f = p2p_name_facts[OF assms(2)]
  from lkp_put_inv[OF assms(1) f(9), of None] obtain m' where
    m': "lkp_put m (host_key name) None = Inr m'" "main_inv True m'"
    by (auto simp: post_def match_faults_def split: sum.splits)
  have turn: "nss_turn m client name = Inr (m', [])"
    using f(3) by (simp add: f f(4)[folded not_le] nss_turn_def nss_lookup_def db_address_spec[OF ok] assms(3) Let_def m'(1))
  then show "nss_masala_lookup (ask m client) name = None" by (simp add: nss_masala_lookup_def ask_def)
  show "\<exists>m'. nss_turn m client name = Inr (m', []) \<and> lkp_put m (host_key name) None = Inr m' \<and> main_inv True m'"
    using turn m' by blast
qed

text \<open>C30: Resolving a host name through the plug-in and the server of the daemon: for a name of the
  network (permitted characters, ending in .p2p) and a buffer large enough, a known host gives
  NSS_STATUS_SUCCESS, and the object handed out leads the caller to the name, to an empty list of
  aliases and to a list with exactly one address, the one in the daemon's database. An unknown host
  gives NSS_STATUS_NOTFOUND and starts a search, and any other name gives NSS_STATUS_NOTFOUND
  without asking the server.\<close>
theorem nss_resolves:
  assumes "main_inv True m" "length name < 256" "length name + 41 \<le> length buffer"
    and "base + length buffer < 2 ^ 64" "af = AF_UNSPEC \<or> af = AF_INET6"
  shows "if p2p_name name then
      (case hosts m (host_key name) of
         Some db \<Rightarrow> \<exists>r h. nss_masala_gethostbyname3_r (ask m client) name af base buffer ttlp canonp = Inr r \<and>
           r_status r = NSS_STATUS_SUCCESS \<and> r_object r = Some h \<and> length (r_buffer r) = length buffer \<and>
           takeWhile (\<lambda>c. c \<noteq> 0) (drop (h_name h - base) (r_buffer r)) = name \<and>
           ptr_at (r_buffer r) (h_aliases h - base) = 0 \<and> h_addrtype h = AF_INET6 \<and> h_length h = 16 \<and>
           ptr_at (r_buffer r) (h_addr_list h - base + 8) = 0 \<and>
           take 16 (drop (ptr_at (r_buffer r) (h_addr_list h - base) - base) (r_buffer r)) = sin6_addr (d_addr db)
       | None \<Rightarrow> nss_masala_gethostbyname3_r (ask m client) name af base buffer ttlp canonp
             = Inr (nss_fail buffer NSS_STATUS_NOTFOUND ENOENT HOST_NOT_FOUND) \<and>
           (\<exists>m'. nss_turn m client name = Inr (m', []) \<and> lkp_put m (host_key name) None = Inr m'))
    else \<forall>exchange. nss_masala_gethostbyname3_r exchange name af base buffer ttlp canonp
        = Inr (nss_fail buffer NSS_STATUS_NOTFOUND ENOENT HOST_NOT_FOUND)"
proof (cases "p2p_name name")
  case True
  note f = p2p_name_facts[OF True]
  have call: "nss_masala_gethostbyname3_r e name af base buffer ttlp canonp
      = nss_masala_hostent e name AF_INET6 base buffer ttlp canonp" for e
    using f assms(5) by (auto simp: nss_masala_gethostbyname3_r_def Let_def)
  show ?thesis
  proof (cases "hosts m (host_key name)")
    case None
    with ask_unknown[OF assms(1) True None] show ?thesis
      using assms(3) True by (auto simp: call hostent_result)
  next
    case (Some db)
    note known = ask_known[OF assms(1) True Some]
    have "base + length name + 41 < 2 ^ 64" using assms(3,4) by simp
    note reads = hostent_reads[OF known(2) this f(1), of "length buffer - (length name + 41)"]
    show ?thesis
      using True assms(3) reads length_images(1)[OF known(2)]
      by (simp add: Some call hostent_result known(1))
  qed
next
  case False
  have "nss_masala_gethostbyname3_r e name af base buffer ttlp canonp
      = Inr (nss_fail buffer NSS_STATUS_NOTFOUND ENOENT HOST_NOT_FOUND)" for e
    using False assms(2,5)
    by (auto simp: nss_masala_gethostbyname3_r_def Let_def p2p_name_def valid_tld_iff
        nss_masala_valid_hostname_def str_isValidHostname_iff[unfolded str_isValidHostname_def])
  then show ?thesis using False by simp
qed

theorem nss_resolves_witness:
  "nss_masala_gethostbyname3_r (ask main0 no_addr) [97, 46, 112, 50, 112] AF_UNSPEC 4096 (replicate 100 7) True True
    = Inr (nss_fail (replicate 100 7) NSS_STATUS_NOTFOUND ENOENT HOST_NOT_FOUND)"
proof -
  let ?name = "[97, 46, 112, 50, 112]"
  have "p2p_name ?name" unfolding p2p_name_def
    by (intro conjI exI[of _ "[97]"]) (simp_all add: DOMAIN_def name_char_def between_def schar_def)
  moreover have "hosts main0 (host_key ?name) = None" by (simp add: main0_def main_start_def db_init_def)
  ultimately show ?thesis
    using nss_resolves[OF main_inv_main0, of ?name "replicate 100 7" 4096 AF_UNSPEC no_addr True True] by simp
qed

text \<open>C31: Whatever the local socket delivers, and however small the buffer is, the plug-in returns a
  status, stays inside the buffer it was given, and touches it only when it reports success; with 41
  bytes more than the name has, a failure is never blamed on the buffer by gethostbyname3. The two
  entry points report a failed lookup differently: gethostbyname4 says that memory ran out.\<close>
theorem nss_writes_inside:
  "(\<exists>r. nss_masala_gethostbyname3_r exchange name af base buffer ttlp canonp = Inr r \<and>
      length (r_buffer r) = length buffer \<and> (r_status r \<noteq> NSS_STATUS_SUCCESS \<longrightarrow> r_buffer r = buffer) \<and>
      (length name + 41 \<le> length buffer \<longrightarrow> r_errno r \<noteq> Some ENOMEM)) \<and>
    (\<exists>r. nss_masala_gethostbyname4_r exchange name base buffer ttlp = Inr r \<and>
      length (r_buffer r) = length buffer \<and> (r_status r \<noteq> NSS_STATUS_SUCCESS \<longrightarrow> r_buffer r = buffer) \<and>
      ((\<exists>w. w \<noteq> [] \<and> name = w @ 46 # DOMAIN) \<and> (\<forall>c \<in> set name. name_char c) \<and>
        nss_masala_lookup exchange name = None \<longrightarrow> r_errno r = Some ENOMEM))"
proof (rule conjI)
  obtain ok where ok: "nss_masala_valid_hostname name (length name) = Inr ok" "ok \<longleftrightarrow> (\<forall>c \<in> set name. name_char c)"
    by (simp add: nss_masala_valid_hostname_def str_isValidHostname_iff[unfolded str_isValidHostname_def])
  note images = length_images[OF lookup_length]
  show "\<exists>r. nss_masala_gethostbyname3_r exchange name af base buffer ttlp canonp = Inr r \<and>
      length (r_buffer r) = length buffer \<and> (r_status r \<noteq> NSS_STATUS_SUCCESS \<longrightarrow> r_buffer r = buffer) \<and>
      (length name + 41 \<le> length buffer \<longrightarrow> r_errno r \<noteq> Some ENOMEM)"
    by (auto simp: nss_masala_gethostbyname3_r_def Let_def ok(1) hostent_result nss_fail_def images split: option.splits)
  show "\<exists>r. nss_masala_gethostbyname4_r exchange name base buffer ttlp = Inr r \<and>
      length (r_buffer r) = length buffer \<and> (r_status r \<noteq> NSS_STATUS_SUCCESS \<longrightarrow> r_buffer r = buffer) \<and>
      ((\<exists>w. w \<noteq> [] \<and> name = w @ 46 # DOMAIN) \<and> (\<forall>c \<in> set name. name_char c) \<and>
        nss_masala_lookup exchange name = None \<longrightarrow> r_errno r = Some ENOMEM)"
    unfolding valid_tld_iff[symmetric]
    by (auto simp: nss_masala_gethostbyname4_r_def Let_def ok tuple_result nss_fail_def images split: option.splits)
qed

theorem nss_writes_inside_witness:
  "\<exists>r. nss_masala_gethostbyname3_r (\<lambda>req. Some (replicate 36 1)) [97, 46, 112, 50, 112] AF_INET6 0 [] True True = Inr r \<and>
    r_buffer r = []"
  using nss_writes_inside[of "\<lambda>req. Some (replicate 36 1)" "[97, 46, 112, 50, 112]" AF_INET6 0 "[]" True True] by auto

end
