(* ===== verification/Cmd.thy ===== *)
theory Cmd
  imports Lookup Str
begin

text \<open>
  The remote control of the daemon, \<open>src/src/masala-cmd.c\<close>: splitting a command line into arguments,
  the commands, and one turn of the receive loop. The reply is an object of 1500 bytes, the
  request another, the argument vector has 16 entries. \<open>vsnprintf\<close> is modelled by the text it formats.
  What the C library does to name or print addresses is a parameter: \<open>ntop\<close> is \<open>inet_ntop\<close>, \<open>resolve\<close>
  is \<open>getaddrinfo\<close> on a host and a port, which gives addresses or the text of an error.
\<close>

section \<open>Texts\<close>

definition lit :: "string \<Rightarrow> bytes" where "lit s = map of_char s"

abbreviation NL :: bytes where "NL \<equiv> [10]"

definition cmd_usage_str :: bytes where
  "cmd_usage_str = lit ''Usage:'' @ NL @ [9] @ lit ''status'' @ NL @ [9] @ lit ''ping <ip> [<port>]'' @ NL @
     [9] @ lit ''lookup <key>'' @ NL @ [9] @ lit ''search <key>'' @ NL @ [9] @ lit ''print_database'' @ NL @
     [9] @ lit ''print_nodes'' @ NL @ [9] @ lit ''shutdown'' @ NL @ NL"

text \<open>\<open>addr_str\<close> of \<open>src/src/log.c\<close>.\<close>

definition addr_str :: "(bytes \<Rightarrow> bytes) \<Rightarrow> IP \<Rightarrow> bytes" where
  "addr_str ntop addr = lit ''['' @ ntop (sin6_addr addr) @ lit '']:'' @ dec_digits (be_nat (sin6_port addr))"

section \<open>The reply\<close>

record REPLY =
  r_data :: bytes
  r_size :: nat

definition r_init :: "bytes \<Rightarrow> REPLY res" where
  "r_init memory = bindr (wr memory 0 [0]) (\<lambda>d. Inr \<lparr>r_data = d, r_size = 0\<rparr>)"

text \<open>\<open>1500 - r->size\<close> is passed as an unsigned size. Beyond 1500 it is huge, and the text is written
  behind the object; at 1500 nothing is written. \<open>vsnprintf\<close> returns the length of the whole text.\<close>

definition r_printf :: "REPLY \<Rightarrow> bytes \<Rightarrow> REPLY res" where
  "r_printf r s = (if 1500 < r_size r then Inl OutOfBounds
     else let n = 1500 - r_size r in
       bindr (if n = 0 then Inr (r_data r) else wr (r_data r) (r_size r) (take (n - 1) s @ [0])) (\<lambda>d.
         if 0 < length s then Inr \<lparr>r_data = d, r_size = r_size r + length s\<rparr>
         else bindr (wr d (r_size r) [0]) (\<lambda>d. Inr \<lparr>r_data = d, r_size = r_size r\<rparr>)))"

section \<open>Splitting a command line\<close>

text \<open>\<open>strlen\<close>\<close>

definition strlen :: "bytes \<Rightarrow> nat res" where
  "strlen mem = (if 0 \<in> set mem then Inr (length (takeWhile (\<lambda>c. c \<noteq> 0) mem)) else Inl OutOfBounds)"

definition blank :: "u8 \<Rightarrow> bool" where "blank c \<longleftrightarrow> schar c \<le> 32"

text \<open>The second loop of \<open>cmd_to_args\<close>; \<open>slots\<close> is the length of the vector.\<close>

function args_loop :: "nat \<Rightarrow> nat \<Rightarrow> bytes \<Rightarrow> nat \<Rightarrow> bytes list res" where
  "args_loop slots max_argv str argc = (case str of [] \<Rightarrow> Inr []
     | c # rest \<Rightarrow> (if c = 0 then args_loop slots max_argv rest argc
         else if argc \<ge> max_argv then Inr []
         else if argc \<ge> slots then Inl OutOfBounds
         else let w = takeWhile (\<lambda>c. c \<noteq> 0) str
           in bindr (args_loop slots max_argv (drop (length w + 1) str) (argc + 1)) (\<lambda>ws. Inr (w # ws))))"
  by pat_completeness auto
termination by (relation "measure (\<lambda>(slots, max_argv, str, argc). length str)") auto

declare args_loop.simps [simp del]

text \<open>The string with its blanks zeroed, and the arguments.\<close>

definition cmd_to_args :: "bytes \<Rightarrow> nat \<Rightarrow> nat \<Rightarrow> (bytes \<times> bytes list) res" where
  "cmd_to_args str slots max_argv = bindr (strlen str) (\<lambda>len.
     let z = map (\<lambda>c. if blank c then 0 else c) (take (len + 1) str) @ drop (len + 1) str
     in bindr (args_loop slots max_argv (take (len + 1) z) 0) (\<lambda>argv. Inr (z, argv)))"

section \<open>The commands\<close>

text \<open>\<open>getaddrinfo\<close>: the text of an error, or the addresses.\<close>

type_synonym resolver = "bytes \<Rightarrow> bytes \<Rightarrow> bytes + IP list"

fun ping_all :: "(bytes \<Rightarrow> bytes) \<Rightarrow> REPLY \<Rightarrow> MAIN \<Rightarrow> IP list \<Rightarrow> (REPLY \<times> MAIN) res" where
  "ping_all ntop r m [] = Inr (r, m)"
| "ping_all ntop r m (p # info) = bindr (r_printf r (lit ''Ping address '' @ addr_str ntop p)) (\<lambda>r.
     bindr (rd (sin6_addr p) 0) (\<lambda>b0.
     bindr (if b0 = 0xff then send_ping m p SEND_MULTICAST else send_ping m p SEND_UNICAST) (\<lambda>m.
       ping_all ntop r m info)))"

definition cmd_ping :: "(bytes \<Rightarrow> bytes) \<Rightarrow> resolver \<Rightarrow> REPLY \<Rightarrow> MAIN \<Rightarrow> bytes \<Rightarrow> bytes \<Rightarrow> (int \<times> REPLY \<times> MAIN) res" where
  "cmd_ping ntop resolve r m addr port = (case resolve addr port of
     Inl err \<Rightarrow> bindr (r_printf r (lit ''Failed to get address: '' @ err)) (\<lambda>r. Inr (1, r, m))
   | Inr info \<Rightarrow> bindr (ping_all ntop r m info) (\<lambda>(r, m). Inr (0, r, m)))"

definition cmd_print_status :: "REPLY \<Rightarrow> MAIN \<Rightarrow> REPLY res" where
  "cmd_print_status r m = bindr (id_str (conf_node_id (conf m))) (\<lambda>hexbuf.
     bindr (r_printf r (lit ''Own node id: '' @ hexbuf @ NL)) (\<lambda>r.
     if conf_hostname (conf m) \<noteq> None
     then bindr (id_str (conf_host_id (conf m))) (\<lambda>hexbuf. r_printf r (lit ''Own host id: '' @ hexbuf @ NL))
     else r_printf r (lit ''Own host id: <none>'' @ NL)))"

fun print_bucket_nodes :: "(bytes \<Rightarrow> bytes) \<Rightarrow> REPLY \<Rightarrow> NODE list \<Rightarrow> REPLY res" where
  "print_bucket_nodes ntop r [] = Inr r"
| "print_bucket_nodes ntop r (n # ns) = bindr (id_str (n_id n)) (\<lambda>hexbuf.
     bindr (r_printf r (lit ''  Node: '' @ hexbuf @ lit '' / '' @ addr_str ntop (n_addr n) @ NL)) (\<lambda>r.
       print_bucket_nodes ntop r ns))"

fun print_buckets :: "(bytes \<Rightarrow> bytes) \<Rightarrow> REPLY \<Rightarrow> BUCK list \<Rightarrow> REPLY res" where
  "print_buckets ntop r [] = Inr r"
| "print_buckets ntop r (b # bs) = bindr (id_str (b_id b)) (\<lambda>hexbuf.
     bindr (r_printf r (lit '' Bucket: '' @ hexbuf @ NL)) (\<lambda>r.
     bindr (print_bucket_nodes ntop r (b_nodes b)) (\<lambda>r.
     bindr (r_printf r (lit ''  Found '' @ dec_digits (length (b_nodes b)) @ lit '' entries.'' @ NL)) (\<lambda>r.
       print_buckets ntop r bs))))"

definition cmd_print_nodes :: "(bytes \<Rightarrow> bytes) \<Rightarrow> REPLY \<Rightarrow> MAIN \<Rightarrow> REPLY res" where
  "cmd_print_nodes ntop r m =
     bindr (r_printf r (lit ''Known node id / address pairs from neighborhood:'' @ NL)) (\<lambda>r.
       print_buckets ntop r (bl_items (nbhd m)))"

fun print_hosts :: "(bytes \<Rightarrow> bytes) \<Rightarrow> REPLY \<Rightarrow> DB list \<Rightarrow> REPLY res" where
  "print_hosts ntop r [] = Inr r"
| "print_hosts ntop r (n # ns) = bindr (id_str (d_host_id n)) (\<lambda>hexbuf.
     bindr (r_printf r (lit '' '' @ hexbuf @ lit '' / '' @ addr_str ntop (d_addr n) @ NL)) (\<lambda>r.
       print_hosts ntop r ns))"

definition cmd_print_database :: "(bytes \<Rightarrow> bytes) \<Rightarrow> REPLY \<Rightarrow> MAIN \<Rightarrow> REPLY res" where
  "cmd_print_database ntop r m =
     bindr (r_printf r (lit ''Known host id / address pairs from value database:'' @ NL)) (\<lambda>r.
     bindr (print_hosts ntop r (map snd (s_list (database m)))) (\<lambda>r.
       r_printf r (lit '' Found '' @ dec_digits (length (s_list (database m))) @ lit '' entries.'' @ NL)))"

datatype status = MAIN_ONLINE | MAIN_SHUTDOWN

text \<open>The result is the return code, the reply, the state of the daemon and \<open>_main->status\<close>.\<close>

definition cmd_exec :: "(bytes \<Rightarrow> bytes) \<Rightarrow> resolver \<Rightarrow> REPLY \<Rightarrow> MAIN \<Rightarrow> status \<Rightarrow> bytes list \<Rightarrow>
    (int \<times> REPLY \<times> MAIN \<times> status) res" where
  "cmd_exec ntop resolve r m st argv = (let argc = length argv in
     if argc = 0 then bindr (r_printf r cmd_usage_str) (\<lambda>r. Inr (0, r, m, st))
     else if argv ! 0 = lit ''ping'' \<and> (argc = 2 \<or> argc = 3) then
       bindr (cmd_ping ntop resolve r m (argv ! 1) (if argc = 3 then argv ! 2 else lit ''8337'')) (\<lambda>(rc, r, m).
         Inr (rc, r, m, st))
     else if argc = 2 \<and> argv ! 0 = lit ''lookup'' then
       bindr (p2p_compute_id (argv ! 1)) (\<lambda>nid. bindr (db_address m nid) (\<lambda>addr.
       bindr (id_str nid) (\<lambda>hexbuf. bindr (r_printf r (lit ''Lookup '' @ hexbuf @ NL)) (\<lambda>r.
         case addr of Some ip \<Rightarrow> bindr (r_printf r (lit ''Address found: '' @ addr_str ntop ip @ NL)) (\<lambda>r. Inr (0, r, m, st))
         | None \<Rightarrow> bindr (r_printf r (lit ''No address found.'' @ NL)) (\<lambda>r. Inr (1, r, m, st))))))
     else if argc = 2 \<and> argv ! 0 = lit ''search'' then
       bindr (p2p_compute_id (argv ! 1)) (\<lambda>nid. bindr (lkp_put m nid None) (\<lambda>m.
       bindr (id_str nid) (\<lambda>hexbuf. bindr (r_printf r (lit ''Search started for '' @ hexbuf @ lit ''.'' @ NL)) (\<lambda>r.
         Inr (0, r, m, st)))))
     else if argv ! 0 = lit ''status'' then bindr (cmd_print_status r m) (\<lambda>r. Inr (0, r, m, st))
     else if argv ! 0 = lit ''print_nodes'' then bindr (cmd_print_nodes ntop r m) (\<lambda>r. Inr (0, r, m, st))
     else if argv ! 0 = lit ''print_database'' then bindr (cmd_print_database ntop r m) (\<lambda>r. Inr (0, r, m, st))
     else if argv ! 0 = lit ''shutdown'' then
       bindr (r_printf r (lit ''Shutting down now.'' @ NL)) (\<lambda>r. Inr (0, r, m, MAIN_SHUTDOWN))
     else bindr (r_printf r cmd_usage_str) (\<lambda>r. Inr (1, r, m, st)))"

text \<open>One turn of \<open>cmd_remote_loop\<close>. \<open>sizeof(argv)\<close> is 128: the size of 16 pointers. The
  datagram is written over the start of the request object, without a terminating zero. The last component is
  the datagram that is sent.\<close>

definition cmd_turn :: "(bytes \<Rightarrow> bytes) \<Rightarrow> resolver \<Rightarrow> bytes \<Rightarrow> MAIN \<Rightarrow> status \<Rightarrow> bytes \<Rightarrow> bytes \<Rightarrow>
    (MAIN \<times> status \<times> bytes \<times> bytes list) res" where
  "cmd_turn ntop resolve stack m st request datagram = (if length datagram = 0 then Inr (m, st, request, [])
     else bindr (wr request 0 (take 1499 datagram)) (\<lambda>request.
       bindr (r_init stack) (\<lambda>reply. bindr (r_printf reply (lit ''_'')) (\<lambda>reply.
       bindr (cmd_to_args request 16 (16 * 8)) (\<lambda>(request, argv).
       bindr (cmd_exec ntop resolve reply m st argv) (\<lambda>(rc, reply, m, st).
       bindr (wr (r_data reply) 0 (if rc = 0 then lit ''0'' else lit ''1'')) (\<lambda>d.
       bindr (rds d 0 (r_size reply)) (\<lambda>out. Inr (m, st, request, [out])))))))))"

text \<open>One turn of \<open>cmd_console_loop\<close> when standard input is ready: \<open>fgets\<close> stores a line with its
  terminating zero, or nothing at the end of the input (\<open>None\<close>), and then the request object is
  executed as it is. The last component is the return code and the text that is printed.\<close>

definition cmd_console_turn :: "(bytes \<Rightarrow> bytes) \<Rightarrow> resolver \<Rightarrow> bytes \<Rightarrow> MAIN \<Rightarrow> status \<Rightarrow> bytes \<Rightarrow> bytes option \<Rightarrow>
    (MAIN \<times> status \<times> bytes \<times> int \<times> bytes) res" where
  "cmd_console_turn ntop resolve stack m st request line =
    bindr (case line of None \<Rightarrow> Inr request | Some s \<Rightarrow> wr request 0 (take 511 s @ [0])) (\<lambda>request.
    bindr (cmd_to_args request 16 (16 * 8)) (\<lambda>(request, argv).
    bindr (r_init stack) (\<lambda>reply.
    bindr (cmd_exec ntop resolve reply m st argv) (\<lambda>(rc, reply, m, st).
      Inr (m, st, request, rc, takeWhile (\<lambda>c. c \<noteq> 0) (take (r_size reply) (r_data reply)))))))"

end
