(* ===== verification/Web.thy ===== *)
theory Web
  imports Cmd
begin

text \<open>
  The web server of the daemon, \<open>src/src/masala-web.c\<close>: reading the name from a request, the
  lookup, and the reply. \<open>clientbuf\<close> has 1500 bytes of which \<open>recv\<close> fills the first \<open>rc\<close>; the reply is
  formatted into an object of 512. A struct request lives in memory of its own from \<open>myalloc\<close> until
  \<open>myfree\<close>; \<open>w_requests\<close> holds the live ones, \<open>w_sent\<close> what was sent on which connection, and
  \<open>w_closed\<close> the connections in the order they were closed. \<open>ntop\<close> is \<open>inet_ntop\<close>.
\<close>

section \<open>Data\<close>

record request =
  q_clientfd :: int
  q_clientaddr :: IP

record WEB =
  w_requests :: "(nat \<times> request) list"
  w_next :: nat
  w_sent :: "(int \<times> bytes) list"
  w_closed :: "int list"

abbreviation CRLF :: bytes where "CRLF \<equiv> [13, 10]"

text \<open>\<open>sprintf\<close> with \<open>reply_fmt\<close>. Its \<open>%ul\<close> is the conversion \<open>%u\<close>, which prints the low 32 bits of the
  argument, and the letter \<open>l\<close>.\<close>

definition reply_fmt :: "nat \<Rightarrow> bytes \<Rightarrow> bytes" where
  "reply_fmt n body = lit ''HTTP/1.1 200 OK'' @ CRLF @ lit ''Connection: close'' @ CRLF @
     lit ''Content-Length: '' @ dec_digits (n mod 2 ^ 32) @ lit ''l'' @ CRLF @
     lit ''Content-Type: text/plain'' @ CRLF @ CRLF @ body"

section \<open>Operations\<close>

definition free_request :: "WEB \<Rightarrow> nat \<Rightarrow> WEB" where
  "free_request w ctx = w\<lparr>w_requests := filter (\<lambda>e. fst e \<noteq> ctx) (w_requests w)\<rparr>"

definition web_reply :: "(bytes \<Rightarrow> bytes) \<Rightarrow> WEB \<Rightarrow> nat \<Rightarrow> bytes option \<Rightarrow> WEB res" where
  "web_reply ntop w ctx address = (case map_of (w_requests w) ctx of None \<Rightarrow> Inl UseAfterFree
     | Some req \<Rightarrow> bindr (case address of None \<Rightarrow> Inr w
         | Some a \<Rightarrow> bindr (rds a 0 16) (\<lambda>a16. let addrbuf = ntop a16; text = reply_fmt (length addrbuf) addrbuf
             in bindr (wr (replicate 512 0) 0 (text @ [0])) (\<lambda>buffer.
                  Inr (w\<lparr>w_sent := w_sent w @ [(q_clientfd req, takeWhile (\<lambda>c. c \<noteq> 0) buffer)]\<rparr>))))
       (\<lambda>w. Inr (free_request (w\<lparr>w_closed := w_closed w @ [q_clientfd req]\<rparr>) ctx)))"

definition web_lookup :: "(bytes \<Rightarrow> bytes) \<Rightarrow> MAIN \<Rightarrow> WEB \<Rightarrow> nat \<Rightarrow> bytes \<Rightarrow> (MAIN \<times> WEB) res" where
  "web_lookup ntop m w ctx nid = bindr (db_address m nid) (\<lambda>addr. case addr of
       Some ip \<Rightarrow> bindr (web_reply ntop w ctx (Some (sin6_addr ip))) (\<lambda>w. Inr (m, w))
     | None \<Rightarrow> bindr (lkp_put m nid (Some ctx)) (\<lambda>m. Inr (m, w)))"

text \<open>\<open>strchr\<close> from a position: the offset of the character, \<open>None\<close> when the string ends before it.\<close>

fun strchr :: "bytes \<Rightarrow> u8 \<Rightarrow> nat option res" where
  "strchr [] c = Inl OutOfBounds"
| "strchr (x # xs) c = (if x = c then Inr (Some 0) else if x = 0 then Inr None
     else bindr (strchr xs c) (\<lambda>r. Inr (map_option Suc r)))"

text \<open>One turn of \<open>web_loop\<close>: a connection is accepted and \<open>recv\<close> returns \<open>rc\<close> with the buffer as it
  then is. The last component is \<open>clientfd\<close> afterwards: 0 when the connection was handed to a lookup.\<close>

definition web_serve :: "(bytes \<Rightarrow> bytes) \<Rightarrow> MAIN \<Rightarrow> WEB \<Rightarrow> int \<Rightarrow> IP \<Rightarrow> bytes \<Rightarrow> int \<Rightarrow> (MAIN \<times> WEB \<times> int) res" where
  "web_serve ntop m w clientfd clientaddr clientbuf rc =
    (let drop_it = Inr (m, w, clientfd)
     in if rc < 6 \<or> take 5 clientbuf \<noteq> lit ''GET /'' then drop_it
        else bindr (wr clientbuf (nat rc) [32]) (\<lambda>clientbuf.
          bindr (strchr (drop 5 clientbuf) 32) (\<lambda>hex_end. case hex_end of None \<Rightarrow> drop_it
          | Some n \<Rightarrow> let name = take n (drop 5 clientbuf)
              in if length name = 0 \<or> name = lit ''favicon.ico'' then drop_it
                 else bindr (p2p_compute_id name) (\<lambda>nid.
                   let ctx = w_next w; req = \<lparr>q_clientfd = clientfd, q_clientaddr = clientaddr\<rparr>
                   in bindr (web_lookup ntop m (w\<lparr>w_requests := (ctx, req) # w_requests w, w_next := Suc ctx\<rparr>) ctx nid)
                        (\<lambda>(m, w). Inr (m, w, 0))))))"

text \<open>A connection that was not handed to a lookup is closed at the start of the next turn.\<close>

definition web_close :: "WEB \<Rightarrow> int \<Rightarrow> WEB" where
  "web_close w clientfd = (if clientfd > 0 then w\<lparr>w_closed := w_closed w @ [clientfd]\<rparr> else w)"

definition web_turn :: "(bytes \<Rightarrow> bytes) \<Rightarrow> MAIN \<Rightarrow> WEB \<Rightarrow> int \<Rightarrow> IP \<Rightarrow> bytes \<Rightarrow> int \<Rightarrow> (MAIN \<times> WEB) res" where
  "web_turn ntop m w clientfd clientaddr clientbuf rc = bindr (web_serve ntop m w clientfd clientaddr clientbuf rc)
     (\<lambda>(m, w, clientfd). Inr (m, web_close w clientfd))"

section \<open>What a request leads to\<close>

lemma strchr_space: "0 \<notin> set n \<Longrightarrow> 32 \<notin> set n \<Longrightarrow> strchr (n @ 32 # r) 32 = Inr (Some (length n))"
  by (induction n) auto

lemma strchr_stops: "32 \<in> set xs \<Longrightarrow> \<exists>r. strchr xs 32 = Inr r"
  by (induction xs) auto

definition requests_ok :: "WEB \<Rightarrow> bool" where
  "requests_ok w \<longleftrightarrow> (\<forall>e \<in> set (w_requests w). fst e < w_next w)"

text \<open>The space that is written behind the received bytes ends the search for one: whatever is received,
  the name lies in the buffer.\<close>

lemma name_in_buffer:
  assumes "length buf = 1500" "5 \<le> n" "n < 1500"
  shows "\<exists>b r. wr buf n [32] = Inr b \<and> strchr (drop 5 b) 32 = Inr r"
proof -
  let ?b = "take n buf @ [32] @ drop (n + 1) buf"
  have "drop 5 ?b = drop 5 (take n buf) @ 32 # drop (n + 1) buf" using assms by simp
  then have "32 \<in> set (drop 5 ?b)" by simp
  from strchr_stops[OF this] show ?thesis using assms by (auto simp: wr_def)
qed

text \<open>A request line for a name, at the front of the buffer.\<close>

definition asks_for :: "bytes \<Rightarrow> bytes \<Rightarrow> int \<Rightarrow> bool" where
  "asks_for name buf rc \<longleftrightarrow> name \<noteq> [] \<and> name \<noteq> lit ''favicon.ico'' \<and> 0 \<notin> set name \<and> 32 \<notin> set name \<and>
     length buf = 1500 \<and> rc < 1500 \<and>
     (\<exists>rest. buf = lit ''GET /'' @ name @ 32 # rest \<and> int (length name) + 5 < rc)"

lemma turn_name:
  assumes "asks_for name buf rc" "requests_ok w"
  shows "web_turn ntop m w fd client buf rc = (case p2p_compute_id name of Inl e \<Rightarrow> Inl e
    | Inr nid \<Rightarrow> web_lookup ntop m (w\<lparr>w_requests := (w_next w, \<lparr>q_clientfd = fd, q_clientaddr = client\<rparr>) # w_requests w,
        w_next := Suc (w_next w)\<rparr>) (w_next w) nid)"
proof -
  from assms(1) obtain rest where buf: "buf = lit ''GET /'' @ name @ 32 # rest"
    and rc: "int (length name) + 5 < rc" "rc < 1500" "length buf = 1500"
    and name: "name \<noteq> []" "name \<noteq> lit ''favicon.ico''" "0 \<notin> set name" "32 \<notin> set name"
    by (auto simp: asks_for_def)
  have get: "length (lit ''GET /'') = 5" by (simp add: lit_def)
  have rc6: "6 \<le> rc" using rc(1) name(1) by (cases name) auto
  define k where "k = nat rc - (length name + 6)"
  have k: "nat rc = 5 + (length name + (1 + k))" "k < length rest"
    using rc get unfolding k_def buf by auto
  let ?rest = "take k rest @ 32 # drop (Suc k) rest"
  have "wr buf (nat rc) [32] = Inr (lit ''GET /'' @ name @ 32 # ?rest)"
    using k rc(3) unfolding wr_def by (simp add: buf get)
  moreover have "drop 5 (lit ''GET /'' @ name @ 32 # ?rest) = name @ 32 # ?rest" "take 5 buf = lit ''GET /''"
    using get by (simp_all add: buf)
  ultimately show ?thesis
    using rc6 name strchr_space[OF name(3,4), of ?rest]
    by (simp add: web_turn_def web_serve_def web_close_def Let_def bindr_def get split: sum.split)
qed

lemma free_newest_request:
  assumes "requests_ok w"
  shows "free_request (w\<lparr>w_requests := (w_next w, q) # w_requests w, w_next := n, w_sent := s, w_closed := c\<rparr>) (w_next w)
    = w\<lparr>w_next := n, w_sent := s, w_closed := c\<rparr>"
proof -
  have "filter (\<lambda>e. fst e \<noteq> w_next w) (w_requests w) = w_requests w"
    using assms by (auto simp: requests_ok_def filter_id_conv)
  then show ?thesis by (simp add: free_request_def)
qed

lemma length_reply:
  assumes "length body \<le> 45"
  shows "length (reply_fmt (length body) body) < 512"
proof -
  have "length (dec_digits (length body)) \<le> 2" by (rule dec_digits_length) (use assms in simp_all)
  then show ?thesis using assms by (simp add: reply_fmt_def lit_def)
qed

lemma reply_no_zero: "0 \<notin> set body \<Longrightarrow> 0 \<notin> set (reply_fmt n body)"
  using dec_digits_all[of "n mod 2 ^ 32"] by (auto simp: reply_fmt_def lit_def)

lemma reply_known:
  assumes "map_of (w_requests w) ctx = Some q" "length a = 16" "length (ntop a) \<le> 45" "0 \<notin> set (ntop a)"
  shows "web_reply ntop w ctx (Some a) = Inr (free_request (w\<lparr>w_sent := w_sent w @
      [(q_clientfd q, reply_fmt (length (ntop a)) (ntop a))], w_closed := w_closed w @ [q_clientfd q]\<rparr>) ctx)"
proof -
  let ?t = "reply_fmt (length (ntop a)) (ntop a)"
  have "\<forall>c \<in> set ?t. c \<noteq> 0" using reply_no_zero[OF assms(4)] by auto
  then have "takeWhile (\<lambda>c. c \<noteq> 0) (?t @ 0 # r) = ?t" for r by simp
  then show ?thesis
    using length_reply[OF assms(3)] assms(1,2) by (simp add: web_reply_def rds_def wr_def Let_def)
qed

text \<open>The state after an answered request.\<close>

definition answered :: "(bytes \<Rightarrow> bytes) \<Rightarrow> WEB \<Rightarrow> int \<Rightarrow> bytes \<Rightarrow> WEB" where
  "answered ntop w fd a = w\<lparr>w_next := Suc (w_next w),
     w_sent := w_sent w @ [(fd, reply_fmt (length (ntop a)) (ntop a))], w_closed := w_closed w @ [fd]\<rparr>"

text \<open>C32: A request to the web server for a name: when the host is known, the connection gets one reply
  whose body is the printed address, and is closed; otherwise a lookup starts and nothing is sent
  yet, and when the lookup calls back the connection gets the reply, or nothing if there is no
  address, and is closed. Nothing else changes, and the request is freed.\<close>
theorem web_answers:
  assumes "main_inv True m" "asks_for name buf rc" "requests_ok w" "length name < 2 ^ 32"
    and "\<And>a. length (ntop a) \<le> 45 \<and> 0 \<notin> set (ntop a)"
  shows "case hosts m (host_key name) of
      Some db \<Rightarrow> web_turn ntop m w fd client buf rc = Inr (m, answered ntop w fd (sin6_addr (d_addr db)))
    | None \<Rightarrow> \<exists>m' w'. web_turn ntop m w fd client buf rc = Inr (m', w') \<and>
        lkp_put m (host_key name) (Some (w_next w)) = Inr m' \<and> w_sent w' = w_sent w \<and> w_closed w' = w_closed w \<and>
        (\<forall>a. length a = 16 \<longrightarrow> web_reply ntop w' (w_next w) (Some a) = Inr (answered ntop w fd a)) \<and>
        web_reply ntop w' (w_next w) None = Inr (w\<lparr>w_next := Suc (w_next w), w_closed := w_closed w @ [fd]\<rparr>)"
proof -
  let ?k = "host_key name" and ?q = "\<lparr>q_clientfd = fd, q_clientaddr = client\<rparr>"
  let ?w = "w\<lparr>w_requests := (w_next w, ?q) # w_requests w, w_next := Suc (w_next w)\<rparr>"
  note key = compute_id_key[OF assms(4)]
  have ok: "db_ok (database m)" using main_inv_parts[OF assms(1)] by simp
  have turn: "web_turn ntop m w fd client buf rc = web_lookup ntop m ?w (w_next w) ?k"
    by (simp add: turn_name[OF assms(2,3)] key(1))
  have free: "free_request (?w\<lparr>w_sent := s, w_closed := c\<rparr>) (w_next w) = w\<lparr>w_next := Suc (w_next w), w_sent := s, w_closed := c\<rparr>" for s c
    using free_newest_request[OF assms(3), where q = ?q and n = "Suc (w_next w)" and s = s and c = c] by simp
  have reply: "web_reply ntop ?w (w_next w) (Some a) = Inr (answered ntop w fd a)" if "length a = 16" for a
    using reply_known[of ?w "w_next w" ?q a ntop] that assms(5)[of a] by (simp add: answered_def free)
  show ?thesis
  proof (cases "hosts m ?k")
    case None
    from lkp_put_inv[OF assms(1) key(2), of "Some (w_next w)"] obtain m' where
      m': "lkp_put m ?k (Some (w_next w)) = Inr m'" by (auto simp: post_def match_faults_def split: sum.splits)
    have "web_reply ntop ?w (w_next w) None = Inr (w\<lparr>w_next := Suc (w_next w), w_closed := w_closed w @ [fd]\<rparr>)"
      using free[where s = "w_sent w"] by (simp add: web_reply_def)
    then show ?thesis
      using reply m' by (simp add: None turn web_lookup_def db_address_spec[OF ok])
  next
    case (Some db)
    then have "length (sin6_addr (d_addr db)) = 16"
      using db_find_cases[OF ok, of ?k] by (metis addr_ok_def db_entry_ok_def option.distinct(1) option.inject)
    then show ?thesis using reply by (simp add: Some turn web_lookup_def db_address_spec[OF ok])
  qed
qed

theorem web_answers_witness:
  "\<exists>m' w' rest. length (lit ''GET /foo '' @ rest) = 1500 \<and>
    web_turn (\<lambda>a. lit ''::1'') main0 \<lparr>w_requests = [], w_next = 0, w_sent = [], w_closed = []\<rparr> 7 no_addr
      (lit ''GET /foo '' @ rest) 20 = Inr (m', w') \<and>
    web_reply (\<lambda>a. lit ''::1'') w' 0 (Some (replicate 16 5))
      = Inr \<lparr>w_requests = [], w_next = 1, w_sent = [(7, reply_fmt 3 (lit ''::1''))], w_closed = [7]\<rparr>"
proof -
  let ?w = "\<lparr>w_requests = [], w_next = 0, w_sent = [], w_closed = []\<rparr> :: WEB" and ?n = "lit ''foo''"
  let ?rest = "replicate 1491 (9 :: u8)"
  have len: "length (lit ''GET /foo '' @ ?rest) = 1500" by (simp add: lit_def)
  have "lit ''GET /foo '' @ ?rest = lit ''GET /'' @ ?n @ 32 # ?rest" by (simp add: lit_def del: replicate.simps)
  then have a: "asks_for ?n (lit ''GET /foo '' @ ?rest) 20"
    using len unfolding asks_for_def by (intro conjI exI[of _ ?rest]) (simp_all add: lit_def)
  have h: "hosts main0 (host_key ?n) = None" by (simp add: main0_def main_start_def db_init_def)
  have w: "requests_ok ?w" and n: "length ?n < 2 ^ 32" by (simp_all add: requests_ok_def lit_def)
  have t: "\<And>a. length (lit ''::1'') \<le> 45 \<and> 0 \<notin> set (lit ''::1'')" by (simp add: lit_def)
  have "length (lit ''::1'') = 3" by (simp add: lit_def)
  then obtain m' w' where "web_turn (\<lambda>a. lit ''::1'') main0 ?w 7 no_addr (lit ''GET /foo '' @ ?rest) 20 = Inr (m', w')"
    "web_reply (\<lambda>a. lit ''::1'') w' 0 (Some (replicate 16 5))
      = Inr \<lparr>w_requests = [], w_next = 1, w_sent = [(7, reply_fmt 3 (lit ''::1''))], w_closed = [7]\<rparr>"
    using web_answers[OF main_inv_main0 a w n t, of 7 no_addr] unfolding h by (auto simp: answered_def)
  with len show ?thesis by blast
qed

end
