(* ===== verification/CmdProps.thy ===== *)
theory CmdProps
  imports Cmd
begin

text \<open>
  The remote control of \<open>Cmd\<close>: a command line is split into its words as long as there are at most
  16, and a reply arrives whole as long as it fits the reply object; both limits can be exceeded
  from outside, and then the daemon writes or reads outside its objects.
\<close>

section \<open>Words\<close>

fun splitb :: "bytes \<Rightarrow> bytes list" where
  "splitb [] = [[]]"
| "splitb (c # s) = (if blank c then [] # splitb s else (c # hd (splitb s)) # tl (splitb s))"

text \<open>The words of a line: what stands between blanks. A byte from 0x80 on counts as a blank.\<close>

definition words_of :: "bytes \<Rightarrow> bytes list" where
  "words_of s = filter (\<lambda>w. w \<noteq> []) (splitb s)"

lemma splitb_word: "\<forall>c \<in> set w. \<not> blank c \<Longrightarrow> splitb (w @ s) = (w @ hd (splitb s)) # tl (splitb s)"
proof (induction w)
  case Nil
  then show ?case by (cases s) simp_all
qed simp

lemma words_simps:
  "words_of [] = []" "blank c \<Longrightarrow> words_of (c # s) = words_of s"
  "w \<noteq> [] \<Longrightarrow> \<forall>c \<in> set w. \<not> blank c \<Longrightarrow> words_of w = [w]"
  "w \<noteq> [] \<Longrightarrow> \<forall>c \<in> set w. \<not> blank c \<Longrightarrow> blank c \<Longrightarrow> words_of (w @ c # s) = w # words_of s"
  using splitb_word[of w "[]"] splitb_word[of w "c # s"] by (simp_all add: words_of_def)

definition zeroed :: "bytes \<Rightarrow> bytes" where
  "zeroed = map (\<lambda>c. if blank c then 0 else c)"

lemma blank_zero [simp]: "blank 0"
  by (simp add: blank_def schar_def)

lemma zeroed_word: "\<forall>c \<in> set w. \<not> blank c \<Longrightarrow> zeroed w = w"
  by (induction w) (simp_all add: zeroed_def)

lemma takeWhile_zero: "0 \<notin> set w \<Longrightarrow> takeWhile (\<lambda>c. c \<noteq> 0) (w @ 0 # s) = w"
  by (induction w) auto

lemma args_words:
  "argc \<le> slots \<Longrightarrow> slots \<le> max_argv \<Longrightarrow> args_loop slots (Suc max_argv) (zeroed s @ [0]) argc
    = (if argc + length (words_of s) \<le> slots then Inr (words_of s) else Inl OutOfBounds)"
proof (induction "length s" arbitrary: s argc rule: less_induct)
  case less
  show ?case
  proof (cases s)
    case Nil
    then show ?thesis using less.prems
      by (subst args_loop.simps, simp add: zeroed_def words_simps, subst args_loop.simps, simp)
  next
    case (Cons c r)
    show ?thesis
    proof (cases "blank c")
      case True
      then show ?thesis using less.hyps[of r argc] less.prems
        by (subst args_loop.simps) (simp add: Cons words_simps zeroed_def)
    next
      case False
      define w where "w = takeWhile (\<lambda>c. \<not> blank c) s"
      define t where "t = dropWhile (\<lambda>c. \<not> blank c) s"
      have s: "s = w @ t" by (simp add: w_def t_def)
      have w: "w \<noteq> []" "\<forall>c \<in> set w. \<not> blank c" using False Cons by (auto simp: w_def dest: set_takeWhileD)
      then have no0: "0 \<notin> set w" by auto
      obtain rest where rest: "zeroed t @ [0] = 0 # rest" "words_of s = w # (if t = [] then [] else words_of (tl t))"
        "rest = (if t = [] then [] else zeroed (tl t) @ [0])"
      proof (cases t)
        case Nil
        then show ?thesis using that[of "[]"] w by (simp add: s words_simps zeroed_def)
      next
        case (Cons b u)
        then have "blank b" by (metis hd_dropWhile list.discI list.sel(1) t_def)
        then show ?thesis using that[of "zeroed u @ [0]"] w Cons by (simp add: s words_simps zeroed_def)
      qed
      have z: "zeroed s @ [0] = w @ 0 # rest"
        using rest(1) zeroed_word[OF w(2)] by (simp add: s zeroed_def)
      obtain d v where dv: "w = d # v" using w(1) by (cases w) auto
      have "d \<noteq> 0" using no0 dv by auto
      have tw: "takeWhile (\<lambda>c. c \<noteq> 0) (w @ 0 # rest) = w" by (rule takeWhile_zero[OF no0])
      have loop: "args_loop slots (Suc max_argv) (w @ 0 # rest) argc = (if argc \<ge> slots then Inl OutOfBounds
          else bindr (args_loop slots (Suc max_argv) rest (argc + 1)) (\<lambda>ws. Inr (w # ws)))"
        using less.prems tw \<open>d \<noteq> 0\<close> by (subst args_loop.simps) (simp add: dv Let_def)
      show ?thesis
      proof (cases "t = []")
        case True
        then show ?thesis using less.prems unfolding z loop rest(2)
          by (subst args_loop.simps) (simp add: rest(3))
      next
        case ne: False
        have "length (tl t) < length s" using ne w(1) by (cases t) (simp_all add: s)
        then have "args_loop slots (Suc max_argv) rest (argc + 1) = (if argc + 1 + length (words_of (tl t)) \<le> slots
            then Inr (words_of (tl t)) else Inl OutOfBounds)" if "argc < slots"
          using less.hyps[of "tl t" "argc + 1"] less.prems that ne by (simp add: rest(3))
        then show ?thesis using less.prems ne unfolding z loop rest(2) by simp
      qed
    qed
  qed
qed

lemma strlen_string: "0 \<notin> set s \<Longrightarrow> strlen (s @ 0 # r) = Inr (length s)"
  by (simp add: strlen_def takeWhile_zero)

text \<open>Splitting of a command line of the request object: the words of its string when there are at most
  16; with more the argument vector is left.\<close>

lemma cmd_to_args_words:
  assumes "0 \<notin> set s"
  shows "cmd_to_args (s @ 0 # r) 16 (16 * 8) = (if length (words_of s) \<le> 16
    then Inr (zeroed s @ 0 # r, words_of s) else Inl OutOfBounds)"
proof -
  have "args_loop 16 (16 * 8) (zeroed s @ [0]) 0
      = (if length (words_of s) \<le> 16 then Inr (words_of s) else Inl OutOfBounds)"
    using args_words[of 0 16 127 s] by simp
  then show ?thesis
    by (simp add: cmd_to_args_def strlen_string[OF assms] zeroed_def Let_def)
qed

section \<open>Replies\<close>

text \<open>The reply object holds the text \<open>t\<close>, or as much of it as fits before the last byte.\<close>

definition holds :: "REPLY \<Rightarrow> bytes \<Rightarrow> bool" where
  "holds r t \<longleftrightarrow> length (r_data r) = 1500 \<and> r_size r = length t \<and> take (min 1499 (length t)) (r_data r) = take 1499 t"

lemma printf_holds:
  assumes "holds r t" "s \<noteq> []" "length t \<le> 1500"
  shows "\<exists>r'. r_printf r s = Inr r' \<and> holds r' (t @ s)"
proof (cases "length t = 1500")
  case True
  then show ?thesis using assms by (simp add: r_printf_def holds_def)
next
  case False
  let ?n = "1500 - length t"
  let ?xs = "take (?n - 1) s @ [0]"
  have r: "length (r_data r) = 1500" "r_size r = length t" "take (length t) (r_data r) = t"
    using assms(1,3) False by (auto simp: holds_def)
  have len: "length t + length ?xs \<le> 1500" using False assms(3) by simp
  from wr_take[of "length t" ?xs "r_data r"] len r obtain d where
    d: "wr (r_data r) (length t) ?xs = Inr d" "length d = 1500" "take (length t + length ?xs) d = t @ ?xs" by auto
  have "take (min 1499 (length (t @ s))) d = take (min 1499 (length (t @ s))) (take (length t + length ?xs) d)"
    using assms(3) False by (simp add: min_def)
  also have "\<dots> = take 1499 (t @ s)" unfolding d(3) using assms(3) False by (auto simp: min_def)
  finally have "holds \<lparr>r_data = d, r_size = length t + length s\<rparr> (t @ s)" using d(2) by (simp add: holds_def)
  then show ?thesis using d(1) assms(2,3) False r by (simp add: r_printf_def Let_def)
qed

definition r_prints :: "REPLY \<Rightarrow> bytes list \<Rightarrow> REPLY res" where
  "r_prints r ps = fold_res (\<lambda>s r. r_printf r s) ps r"

lemma r_prints_simps:
  "r_prints r [] = Inr r" "r_prints r (s # ps) = bindr (r_printf r s) (\<lambda>r. r_prints r ps)"
  "r_prints r (ps @ qs) = bindr (r_prints r ps) (\<lambda>r. r_prints r qs)"
  by (simp_all add: r_prints_def fold_res_append)

text \<open>The reply object overflows at the latest when the text is longer than it and goes on.\<close>

lemma prints_holds:
  "holds r t \<Longrightarrow> [] \<notin> set ps \<Longrightarrow>
    (length (t @ concat ps) \<le> 1500 \<longrightarrow> (\<exists>r'. r_prints r ps = Inr r' \<and> holds r' (t @ concat ps))) \<and>
    (r_prints r ps = Inl OutOfBounds \<or> (\<exists>r'. r_prints r ps = Inr r' \<and> holds r' (t @ concat ps)))"
proof (induction ps arbitrary: r t)
  case (Cons s ps)
  show ?case
  proof (cases "length t \<le> 1500")
    case True
    with printf_holds[OF Cons.prems(1), of s] Cons.prems(2) obtain r' where r': "r_printf r s = Inr r'" "holds r' (t @ s)"
      by auto
    with Cons.IH[OF r'(2)] Cons.prems(2) show ?thesis by (simp add: r_prints_simps)
  next
    case False
    then have "r_printf r s = Inl OutOfBounds" using Cons.prems(1) by (simp add: r_printf_def holds_def)
    with False show ?thesis by (simp add: r_prints_simps)
  qed
qed (simp add: r_prints_simps)

section \<open>Listings\<close>

definition hex :: "bytes \<Rightarrow> bytes" where "hex x = concat (map hex2 x)"

lemma id_str_is_hex: "is_id x \<Longrightarrow> id_str x = Inr (hex x)"
  by (simp add: id_str_hex hex_def)

definition node_line :: "(bytes \<Rightarrow> bytes) \<Rightarrow> NODE \<Rightarrow> bytes" where
  "node_line ntop n = lit ''  Node: '' @ hex (n_id n) @ lit '' / '' @ addr_str ntop (n_addr n) @ NL"

definition bucket_lines :: "(bytes \<Rightarrow> bytes) \<Rightarrow> BUCK \<Rightarrow> bytes list" where
  "bucket_lines ntop b = (lit '' Bucket: '' @ hex (b_id b) @ NL) # map (node_line ntop) (b_nodes b) @
     [lit ''  Found '' @ dec_digits (length (b_nodes b)) @ lit '' entries.'' @ NL]"

definition host_line :: "(bytes \<Rightarrow> bytes) \<Rightarrow> DB \<Rightarrow> bytes" where
  "host_line ntop h = lit '' '' @ hex (d_host_id h) @ lit '' / '' @ addr_str ntop (d_addr h) @ NL"

definition listing :: "bytes \<Rightarrow> (bytes \<Rightarrow> bytes) \<Rightarrow> MAIN \<Rightarrow> bytes list" where
  "listing cmd ntop m = (if cmd = lit ''print_nodes''
     then (lit ''Known node id / address pairs from neighborhood:'' @ NL) #
       concat (map (bucket_lines ntop) (bl_items (nbhd m)))
     else (lit ''Known host id / address pairs from value database:'' @ NL) #
       map (host_line ntop \<circ> snd) (s_list (database m)) @
       [lit '' Found '' @ dec_digits (length (s_list (database m))) @ lit '' entries.'' @ NL])"

lemma print_bucket_nodes_prints:
  "\<forall>n \<in> set ns. is_id (n_id n) \<Longrightarrow> print_bucket_nodes ntop r ns = r_prints r (map (node_line ntop) ns)"
  by (induction ns arbitrary: r) (simp_all add: r_prints_simps id_str_is_hex node_line_def)

lemma print_buckets_prints:
  "\<forall>b \<in> set bs. is_id (b_id b) \<and> (\<forall>n \<in> set (b_nodes b). is_id (n_id n)) \<Longrightarrow>
    print_buckets ntop r bs = r_prints r (concat (map (bucket_lines ntop) bs))"
proof (induction bs arbitrary: r)
  case (Cons b bs)
  then show ?case
    by (simp add: bucket_lines_def r_prints_simps id_str_is_hex print_bucket_nodes_prints)
qed (simp add: r_prints_simps)

lemma print_hosts_prints:
  "\<forall>h \<in> set hs. is_id (d_host_id h) \<Longrightarrow> print_hosts ntop r hs = r_prints r (map (host_line ntop) hs)"
  by (induction hs arbitrary: r) (simp_all add: r_prints_simps id_str_is_hex host_line_def)

lemma listing_not_empty: "[] \<notin> set (listing cmd ntop m)"
  by (auto simp: listing_def bucket_lines_def node_line_def host_line_def)

text \<open>Every entry of a listing has at least 49 characters.\<close>

definition entries :: "bytes \<Rightarrow> MAIN \<Rightarrow> nat" where
  "entries cmd m = (if cmd = lit ''print_nodes'' then length (concat (map b_nodes (bl_items (nbhd m))))
     else length (s_list (database m)))"

lemma ids_listed:
  assumes "main_inv gap m"
  shows "\<forall>b \<in> set (bl_items (nbhd m)). is_id (b_id b) \<and> (\<forall>n \<in> set (b_nodes b). is_id (n_id n))"
    "\<forall>(a, h) \<in> set (s_list (database m)). is_id (d_host_id h)"
proof -
  have nb: "bl_inv (nbhd m)" using main_inv_parts[OF assms] by (simp add: nbhd_ok_def)
  then have shape: "\<forall>b \<in> set (bl_items (nbhd m)). is_id (b_id b)" by (simp add: bl_inv_def bl_shape_def)
  have "is_id (n_id n)" if "b \<in> set (bl_items (nbhd m))" "n \<in> set (b_nodes b)" for b n
  proof -
    from that(1) obtain k where "k < length (bl_items (nbhd m))" "bl_items (nbhd m) ! k = b"
      by (auto simp: in_set_conv_nth)
    then show ?thesis using nb that(2) by (auto simp: bl_inv_def bl_nodes_def)
  qed
  with shape show "\<forall>b \<in> set (bl_items (nbhd m)). is_id (b_id b) \<and> (\<forall>n \<in> set (b_nodes b). is_id (n_id n))" by blast
  show "\<forall>(a, h) \<in> set (s_list (database m)). is_id (d_host_id h)"
    using main_inv_parts[OF assms] by (auto simp: db_ok_def db_entry_ok_def)
qed

lemma length_hex_id: "is_id x \<Longrightarrow> length (hex x) = 40"
  unfolding hex_def length_hex by (simp add: length_id)

lemma node_line_length: "is_id (n_id n) \<Longrightarrow> 49 \<le> length (node_line ntop n)"
  by (simp add: node_line_def lit_def addr_str_def length_hex_id)

lemma host_line_length: "is_id (d_host_id h) \<Longrightarrow> 49 \<le> length (host_line ntop h)"
  by (simp add: host_line_def lit_def addr_str_def length_hex_id)
    (cases "dec_digits (be_nat (sin6_port (d_addr h)))"; simp)

lemma concat_long: "\<forall>x \<in> set xs. k \<le> length (f x) \<Longrightarrow> k * length xs \<le> length (concat (map f xs))"
  by (induction xs) auto

lemma bucket_lines_length:
  assumes "\<forall>n \<in> set (b_nodes b). is_id (n_id n)"
  shows "49 * length (b_nodes b) \<le> length (concat (bucket_lines ntop b))"
  using concat_long[of "b_nodes b" 49 "node_line ntop"] assms
  by (simp add: bucket_lines_def node_line_length)

lemma listing_length:
  assumes "main_inv gap m"
  shows "49 * entries cmd m \<le> length (concat (listing cmd ntop m))"
proof (cases "cmd = lit ''print_nodes''")
  case True
  have "49 * length (concat (map b_nodes bs)) \<le> length (concat (concat (map (bucket_lines ntop) bs)))"
    if "\<forall>b \<in> set bs. \<forall>n \<in> set (b_nodes b). is_id (n_id n)" for bs
    using that
  proof (induction bs)
    case (Cons b bs)
    then show ?case using bucket_lines_length[of b ntop] by simp
  qed simp
  from this[of "bl_items (nbhd m)"] show ?thesis
    using ids_listed(1)[OF assms] True by (simp add: listing_def entries_def)
next
  case False
  have "49 * length (s_list (database m)) \<le> length (concat (map (host_line ntop \<circ> snd) (s_list (database m))))"
    by (rule concat_long) (use ids_listed(2)[OF assms] in \<open>auto intro!: host_line_length\<close>)
  then show ?thesis using False by (simp add: listing_def entries_def)
qed

section \<open>A turn of the server\<close>

lemma turn_words:
  assumes "datagram \<noteq> []" "length datagram < 1500" "length request = 1500" "length stack = 1500"
    and "datagram @ drop (length datagram) request = s @ 0 # r" "0 \<notin> set s"
  shows "\<exists>reply. holds reply (lit ''_'') \<and> cmd_turn ntop resolve stack m st request datagram
    = (if length (words_of s) \<le> 16 then
         bindr (cmd_exec ntop resolve reply m st (words_of s)) (\<lambda>(rc, reply, m, st).
         bindr (wr (r_data reply) 0 (if rc = 0 then lit ''0'' else lit ''1'')) (\<lambda>d.
         bindr (rds d 0 (r_size reply)) (\<lambda>out. Inr (m, st, zeroed s @ 0 # r, [out]))))
       else Inl OutOfBounds)"
proof -
  obtain d where d: "wr stack 0 [0] = Inr d" "length d = 1500" using wr_take[of 0 "[0]" stack] assms(4) by auto
  then have init: "r_init stack = Inr \<lparr>r_data = d, r_size = 0\<rparr>" "holds \<lparr>r_data = d, r_size = 0\<rparr> []"
    by (simp_all add: r_init_def holds_def)
  obtain reply where reply: "r_printf \<lparr>r_data = d, r_size = 0\<rparr> (lit ''_'') = Inr reply" "holds reply (lit ''_'')"
    using printf_holds[OF init(2), of "lit ''_''"] by (auto simp: lit_def)
  have w: "wr request 0 (take 1499 datagram) = Inr (s @ 0 # r)"
    using assms(2,3,5) by (simp add: wr_def)
  show ?thesis
    using assms(1) reply(2) cmd_to_args_words[OF assms(6), of r]
    by (intro exI[of _ reply]) (simp add: cmd_turn_def w init(1) reply(1))
qed

text \<open>The reply that is sent.\<close>

lemma send_reply:
  assumes "holds r (lit ''_'' @ t)" "length t < 1499"
  shows "bindr (wr (r_data r) 0 [c]) (\<lambda>d. rds d 0 (r_size r)) = Inr (c # t)"
proof -
  have r: "length (r_data r) = 1500" "r_size r = Suc (length t)" "take (Suc (length t)) (r_data r) = lit ''_'' @ t"
    using assms by (simp_all add: holds_def lit_def)
  have w: "wr (r_data r) 0 [c] = Inr (c # drop 1 (r_data r))" using r(1) by (simp add: wr_def)
  have "drop 1 (take (Suc (length t)) (r_data r)) = t" unfolding r(3) by (simp add: lit_def)
  then have "take (length t) (drop 1 (r_data r)) = t" by (simp add: drop_take)
  then show ?thesis using r(1,2) assms(2) by (simp add: w rds_def)
qed

lemma send_reply_long:
  assumes "holds r (lit ''_'' @ t)" "1499 < length t"
  shows "bindr (wr (r_data r) 0 [c]) (\<lambda>d. rds d 0 (r_size r)) = Inl OutOfBounds"
  using assms by (simp add: holds_def lit_def wr_def rds_def)

lemma exec_listing:
  assumes "main_inv gap m" "holds reply (lit ''_'')" "cmd = lit ''print_nodes'' \<or> cmd = lit ''print_database''"
  shows "cmd_exec ntop resolve reply m st (cmd # args)
    = bindr (r_prints reply (listing cmd ntop m)) (\<lambda>r. Inr (0, r, m, st))"
proof -
  note ids = ids_listed[OF assms(1)]
  have neq: "cmd \<noteq> lit ''ping''" "cmd \<noteq> lit ''lookup''" "cmd \<noteq> lit ''search''" "cmd \<noteq> lit ''status''"
    "lit ''print_database'' \<noteq> lit ''print_nodes''" using assms(3) by (auto simp: lit_def)
  have nodes: "cmd_print_nodes ntop reply m = r_prints reply (listing (lit ''print_nodes'') ntop m)"
    by (simp add: cmd_print_nodes_def listing_def r_prints_simps print_buckets_prints[OF ids(1)])
  have "\<forall>h \<in> set (map snd (s_list (database m))). is_id (d_host_id h)" using ids(2) by auto
  then have hosts: "cmd_print_database ntop reply m = r_prints reply (listing (lit ''print_database'') ntop m)"
    using neq(5) by (simp add: cmd_print_database_def listing_def r_prints_simps print_hosts_prints comp_def)
  show ?thesis using assms(3) neq nodes hosts by (auto simp: cmd_exec_def Let_def)
qed

text \<open>C34: A listing of the remote control: print_nodes and print_database reply with a 0 and the whole
  text of the listing as long as it fits the reply object; a longer one makes the daemon write
  behind the reply object or send bytes from behind it, and 31 known hosts or nodes are enough for
  that. Nothing else of the daemon changes.\<close>
theorem cmd_listing_reply:
  assumes "main_inv gap m" "datagram \<noteq> []" "length datagram < 1500" "length request = 1500" "length stack = 1500"
    and "datagram @ drop (length datagram) request = s @ 0 # r" "0 \<notin> set s"
    and "words_of s = cmd # args" "length args < 16" "cmd = lit ''print_nodes'' \<or> cmd = lit ''print_database''"
  shows "(length (concat (listing cmd ntop m)) < 1499 \<longrightarrow> cmd_turn ntop resolve stack m st request datagram
      = Inr (m, st, zeroed s @ 0 # r, [lit ''0'' @ concat (listing cmd ntop m)])) \<and>
    (1499 < length (concat (listing cmd ntop m)) \<or> 31 \<le> entries cmd m \<longrightarrow>
      cmd_turn ntop resolve stack m st request datagram = Inl OutOfBounds)"
proof -
  let ?t = "concat (listing cmd ntop m)"
  obtain reply where reply: "holds reply (lit ''_'')" "cmd_turn ntop resolve stack m st request datagram
    = bindr (cmd_exec ntop resolve reply m st (words_of s)) (\<lambda>(rc, reply, m, st).
        bindr (wr (r_data reply) 0 (if rc = 0 then lit ''0'' else lit ''1'')) (\<lambda>d.
        bindr (rds d 0 (r_size reply)) (\<lambda>out. Inr (m, st, zeroed s @ 0 # r, [out]))))"
    using turn_words[OF assms(2-7), of ntop resolve m st] assms(8,9) by auto
  have turn: "cmd_turn ntop resolve stack m st request datagram = bindr (r_prints reply (listing cmd ntop m))
      (\<lambda>reply. bindr (bindr (wr (r_data reply) 0 (lit ''0'')) (\<lambda>d. rds d 0 (r_size reply)))
        (\<lambda>out. Inr (m, st, zeroed s @ 0 # r, [out])))"
    unfolding reply(2) assms(8) exec_listing[OF assms(1) reply(1) assms(10)] by (simp add: bindr_assoc)
  have zero_text: "lit ''0'' = [48]" by (simp add: lit_def)
  have long: "1499 < length ?t" if "31 \<le> entries cmd m"
    using listing_length[OF assms(1), of cmd ntop] that by linarith
  note ps = prints_holds[OF reply(1) listing_not_empty[of cmd ntop m]]
  show ?thesis
  proof (intro conjI impI)
    assume "length ?t < 1499"
    then obtain r' where "r_prints reply (listing cmd ntop m) = Inr r'" "holds r' (lit ''_'' @ ?t)"
      using ps by (auto simp: lit_def)
    then show "cmd_turn ntop resolve stack m st request datagram = Inr (m, st, zeroed s @ 0 # r, [lit ''0'' @ ?t])"
      using send_reply[of r' ?t 48] \<open>length ?t < 1499\<close> by (simp add: turn zero_text)
  next
    assume "1499 < length ?t \<or> 31 \<le> entries cmd m"
    then have "1499 < length ?t" using long by auto
    then show "cmd_turn ntop resolve stack m st request datagram = Inl OutOfBounds"
      using ps send_reply_long[of _ ?t 48] by (auto simp: turn zero_text)
  qed
qed

theorem cmd_listing_reply_witness:
  "cmd_turn (\<lambda>a. []) (\<lambda>a p. Inr []) (replicate 1500 9) main0 MAIN_ONLINE (replicate 1500 0) (lit ''print_database'')
    = Inr (main0, MAIN_ONLINE, lit ''print_database'' @ 0 # replicate 1485 0,
        [lit ''0'' @ concat (listing (lit ''print_database'') (\<lambda>a. []) main0)])"
proof -
  let ?s = "lit ''print_database''"
  have nb: "\<forall>c \<in> set ?s. \<not> blank c" by (simp add: lit_def blank_def schar_def)
  have s: "words_of ?s = [?s]" "zeroed ?s = ?s" "0 \<notin> set ?s" "length ?s = 14"
    using words_simps(3)[OF _ nb] zeroed_word[OF nb] nb by (auto simp: lit_def)
  have r: "?s @ drop (length ?s) (replicate 1500 0) = ?s @ 0 # replicate 1485 0"
  proof -
    have "(1500 - 14 :: nat) = Suc 1485" by simp
    then have "drop 14 (replicate 1500 (0 :: u8)) = 0 # replicate 1485 0"
      by (simp only: drop_replicate replicate_Suc)
    then show ?thesis unfolding s(4) by (simp only:)
  qed
  have "s_list (database main0) = []" by (simp add: main0_def main_start_def db_init_def store_init_def)
  then have "length (concat (listing ?s (\<lambda>a. []) main0)) < 1499"
    by (simp add: listing_def lit_def dec_digits.simps)
  moreover have "?s \<noteq> []" "length ?s < 1500" using s(4) by auto
  ultimately show ?thesis
    using cmd_listing_reply[OF main_inv_main0[of True] _ _ _ _ r s(3), of "replicate 1500 9" ?s "[]" "\<lambda>a. []" "\<lambda>a p. Inr []"
        MAIN_ONLINE] s(1,2) by simp
qed

definition lookup_text :: "(bytes \<Rightarrow> bytes) \<Rightarrow> bytes \<Rightarrow> DB option \<Rightarrow> bytes list" where
  "lookup_text ntop k known = [lit ''Lookup '' @ hex k @ NL, (case known of
       Some db \<Rightarrow> lit ''Address found: '' @ addr_str ntop (d_addr db) @ NL
     | None \<Rightarrow> lit ''No address found.'' @ NL)]"

lemma exec_lookup:
  assumes "main_inv gap m" "length name < 2 ^ 32"
  shows "cmd_exec ntop resolve reply m st [lit ''lookup'', name]
    = bindr (r_prints reply (lookup_text ntop (host_key name) (hosts m (host_key name))))
        (\<lambda>r. Inr (if hosts m (host_key name) = None then 1 else 0, r, m, st))"
proof -
  have ok: "db_ok (database m)" using main_inv_parts[OF assms(1)] by simp
  have neq: "lit ''lookup'' \<noteq> lit ''ping''" by (simp add: lit_def)
  note key = compute_id_key[OF assms(2)]
  show ?thesis
    by (cases "hosts m (host_key name)")
      (simp_all add: cmd_exec_def Let_def neq key id_str_is_hex db_address_spec[OF ok] lookup_text_def r_prints_simps bindr_assoc)
qed

lemma digits_short: "length p = 2 \<Longrightarrow> length (dec_digits (be_nat p)) \<le> 5"
  using be_nat_less[of p] by (intro dec_digits_length) simp_all

text \<open>A request of the remote control: the arguments are the words of the request object up to its
  first zero byte, so of the datagram and of what an earlier, longer request left behind it. With
  more than 16 words the daemon writes behind its argument vector. The lookup of a name alone is
  answered with the address of the host in the database, or with code 1 if there is none.\<close>
lemma cmd_request:
  assumes "main_inv gap m" "datagram \<noteq> []" "length datagram < 1500" "length request = 1500" "length stack = 1500"
    and "datagram @ drop (length datagram) request = s @ 0 # r" "0 \<notin> set s" "\<And>a. length (ntop a) \<le> 45"
  shows "(16 < length (words_of s) \<longrightarrow> cmd_turn ntop resolve stack m st request datagram = Inl OutOfBounds) \<and>
    (\<forall>name. words_of s = [lit ''lookup'', name] \<longrightarrow> length name < 2 ^ 32 \<longrightarrow>
      cmd_turn ntop resolve stack m st request datagram = Inr (m, st, zeroed s @ 0 # r,
        [(if hosts m (host_key name) = None then lit ''1'' else lit ''0'') @
         concat (lookup_text ntop (host_key name) (hosts m (host_key name)))]))"
proof (intro conjI allI impI)
  assume "16 < length (words_of s)"
  then show "cmd_turn ntop resolve stack m st request datagram = Inl OutOfBounds"
    using turn_words[OF assms(2-7), of ntop resolve m st] by auto
next
  fix name
  assume w: "words_of s = [lit ''lookup'', name]" "length name < 2 ^ 32"
  let ?k = "host_key name" and ?none = "hosts m (host_key name) = None"
  let ?ps = "lookup_text ntop ?k (hosts m ?k)"
  have ok: "db_ok (database m)" using main_inv_parts[OF assms(1)] by simp
  obtain reply where reply: "holds reply (lit ''_'')" "cmd_turn ntop resolve stack m st request datagram
    = bindr (cmd_exec ntop resolve reply m st [lit ''lookup'', name]) (\<lambda>(rc, reply, m, st).
        bindr (wr (r_data reply) 0 (if rc = 0 then lit ''0'' else lit ''1'')) (\<lambda>d.
        bindr (rds d 0 (r_size reply)) (\<lambda>out. Inr (m, st, zeroed s @ 0 # r, [out]))))"
    using turn_words[OF assms(2-7), of ntop resolve m st] w by auto
  have id: "is_id ?k" by (rule compute_id_key[OF w(2)])
  have "length (concat ?ps) < 1499"
  proof (cases "hosts m ?k")
    case (Some db)
    then have "length (sin6_port (d_addr db)) = 2"
      using db_find_cases[OF ok, of ?k] by (metis addr_ok_def db_entry_ok_def option.distinct(1) option.inject)
    then show ?thesis
      using Some digits_short[of "sin6_port (d_addr db)"] assms(8)[of "sin6_addr (d_addr db)"]
      by (simp add: lookup_text_def length_hex_id[OF id] lit_def addr_str_def)
  qed (simp add: lookup_text_def length_hex_id[OF id] lit_def)
  moreover have "[] \<notin> set ?ps" by (simp add: lookup_text_def split: option.splits)
  ultimately obtain r' where r': "r_prints reply ?ps = Inr r'" "holds r' (lit ''_'' @ concat ?ps)"
    using prints_holds[OF reply(1), of ?ps] by (auto simp: lit_def)
  have "lit ''0'' = [48]" "lit ''1'' = [49]" by (simp_all add: lit_def)
  then show "cmd_turn ntop resolve stack m st request datagram = Inr (m, st, zeroed s @ 0 # r,
      [(if ?none then lit ''1'' else lit ''0'') @ concat ?ps])"
    using send_reply[OF r'(2) \<open>length (concat ?ps) < 1499\<close>]
    by (simp add: reply(2) exec_lookup[OF assms(1) w(2)] r'(1) flip: bindr_assoc)
qed

text \<open>A lookup after a longer command: what is left of that command becomes a third word, and the lookup
  is answered with the usage.\<close>

lemma leftover_word: "words_of (lit ''lookup foo'' @ NL @ lit ''rest'') = [lit ''lookup'', lit ''foo'', lit ''rest'']"
proof -
  have nb: "\<forall>c \<in> set (lit ''lookup''). \<not> blank c" "\<forall>c \<in> set (lit ''foo''). \<not> blank c" "\<forall>c \<in> set (lit ''rest''). \<not> blank c"
    "blank 32" "blank 10" "lit ''lookup'' \<noteq> []" "lit ''foo'' \<noteq> []" "lit ''rest'' \<noteq> []"
    by (simp_all add: lit_def blank_def schar_def)
  have "lit ''lookup foo'' @ NL @ lit ''rest'' = lit ''lookup'' @ 32 # lit ''foo'' @ 10 # lit ''rest''"
    by (simp add: lit_def)
  then show ?thesis using nb by (simp add: words_simps)
qed

lemma cmd_request_example:
  "cmd_turn (\<lambda>a. []) (\<lambda>a p. Inr []) (replicate 1500 9) main0 MAIN_ONLINE (replicate 1500 0) (lit ''lookup foo'')
    = Inr (main0, MAIN_ONLINE, zeroed (lit ''lookup foo'') @ 0 # replicate 1489 0,
        [lit ''1'' @ concat (lookup_text (\<lambda>a. []) (host_key (lit ''foo'')) None)])"
proof -
  let ?s = "lit ''lookup foo''"
  have nb: "\<forall>c \<in> set (lit ''lookup''). \<not> blank c" "\<forall>c \<in> set (lit ''foo''). \<not> blank c" "blank 32"
    "lit ''lookup'' \<noteq> []" "lit ''foo'' \<noteq> []" by (simp_all add: lit_def blank_def schar_def)
  have "?s = lit ''lookup'' @ 32 # lit ''foo''" by (simp add: lit_def)
  then have w: "words_of ?s = [lit ''lookup'', lit ''foo'']" using nb by (simp add: words_simps)
  have s: "0 \<notin> set ?s" "length ?s = 10" "?s \<noteq> []" "length ?s < 1500" by (simp_all add: lit_def)
  have "(1500 - 10 :: nat) = Suc 1489" by simp
  then have "drop 10 (replicate 1500 (0 :: u8)) = 0 # replicate 1489 0"
    by (simp only: drop_replicate replicate_Suc)
  then have r: "?s @ drop (length ?s) (replicate 1500 0) = ?s @ 0 # replicate 1489 0"
    unfolding s(2) by (simp only:)
  have n: "hosts main0 (host_key (lit ''foo'')) = None" "length (lit ''foo'') < 2 ^ 32"
    by (simp_all add: main0_def main_start_def db_init_def lit_def)
  show ?thesis
    using cmd_request[OF main_inv_main0[of True] s(3,4) _ _ r s(1), of "replicate 1500 9" "\<lambda>a. []" "\<lambda>a p. Inr []" MAIN_ONLINE]
      w n by simp
qed

end
