(* ===== verification/Ctl.thy ===== *)
theory Ctl
  imports CmdProps
begin

text \<open>
  The command line client \<open>src/src/masala-ctl.c\<close>: its arguments become one line, which is sent to the
  remote control of the daemon; the first byte of the reply says where the rest is printed and
  which code the client exits with. The buffer is an object of 1500 bytes. What \<open>getaddrinfo\<close>, \<open>socket\<close> and
  \<open>setsockopt\<close> return and the texts of \<open>gai_strerror\<close> and \<open>strerror\<close> are fields of \<open>CTL_OS\<close>;
  \<open>c_exchange\<close> is \<open>sendto\<close> followed by \<open>read\<close>: what the first returns, and the bytes of the second.
\<close>

section \<open>The request\<close>

definition strcat :: "bytes \<Rightarrow> bytes \<Rightarrow> bytes res" where
  "strcat dest src = bindr (strlen dest) (\<lambda>n. wr dest n (src @ [0]))"

definition ctl_request :: "bytes \<Rightarrow> bytes list \<Rightarrow> bytes res" where
  "ctl_request buffer argv = bindr (wr buffer 0 [0]) (\<lambda>buffer.
     bindr (fold_res (\<lambda>arg buffer. bindr (strcat buffer (lit '' '')) (\<lambda>buffer. strcat buffer arg)) argv buffer)
       (\<lambda>buffer. strcat buffer NL))"

section \<open>The program\<close>

text \<open>A string as the format of \<open>fprintf\<close>, without arguments: a conversion reads an argument that was not
  passed.\<close>

fun fprintf_format :: "bytes \<Rightarrow> bytes res" where
  "fprintf_format [] = Inr []"
| "fprintf_format (c # s) = (if c \<noteq> 37 then bindr (fprintf_format s) (\<lambda>t. Inr (c # t))
     else case s of [] \<Rightarrow> Inl OutOfBounds
       | d # s' \<Rightarrow> if d = 37 then bindr (fprintf_format s') (\<lambda>t. Inr (37 # t)) else Inl OutOfBounds)"

record CTL_OS =
  c_getaddrinfo :: "bytes + IP list"
  c_socket :: int
  c_setsockopt :: int
  c_strerror :: bytes
  c_exchange :: "IP option \<Rightarrow> bytes \<Rightarrow> int \<times> bytes"

text \<open>The bytes of the string at \<open>p\<close>.\<close>

definition string_at :: "bytes \<Rightarrow> nat \<Rightarrow> bytes res" where
  "string_at mem p = bindr (strlen (drop p mem)) (\<lambda>n. rds mem p n)"

text \<open>The exit code, what is written to \<open>stdout\<close> and what to \<open>stderr\<close>.\<close>

definition ctl_main :: "CTL_OS \<Rightarrow> bytes \<Rightarrow> bytes list \<Rightarrow> (int \<times> bytes \<times> bytes) res" where
  "ctl_main os buffer argv = (case c_getaddrinfo os of
     Inl err \<Rightarrow> Inr (1, [], lit ''getaddrinfo failed: '' @ err @ NL)
   | Inr servinfo \<Rightarrow> (let sockaddr = (case servinfo of [] \<Rightarrow> None | p # _ \<Rightarrow> Some p) in
     bindr (ctl_request buffer argv) (\<lambda>buffer.
     if c_socket os < 0 then Inr (1, [], lit ''Failed to create socket: '' @ c_strerror os @ NL)
     else if c_setsockopt os < 0 then Inr (1, [], lit ''Failed to set socket option: '' @ c_strerror os @ NL)
     else bindr (string_at buffer 0) (\<lambda>request. case c_exchange os sockaddr request of (rc, reply) \<Rightarrow>
       if rc \<le> 0 then Inr (1, [], lit ''Masala probably not started: '' @ c_strerror os @ NL)
       else let reply = take 1499 reply in
         if reply = [] then Inr (1, lit ''No response received.'' @ NL, [])
         else bindr (wr buffer 0 (reply @ [0])) (\<lambda>buffer.
           bindr (rd buffer 0) (\<lambda>c. bindr (string_at buffer 1) (\<lambda>s. bindr (fprintf_format s) (\<lambda>t.
             Inr (if c = 48 then (0, t, []) else (1, [], t))))))))))"

section \<open>The line the client builds\<close>

text \<open>The buffer holds the string \<open>s\<close>.\<close>

definition is_string :: "bytes \<Rightarrow> bytes \<Rightarrow> bool" where
  "is_string mem s \<longleftrightarrow> length mem = 1500 \<and> 0 \<notin> set s \<and> (\<exists>r. mem = s @ 0 # r)"

lemma is_string_length: "is_string mem s \<Longrightarrow> length s < 1500"
  by (auto simp: is_string_def)

lemma strcat_string:
  assumes "is_string mem s" "0 \<notin> set t"
  shows "if length (s @ t) < 1500 then \<exists>mem'. strcat mem t = Inr mem' \<and> is_string mem' (s @ t)
    else strcat mem t = Inl OutOfBounds"
proof -
  obtain r where r: "mem = s @ 0 # r" "0 \<notin> set s" "length s + Suc (length r) = 1500"
    using assms(1) by (auto simp: is_string_def)
  have len: "strlen mem = Inr (length s)" using strlen_string[OF r(2)] r(1) by simp
  show ?thesis
  proof (cases "length (s @ t) < 1500")
    case True
    then have "strcat mem t = Inr ((s @ t) @ 0 # drop (length t) r)"
      using r len by (simp add: strcat_def wr_def)
    moreover have "is_string ((s @ t) @ 0 # drop (length t) r) (s @ t)"
      using True r assms(2) by (simp add: is_string_def)
    ultimately show ?thesis using True by simp
  qed (use r len in \<open>simp add: strcat_def wr_def\<close>)
qed

definition ctl_line :: "bytes list \<Rightarrow> bytes" where
  "ctl_line argv = concat (map (\<lambda>a. lit '' '' @ a) argv) @ NL"

lemma strcat_args:
  "is_string mem s \<Longrightarrow> \<forall>a \<in> set argv. 0 \<notin> set a \<Longrightarrow>
    if length (s @ concat (map (\<lambda>a. lit '' '' @ a) argv)) < 1500
    then \<exists>mem'. fold_res (\<lambda>arg buffer. bindr (strcat buffer (lit '' '')) (\<lambda>buffer. strcat buffer arg)) argv mem = Inr mem' \<and>
      is_string mem' (s @ concat (map (\<lambda>a. lit '' '' @ a) argv))
    else fold_res (\<lambda>arg buffer. bindr (strcat buffer (lit '' '')) (\<lambda>buffer. strcat buffer arg)) argv mem = Inl OutOfBounds"
proof (induction argv arbitrary: mem s)
  case Nil
  then show ?case using is_string_length[of mem s] by simp
next
  case (Cons a argv)
  have sp: "0 \<notin> set (lit '' '')" "0 \<notin> set a" using Cons.prems(2) by (simp_all add: lit_def)
  show ?case
  proof (cases "length (s @ lit '' '') < 1500")
    case True
    with strcat_string[OF Cons.prems(1) sp(1)] obtain m1 where
      m1: "strcat mem (lit '' '') = Inr m1" "is_string m1 (s @ lit '' '')" by auto
    show ?thesis
    proof (cases "length ((s @ lit '' '') @ a) < 1500")
      case a: True
      with strcat_string[OF m1(2) sp(2)] obtain m2 where
        m2: "strcat m1 a = Inr m2" "is_string m2 ((s @ lit '' '') @ a)" by auto
      from Cons.IH[OF m2(2)] Cons.prems(2) m1(1) m2(1) show ?thesis by (simp split: if_splits)
    next
      case False
      with strcat_string[OF m1(2) sp(2)] m1(1) show ?thesis by simp
    qed
  next
    case False
    with strcat_string[OF Cons.prems(1) sp(1)] show ?thesis by simp
  qed
qed

lemma ctl_request_line:
  assumes "length buffer = 1500" "\<forall>a \<in> set argv. 0 \<notin> set a"
  shows "if length (ctl_line argv) < 1500 then \<exists>mem. ctl_request buffer argv = Inr mem \<and> is_string mem (ctl_line argv)
    else ctl_request buffer argv = Inl OutOfBounds"
proof -
  obtain m0 where m0: "wr buffer 0 [0] = Inr m0" "is_string m0 []"
    using assms(1) by (simp add: wr_def is_string_def)
  let ?s = "concat (map (\<lambda>a. lit '' '' @ a) argv)"
  note args = strcat_args[OF m0(2) assms(2)]
  show ?thesis
  proof (cases "length ?s < 1500")
    case True
    with args obtain m1 where m1: "fold_res (\<lambda>arg buffer. bindr (strcat buffer (lit '' '')) (\<lambda>buffer. strcat buffer arg)) argv m0 = Inr m1"
      "is_string m1 ?s" by auto
    from strcat_string[OF m1(2), of NL] m0(1) m1(1) show ?thesis by (simp add: ctl_request_def ctl_line_def)
  next
    case False
    with args m0(1) show ?thesis by (simp add: ctl_request_def ctl_line_def)
  qed
qed

text \<open>The daemon reads the arguments back, as long as they are words.\<close>

lemma words_of_line:
  "\<forall>a \<in> set argv. a \<noteq> [] \<and> (\<forall>c \<in> set a. \<not> blank c) \<Longrightarrow> words_of (ctl_line argv) = argv"
proof -
  have b: "blank 32" "blank 10" "lit '' '' = [32]" by (simp_all add: blank_def schar_def lit_def)
  have line: "words_of (a @ ctl_line as) = a # as"
    if "\<forall>a \<in> set (a # as). a \<noteq> [] \<and> (\<forall>c \<in> set a. \<not> blank c)" for a as
    using that by (induction as arbitrary: a) (simp_all add: ctl_line_def b words_simps)
  assume "\<forall>a \<in> set argv. a \<noteq> [] \<and> (\<forall>c \<in> set a. \<not> blank c)"
  then show "words_of (ctl_line argv) = argv"
  proof (cases argv)
    case (Cons a as)
    then have "ctl_line argv = 32 # a @ ctl_line as" by (simp add: ctl_line_def b)
    with line[of a as] Cons \<open>\<forall>a \<in> set argv. _\<close> b(1) show ?thesis by (simp add: words_simps)
  qed (simp add: ctl_line_def b words_simps)
qed

section \<open>The client and the daemon\<close>

lemma fprintf_plain: "37 \<notin> set s \<Longrightarrow> fprintf_format s = Inr s"
  by (induction s rule: fprintf_format.induct) auto

text \<open>What the client does with a reply that fits and is a string.\<close>

lemma ctl_shows:
  assumes "length mem = 1500" "length t < 1498" "0 \<notin> set t" "37 \<notin> set t"
  shows "bindr (wr mem 0 (take 1499 (c # t) @ [0])) (\<lambda>buffer. bindr (rd buffer 0) (\<lambda>c.
      bindr (string_at buffer 1) (\<lambda>s. bindr (fprintf_format s) (\<lambda>t. Inr (if c = 48 then (0, t, []) else (1, [], t))))))
    = Inr (if c = 48 then (0 :: int, t, []) else (1, [], t))"
proof -
  let ?b = "c # t @ 0 # drop (length t + 2) mem"
  have "wr mem 0 (take 1499 (c # t) @ [0]) = Inr ?b" using assms(1,2) by (simp add: wr_def)
  moreover have "string_at ?b 1 = Inr t"
    using strlen_string[OF assms(3), of "drop (length t + 2) mem"] by (simp add: string_at_def rds_def)
  ultimately show ?thesis using fprintf_plain[OF assms(4)] by simp
qed

lemma string_at_0: "is_string mem s \<Longrightarrow> string_at mem 0 = Inr s"
  by (auto simp: is_string_def string_at_def strlen_string rds_def)

text \<open>The daemon behind the socket: what the remote control answers to a datagram.\<close>

definition answers_with :: "(bytes \<Rightarrow> bytes) \<Rightarrow> resolver \<Rightarrow> bytes \<Rightarrow> MAIN \<Rightarrow> status \<Rightarrow> bytes \<Rightarrow> IP option \<Rightarrow> bytes \<Rightarrow> int \<times> bytes" where
  "answers_with ntop resolve stack m st request sockaddr datagram = (int (length datagram),
     case cmd_turn ntop resolve stack m st request datagram of Inr (_, _, _, out # _) \<Rightarrow> out | _ \<Rightarrow> [])"

lemma hex_plain: "37 \<notin> set (hex x) \<and> 0 \<notin> set (hex x)"
proof -
  have "\<forall>c \<in> set (hex x). hex_char c" using hex2_chars by (auto simp: hex_def)
  moreover have "\<not> hex_char 37" by (simp add: hex_char_def between_def schar_def)
  ultimately show ?thesis using classes_not_zero(1) by blast
qed

lemma digits_plain: "37 \<notin> set (dec_digits n) \<and> 0 \<notin> set (dec_digits n)"
  using dec_digits_all[of n] by (auto simp: is_digit_def)

lemma lookup_text_plain:
  assumes "\<And>a. length (ntop a) \<le> 45 \<and> 0 \<notin> set (ntop a) \<and> 37 \<notin> set (ntop a)" "is_id k"
    and "\<And>db. known = Some db \<Longrightarrow> length (sin6_port (d_addr db)) = 2"
  shows "length (concat (lookup_text ntop k known)) < 1498 \<and> 0 \<notin> set (concat (lookup_text ntop k known)) \<and>
    37 \<notin> set (concat (lookup_text ntop k known))"
proof (cases known)
  case (Some db)
  then show ?thesis
    using assms(1)[of "sin6_addr (d_addr db)"] digits_short[OF assms(3)[OF Some]] hex_plain[of k] digits_plain length_hex_id[OF assms(2)]
    by (simp add: lookup_text_def lit_def addr_str_def)
qed (use hex_plain[of k] length_hex_id[OF assms(2)] in \<open>simp add: lookup_text_def lit_def\<close>)

text \<open>C33: \<open>masala-ctl lookup <name>\<close> against the running daemon: the line the client builds is split into the
  same two words by the daemon, provided that its request object has a zero behind the line; the
  client prints the address under which the host is in the database on its standard output and
  exits with 0, or prints that there is none on its standard error and exits with 1. With a name of 1491
  bytes and more the client writes behind its own buffer before it sends anything.\<close>
theorem ctl_lookup:
  assumes "main_inv gap m" "length stack = 1500" "length request = 1500" "length buffer = 1500"
    and "name \<noteq> []" "\<forall>c \<in> set name. \<not> blank c" "request ! (length name + 9) = 0"
    and "\<And>a. length (ntop a) \<le> 45 \<and> 0 \<notin> set (ntop a) \<and> 37 \<notin> set (ntop a)"
    and "c_getaddrinfo os = Inr info" "0 \<le> c_socket os" "0 \<le> c_setsockopt os"
    and "c_exchange os = answers_with ntop resolve stack m st request"
  shows "ctl_main os buffer [lit ''lookup'', name] = (if 1491 \<le> length name then Inl OutOfBounds
    else let known = hosts m (host_key name); shown = concat (lookup_text ntop (host_key name) known)
      in Inr (if known = None then (1, [], shown) else (0, shown, [])))"
proof -
  let ?line = "ctl_line [lit ''lookup'', name]" and ?k = "host_key name"
  have args: "\<forall>a \<in> set [lit ''lookup'', name]. a \<noteq> [] \<and> (\<forall>c \<in> set a. \<not> blank c)"
    using assms(5,6) by (simp add: lit_def blank_def schar_def)
  then have zero: "\<forall>a \<in> set [lit ''lookup'', name]. 0 \<notin> set a" using blank_zero by blast
  have len: "length ?line = length name + 9" by (simp add: ctl_line_def lit_def)
  note req = ctl_request_line[OF assms(4) zero, unfolded len]
  show ?thesis
  proof (cases "1491 \<le> length name")
    case True
    with req assms(9) show ?thesis by (simp add: ctl_main_def Let_def)
  next
    case False
    with req obtain mem where mem: "ctl_request buffer [lit ''lookup'', name] = Inr mem" "is_string mem ?line" by auto
    have z: "0 \<notin> set ?line" using mem(2) by (simp add: is_string_def)
    have w: "words_of ?line = [lit ''lookup'', name]" by (rule words_of_line[OF args])
    have r: "?line @ drop (length ?line) request = ?line @ 0 # drop (Suc (length name + 9)) request"
      using False assms(3,7) Cons_nth_drop_Suc[of "length name + 9" request] by (simp add: len)
    have short: "?line \<noteq> []" "length ?line < 1500" "length name < 2 ^ 32" using len False by auto
    have n45: "\<And>a. length (ntop a) \<le> 45" using assms(8) by blast
    let ?known = "hosts m ?k"
    let ?text = "concat (lookup_text ntop ?k ?known)"
    have turn: "cmd_turn ntop resolve stack m st request ?line
        = Inr (m, st, zeroed ?line @ 0 # drop (Suc (length name + 9)) request,
          [(if ?known = None then 49 else 48) # ?text])"
      using cmd_request[OF assms(1) short(1,2) assms(3,2) r z, of ntop resolve st] n45 w short(3) by (simp add: lit_def)
    have ok: "db_ok (database m)" using main_inv_parts[OF assms(1)] by simp
    have port: "length (sin6_port (d_addr db)) = 2" if "?known = Some db" for db
      using db_find_cases[OF ok, of ?k] that by (metis addr_ok_def db_entry_ok_def option.distinct(1) option.inject)
    have plain: "length ?text < 1498" "0 \<notin> set ?text" "37 \<notin> set ?text"
      using lookup_text_plain[OF assms(8) _ port] compute_id_key[OF short(3)] by auto
    have "c_exchange os sockaddr ?line = (int (length ?line), (if ?known = None then 49 else 48) # ?text)" for sockaddr
      by (simp add: assms(12) answers_with_def turn)
    with ctl_shows[OF _ plain, of mem "if ?known = None then 49 else 48"] False mem(1) short(1) string_at_0[OF mem(2)] assms(9-11)
    show ?thesis using mem(2) by (simp add: ctl_main_def Let_def is_string_def split: list.splits)
  qed
qed

theorem ctl_lookup_witness:
  "ctl_main \<lparr>c_getaddrinfo = Inr [no_addr], c_socket = 4, c_setsockopt = 0, c_strerror = [],
      c_exchange = answers_with (\<lambda>a. []) (\<lambda>a p. Inr []) (replicate 1500 9) main0 MAIN_ONLINE (replicate 1500 0)\<rparr>
      (replicate 1500 7) [lit ''lookup'', lit ''foo'']
    = Inr (1, [], concat (lookup_text (\<lambda>a. []) (host_key (lit ''foo'')) None))"
proof -
  have n: "lit ''foo'' \<noteq> []" "\<forall>c \<in> set (lit ''foo''). \<not> blank c" "length (lit ''foo'') = 3"
    by (simp_all add: lit_def blank_def schar_def)
  have "hosts main0 (host_key (lit ''foo'')) = None" by (simp add: main0_def main_start_def db_init_def)
  then show ?thesis
    using ctl_lookup[OF main_inv_main0[of True] _ _ _ n(1,2), of "replicate 1500 9" "replicate 1500 0" "replicate 1500 7"
      "\<lambda>a. []" "\<lparr>c_getaddrinfo = Inr [no_addr], c_socket = 4, c_setsockopt = 0, c_strerror = [],
        c_exchange = answers_with (\<lambda>a. []) (\<lambda>a p. Inr []) (replicate 1500 9) main0 MAIN_ONLINE (replicate 1500 0)\<rparr>"
      "[no_addr]" "\<lambda>a p. Inr []" MAIN_ONLINE] n(3)
    by (simp add: Let_def)
qed

end
