(* ===== verification/Mutex.thy ===== *)
theory Mutex
  imports Masala
begin

text \<open>
  Threads over one mutex, \<open>src/src/thrd.c\<close>. A thread of the daemon waits for work, waits for the
  mutex of the protocol in front of a critical section, is inside of one, or runs code that does not
  hold the mutex. A section runs as one step and says how its thread goes on; steps of different
  threads interleave freely. What a section (\<open>crit\<close>, with a reading of the clock) and a piece of
  unprotected code (\<open>out\<close>) do is a parameter: the theory \<open>Threads\<close> puts the daemon there. The locale
  \<open>sections\<close> states what such code has to promise, and proves that then every interleaving keeps the
  invariant, that there is never more than one thread inside, and that the threads do not deadlock.
\<close>

section \<open>Threads\<close>

datatype ('c, 'u) thread = Waiting | Blocked 'c | Inside 'c | Outside 'u

record ('m, 'c, 'u) SYS =
  sys_main :: 'm
  sys_mutex :: "nat option"
  sys_threads :: "('c, 'u) thread list"

text \<open>\<open>mutex_block\<close> of thread \<open>i\<close> returns only when the mutex is free, which it then owns.\<close>

definition mutex_block :: "nat \<Rightarrow> ('m, 'c, 'u) SYS \<Rightarrow> ('m, 'c, 'u) SYS option" where
  "mutex_block i s = (if sys_mutex s = None then Some (s\<lparr>sys_mutex := Some i\<rparr>) else None)"

definition mutex_unblock :: "('m, 'c, 'u) SYS \<Rightarrow> ('m, 'c, 'u) SYS" where
  "mutex_unblock s = s\<lparr>sys_mutex := None\<rparr>"

definition goes_on :: "nat \<Rightarrow> ('m, 'c, 'u) SYS \<Rightarrow> 'm \<times> ('c, 'u) thread \<Rightarrow> ('m, 'c, 'u) SYS" where
  "goes_on i s r = s\<lparr>sys_main := fst r, sys_threads := (sys_threads s)[i := snd r]\<rparr>"

text \<open>The next step of thread \<open>i\<close>; \<open>None\<close> if it has none, because it waits for work or for the mutex.\<close>

definition thread_step :: "('c \<Rightarrow> 'm \<Rightarrow> ('m \<times> ('c, 'u) thread) res) \<Rightarrow> ('u \<Rightarrow> 'm \<Rightarrow> ('m \<times> ('c, 'u) thread) res) \<Rightarrow>
    nat \<Rightarrow> ('m, 'c, 'u) SYS \<Rightarrow> ('m, 'c, 'u) SYS res option" where
  "thread_step crit out i s = (if length (sys_threads s) \<le> i then None else case sys_threads s ! i of
       Waiting \<Rightarrow> None
     | Blocked c \<Rightarrow> (case mutex_block i s of None \<Rightarrow> None
         | Some s' \<Rightarrow> Some (Inr (goes_on i s' (sys_main s', Inside c))))
     | Inside c \<Rightarrow> Some (bindr (crit c (sys_main s)) (\<lambda>r. Inr (goes_on i (mutex_unblock s) r)))
     | Outside u \<Rightarrow> Some (bindr (out u (sys_main s)) (\<lambda>r. Inr (goes_on i s r))))"

text \<open>The states that the threads can reach: new work arrives for a waiting thread, or some thread
  makes its next step, with the clock at \<open>t\<close>.\<close>

inductive interleaved :: "(int \<Rightarrow> 'c \<Rightarrow> 'm \<Rightarrow> ('m \<times> ('c, 'u) thread) res) \<Rightarrow>
    ('u \<Rightarrow> 'm \<Rightarrow> ('m \<times> ('c, 'u) thread) res) \<Rightarrow> ('c \<Rightarrow> bool) \<Rightarrow> ('m, 'c, 'u) SYS \<Rightarrow> ('m, 'c, 'u) SYS \<Rightarrow> bool"
  for crit out job s where
  begins: "interleaved crit out job s s"
| arrives: "interleaved crit out job s s' \<Longrightarrow> i < length (sys_threads s') \<Longrightarrow> sys_threads s' ! i = Waiting \<Longrightarrow>
    job c \<Longrightarrow> interleaved crit out job s (goes_on i s' (sys_main s', Blocked c))"
| turn: "interleaved crit out job s s' \<Longrightarrow> thread_step (crit t) out i s' = Some (Inr s'') \<Longrightarrow>
    interleaved crit out job s s''"

text \<open>A schedule: the threads that step, each with the clock it reads.\<close>

fun schedule :: "(int \<Rightarrow> 'c \<Rightarrow> 'm \<Rightarrow> ('m \<times> ('c, 'u) thread) res) \<Rightarrow>
    ('u \<Rightarrow> 'm \<Rightarrow> ('m \<times> ('c, 'u) thread) res) \<Rightarrow> (nat \<times> int) list \<Rightarrow> ('m, 'c, 'u) SYS \<Rightarrow> ('m, 'c, 'u) SYS res option" where
  "schedule crit out [] s = Some (Inr s)"
| "schedule crit out ((i, t) # is) s = (case thread_step (crit t) out i s of None \<Rightarrow> None
     | Some (Inl e) \<Rightarrow> Some (Inl e)
     | Some (Inr s') \<Rightarrow> schedule crit out is s')"

lemma schedule_interleaved:
  "schedule crit out is s = Some (Inr s') \<Longrightarrow> interleaved crit out job r s \<Longrightarrow> interleaved crit out job r s'"
proof (induction crit out "is" s rule: schedule.induct)
  case (2 crit out i t "is" s)
  from 2(2) obtain s1 where s1: "thread_step (crit t) out i s = Some (Inr s1)" "schedule crit out is s1 = Some (Inr s')"
    by (auto split: option.splits sum.splits)
  from "2.IH"[OF s1(1) refl s1(2)] turn[OF "2.prems"(2) s1(1)] show ?case by simp
qed simp

section \<open>The discipline\<close>

text \<open>What a step may leave behind for its own thread.\<close>

fun next_ok :: "('c \<Rightarrow> bool) \<Rightarrow> ('u \<Rightarrow> bool) \<Rightarrow> ('c, 'u) thread \<Rightarrow> bool" where
  "next_ok cok uok Waiting \<longleftrightarrow> True"
| "next_ok cok uok (Blocked c) \<longleftrightarrow> cok c"
| "next_ok cok uok (Inside c) \<longleftrightarrow> False"
| "next_ok cok uok (Outside u) \<longleftrightarrow> uok u"

definition thread_ok :: "('c \<Rightarrow> bool) \<Rightarrow> ('u \<Rightarrow> bool) \<Rightarrow> nat option \<Rightarrow> nat \<Rightarrow> ('c, 'u) thread \<Rightarrow> bool" where
  "thread_ok cok uok owner i th \<longleftrightarrow> (case th of Inside c \<Rightarrow> cok c \<and> owner = Some i
     | _ \<Rightarrow> next_ok cok uok th \<and> owner \<noteq> Some i)"

definition sys_inv :: "('m \<Rightarrow> bool) \<Rightarrow> ('c \<Rightarrow> bool) \<Rightarrow> ('u \<Rightarrow> bool) \<Rightarrow> ('m, 'c, 'u) SYS \<Rightarrow> bool" where
  "sys_inv I cok uok s \<longleftrightarrow> I (sys_main s) \<and>
     (\<forall>i < length (sys_threads s). thread_ok cok uok (sys_mutex s) i (sys_threads s ! i)) \<and>
     (\<forall>i. sys_mutex s = Some i \<longrightarrow> i < length (sys_threads s))"

lemma thread_ok_simps [simp]:
  "thread_ok cok uok w i Waiting \<longleftrightarrow> w \<noteq> Some i" "thread_ok cok uok w i (Blocked c) \<longleftrightarrow> cok c \<and> w \<noteq> Some i"
  "thread_ok cok uok w i (Inside c) \<longleftrightarrow> cok c \<and> w = Some i" "thread_ok cok uok w i (Outside u) \<longleftrightarrow> uok u \<and> w \<noteq> Some i"
  by (simp_all add: thread_ok_def)

lemma next_thread_ok: "next_ok cok uok th \<Longrightarrow> w \<noteq> Some i \<Longrightarrow> thread_ok cok uok w i th"
  by (cases th) simp_all

lemma thread_ok_other: "thread_ok cok uok w j th \<Longrightarrow> w \<noteq> Some j \<Longrightarrow> w' \<noteq> Some j \<Longrightarrow> thread_ok cok uok w' j th"
  by (cases th) simp_all

lemma goes_on_simps [simp]:
  "sys_main (goes_on i s r) = fst r" "sys_mutex (goes_on i s r) = sys_mutex s"
  "sys_threads (goes_on i s r) = (sys_threads s)[i := snd r]"
  by (simp_all add: goes_on_def)

text \<open>A thread that steps changes its own entry only.\<close>

lemma sys_inv_goes_on:
  assumes s: "sys_inv I cok uok s" and i: "i < length (sys_threads s)"
    and w: "\<And>j. j \<noteq> i \<Longrightarrow> sys_mutex s = Some j \<longleftrightarrow> w = Some j"
    and r: "I (fst r)" "thread_ok cok uok w i (snd r)"
  shows "sys_inv I cok uok (goes_on i (s\<lparr>sys_mutex := w\<rparr>) r)"
proof -
  have other: "thread_ok cok uok w j (sys_threads s ! j)" if "j < length (sys_threads s)" "j \<noteq> i" for j
  proof -
    have j: "thread_ok cok uok (sys_mutex s) j (sys_threads s ! j)" using s that(1) by (simp add: sys_inv_def)
    show ?thesis
    proof (cases "w = Some j")
      case True
      then show ?thesis using w[OF that(2)] j by simp
    next
      case False
      then show ?thesis using w[OF that(2)] thread_ok_other[OF j] by blast
    qed
  qed
  have "thread_ok cok uok w j ((sys_threads s)[i := snd r] ! j)" if "j < length (sys_threads s)" for j
    using other[OF that] r(2) that by (cases "j = i") simp_all
  moreover have "j < length (sys_threads s)" if "w = Some j" for j
    using that w[of j] s i by (cases "j = i") (auto simp: sys_inv_def)
  ultimately show ?thesis using r(1) by (simp add: sys_inv_def)
qed

lemma goes_on_post:
  assumes "sys_inv I cok uok s" "i < length (sys_threads s)" "\<And>j. j \<noteq> i \<Longrightarrow> sys_mutex s = Some j \<longleftrightarrow> w = Some j"
    and "post A (\<lambda>r. I (fst r) \<and> next_ok cok uok (snd r)) x" "w \<noteq> Some i"
  shows "post A (sys_inv I cok uok) (bindr x (\<lambda>r. Inr (goes_on i (s\<lparr>sys_mutex := w\<rparr>) r)))"
  by (rule post_bind[OF assms(4)]) (simp add: sys_inv_goes_on[OF assms(1,2,3)] next_thread_ok assms(5))

locale sections =
  fixes crit :: "int \<Rightarrow> 'c \<Rightarrow> 'm \<Rightarrow> ('m \<times> ('c, 'u) thread) res"
    and out :: "'u \<Rightarrow> 'm \<Rightarrow> ('m \<times> ('c, 'u) thread) res"
    and I :: "'m \<Rightarrow> bool" and cok :: "'c \<Rightarrow> bool" and uok :: "'u \<Rightarrow> bool"
    and F :: "fault set" and G :: "'u \<Rightarrow> fault set"
  assumes crit_keeps: "I m \<Longrightarrow> cok c \<Longrightarrow> post F (\<lambda>r. I (fst r) \<and> next_ok cok uok (snd r)) (crit t c m)"
    and out_keeps: "I m \<Longrightarrow> uok u \<Longrightarrow> post (G u) (\<lambda>r. I (fst r) \<and> next_ok cok uok (snd r)) (out u m)"
begin

lemma inv_parts:
  assumes "sys_inv I cok uok s" "i < length (sys_threads s)"
  shows "I (sys_main s)" "thread_ok cok uok (sys_mutex s) i (sys_threads s ! i)"
  using assms by (simp_all add: sys_inv_def)

text \<open>Every step keeps the invariant or ends in a fault of its section.\<close>

lemma step_keeps:
  assumes s: "sys_inv I cok uok s" and r: "thread_step (crit t) out i s = Some r"
  shows "post (case sys_threads s ! i of Inside c \<Rightarrow> F | Outside u \<Rightarrow> G u | _ \<Rightarrow> {}) (sys_inv I cok uok) r"
proof -
  have i: "i < length (sys_threads s)" using r by (auto simp: thread_step_def split: if_splits)
  note p = inv_parts[OF s i]
  show ?thesis
  proof (cases "sys_threads s ! i")
    case Waiting
    then show ?thesis using r i by (simp add: thread_step_def)
  next
    case (Blocked c)
    then have free: "sys_mutex s = None" and r': "r = Inr (goes_on i (s\<lparr>sys_mutex := Some i\<rparr>) (sys_main s, Inside c))"
      using r i by (auto simp: thread_step_def mutex_block_def split: if_splits)
    have "sys_inv I cok uok (goes_on i (s\<lparr>sys_mutex := Some i\<rparr>) (sys_main s, Inside c))"
      using p Blocked free by (intro sys_inv_goes_on[OF s i]) auto
    with r' show ?thesis by simp
  next
    case (Inside c)
    have "post F (sys_inv I cok uok) (bindr (crit t c (sys_main s)) (\<lambda>r. Inr (goes_on i (s\<lparr>sys_mutex := None\<rparr>) r)))"
      using p Inside by (intro goes_on_post[OF s i _ crit_keeps]) auto
    then show ?thesis using r i Inside by (simp add: thread_step_def mutex_unblock_def)
  next
    case (Outside u)
    have "post (G u) (sys_inv I cok uok) (bindr (out u (sys_main s)) (\<lambda>r. Inr (goes_on i (s\<lparr>sys_mutex := sys_mutex s\<rparr>) r)))"
      using p Outside by (intro goes_on_post[OF s i _ out_keeps]) auto
    then show ?thesis using r i Outside by (simp add: thread_step_def)
  qed
qed

lemma interleaved_keeps:
  assumes "interleaved crit out job s s'" "sys_inv I cok uok s" "\<And>c. job c \<Longrightarrow> cok c"
  shows "sys_inv I cok uok s'"
  using assms(1)
proof (induction rule: interleaved.induct)
  case (arrives s' i c)
  have "sys_inv I cok uok (goes_on i (s'\<lparr>sys_mutex := sys_mutex s'\<rparr>) (sys_main s', Blocked c))"
    using inv_parts[OF arrives(5,2)] arrives(3,4) assms(3) by (intro sys_inv_goes_on[OF arrives(5,2)]) auto
  then show ?case by simp
next
  case (turn s' t i s'')
  from step_keeps[OF turn(3,2)] show ?case by simp
qed (rule assms(2))

text \<open>Mutual exclusion, and no deadlock: a thread without a step waits for work, or for the mutex of a
  thread that has a step and gives the mutex back with it.\<close>

lemma exclusive:
  assumes "sys_inv I cok uok s" "i < length (sys_threads s)" "j < length (sys_threads s)"
    "sys_threads s ! i = Inside c" "sys_threads s ! j = Inside d"
  shows "i = j"
  using inv_parts(2)[OF assms(1,2)] inv_parts(2)[OF assms(1,3)] assms(4,5) by simp

lemma no_deadlock:
  assumes s: "sys_inv I cok uok s" and i: "i < length (sys_threads s)" and none: "thread_step (crit t) out i s = None"
  shows "sys_threads s ! i = Waiting \<or> (\<exists>j c. j < length (sys_threads s) \<and> j \<noteq> i \<and> sys_threads s ! j = Inside c \<and>
    (\<forall>t. \<exists>r. thread_step (crit t) out j s = Some r \<and> (\<forall>s'. r = Inr s' \<longrightarrow> sys_mutex s' = None)))"
proof (cases "sys_threads s ! i")
  case (Blocked c)
  then obtain j where j: "sys_mutex s = Some j" using none i by (auto simp: thread_step_def mutex_block_def split: if_splits)
  then have len: "j < length (sys_threads s)" using s by (simp add: sys_inv_def)
  obtain d where d: "sys_threads s ! j = Inside d"
    using inv_parts(2)[OF s len] j by (cases "sys_threads s ! j") auto
  have "thread_step (crit t) out j s = Some (bindr (crit t d (sys_main s)) (\<lambda>r. Inr (goes_on j (mutex_unblock s) r)))" for t
    using len d by (simp add: thread_step_def)
  moreover have "sys_mutex s' = None" if "bindr (crit t d (sys_main s)) (\<lambda>r. Inr (goes_on j (mutex_unblock s) r)) = Inr s'" for t s'
    using that by (auto simp: bindr_eq_Inr mutex_unblock_def)
  moreover have "j \<noteq> i" using d Blocked by auto
  ultimately show ?thesis using len d by blast
qed (use none i in \<open>auto simp: thread_step_def\<close>)

end

end
