(* ===== verification/Threads.thy ===== *)
theory Threads
  imports Mutex Daemon
begin

text \<open>
  The threads of the daemon over the mutex of the protocol: the workers of \<open>udp.c\<close>, which take
  datagrams and run the periodic work, and the front ends of \<open>masala-dns.c\<close> and \<open>masala-web.c\<close>,
  which look up a host. What one of them does between two operations on the mutex is one step. Two
  pieces of code run without it: \<open>p2p_decode\<close> up to the switch over the query, \<open>nbhd_put\<close> included,
  and a front end that reads the address through the pointer into the database which \<open>db_address\<close>
  gave it. \<open>dm_told\<close> records what the front ends pass to their callbacks. Here the unprotected code
  is one step; \<open>Races\<close> cuts \<open>list_put\<close> in pieces.
\<close>

section \<open>The steps\<close>

datatype critical = Clock bytes IP | Query ben u8 bytes bytes IP | Cron | Address bytes nat | Search bytes nat
datatype unprotected = Decoding bytes IP | Reading addr nat

type_synonym worker = "(critical, unprotected) thread"

record DAEMON =
  dm_main :: MAIN
  dm_told :: "(nat \<times> bytes) list"

text \<open>\<open>p2p_decode\<close> from the dictionary to \<open>mutex_block\<close>: the query, the node id and the key if there
  is something to do in the switch.\<close>

definition packet_head :: "MAIN \<Rightarrow> ben \<Rightarrow> IP \<Rightarrow> (MAIN \<times> (u8 \<times> bytes \<times> bytes) option) res" where
  "packet_head m packet from = with_field p2p_is_hash (Some packet) K_i (m, None) (\<lambda>node_id.
     if node_me (self_id m) node_id then Inr (m, None)
     else with_field p2p_is_hash (Some packet) K_k (m, None) (\<lambda>key.
       bindr (nbhd_put m node_id from) (\<lambda>m1.
       bindr (ben_searchDictStr (Some packet) K_q) (\<lambda>q.
       if \<not> ben_is_str q then Inr (m1, None)
       else bindr (ben_str_size q) (\<lambda>n. if n \<noteq> 1 then Inr (m1, None)
         else bindr (str_of q) (\<lambda>s. Inr (m1, Some (s ! 0, node_id, key))))))))"

fun at_switch :: "ben \<Rightarrow> IP \<Rightarrow> (u8 \<times> bytes \<times> bytes) option \<Rightarrow> worker" where
  "at_switch p from None = Blocked Cron"
| "at_switch p from (Some (q, node_id, key)) = Blocked (Query p q node_id key from)"

text \<open>\<open>p2p_parse\<close> after it has read the clock. Whatever comes of the datagram, \<open>udp_input\<close> goes on
  with \<open>udp_cron\<close>.\<close>

definition parse_head :: "MAIN \<Rightarrow> bytes \<Rightarrow> IP \<Rightarrow> (MAIN \<times> worker) res" where
  "parse_head m data from = (let n = length (take UDP_BUF data)
     in if n < 1 then Inr (m, Blocked Cron)
        else bindr (ben_validate (received data) n) (\<lambda>ok. if \<not> ok then Inr (m, Blocked Cron)
          else bindr (ben_dec (2 * n + 1) (received data)) (\<lambda>packet. case packet of None \<Rightarrow> Inr (m, Blocked Cron)
            | Some p \<Rightarrow> if ben_t p \<noteq> BEN_DICT then Inr (m, Blocked Cron)
               else bindr (packet_head m p from) (\<lambda>(m', head). Inr (m', at_switch p from head)))))"

text \<open>The critical sections. \<open>dns_lookup\<close> and \<open>web_lookup\<close> (for the callback with context \<open>ctx\<close>) take
  the mutex for \<open>db_address\<close>, and once more for \<open>lkp_put\<close> if that did not find the host.\<close>

fun daemon_crit :: "nat \<Rightarrow> int \<Rightarrow> critical \<Rightarrow> DAEMON \<Rightarrow> (DAEMON \<times> worker) res" where
  "daemon_crit fuel t (Clock data src) d =
     Inr (d\<lparr>dm_main := (dm_main d)\<lparr>p2p := (p2p (dm_main d))\<lparr>time_now := t\<rparr>\<rparr>\<rparr>, Outside (Decoding data src))"
| "daemon_crit fuel t (Query p q node_id key src) d =
     bindr (p2p_query (dm_main d) p q node_id key src) (\<lambda>m. Inr (d\<lparr>dm_main := m\<rparr>, Blocked Cron))"
| "daemon_crit fuel t Cron d = bindr (p2p_cron fuel (dm_main d) t) (\<lambda>m. Inr (d\<lparr>dm_main := m\<rparr>, Waiting))"
| "daemon_crit fuel t (Address host_id ctx) d = (case db_find (dm_main d) host_id of
       None \<Rightarrow> Inr (d, Blocked (Search host_id ctx))
     | Some i \<Rightarrow> bindr (db_val (dm_main d) i) (\<lambda>_. Inr (d, Outside (Reading i ctx))))"
| "daemon_crit fuel t (Search host_id ctx) d =
     bindr (lkp_put (dm_main d) host_id (Some ctx)) (\<lambda>m. Inr (d\<lparr>dm_main := m\<rparr>, Waiting))"

fun daemon_open :: "unprotected \<Rightarrow> DAEMON \<Rightarrow> (DAEMON \<times> worker) res" where
  "daemon_open (Decoding data src) d = bindr (parse_head (dm_main d) data src) (\<lambda>(m, th). Inr (d\<lparr>dm_main := m\<rparr>, th))"
| "daemon_open (Reading i ctx) d = bindr (db_val (dm_main d) i) (\<lambda>db.
     Inr (d\<lparr>dm_told := dm_told d @ [(ctx, sin6_addr (d_addr db))]\<rparr>, Waiting))"

text \<open>The work that arrives: a datagram, the timeout of \<open>epoll_wait\<close>, a name to look up.\<close>

fun arriving :: "critical \<Rightarrow> bool" where
  "arriving (Clock data src) \<longleftrightarrow> data \<noteq> [] \<and> addr_ok src"
| "arriving Cron \<longleftrightarrow> True"
| "arriving (Address host_id ctx) \<longleftrightarrow> is_id host_id"
| "arriving _ \<longleftrightarrow> False"

section \<open>The steps and the program as a whole\<close>

definition with_head :: "(MAIN \<Rightarrow> u8 \<times> bytes \<times> bytes \<Rightarrow> MAIN res) \<Rightarrow> MAIN \<times> (u8 \<times> bytes \<times> bytes) option \<Rightarrow> MAIN res" where
  "with_head f r = (case snd r of None \<Rightarrow> Inr (fst r) | Some h \<Rightarrow> f (fst r) h)"

lemma with_head_simps [simp]: "with_head f (m, None) = Inr m" "with_head f (m, Some h) = f m h"
  by (simp_all add: with_head_def)

lemma bindr_if: "bindr (if b then x else y) g = (if b then bindr x g else bindr y g)"
  by simp

lemma with_field_head:
  "bindr (with_field check p k (m, None) f) (with_head g) = with_field check p k m (\<lambda>s. bindr (f s) (with_head g))"
  by (auto simp: with_field_def bindr_def split: sum.splits)

text \<open>The head of a packet and the switch are \<open>p2p_packet\<close>.\<close>

lemma packet_head_query:
  "p2p_packet m p from = bindr (packet_head m p from) (with_head (\<lambda>m' (q, node_id, key). p2p_query m' p q node_id key from))"
  by (simp add: packet_head_def p2p_packet_def with_field_head bindr_assoc bindr_if cong: if_cong)

text \<open>\<open>p2p_parse\<close> cut at its operations on the mutex.\<close>

definition after_head :: "MAIN \<times> worker \<Rightarrow> MAIN res" where
  "after_head r = (case snd r of Blocked (Query p q node_id key from) \<Rightarrow> p2p_query (fst r) p q node_id key from
     | _ \<Rightarrow> Inr (fst r))"

lemma after_head_simps [simp]:
  "after_head (m, Blocked (Query p q node_id key from)) = p2p_query m p q node_id key from"
  "after_head (m, Blocked Cron) = Inr m"
  by (simp_all add: after_head_def)

lemma after_head_switch:
  "after_head (m, at_switch p from h) = with_head (\<lambda>m (q, node_id, key). p2p_query m p q node_id key from) (m, h)"
  by (cases h) auto

lemma parse_head_parse:
  assumes "n = length (take UDP_BUF data)"
  shows "p2p_parse (2 * n + 1) m t (received data) n src
    = bindr (parse_head (m\<lparr>p2p := (p2p m)\<lparr>time_now := t\<rparr>\<rparr>) data src) after_head"
proof -
  have q: "bindr (packet_head m p src) (\<lambda>r. after_head (fst r, at_switch p src (snd r))) = p2p_packet m p src" for m p
    by (auto simp: packet_head_query bindr_def after_head_switch split: sum.splits)
  let ?m = "m\<lparr>p2p := (p2p m)\<lparr>time_now := t\<rparr>\<rparr>"
  have tail: "bindr (bindr (packet_head ?m p src) (\<lambda>(m', head). Inr (m', at_switch p src head))) after_head = p2p_packet ?m p src" for p
    using q[of ?m p] by (simp add: bindr_assoc case_prod_unfold)
  note head = parse_head_def[of ?m data src, unfolded Let_def, folded assms]
  show ?thesis
  proof (cases "n < 1")
    case False
    show ?thesis
    proof (cases "ben_validate (received data) n")
      case (Inr ok)
      show ?thesis
      proof (cases "ok \<and> (\<exists>p. ben_dec (2 * n + 1) (received data) = Inr (Some p) \<and> ben_t p = BEN_DICT)")
        case True
        then obtain p where "ok" "ben_dec (2 * n + 1) (received data) = Inr (Some p)" "ben_t p = BEN_DICT" by blast
        then show ?thesis using False Inr tail[of p] by (simp add: p2p_parse_def p2p_decode_def head)
      next
        case no: False
        then show ?thesis using False Inr
          by (cases ok; cases "ben_dec (2 * n + 1) (received data)")
            (auto simp: p2p_parse_def p2p_decode_def head split: option.splits)
      qed
    qed (use False in \<open>simp add: p2p_parse_def head\<close>)
  qed (simp add: p2p_parse_def head)
qed

section \<open>The invariant\<close>

fun critical_ok :: "critical \<Rightarrow> bool" where
  "critical_ok (Clock data src) \<longleftrightarrow> data \<noteq> [] \<and> addr_ok src"
| "critical_ok (Query p q node_id key src) \<longleftrightarrow> ben_ok p \<and> is_id node_id \<and> is_id key \<and> addr_ok src"
| "critical_ok Cron \<longleftrightarrow> True"
| "critical_ok (Address host_id ctx) \<longleftrightarrow> is_id host_id"
| "critical_ok (Search host_id ctx) \<longleftrightarrow> is_id host_id"

fun unprotected_ok :: "unprotected \<Rightarrow> bool" where
  "unprotected_ok (Decoding data src) \<longleftrightarrow> addr_ok src"
| "unprotected_ok (Reading i ctx) \<longleftrightarrow> True"

fun open_faults :: "unprotected \<Rightarrow> fault set" where
  "open_faults (Decoding data src) = {OutOfFuel}"
| "open_faults (Reading i ctx) = {UseAfterFree}"

lemma arriving_ok: "arriving c \<Longrightarrow> critical_ok c"
  by (cases c) simp_all

lemma packet_head_post:
  assumes m: "main_inv g m" and p: "ben_ok p" and fr: "addr_ok from"
  shows "post {} (\<lambda>r. main_inv g (fst r) \<and> (\<forall>q node_id key. snd r = Some (q, node_id, key) \<longrightarrow> is_id node_id \<and> is_id key))
    (packet_head m p from)"
    (is "post {} ?P _")
  unfolding packet_head_def
proof (rule with_hash_post[where P = ?P, OF p], simp, simp add: m)
  fix nid :: bytes
  assume nid: "is_id nid"
  obtain q where q: "ben_searchDictStr (Some p) K_q = Inr q" "\<And>v. q = Some v \<Longrightarrow> ben_ok v"
    using searchDictStr_ok[OF p, of K_q] by auto
  have tail: "post {} ?P (bindr (ben_searchDictStr (Some p) K_q) (\<lambda>q. if \<not> ben_is_str q then Inr (m1, None)
       else bindr (ben_str_size q) (\<lambda>n. if n \<noteq> 1 then Inr (m1, None)
         else bindr (str_of q) (\<lambda>s. Inr (m1, Some (s ! 0, nid, key))))))"
    if "main_inv g m1" "is_id key" for m1 key
  proof (cases "ben_is_str q")
    case True
    then obtain s where "q = Some (BStr (Some s))" using q(2) ok_str by (cases q) (auto simp: ben_is_str_def)
    with q(1) that nid show ?thesis by (simp add: ben_is_str_def ben_str_size_def str_of_def)
  qed (simp add: q that)
  have "post {} ?P (with_field p2p_is_hash (Some p) K_k (m, None) (\<lambda>key.
       bindr (nbhd_put m nid from) (\<lambda>m1. bindr (ben_searchDictStr (Some p) K_q) (\<lambda>q.
         if \<not> ben_is_str q then Inr (m1, None) else bindr (ben_str_size q) (\<lambda>n. if n \<noteq> 1 then Inr (m1, None)
         else bindr (str_of q) (\<lambda>s. Inr (m1, Some (s ! 0, nid, key))))))))"
    by (rule with_hash_post[where P = ?P, OF p], simp, simp add: m)
      (rule post_bind[OF nbhd_put_inv[OF m nid fr]], erule tail)
  then show "post {} ?P (if node_me (self_id m) nid then Inr (m, None)
     else with_field p2p_is_hash (Some p) K_k (m, None) (\<lambda>key.
       bindr (nbhd_put m nid from) (\<lambda>m1. bindr (ben_searchDictStr (Some p) K_q) (\<lambda>q.
         if \<not> ben_is_str q then Inr (m1, None) else bindr (ben_str_size q) (\<lambda>n. if n \<noteq> 1 then Inr (m1, None)
         else bindr (str_of q) (\<lambda>s. Inr (m1, Some (s ! 0, nid, key))))))))"
    using m by simp
qed

lemma at_switch_ok:
  "ben_ok p \<Longrightarrow> addr_ok from \<Longrightarrow> \<forall>q node_id key. h = Some (q, node_id, key) \<longrightarrow> is_id node_id \<and> is_id key \<Longrightarrow>
    next_ok critical_ok unprotected_ok (at_switch p from h)"
  by (cases h) auto

lemma parse_head_post:
  assumes m: "main_inv False m" and fr: "addr_ok from"
  shows "post {OutOfFuel} (\<lambda>r. main_inv False (fst r) \<and> next_ok critical_ok unprotected_ok (snd r)) (parse_head m data from)"
    (is "post _ ?P _")
proof -
  let ?n = "length (take UDP_BUF data)"
  have b: "buffer_ok (received data) ?n" by (rule received_ok)
  obtain ok where ok: "ben_validate (received data) ?n = Inr ok"
    using validate_total[of ?n "received data"] b by (auto simp: buffer_ok_def)
  have packet: "post {OutOfFuel} ?P (bindr (packet_head m p from) (\<lambda>(m', head). Inr (m', at_switch p from head)))" if "ben_ok p" for p
    by (rule post_bind[OF post_no_faults[OF packet_head_post[OF m that fr]]])
      (use that fr in \<open>auto intro: at_switch_ok\<close>)
  have "post {OutOfFuel} ?P (bindr (ben_dec (2 * ?n + 1) (received data)) (\<lambda>packet. case packet of None \<Rightarrow> Inr (m, Blocked Cron)
      | Some p \<Rightarrow> if ben_t p \<noteq> BEN_DICT then Inr (m, Blocked Cron)
         else bindr (packet_head m p from) (\<lambda>(m', head). Inr (m', at_switch p from head))))" if "ok"
  proof (cases "received data ! 0 = CH_d \<or> received data ! 0 = CH_l")
    case True
    have "?n \<le> length (received data)" using b by (simp add: buffer_ok_def)
    with ok that container_decodes[OF this _ True] obtain p where
      "ben_dec (2 * ?n + 1) (received data) = Inr (Some p)" "ben_ok p" by auto
    then show ?thesis using packet m by simp
  next
    case False
    with scalar_decodes[of ?n "received data"] b ok that m show ?thesis by (auto simp: buffer_ok_def)
  qed
  then show ?thesis using ok m by (simp add: parse_head_def Let_def)
qed

interpretation locked: sections "daemon_crit fuel" daemon_open "\<lambda>d. main_inv False (dm_main d)"
    critical_ok unprotected_ok "{NullDeref, OutOfFuel, ExitFailure}" open_faults
  for fuel
proof
  fix d :: DAEMON and c t
  assume d: "main_inv False (dm_main d)" and c: "critical_ok c"
  let ?P = "\<lambda>r. main_inv False (dm_main (fst r)) \<and> next_ok critical_ok unprotected_ok (snd r)"
  have wrap: "\<And>r F (th :: worker). post F (main_inv False) r \<Longrightarrow> F \<subseteq> {NullDeref, OutOfFuel, ExitFailure} \<Longrightarrow>
      next_ok critical_ok unprotected_ok th \<Longrightarrow>
      post {NullDeref, OutOfFuel, ExitFailure} ?P (bindr r (\<lambda>m. Inr (d\<lparr>dm_main := m\<rparr>, th)))"
    by (rule post_bind, erule (1) post_weaken) auto
  show "post {NullDeref, OutOfFuel, ExitFailure} ?P (daemon_crit fuel t c d)"
  proof (cases c)
    case (Clock data src)
    then show ?thesis using c d by (simp add: main_inv_p2p)
  next
    case (Query p q nid key src)
    then have "ben_ok p" "is_id nid" "is_id key" "addr_ok src" using c by simp_all
    from wrap[OF p2p_query_inv[OF d this], of "Blocked Cron"] show ?thesis
      by (simp add: Query match_faults_def)
  next
    case Cron
    from wrap[OF p2p_cron_inv[OF d], of _ Waiting] show ?thesis by (auto simp: Cron split_faults_def)
  next
    case (Address host ctx)
    have "db_ok (database (dm_main d))" using main_inv_parts(6)[OF d] .
    then show ?thesis by (cases rule: db_find_cases[of "dm_main d" host]) (use d c in \<open>simp_all add: Address\<close>)
  next
    case (Search host ctx)
    with c have "is_id host" by simp
    from wrap[OF lkp_put_inv[OF d this], of Waiting] show ?thesis by (simp add: Search match_faults_def)
  qed
next
  fix d :: DAEMON and u
  assume d: "main_inv False (dm_main d)" and u: "unprotected_ok u"
  show "post (open_faults u) (\<lambda>r. main_inv False (dm_main (fst r)) \<and> next_ok critical_ok unprotected_ok (snd r)) (daemon_open u d)"
  proof (cases u)
    case (Decoding data src)
    with u have "addr_ok src" by simp
    from parse_head_post[OF d this, of data] show ?thesis
      unfolding Decoding by simp (erule post_bind, auto)
  next
    case (Reading i ctx)
    then show ?thesis using d by (auto simp: db_val_def split: option.splits)
  qed
qed

section \<open>Every interleaving\<close>

definition idle :: "DAEMON \<Rightarrow> nat \<Rightarrow> (DAEMON, critical, unprotected) SYS" where
  "idle d n = \<lparr>sys_main = d, sys_mutex = None, sys_threads = replicate n Waiting\<rparr>"

abbreviation daemon_inv :: "(DAEMON, critical, unprotected) SYS \<Rightarrow> bool" where
  "daemon_inv \<equiv> sys_inv (\<lambda>d. main_inv False (dm_main d)) critical_ok unprotected_ok"

lemma idle_inv: "main_inv False (dm_main d) \<Longrightarrow> daemon_inv (idle d n)"
  by (simp add: sys_inv_def idle_def)

lemma reached_inv:
  assumes "main_inv False (dm_main d)" "interleaved (daemon_crit fuel) daemon_open arriving (idle d n) s"
  shows "daemon_inv s"
  by (rule locked.interleaved_keeps[OF assms(2) idle_inv[OF assms(1)]]) (rule arriving_ok)

definition idle0 :: "(DAEMON, critical, unprotected) SYS" where
  "idle0 = idle \<lparr>dm_main = main0, dm_told = []\<rparr> 2"

lemma reached0: "interleaved (daemon_crit fuel) daemon_open arriving (idle \<lparr>dm_main = main0, dm_told = []\<rparr> 2) idle0"
  unfolding idle0_def by (rule begins)

lemma open_fault: "e \<in> open_faults u \<Longrightarrow> e = OutOfFuel \<or> e = UseAfterFree \<and> (\<exists>a ctx. u = Reading a ctx)"
  by (cases u) simp_all




text \<open>The first of two threads is inside, the second waits for it.\<close>

definition busy0 :: "(DAEMON, critical, unprotected) SYS" where
  "busy0 = idle0\<lparr>sys_mutex := Some 0, sys_threads := [Inside Cron, Blocked Cron]\<rparr>"

lemma reached_busy0: "interleaved (daemon_crit fuel) daemon_open arriving (idle \<lparr>dm_main = main0, dm_told = []\<rparr> 2) busy0"
proof -
  let ?s1 = "goes_on 0 idle0 (sys_main idle0, Blocked Cron)"
  let ?s2 = "goes_on 0 (?s1\<lparr>sys_mutex := Some 0\<rparr>) (sys_main ?s1, Inside Cron)"
  have 1: "interleaved (daemon_crit fuel) daemon_open arriving (idle \<lparr>dm_main = main0, dm_told = []\<rparr> 2) ?s1"
    by (rule arrives[OF reached0]) (simp_all add: idle0_def idle_def)
  have "thread_step (daemon_crit fuel 0) daemon_open 0 ?s1 = Some (Inr ?s2)"
    by (simp add: thread_step_def mutex_block_def idle0_def idle_def goes_on_def)
  note 2 = turn[OF 1 this]
  have "interleaved (daemon_crit fuel) daemon_open arriving (idle \<lparr>dm_main = main0, dm_told = []\<rparr> 2)
      (goes_on 1 ?s2 (sys_main ?s2, Blocked Cron))"
    by (rule arrives[OF 2]) (simp_all add: idle0_def idle_def)
  then show ?thesis by (simp add: busy0_def goes_on_def idle0_def idle_def numeral_2_eq_2)
qed


section \<open>A worker that is not disturbed\<close>

lemma goes_on_again [simp]: "goes_on i (goes_on i s r) r' = goes_on i s r'"
  by (simp add: goes_on_def)

lemma step_blocked:
  "i < length (sys_threads s) \<Longrightarrow> sys_threads s ! i = Blocked c \<Longrightarrow> sys_mutex s = None \<Longrightarrow>
    thread_step crit out i s = Some (Inr (goes_on i (s\<lparr>sys_mutex := Some i\<rparr>) (sys_main s, Inside c)))"
  by (simp add: thread_step_def mutex_block_def)

text \<open>A critical section of a thread that finds the mutex free: two steps.\<close>

lemma schedule_section:
  assumes "i < length (sys_threads s)" "sys_threads s ! i = Blocked c" "sys_mutex s = None"
  shows "schedule crit out ((i, t) # (i, t) # is) s = (case crit t c (sys_main s) of Inl e \<Rightarrow> Some (Inl e)
    | Inr r \<Rightarrow> schedule crit out is (goes_on i s r))"
proof -
  have "mutex_unblock (goes_on i (s\<lparr>sys_mutex := Some i\<rparr>) (sys_main s, Inside c)) = goes_on i s (sys_main s, Inside c)"
    using assms(3) by (simp add: mutex_unblock_def goes_on_def)
  then show ?thesis
    using step_blocked[OF assms, of "crit t" out] assms(1)
    by (simp add: thread_step_def split: sum.splits)
qed

declare schedule.simps(2) [simp del]

lemma schedule_open:
  assumes "i < length (sys_threads s)" "sys_threads s ! i = Outside u"
  shows "schedule crit out ((i, t) # is) s = (case out u (sys_main s) of Inl e \<Rightarrow> Some (Inl e)
    | Inr r \<Rightarrow> schedule crit out is (goes_on i s r))"
  using assms by (simp add: schedule.simps(2) thread_step_def split: sum.splits)

lemma at_switch_cases: "at_switch p from h = Blocked Cron \<or> (\<exists>q node_id key. at_switch p from h = Blocked (Query p q node_id key from))"
  by (cases h) auto

lemma parse_head_next:
  "parse_head m data src = Inr (m', th) \<Longrightarrow>
    th = Blocked Cron \<or> (\<exists>p q node_id key from. th = Blocked (Query p q node_id key from))"
  by (auto simp: parse_head_def Let_def bindr_eq_Inr split: if_splits option.splits) (metis at_switch_cases)

lemma schedule_cron:
  assumes "i < length (sys_threads s)" "sys_threads s ! i = Blocked Cron" "sys_mutex s = None"
  shows "schedule (daemon_crit fuel) daemon_open [(i, t), (i, t)] s = Some (bindr (p2p_cron fuel (dm_main (sys_main s)) t)
    (\<lambda>m. Inr (goes_on i s ((sys_main s)\<lparr>dm_main := m\<rparr>, Waiting))))"
  by (simp add: schedule_section[OF assms] bindr_def split: sum.splits)

text \<open>C9: The cut at the mutex is faithful: a worker that is not disturbed while it handles a datagram
  takes at most seven steps, and they do, faults included, what \<open>udp_input\<close> does as a whole.\<close>
theorem worker_alone:
  assumes "i < length (sys_threads s)" "sys_threads s ! i = Blocked (Clock data src)" "sys_mutex s = None" "data \<noteq> []"
  shows "\<exists>k \<le> 5. schedule (daemon_crit fuel) daemon_open ((i, t1) # (i, t1) # replicate k (i, t2)) s
    = Some (bindr (udp_input fuel [(data, src, t1, t2)] (dm_main (sys_main s))) (\<lambda>m.
        Inr (goes_on i s ((sys_main s)\<lparr>dm_main := m\<rparr>, Waiting))))"
proof -
  let ?d = "sys_main s" and ?n = "length (take UDP_BUF data)"
  let ?m = "(dm_main ?d)\<lparr>p2p := (p2p (dm_main ?d))\<lparr>time_now := t1\<rparr>\<rparr>"
  let ?s1 = "goes_on i s (?d\<lparr>dm_main := ?m\<rparr>, Outside (Decoding data src))"
  let ?goal = "\<lambda>m. Some (bindr (p2p_cron fuel m t2) (\<lambda>m. Inr (goes_on i s (?d\<lparr>dm_main := m\<rparr>, Waiting))))"
  have clock: "schedule (daemon_crit fuel) daemon_open ((i, t1) # (i, t1) # is) s = schedule (daemon_crit fuel) daemon_open is ?s1" for "is"
    by (simp add: schedule_section[OF assms(1-3)])
  have over: "udp_input fuel [] = Inr" by (rule ext) simp
  have whole: "udp_input fuel [(data, src, t1, t2)] (dm_main ?d) = bindr (bindr (parse_head ?m data src) after_head) (\<lambda>m. p2p_cron fuel m t2)"
    using assms(4) parse_head_parse[OF refl, of data "dm_main ?d" t1 src] by (simp add: over)
  have decode: "schedule (daemon_crit fuel) daemon_open ((i, t2) # is) ?s1 = (case parse_head ?m data src of Inl e \<Rightarrow> Some (Inl e)
    | Inr (m, th) \<Rightarrow> schedule (daemon_crit fuel) daemon_open is (goes_on i s (?d\<lparr>dm_main := m\<rparr>, th)))" for "is"
    using assms(1) schedule_open[of i ?s1 "Decoding data src"] by (simp add: bindr_def split: sum.splits)
  show ?thesis
  proof (cases "parse_head ?m data src")
    case (Inl e)
    then have "schedule (daemon_crit fuel) daemon_open ((i, t1) # (i, t1) # replicate 1 (i, t2)) s = Some (Inl e)"
      by (simp add: clock decode)
    then show ?thesis using Inl whole by (intro exI[of _ 1]) simp
  next
    case (Inr r)
    obtain m th where r: "r = (m, th)" by fastforce
    let ?s2 = "goes_on i s (?d\<lparr>dm_main := m\<rparr>, th)"
    consider "th = Blocked Cron" | p q nid key src' where "th = Blocked (Query p q nid key src')"
      using parse_head_next[of ?m data src m th] Inr r by blast
    then show ?thesis
    proof cases
      case 1
      have "schedule (daemon_crit fuel) daemon_open ((i, t1) # (i, t1) # replicate 3 (i, t2)) s = ?goal m"
        using schedule_cron[of i ?s2 fuel t2] assms(1,3) Inr r 1
        by (simp add: clock decode numeral_eq_Suc)
      then show ?thesis using Inr whole r 1 by (intro exI[of _ 3]) simp
    next
      case 2
      let ?query = "p2p_query m p q nid key src'"
      have switch: "schedule (daemon_crit fuel) daemon_open ((i, t2) # (i, t2) # is) ?s2 = (case ?query of Inl e \<Rightarrow> Some (Inl e)
        | Inr m1 \<Rightarrow> schedule (daemon_crit fuel) daemon_open is (goes_on i s (?d\<lparr>dm_main := m1\<rparr>, Blocked Cron)))" for "is"
        using schedule_section[of i ?s2 "Query p q nid key src'" "daemon_crit fuel" daemon_open t2] assms(1,3) 2
        by (simp add: bindr_def split: sum.splits)
      have "schedule (daemon_crit fuel) daemon_open ((i, t1) # (i, t1) # replicate 5 (i, t2)) s
        = (case ?query of Inl e \<Rightarrow> Some (Inl e) | Inr m1 \<Rightarrow> ?goal m1)"
        using schedule_cron[of i "goes_on i s (?d\<lparr>dm_main := m1\<rparr>, Blocked Cron)" fuel t2 for m1] assms(1,3) Inr r
        by (simp add: clock decode switch numeral_eq_Suc split: sum.splits)
      then show ?thesis using Inr whole r 2 by (intro exI[of _ 5]) (simp add: bindr_def split: sum.splits)
    qed
  qed
qed

theorem worker_alone_witness:
  "\<exists>k \<le> 5. schedule (daemon_crit 161) daemon_open ((1, 1000) # (1, 1000) # replicate k (1, 1001))
      (goes_on 1 idle0 (sys_main idle0, Blocked (Clock [CH_d, CH_e] no_addr)))
    = Some (bindr (udp_input 161 [([CH_d, CH_e], no_addr, 1000, 1001)] main0) (\<lambda>m.
        Inr (goes_on 1 idle0 ((sys_main idle0)\<lparr>dm_main := m\<rparr>, Waiting))))"
  using worker_alone[of 1 "goes_on 1 idle0 (sys_main idle0, Blocked (Clock [CH_d, CH_e] no_addr))" "[CH_d, CH_e]" no_addr 161 1000 1001]
  by (simp add: idle0_def idle_def)

section \<open>The pointer into the database\<close>

text \<open>What the periodic work does to the database: nothing but \<open>db_expire\<close>.\<close>

abbreviation same_db :: "DB STORE \<Rightarrow> MAIN res \<Rightarrow> bool" where
  "same_db D r \<equiv> post UNIV (\<lambda>m. database m = D) r"

lemma send_exec_db: "database m = D \<Longrightarrow> same_db D (send_exec m sa raw)"
  by (simp add: send_exec_def split: option.split)

lemma send_fields_db: "database m = D \<Longrightarrow> same_db D (send_fields m sa kvs)"
  unfolding send_fields_def
  by (rule post_bind[where P = "\<lambda>_. True"], simp add: post_def split: sum.split)
    (rule post_bind[where P = "\<lambda>_. True"], simp add: post_def split: sum.split, simp add: send_exec_db)

lemma send_db:
  "database m = D \<Longrightarrow> same_db D (send_ping m sa ty)" "database m = D \<Longrightarrow> same_db D (send_find m sa nid)"
  "database m = D \<Longrightarrow> same_db D (send_announce m sa lid nid)"
  by (auto simp: send_ping_def send_find_def send_announce_def rand_urandom_def cache_put_def intro!: send_fields_db)

lemma time_db:
  "time_add_5_min_approx m = (t, m') \<Longrightarrow> database m' = database m" "time_add_2_min_approx m = (t, m') \<Longrightarrow> database m' = database m"
  by (auto dest: time_5_min time_2_min)

lemma time_snd_db: "database (snd (time_add_5_min_approx m)) = database m"
  by (simp add: time_add_5_min_approx_def random_def)

lemma set_timer_db:
  "database (set_timer u (time_add_2_min_approx m)) = database m" "database (set_timer u (time_add_5_min_approx m)) = database m"
  using time_db by (auto simp: set_timer_def split: prod.split)

lemma any_post: "post UNIV (\<lambda>_. True) r"
  by (simp add: post_def split: sum.split)

lemma timed_db:
  "same_db D r \<Longrightarrow> same_db D (bindr r (\<lambda>m. Inr (set_timer u (time_add_2_min_approx m))))"
  "same_db D r \<Longrightarrow> same_db D (bindr r (\<lambda>m. Inr (set_timer u (time_add_5_min_approx m))))"
  by (erule post_bind, simp add: set_timer_db)+

lemma nbhd_pinged_db: "database m = D \<Longrightarrow> same_db D (nbhd_pinged m nid)"
  by (auto simp: nbhd_pinged_def set_node_def dest: time_db intro!: post_bind[OF any_post]
      split: option.split prod.split)

lemma nbhd_ping_db: "database m = D \<Longrightarrow> same_db D (nbhd_ping m)"
  unfolding nbhd_ping_def
  by (intro post_fold[where P = "\<lambda>m. database m = D"] post_bind[OF any_post])
    (auto intro: nbhd_pinged_db send_db post_bind[where P = "\<lambda>m. database m = D"])

lemma post_option: "(i = None \<Longrightarrow> post F P x) \<Longrightarrow> (\<And>k. i = Some k \<Longrightarrow> post F P (f k)) \<Longrightarrow> post F P (case i of None \<Rightarrow> x | Some k \<Rightarrow> f k)"
  by (cases i) simp_all

lemma nbhd_find_db:
  assumes "database m = D"
  shows "same_db D (nbhd_find m nid)"
  unfolding nbhd_find_def
proof (rule post_bind[OF any_post], rule post_option, simp add: assms)
  fix k
  show "same_db D (fold_res (\<lambda>j m'. bindr (node_at m' k j) (\<lambda>n. if now m' > n_time_find n
      then bindr (send_find m' (n_addr n) nid) (\<lambda>m1. case time_add_5_min_approx m1 of (t, m2) \<Rightarrow>
        Inr (set_node m2 k j (n\<lparr>n_time_find := t\<rparr>))) else Inr m')) [0..<length (bl_nodes (nbhd m) k)] m)"
    by (rule post_fold[where P = "\<lambda>m. database m = D", OF assms], rule post_bind[OF any_post])
      (auto intro!: post_bind[OF send_db(2)] simp: set_node_def time_snd_db case_prod_unfold)
qed

lemma nbhd_announce_db:
  assumes "database m = D"
  shows "post UNIV (\<lambda>r. database (snd r) = D) (nbhd_announce m a nid)"
  unfolding nbhd_announce_def
proof (rule post_bind[OF any_post], rule post_option, simp add: assms)
  fix k
  show "post UNIV (\<lambda>r. database (snd r) = D) (fold_res (\<lambda>j (a, m'). bindr (node_at m' k j) (\<lambda>n.
      let a' = announce_remember a (n_id n)
      in bindr (send_announce m' (n_addr n) (a_lkp_id a') nid) (\<lambda>m1. Inr (a', m1))))
      [0..<min 8 (length (bl_nodes (nbhd m) k))] (a, m))"
  proof (rule post_fold[where P = "\<lambda>r. database (snd r) = D"], simp add: assms)
    fix j and p :: "ANNOUNCE \<times> MAIN"
    assume "database (snd p) = D"
    then show "post UNIV (\<lambda>r. database (snd r) = D) (case p of (a, m') \<Rightarrow> bindr (node_at m' k j) (\<lambda>n.
        let a' = announce_remember a (n_id n)
        in bindr (send_announce m' (n_addr n) (a_lkp_id a') nid) (\<lambda>m1. Inr (a', m1))))"
      unfolding case_prod_unfold Let_def by (intro post_bind[OF any_post] post_bind[OF send_db(3)]) simp_all
  qed
qed

lemma announce_myself_db: "database m = D \<Longrightarrow> same_db D (p2p_announce_myself m)"
  by (auto simp: p2p_announce_myself_def announce_put_def rand_urandom_def Let_def
      intro!: post_bind[OF nbhd_announce_db])

lemma cron_busy_db:
  assumes "database m = D"
  shows "same_db D (bindr (cron_split fuel m) (\<lambda>m. bindr (cron_ping m) (\<lambda>m. bindr (cron_find m) (\<lambda>m.
      bindr (cron_maintainance m) cron_announce))))"
proof -
  have split: "same_db D (cron_split fuel m)"
    using assms by (auto simp: cron_split_def set_timer_db intro!: post_bind[OF any_post])
  have ping: "same_db D (cron_ping m)" and find: "same_db D (cron_find m)" and maint: "same_db D (cron_maintainance m)"
    and ann: "same_db D (cron_announce m)" if "database m = D" for m
    using that by (auto simp: cron_ping_def cron_find_def cron_maintainance_def cron_announce_def
        nbhd_find_myself_def nbhd_find_random_def rand_urandom_def
        intro!: timed_db nbhd_ping_db nbhd_find_db announce_myself_db)
  show ?thesis by (intro post_bind[OF split] post_bind[OF ping] post_bind[OF find] post_bind[OF maint] ann)
qed

lemma cron_restart_db:
  assumes "database m = D"
  shows "same_db D (cron_restart m)"
proof -
  have "same_db D (p2p_bootstrap m)"
    unfolding p2p_bootstrap_def using assms
    by (rule_tac post_option) (simp_all add: post_fold[where P = "\<lambda>m. database m = D"] send_db)
  then show ?thesis using assms by (auto simp: cron_restart_def intro!: timed_db)
qed

lemma cron_multicast_db:
  assumes "database m = D"
  shows "same_db D (cron_multicast m)"
proof -
  have "same_db D (udp_multicast m)" using assms by (cases "e_multicast (env m)") (simp_all add: udp_multicast_def)
  then show ?thesis using assms by (simp add: cron_multicast_def timed_db)
qed

lemma p2p_cron_db:
  assumes m: "main_inv False m" and run: "p2p_cron fuel m t = Inr m'"
  shows "s_list (database m') = (if t > time_expire (p2p m)
    then counted_sweep (outdated t) (length (s_list (database m))) (s_list (database m)) else s_list (database m))"
    (is "_ = ?swept")
proof -
  let ?m = "m\<lparr>p2p := (p2p m)\<lparr>time_now := t\<rparr>\<rparr>"
  have inv: "main_inv False ?m" by (rule main_inv_p2p[OF m])
  obtain m1 where m1: "cron_expire ?m = Inr m1" "s_list (database m1) = ?swept"
  proof (cases "t > time_expire (p2p m)")
    case True
    let ?a = "?m\<lparr>announce := store_sweep a_lkp_id (\<lambda>a. t > a_time_find a) (announce m)\<rparr>"
    have 1: "announce_expire ?m = Inr ?a" "main_inv False ?a"
      using announce_expire_sweep[OF main_inv_parts(5)[OF inv]] announce_expire_inv[OF inv] by simp_all
    obtain c where 2: "cache_expire ?a = Inr (?a\<lparr>cache := c\<rparr>)" "cache_ok (?a\<lparr>cache := c\<rparr>)"
      using cache_expire_ok[OF main_inv_parts(2)[OF 1(2)]] by blast
    have m2: "main_inv False (?a\<lparr>cache := c\<rparr>)" by (rule main_inv_cache[OF 1(2) 2(2)])
    obtain l where 3: "nbhd_expire (?a\<lparr>cache := c\<rparr>) = Inr (?a\<lparr>cache := c, nbhd := l\<rparr>)" "main_inv False (?a\<lparr>cache := c, nbhd := l\<rparr>)"
      using nbhd_expire_spec[OF m2] by auto
    obtain m4 where 4: "lkp_expire (?a\<lparr>cache := c, nbhd := l\<rparr>) = Inr m4" "main_inv False m4" "database m4 = database m" "now m4 = t"
      using lkp_expire_sweep[OF main_inv_parts(4)[OF 3(2)]] lkp_expire_inv[OF 3(2)] by simp
    obtain d where 5: "db_expire m4 = Inr (m4\<lparr>database := d\<rparr>)"
      "s_list d = counted_sweep (outdated t) (length (s_list (database m))) (s_list (database m))"
      using db_expire_spec[OF main_inv_parts(6)[OF 4(2)]] 4(3,4) by auto
    show thesis
      by (rule that[of "set_timer (\<lambda>t. time_expire_update (\<lambda>_. t)) (time_add_2_min_approx (m4\<lparr>database := d\<rparr>))"])
        (use True 1(1) 2(1) 3(1) 4(1) 5 in \<open>simp_all add: cron_expire_def set_timer_db\<close>)
  qed (rule that[of ?m], simp_all add: cron_expire_def)
  have "same_db (database m1) (if nbhd_empty m1 then cron_restart m1
      else bindr (cron_split fuel m1) (\<lambda>m. bindr (cron_ping m) (\<lambda>m. bindr (cron_find m) (\<lambda>m.
        bindr (cron_maintainance m) cron_announce))))"
    using cron_restart_db[OF refl] cron_busy_db[OF refl] by simp
  from post_bind[OF this, of "\<lambda>m. database m = database m1" cron_multicast] cron_multicast_db m1(1) run
  have "database m' = database m1" by (simp add: p2p_cron_def)
  then show ?thesis using m1(2) by simp
qed

lemma db_val_after_cron:
  assumes m: "main_inv False m" and run: "p2p_cron fuel m t = Inr m'" and a: "db_find m host = Some a" "db_val m a = Inr db"
  shows "\<not> t > d_time_anno db \<or> \<not> t > time_expire (p2p m) \<Longrightarrow> db_val m' a = Inr db"
    "t > time_expire (p2p m) \<Longrightarrow> s_list (database m) = gs @ (a, db) # ys \<Longrightarrow> t > d_time_anno db \<Longrightarrow>
      \<forall>x \<in> set gs. \<not> outdated t x \<Longrightarrow> db_val m' a = Inl UseAfterFree"
proof -
  let ?xs = "s_list (database m)"
  let ?ys = "counted_sweep (outdated t) (length ?xs) ?xs"
  note after = p2p_cron_db[OF m run]
  have dist: "distinct (map fst ?xs)" using main_inv_parts(6)[OF m] by (simp add: db_ok_def store_ok_def)
  have mem: "(a, db) \<in> set ?xs" using a(2) by (auto simp: db_val_def split: option.splits dest: map_of_SomeD)
  { assume "\<not> t > d_time_anno db \<or> \<not> t > time_expire (p2p m)"
    then have "(a, db) \<in> set (s_list (database m'))"
      using after mem counted_sweep_good[OF mem, of "outdated t" "length ?xs"] by auto
    moreover have "distinct (map fst (s_list (database m')))" using after dist counted_sweep_distinct[OF dist] by simp
    ultimately show "db_val m' a = Inr db" by (simp add: db_val_def) }
  assume *: "t > time_expire (p2p m)" "?xs = gs @ (a, db) # ys" "t > d_time_anno db" "\<forall>x \<in> set gs. \<not> outdated t x"
  then have "s_list (database m') = gs @ counted_sweep (outdated t) (length ys - 1) ys"
    using after counted_sweep_first[OF *(4), of "(a, db)" ys] by simp
  moreover have "a \<notin> fst ` set gs" "a \<notin> fst ` set (counted_sweep (outdated t) (length ys - 1) ys)"
    using dist *(2) image_mono[OF counted_sweep_sub[of "outdated t" "length ys - 1" ys], of fst] by auto
  ultimately have "map_of (s_list (database m')) a = None" by (simp add: map_of_eq_None_iff image_Un)
  then show "db_val m' a = Inl UseAfterFree" by (simp add: db_val_def)
qed

text \<open>A front end that looks up a known host and is not disturbed passes its address to its
  callback. If the periodic work of another thread comes between \<open>db_address\<close> and the use of the
  pointer, it still does as long as the host is not outdated by then; if the host is the first outdated
  one of the database, the front end reads freed memory.\<close>
lemma address_race:
  assumes "main_inv False (dm_main d)" "sys_main s = d" "sys_mutex s = None" "i < length (sys_threads s)" "j < length (sys_threads s)"
    "i \<noteq> j" "sys_threads s ! i = Blocked (Address host ctx)" "sys_threads s ! j = Blocked Cron"
    "(a, db) \<in> set (s_list (database (dm_main d)))" "d_host_id db = host" "p2p_cron fuel (dm_main d) t = Inr m'"
  shows "schedule (daemon_crit fuel) daemon_open [(i, t0), (i, t0), (i, t0)] s
      = Some (Inr (goes_on i s (d\<lparr>dm_told := dm_told d @ [(ctx, sin6_addr (d_addr db))]\<rparr>, Waiting))) \<and>
    (\<not> t > d_time_anno db \<longrightarrow>
      (\<exists>s'. schedule (daemon_crit fuel) daemon_open [(i, t0), (i, t0), (j, t), (j, t), (i, t)] s = Some (Inr s') \<and>
        dm_told (sys_main s') = dm_told d @ [(ctx, sin6_addr (d_addr db))])) \<and>
    (t > d_time_anno db \<and> t > time_expire (p2p (dm_main d)) \<and>
      (\<exists>gs ys. s_list (database (dm_main d)) = gs @ (a, db) # ys \<and> (\<forall>x \<in> set gs. \<not> outdated t x)) \<longrightarrow>
      schedule (daemon_crit fuel) daemon_open [(i, t0), (i, t0), (j, t), (j, t), (i, t)] s = Some (Inl UseAfterFree))"
proof -
  let ?m = "dm_main d"
  have ok: "db_ok (database ?m)" using main_inv_parts(6)[OF assms(1)] .
  have find: "db_find ?m host = Some a"
    using full_at[of "\<lambda>h. hash_get h" d_host_id, OF _ assms(9)] db_parts(2)[OF ok] assms(10) by (simp add: db_find_def)
  with db_find_cases[OF ok, of host] have val: "db_val ?m a = Inr db"
    using ok_unique[OF db_parts(1)[OF ok] assms(9)] by (metis option.distinct(1) option.inject)
  let ?s1 = "goes_on i s (d, Outside (Reading a ctx))"
  let ?s2 = "goes_on j ?s1 (d\<lparr>dm_main := m'\<rparr>, Waiting)"
  have fetch: "schedule (daemon_crit fuel) daemon_open ((i, t0) # (i, t0) # is) s = schedule (daemon_crit fuel) daemon_open is ?s1" for "is"
    using assms(2) by (simp add: schedule_section[OF assms(4,7,3)] find val)
  have cron: "schedule (daemon_crit fuel) daemon_open ((j, t) # (j, t) # is) ?s1 = schedule (daemon_crit fuel) daemon_open is ?s2" for "is"
    using schedule_section[of j ?s1 Cron "daemon_crit fuel" daemon_open t "is"] assms(2-6,8,11) by simp
  have alone: "schedule (daemon_crit fuel) daemon_open [(i, t0), (i, t0), (i, t0)] s
      = Some (Inr (goes_on i s (d\<lparr>dm_told := dm_told d @ [(ctx, sin6_addr (d_addr db))]\<rparr>, Waiting)))"
    using schedule_open[of i ?s1 "Reading a ctx" "daemon_crit fuel" daemon_open t0 "[]"] assms(4) by (simp add: fetch val)
  have read: "schedule (daemon_crit fuel) daemon_open [(i, t0), (i, t0), (j, t), (j, t), (i, t)] s
      = (case db_val m' a of Inl e \<Rightarrow> Some (Inl e)
        | Inr x \<Rightarrow> Some (Inr (goes_on i ?s2 (d\<lparr>dm_main := m', dm_told := dm_told d @ [(ctx, sin6_addr (d_addr x))]\<rparr>, Waiting))))"
    using schedule_open[of i ?s2 "Reading a ctx" "daemon_crit fuel" daemon_open t "[]"] assms(4,6)
    by (simp add: fetch cron bindr_def split: sum.splits)
  show ?thesis
    using alone read db_val_after_cron[OF assms(1,11) find val] by fastforce
qed

definition race_main :: MAIN where
  "race_main = main0\<lparr>database := store_put (database main0) (replicate 20 7)
     \<lparr>d_host_id = replicate 20 7, d_addr = no_addr, d_time_anno = 1900\<rparr>\<rparr>"

definition race_sys :: "(DAEMON, critical, unprotected) SYS" where
  "race_sys = \<lparr>sys_main = \<lparr>dm_main = race_main, dm_told = []\<rparr>, sys_mutex = None,
     sys_threads = [Blocked (Address (replicate 20 7) 5), Blocked Cron]\<rparr>"

lemma race_main_inv: "main_inv False race_main"
proof -
  let ?db = "\<lparr>d_host_id = replicate 20 7, d_addr = no_addr, d_time_anno = 1900\<rparr> :: DB"
  have ok: "db_ok (database main0)" using main_inv_parts(6)[OF main_inv_main0] .
  have none: "hash_get (s_hash (database main0)) (replicate 20 7) = None"
    by (simp add: main0_def main_start_def store_init_def hash_get_init)
  have "db_entry_ok ?db" by (simp add: db_entry_ok_def is_id_def SHA_DIGEST_LENGTH_def addr_ok_def no_addr_def)
  then have "db_ok (store_put (database main0) (replicate 20 7) ?db)"
    using store_put_ok[OF db_parts(1)[OF ok], of ?db "replicate 20 7"]
      store_put_full[OF db_parts(1,2)[OF ok] none, of ?db] ok
    by (auto simp: db_ok_def store_put_def seq_put_def)
  then show ?thesis unfolding race_main_def by (intro main_inv_database) simp_all
qed

lemma address_race_example:
  "schedule (daemon_crit 161) daemon_open [(0, 1899), (0, 1899), (1, 1901), (1, 1901), (0, 1901)] race_sys = Some (Inl UseAfterFree)"
proof -
  let ?db = "\<lparr>d_host_id = replicate 20 7, d_addr = no_addr, d_time_anno = 1900\<rparr> :: DB"
  have list: "s_list (database race_main) = [(0, ?db)]"
    by (simp add: race_main_def main0_def main_start_def store_init_def store_put_def seq_put_def)
  have "\<exists>m'. p2p_cron 161 race_main 1901 = Inr m'"
    by (simp add: p2p_cron_def cron_expire_def announce_expire_def cache_expire_def nbhd_expire_def nbhd_expire_bucket.simps
        lkp_expire_def db_expire_def db_expire_loop.simps db_del_def db_val_def store_del_def seq_del_def nbhd_empty_def
        cron_restart_def p2p_bootstrap_def cron_multicast_def udp_multicast_def set_timer_def time_add_2_min_approx_def
        time_add_5_min_approx_def random_def race_main_def main0_def main_start_def store_init_def store_put_def seq_put_def
        bckt_init_def bl_put_def bl_nodes_def)
  then obtain m' where "p2p_cron 161 race_main 1901 = Inr m'" by blast
  moreover have "sys_main race_sys = \<lparr>dm_main = race_main, dm_told = []\<rparr>" "sys_mutex race_sys = None"
    "sys_threads race_sys = [Blocked (Address (replicate 20 7) 5), Blocked Cron]" "time_expire (p2p race_main) = 0"
    by (simp_all add: race_sys_def race_main_def main0_def main_start_def)
  moreover have "\<exists>gs ys. [(0, ?db)] = gs @ (0, ?db) # ys \<and> (\<forall>x \<in> set gs. \<not> outdated 1901 x)"
    by (intro exI[of _ "[]"]) simp
  ultimately show ?thesis
    using address_race[of "\<lparr>dm_main = race_main, dm_told = []\<rparr>" race_sys 0 1 "replicate 20 7" 5 0 ?db 161 1901 m' 1899]
    by (simp add: race_main_inv list)
qed

end
