(* ===== verification/Races.thy ===== *)
theory Races
  imports Linklist
begin

text \<open>
  What the call of \<open>nbhd_put\<close> outside the mutex (\<open>p2p_decode\<close> in \<open>src/src/p2p.c\<close>) can do to a bucket.
  \<open>nbhd_put\<close> appends the new node with \<open>list_put\<close>, while a thread inside the mutex may delete nodes
  of the same bucket with \<open>list_del\<close> (\<open>nbhd_expire\<close>). The branch of \<open>list_put\<close> for a list with items
  is cut here where it reads and writes the shared list.
\<close>

section \<open>The statements of list put\<close>

text \<open>\<open>newItem->prev = list->stop\<close>; \<open>list->stop->next = newItem\<close>; \<open>list->stop = newItem\<close> with
  \<open>list->counter++\<close>.\<close>

definition put_fill :: "'v heap \<Rightarrow> LIST \<Rightarrow> addr \<Rightarrow> 'v \<Rightarrow> 'v heap" where
  "put_fill h L new payload = h(new := Some \<lparr>i_val = payload, i_next = None, i_prev = l_stop L\<rparr>)"

definition put_link :: "'v heap \<Rightarrow> LIST \<Rightarrow> addr \<Rightarrow> 'v heap res" where
  "put_link h L new = set_next h (l_stop L) (Some new)"

definition put_stop :: "LIST \<Rightarrow> addr \<Rightarrow> LIST" where
  "put_stop L new = L\<lparr>l_stop := Some new, l_counter := l_counter L + 1\<rparr>"

lemma list_put_statements:
  "l_start L \<noteq> None \<Longrightarrow> 0 < sint (l_counter L + 1) \<Longrightarrow>
    list_put h L new payload = bindr (put_link (put_fill h L new payload) L new) (\<lambda>h'. Inr (h', put_stop L new, Some new))"
  by (auto simp: list_put_def put_fill_def put_link_def put_stop_def)

section \<open>A deletion in between\<close>

lemma list_del_last:
  assumes "linked h L (xs @ [(b, w), (a, v)])" "new \<notin> fst ` set (xs @ [(b, w), (a, v)])"
  shows "\<exists>itb. h b = Some itb \<and> list_del (put_fill h L new payload) L (Some a)
    = Inr ((put_fill h L new payload)(b := Some (itb\<lparr>i_next := None\<rparr>), a := None),
        L\<lparr>l_stop := Some b, l_counter := l_counter L - 1\<rparr>, None)"
proof -
  have c: "0 < sint (l_counter L)" using threaded_counter[OF linked_threaded[OF assms(1)]] by simp
  obtain itb ita where "h b = Some itb" "h a = Some ita" "i_next ita = None" "i_prev ita = Some b"
    using assms(1) by (auto simp: linked_def)
  moreover have "a \<noteq> b" using assms(1) by (simp add: linked_def)
  moreover have "new \<noteq> a" "new \<noteq> b" using assms(2) by auto
  ultimately show ?thesis using c by (simp add: list_del_def deref_def set_next_def put_fill_def)
qed

text \<open>C40: \<open>list_put\<close> without the mutex loses the race against \<open>list_del\<close> of the last item. If the
  deletion comes after the new item has taken its \<open>prev\<close> from \<open>list->stop\<close>, the append still
  succeeds, but leaves an item whose \<open>prev\<close> points to freed memory: to delete the new item is then a
  use of freed memory. If the deleted item was the only one, the append itself dereferences NULL.\<close>
theorem list_put_races_list_del:
  assumes "linked h L (xs @ [(a, v)])" "h new = None" "length xs < 2 ^ 63 - 2"
  shows "\<exists>h1 L1. list_del (put_fill h L new payload) L (Some a) = Inr (h1, L1, None) \<and>
    (if xs = [] then put_link h1 L1 new = Inl NullDeref
     else \<exists>h2. put_link h1 L1 new = Inr h2 \<and> l_stop (put_stop L1 new) = Some new \<and>
       map_option i_prev (h2 new) = Some (Some a) \<and> h2 a = None \<and>
       list_del h2 (put_stop L1 new) (Some new) = Inl UseAfterFree)"
proof -
  have "seg h None (l_start L) (xs @ [(a, v)]) (l_stop L) None" using assms(1) by (simp only: linked_def)
  note new = fresh_notin[OF this assms(2)]
  show ?thesis
  proof (cases xs rule: rev_cases)
    case Nil
    have "0 < sint (l_counter L)" using threaded_counter[OF linked_threaded[OF assms(1)]] by simp
    then show ?thesis using assms(1) new Nil
      by (auto simp: linked_def list_del_def deref_def put_fill_def put_link_def set_next_def)
  next
    case (snoc ys c)
    obtain b w where c: "c = (b, w)" by fastforce
    have list: "linked h L (ys @ [(b, w), (a, v)])" using assms(1) by (simp add: snoc c)
    have fresh: "new \<notin> fst ` set (ys @ [(b, w), (a, v)])" using new by (simp add: snoc c)
    obtain itb where del: "list_del (put_fill h L new payload) L (Some a)
      = Inr ((put_fill h L new payload)(b := Some (itb\<lparr>i_next := None\<rparr>), a := None),
          L\<lparr>l_stop := Some b, l_counter := l_counter L - 1\<rparr>, None)"
      using list_del_last[OF list fresh, of payload] by blast
    let ?h1 = "(put_fill h L new payload)(b := Some (itb\<lparr>i_next := None\<rparr>), a := None)"
    let ?L1 = "L\<lparr>l_stop := Some b, l_counter := l_counter L - 1\<rparr>"
    let ?h2 = "?h1(b := Some (itb\<lparr>i_next := Some new\<rparr>))"
    have ne: "a \<noteq> b" "new \<noteq> a" "new \<noteq> b" using list fresh by (auto simp: linked_def)
    have stop: "l_stop L = Some a" using list by (auto simp: linked_def)
    have "put_link ?h1 ?L1 new = Inr ?h2" using ne by (simp add: put_link_def set_next_def deref_def)
    moreover have "0 < sint (l_counter L)" using threaded_counter[OF linked_threaded[OF list]] by simp
    then have "list_del ?h2 (put_stop ?L1 new) (Some new) = Inl UseAfterFree"
      using ne stop by (simp add: list_del_def deref_def set_next_def put_stop_def put_fill_def)
    ultimately show ?thesis using ne stop snoc del by (simp add: put_stop_def put_fill_def)
  qed
qed

theorem list_put_races_list_del_witness:
  "\<exists>h1 L1. list_del (put_fill h3 L3 4 40) L3 (Some 3) = Inr (h1, L1, None) \<and>
    (\<exists>h2. put_link h1 L1 4 = Inr h2 \<and> h2 3 = None \<and> list_del h2 (put_stop L1 4) (Some 4) = Inl UseAfterFree)"
  using list_put_races_list_del[of h3 L3 "[(1, 10), (2, 20)]" 3 30 4 40] linked_h3 by (auto simp: h3_def)

end
