(* ===== verification/Udp.thy ===== *)
theory Udp
  imports Daemon
begin

text \<open>
  The worker threads of \<open>src/src/udp.c\<close>: what they do with the results of \<open>epoll_wait\<close>. A round of
  \<open>udp_thread\<close> is the result of \<open>epoll_wait\<close> with the status of the server after it; the list ends
  when the server is shut down before the next round. With an event comes what \<open>recvfrom\<close> then
  delivers, and whether \<open>epoll_ctl\<close> in \<open>udp_rearm\<close> succeeds. Here one worker runs alone; how several
  of them and the front ends interleave is the subject of \<open>Threads\<close>.
\<close>

section \<open>The threads\<close>

datatype epoll_event = EPOLLIN "(bytes \<times> IP \<times> int \<times> int) list" bool | Other_event

datatype epoll_result = Failed bool | Timeout int | Events "epoll_event list"

definition udp_rearm :: "bool \<Rightarrow> unit res" where
  "udp_rearm done = (if done then Inr () else Inl ExitFailure)"

fun udp_worker :: "nat \<Rightarrow> epoll_event list \<Rightarrow> MAIN \<Rightarrow> MAIN res" where
  "udp_worker fuel [] m = Inr m"
| "udp_worker fuel (EPOLLIN datagrams rearmed # events) m = bindr (udp_input fuel datagrams m) (\<lambda>m1.
     bindr (udp_rearm rearmed) (\<lambda>_. udp_worker fuel events m1))"
| "udp_worker fuel (Other_event # events) m = udp_worker fuel events m"

text \<open>\<open>Failed interrupted\<close> is \<open>-1\<close> with \<open>errno\<close> equal to \<open>EINTR\<close> or not; \<open>Timeout t\<close> is 0, with the
  clock at \<open>t\<close>.\<close>

definition udp_cron :: "nat \<Rightarrow> int \<Rightarrow> MAIN \<Rightarrow> MAIN res" where
  "udp_cron fuel t m = p2p_cron fuel m t"

fun udp_thread :: "nat \<Rightarrow> nat \<Rightarrow> (epoll_result \<times> bool) list \<Rightarrow> MAIN \<Rightarrow> MAIN res" where
  "udp_thread fuel i [] m = Inr m"
| "udp_thread fuel i ((w, online) # rounds) m = (if \<not> online then Inr m
     else bindr (case w of
         Failed interrupted \<Rightarrow> if \<not> interrupted then Inl ExitFailure else Inr m
       | Timeout t \<Rightarrow> if i = 0 then udp_cron fuel t m else Inr m
       | Events events \<Rightarrow> udp_worker fuel events m) (udp_thread fuel i rounds))"

section \<open>Before the start\<close>

text \<open>The record as \<open>udp_init\<close> leaves it; \<open>epollfd\<close> and the mutex are set later. \<open>udp_start\<close> sets \<open>sockfd\<close>, which the state of
  the daemon has with \<open>multicast\<close> as fields of its own.\<close>

record UDP =
  u_addr :: IP
  u_addrlen :: nat
  u_sockfd :: int
  u_id :: nat
  u_multicast :: int
  u_threads :: "nat option"

definition udp_init :: UDP where
  "udp_init = \<lparr>u_addr = \<lparr>sin6_family = 0, sin6_port = [0, 0], sin6_flowinfo = 0, sin6_addr = replicate 16 0, sin6_scope_id = 0\<rparr>,
     u_addrlen = 28, u_sockfd = - 1, u_id = 0, u_multicast = 0, u_threads = None\<rparr>"

text \<open>Until the socket is open nothing is sent.\<close>

lemma nothing_sent_before_start: "sockfd m = u_sockfd udp_init \<Longrightarrow> send_exec m sa raw = Inr m"
  by (simp add: send_exec_def udp_init_def)

section \<open>The rounds are events of the daemon\<close>

fun event_addrs_ok :: "epoll_event \<Rightarrow> bool" where
  "event_addrs_ok (EPOLLIN datagrams rearmed) \<longleftrightarrow> (\<forall>(data, src, t1, t2) \<in> set datagrams. addr_ok src)"
| "event_addrs_ok Other_event \<longleftrightarrow> True"

fun round_ok :: "epoll_result \<times> bool \<Rightarrow> bool" where
  "round_ok (Events events, online) \<longleftrightarrow> (\<forall>ev \<in> set events. event_addrs_ok ev)"
| "round_ok _ \<longleftrightarrow> True"

text \<open>\<open>follows fuel m r\<close>: the computation \<open>r\<close> is a run of the daemon from \<open>m\<close>, or ends in the fault of
  an event after such a run, or with \<open>log_err\<close>.\<close>

definition follows :: "nat \<Rightarrow> MAIN \<Rightarrow> MAIN res \<Rightarrow> bool" where
  "follows fuel m r \<longleftrightarrow> (\<exists>es m1. runs fuel m es m1 \<and> (case r of Inr m' \<Rightarrow> m' = m1
     | Inl e \<Rightarrow> e = ExitFailure \<or> (\<exists>ev. event_ok ev \<and> handle fuel ev m1 = Inl e)))"

lemma runs_append: "runs fuel m2 es' m3 \<Longrightarrow> runs fuel m1 es m2 \<Longrightarrow> runs fuel m1 (es @ es') m3"
proof (induction rule: runs.induct)
  case (runs_snoc m es2 m' e m'')
  from runs.runs_snoc[OF runs_snoc.IH[OF runs_snoc.prems] runs_snoc.hyps(2)] show ?case by simp
qed simp

lemma follows_return [simp]: "follows fuel m (Inr m)"
  unfolding follows_def by (intro exI[of _ "[]"] exI[of _ m]) (simp add: runs_Nil)

lemma follows_exit [simp]: "follows fuel m (Inl ExitFailure)"
  unfolding follows_def by (intro exI[of _ "[]"] exI[of _ m]) (simp add: runs_Nil)

lemma follows_event:
  assumes "event_ok ev"
  shows "follows fuel m (handle fuel ev m)"
proof (cases "handle fuel ev m")
  case (Inl e)
  with assms show ?thesis
    unfolding follows_def by (intro exI[of _ "[]"] exI[of _ m]) (auto simp: runs_Nil)
next
  case (Inr m')
  have "runs fuel m ([] @ [ev]) m'" using assms Inr by (intro runs_snoc[OF runs_Nil]) (simp add: step_simp)
  with Inr show ?thesis unfolding follows_def by auto
qed

lemma follows_bind:
  assumes "follows fuel m r" "\<And>m1. r = Inr m1 \<Longrightarrow> follows fuel m1 (f m1)"
  shows "follows fuel m (bindr r f)"
proof (cases r)
  case (Inr m1)
  with assms(1) obtain es where es: "runs fuel m es m1" by (auto simp: follows_def)
  from assms(2)[OF Inr] obtain es' m2 where "runs fuel m1 es' m2" "case f m1 of Inr m' \<Rightarrow> m' = m2
     | Inl e \<Rightarrow> e = ExitFailure \<or> (\<exists>ev. event_ok ev \<and> handle fuel ev m2 = Inl e)"
    unfolding follows_def by blast
  with runs_append[OF _ es] Inr show ?thesis unfolding follows_def by auto
qed (use assms(1) in \<open>simp add: follows_def\<close>)

lemma input_follows: "\<forall>(data, src, t1, t2) \<in> set ds. addr_ok src \<Longrightarrow> follows fuel m (udp_input fuel ds m)"
proof (induction fuel ds m rule: udp_input.induct)
  case (2 fuel data src t1 t2 rest m)
  have "follows fuel m (bindr (handle fuel (Datagram data src t1) m) (\<lambda>m1.
      bindr (handle fuel (Tick t2) m1) (udp_input fuel rest)))" if "data \<noteq> []"
    using 2 that by (intro follows_bind follows_event) (simp_all add: Let_def)
  then show ?case by (simp add: Let_def)
qed simp

lemma worker_follows: "\<forall>ev \<in> set events. event_addrs_ok ev \<Longrightarrow> follows fuel m (udp_worker fuel events m)"
proof (induction fuel events m rule: udp_worker.induct)
  case (2 fuel ds rearmed events m)
  then show ?case by (cases rearmed) (auto simp: udp_rearm_def intro!: follows_bind input_follows)
qed simp_all


definition rounds0 :: "(epoll_result \<times> bool) list" where
  "rounds0 = [(Failed True, True), (Events [Other_event, EPOLLIN [([], no_addr, 1000, 1000)] True], True), (Timeout 1000, False)]"


end
