(* ===== verification/Waiting.thy ===== *)
theory Waiting
  imports Contact "HOL-Library.Multiset"
begin

text \<open>
  The callbacks the daemon owes. A lookup that a front end starts holds the context it is to call back
  with; every event of the daemon accounts for each context: it still waits in a lookup, or it has been
  called, and it is called once for each time it was registered. The law needs the addresses of the
  lookups to be distinct and nothing else of the invariant.
\<close>

section \<open>What waits\<close>

text \<open>The contexts of the lookups that are under way, with repetitions.\<close>

definition waiting :: "LOOKUP STORE \<Rightarrow> nat multiset" where
  "waiting s = mset (List.map_filter (\<lambda>e. l_callback (snd e)) (s_list s))"

definition addrs_ok :: "LOOKUP STORE \<Rightarrow> bool" where
  "addrs_ok s \<longleftrightarrow> distinct (map fst (s_list s)) \<and> (\<forall>a \<in> fst ` set (s_list s). a < s_new s)"

text \<open>\<open>settles A m m'\<close>: from \<open>m\<close> to \<open>m'\<close> the contexts \<open>A\<close> were registered, and all others that no longer wait were
  called.\<close>

definition settles :: "nat multiset \<Rightarrow> MAIN \<Rightarrow> MAIN \<Rightarrow> bool" where
  "settles A m m' \<longleftrightarrow> (addrs_ok (lkps m) \<longrightarrow> addrs_ok (lkps m') \<and> (\<exists>cs. e_called (env m') = e_called (env m) @ cs \<and>
     waiting (lkps m') + mset (map fst cs) = waiting (lkps m) + A))"

definition quiet :: "MAIN \<Rightarrow> MAIN \<Rightarrow> bool" where
  "quiet m m' \<longleftrightarrow> lkps m' = lkps m \<and> e_called (env m') = e_called (env m)"

lemma quiet_refl [simp]: "quiet m m"
  by (simp add: quiet_def)

lemma quiet_trans: "quiet a b \<Longrightarrow> quiet b c \<Longrightarrow> quiet a c"
  by (simp add: quiet_def)

lemma quiet_settles: "quiet m m' \<Longrightarrow> settles {#} m m'"
  by (simp add: quiet_def settles_def)

lemma settles_trans:
  assumes "settles A a b" "settles B b c"
  shows "settles (A + B) a c"
  unfolding settles_def
proof
  assume a: "addrs_ok (lkps a)"
  with assms(1) obtain cs where b: "addrs_ok (lkps b)" "e_called (env b) = e_called (env a) @ cs"
    "waiting (lkps b) + mset (map fst cs) = waiting (lkps a) + A" unfolding settles_def by blast
  with assms(2) obtain ds where c: "addrs_ok (lkps c)" "e_called (env c) = e_called (env b) @ ds"
    "waiting (lkps c) + mset (map fst ds) = waiting (lkps b) + B" unfolding settles_def by blast
  have "waiting (lkps c) + mset (map fst (cs @ ds)) = (waiting (lkps c) + mset (map fst ds)) + mset (map fst cs)"
    by (simp add: union_ac)
  also have "\<dots> = (waiting (lkps b) + mset (map fst cs)) + B" unfolding c(3) by (simp add: union_ac)
  also have "\<dots> = waiting (lkps a) + (A + B)" unfolding b(3) by (simp add: union_ac)
  finally show "addrs_ok (lkps c) \<and> (\<exists>cs. e_called (env c) = e_called (env a) @ cs \<and>
      waiting (lkps c) + mset (map fst cs) = waiting (lkps a) + (A + B))"
    using b(2) c(1,2) by (intro conjI exI[of _ "cs @ ds"]) simp_all
qed

lemma settles_then: "settles {#} a b \<Longrightarrow> settles B b c \<Longrightarrow> settles B a c"
  using settles_trans by fastforce

lemma settles_refl: "settles {#} m m"
  by (simp add: quiet_settles)

section \<open>Composition\<close>

lemma post_value: "(\<And>x. post UNIV P (f x)) \<Longrightarrow> post UNIV P (bindr r f)"
  by (cases r) auto

lemma post_mono: "post F P r \<Longrightarrow> (\<And>s. P s \<Longrightarrow> Q s) \<Longrightarrow> post F Q r"
  by (erule post_weaken) auto

lemma quiet_step: "post UNIV (quiet m1) r \<Longrightarrow> quiet m m1 \<Longrightarrow> post UNIV (quiet m) r"
  by (erule post_mono) (rule quiet_trans)

lemma settles_quiet: "post UNIV (quiet m) r \<Longrightarrow> post UNIV (settles {#} m) r"
  by (erule post_mono) (rule quiet_settles)

lemma settles_later: "post UNIV (settles A m1) r \<Longrightarrow> settles {#} m m1 \<Longrightarrow> post UNIV (settles A m) r"
  by (erule post_mono) (rule settles_then)

lemma settles_step: "post UNIV (settles A m1) r \<Longrightarrow> quiet m m1 \<Longrightarrow> post UNIV (settles A m) r"
  by (erule settles_later) (rule quiet_settles)

lemma quiet_bind:
  "post UNIV (quiet m) r \<Longrightarrow> (\<And>m1. post UNIV (quiet m1) (f m1)) \<Longrightarrow> post UNIV (quiet m) (bindr r f)"
  by (erule post_bind) (rule quiet_step)

lemma quiet_fold: "(\<And>x s. post UNIV (quiet s) (f x s)) \<Longrightarrow> post UNIV (quiet m) (fold_res f xs m)"
  by (rule post_fold) (auto intro: quiet_step)

lemma settles_bind:
  "post UNIV (settles {#} m) r \<Longrightarrow> (\<And>m1. post UNIV (settles {#} m1) (f m1)) \<Longrightarrow> post UNIV (settles {#} m) (bindr r f)"
  by (erule post_bind) (rule settles_later)

lemma post_pair: "post UNIV (\<lambda>(x, m'). Q m m') r \<Longrightarrow> (\<And>x m1. Q m m1 \<Longrightarrow> post UNIV P (f x m1)) \<Longrightarrow>
    post UNIV P (bindr r (\<lambda>(x, m'). f x m'))"
  by (cases r) auto

section \<open>What leaves the lookups alone\<close>

named_theorems quiet_ops

lemma quiet_exec [quiet_ops]: "post UNIV (quiet m) (send_exec m sa raw)"
  by (simp add: send_exec_def quiet_def split: option.split)

lemma quiet_fields: "quiet m m1 \<Longrightarrow> post UNIV (quiet m) (send_fields m1 sa kvs)"
  unfolding send_fields_def by (intro post_value) (rule quiet_step[OF quiet_exec])

lemma quiet_session: "rand_urandom m n = (sid, m1) \<Longrightarrow> quiet m (cache_put m1 s t)"
  by (auto simp: rand_urandom_def quiet_def)

lemma quiet_sends [quiet_ops]:
  "post UNIV (quiet m) (send_ping m sa t)" "post UNIV (quiet m) (send_find m sa nid)"
  "post UNIV (quiet m) (send_lookup m sa nid lid)" "post UNIV (quiet m) (send_announce m sa lid hid)"
  "post UNIV (quiet m) (send_pong m sa sid)" "post UNIV (quiet m) (send_value m sa v sid lid)"
  by (auto simp: send_ping_def send_find_def send_lookup_def send_announce_def send_pong_def send_value_def
      intro: quiet_fields quiet_session split: prod.split)

lemma quiet_send_node [quiet_ops]: "post UNIV (quiet m) (send_node m sa b sid lid q)"
  unfolding send_node_def by (intro post_value quiet_exec)

lemma quiet_set_node [simp]: "quiet m (set_node m' k j n) = quiet m m'"
  by (simp add: quiet_def set_node_def)

lemma quiet_time:
  "time_add_5_min_approx m = (t, m') \<Longrightarrow> quiet m m'" "time_add_2_min_approx m = (t, m') \<Longrightarrow> quiet m m'"
  by (auto simp: time_add_5_min_approx_def time_add_2_min_approx_def random_def quiet_def)

lemma quiet_set_timer: "f = time_add_2_min_approx \<or> f = time_add_5_min_approx \<Longrightarrow> quiet m (set_timer u (f m))"
  by (auto simp: set_timer_def time_add_5_min_approx_def time_add_2_min_approx_def random_def quiet_def)

lemma quiet_nbhd_put [quiet_ops]: "post UNIV (quiet m) (nbhd_put m nid sa)"
  using nbhd_put_grows[of m nid sa] by (cases "nbhd_put m nid sa") (auto simp: quiet_def)

lemma quiet_nbhd_send [quiet_ops]: "post UNIV (quiet m) (nbhd_send m sa nid lid sid q)"
  unfolding nbhd_send_def by (intro post_value) (auto intro: post_value quiet_ops split: option.split)

lemma quiet_pinged [quiet_ops]: "post UNIV (quiet m) (nbhd_pinged m nid)" "post UNIV (quiet m) (nbhd_ponged m nid sa)"
  by (auto simp: nbhd_pinged_def nbhd_ponged_def intro!: post_value dest: quiet_time split: option.split prod.split)

lemma quiet_nbhd_ping [quiet_ops]: "post UNIV (quiet m) (nbhd_ping m)"
  unfolding nbhd_ping_def by (intro quiet_fold post_value) (auto intro!: quiet_bind quiet_ops)

lemma quiet_find_step: "post UNIV (quiet m) (bindr (send_find m sa nid) (\<lambda>m1. case time_add_5_min_approx m1 of (t, m2) \<Rightarrow>
    Inr (set_node m2 k j (n t))))"
  by (rule quiet_bind[OF quiet_sends(2)]) (auto dest: quiet_time split: prod.split)

lemma quiet_find [quiet_ops]: "post UNIV (quiet m) (nbhd_find m nid)"
  unfolding nbhd_find_def
  by (intro post_value) (auto intro!: quiet_fold post_value quiet_find_step split: option.split)

lemma quiet_finds [quiet_ops]: "post UNIV (quiet m) (nbhd_find_myself m)" "post UNIV (quiet m) (nbhd_find_random m)"
  by (auto simp: nbhd_find_myself_def nbhd_find_random_def rand_urandom_def intro!: quiet_find quiet_step[OF quiet_find])
    (simp add: quiet_def)

lemma quiet_expire_bucket [quiet_ops]: "post UNIV (quiet m) (nbhd_expire_bucket fuel k j p m)"
proof (induction fuel arbitrary: j p m)
  case (Suc fuel)
  have "post UNIV (quiet m) (nbhd_del m n)" for n
    unfolding nbhd_del_def by (rule post_value) (simp add: quiet_def)
  then have "post UNIV (quiet m) (bindr (nbhd_del m n) (nbhd_expire_bucket fuel k (Suc j) p))" for n
    by (rule quiet_bind) (rule Suc)
  then show ?case
    by (subst nbhd_expire_bucket.simps) (simp, intro impI post_value, simp add: Suc)
qed (subst nbhd_expire_bucket.simps, simp)

lemma quiet_expire [quiet_ops]: "post UNIV (quiet m) (nbhd_expire m)"
  unfolding nbhd_expire_def by (intro quiet_fold quiet_ops)

lemma quiet_db_put [quiet_ops]: "post UNIV (quiet m) (db_put m hid sa)"
  unfolding db_put_def by (rule post_value) (simp add: quiet_def split: prod.split)

lemma quiet_db_send [quiet_ops]: "post UNIV (\<lambda>(x, m'). quiet m m') (db_send m sa hid lid sid)"
proof (cases "db_find m hid")
  case (Some i)
  have "post UNIV (\<lambda>(x, m'). quiet m m') (bindr (send_value m sa v sid lid) (\<lambda>m'. Inr (True, m')))" for v
    by (rule post_bind[OF quiet_sends(6)]) simp
  then show ?thesis unfolding db_send_def Some by simp (rule post_value)
qed (simp add: db_send_def)

lemma quiet_db_loop [quiet_ops]: "post UNIV (quiet m) (db_expire_loop fuel j p m)"
proof (induction fuel arbitrary: j p m)
  case (Suc fuel)
  have "post UNIV (quiet m) (db_del m i)" for i
    unfolding db_del_def by (rule post_value) (simp add: quiet_def)
  then have "post UNIV (quiet m) (bindr (db_del m i) (db_expire_loop fuel (Suc j) p))" for i
    by (rule quiet_bind) (rule Suc)
  then show ?case
    by (subst db_expire_loop.simps) (simp add: Suc split: prod.split)
qed (subst db_expire_loop.simps, simp)

lemma quiet_db_expire [quiet_ops]: "post UNIV (quiet m) (db_expire m)"
  unfolding db_expire_def by (rule quiet_ops)

lemma quiet_cache_del: "post UNIV (quiet m) (cache_del m sid)"
  unfolding cache_del_def by (rule post_value) (simp add: quiet_def split: option.split)

lemma quiet_cache [quiet_ops]: "post UNIV (quiet m) (cache_expire m)"
  "post UNIV (\<lambda>(b, m'). quiet m m') (cache_validate m sid)"
proof -
  show "post UNIV (quiet m) (cache_expire m)"
    unfolding cache_expire_def by (rule quiet_fold) (simp add: quiet_cache_del split: prod.split)
  have "post UNIV (\<lambda>(b, m'). quiet m m') (bindr (if c then cache_del m sid else Inr m) (\<lambda>m'. Inr (True, m')))" for c
    by (rule post_bind[of _ "quiet m"]) (simp_all add: quiet_cache_del)
  then show "post UNIV (\<lambda>(b, m'). quiet m m') (cache_validate m sid)"
    unfolding cache_validate_def by (intro post_value) (simp split: option.split prod.split)
qed

lemma quiet_nbhd_announce: "post UNIV (\<lambda>(a', m'). quiet m m') (nbhd_announce m a hid)"
proof -
  have "post UNIV (\<lambda>(a', m'). quiet m m') (fold_res (\<lambda>j (a, m'). bindr (node_at m' k j) (\<lambda>n.
      let a' = announce_remember a (n_id n)
      in bindr (send_announce m' (n_addr n) (a_lkp_id a') hid) (\<lambda>m1. Inr (a', m1)))) js (a, m))" for k js
  proof (rule post_fold)
    fix j and s :: "ANNOUNCE \<times> MAIN"
    assume "case s of (a', m') \<Rightarrow> quiet m m'"
    then show "post UNIV (\<lambda>(a', m'). quiet m m') (case s of (a, m') \<Rightarrow> bindr (node_at m' k j) (\<lambda>n.
        let a' = announce_remember a (n_id n)
        in bindr (send_announce m' (n_addr n) (a_lkp_id a') hid) (\<lambda>m1. Inr (a', m1))))"
      unfolding Let_def
      by (cases s) (simp, rule post_value, rule post_bind[OF quiet_step[OF quiet_sends(4)]], simp_all)
  qed simp
  then show ?thesis unfolding nbhd_announce_def by (intro post_value) (simp split: option.split)
qed

lemma quiet_announce [quiet_ops]: "post UNIV (quiet m) (announce_put m lid hid)" "post UNIV (quiet m) (announce_expire m)"
    "post UNIV (quiet m) (announce_resolve m lid nid sa)"
proof -
  show "post UNIV (quiet m) (announce_put m lid hid)"
    unfolding announce_put_def Let_def
    by (rule post_pair[OF quiet_nbhd_announce]) (simp add: quiet_def)
  have "post UNIV (quiet m) (announce_del m i)" for i m
    unfolding announce_del_def by (rule post_value) (simp add: quiet_def)
  then show "post UNIV (quiet m) (announce_expire m)"
    unfolding announce_expire_def by (intro quiet_fold) (simp split: prod.split)
  have "post UNIV (quiet m) (bindr (if c then send_announce m sa lid (conf_host_id (conf m)) else Inr m)
      (\<lambda>m'. Inr (m'\<lparr>announce := f m'\<rparr>)))" for c f
    by (rule quiet_bind) (simp_all add: quiet_sends, simp add: quiet_def)
  then show "post UNIV (quiet m) (announce_resolve m lid nid sa)"
    unfolding announce_resolve_def
    by (cases "hash_get (s_hash (announce m)) lid") (simp_all only: option.case, simp, intro post_value, simp only: if_distrib, simp)
qed

section \<open>Lookups\<close>

definition ctxs :: "nat option \<Rightarrow> nat multiset" where
  "ctxs callback = (case callback of None \<Rightarrow> {#} | Some ctx \<Rightarrow> {#ctx#})"

lemma waiting_list: "waiting s = \<Sum>\<^sub># (mset (map (\<lambda>e. ctxs (l_callback (snd e))) (s_list s)))"
proof -
  have "mset (List.map_filter (\<lambda>e. l_callback (snd e)) xs) = \<Sum>\<^sub># (mset (map (\<lambda>e. ctxs (l_callback (snd e))) xs))"
    for xs :: "(addr \<times> LOOKUP) list"
    by (induction xs) (simp_all add: ctxs_def map_filter_simps split: option.split)
  then show ?thesis by (simp add: waiting_def)
qed

lemma waiting_put: "waiting (store_put s k l) = waiting s + ctxs (l_callback l)"
  by (simp add: waiting_list store_put_def seq_put_def)

lemma waiting_set:
  assumes "\<forall>w. (i, w) \<in> set (s_list s) \<longrightarrow> l_callback w = l_callback l"
  shows "waiting (store_set s i l) = waiting s"
proof -
  have "map (\<lambda>e. ctxs (l_callback (snd e))) (s_list (store_set s i l)) = map (\<lambda>e. ctxs (l_callback (snd e))) (s_list s)"
    using assms by (auto simp: store_set_def)
  then show ?thesis by (simp add: waiting_list)
qed

lemma waiting_del:
  assumes "addrs_ok s" "(i, l) \<in> set (s_list s)"
  shows "waiting s = waiting (store_del s k i) + ctxs (l_callback l)"
proof -
  obtain xs ys where s: "s_list s = xs @ (i, l) # ys" using split_list[OF assms(2)] by blast
  then have "i \<notin> fst ` set xs" "i \<notin> fst ` set ys" using assms(1) by (auto simp: addrs_ok_def)
  then have "filter (\<lambda>p. fst p \<noteq> i) xs = xs" "filter (\<lambda>p. fst p \<noteq> i) ys = ys" by (auto simp: filter_id_conv)
  then show ?thesis by (simp add: waiting_list store_del_def seq_del_def s)
qed

lemma addrs_put: "addrs_ok s \<Longrightarrow> addrs_ok (store_put s k l)"
  by (auto simp: addrs_ok_def store_put_def seq_put_def less_Suc_eq)

lemma addrs_set [simp]: "addrs_ok (store_set s i l) = addrs_ok s"
proof -
  have "map fst (s_list (store_set s i l)) = map fst (s_list s)" by (auto simp: store_set_def)
  moreover from arg_cong[OF this, of set] have "fst ` set (s_list (store_set s i l)) = fst ` set (s_list s)"
    by (simp only: list.set_map)
  moreover have "s_new (store_set s i l) = s_new s" by (simp add: store_set_def)
  ultimately show ?thesis by (simp only: addrs_ok_def)
qed

lemma addrs_del: "addrs_ok s \<Longrightarrow> addrs_ok (store_del s k i)"
  by (auto simp: addrs_ok_def store_del_def seq_del_def distinct_map inj_on_def)

lemma addrs_at: "addrs_ok s \<Longrightarrow> map_of (s_list s) i = Some l \<Longrightarrow> (i, w) \<in> set (s_list s) \<Longrightarrow> w = l"
  unfolding addrs_ok_def by (metis map_of_is_SomeI option.inject)

lemma quiet_nbhd_lookup: "post UNIV (\<lambda>(l', m'). quiet m m' \<and> l_callback l' = l_callback l) (nbhd_lookup m l)"
proof -
  have "post UNIV (\<lambda>(l', m'). quiet m m' \<and> l_callback l' = l_callback l) (fold_res (\<lambda>j (l, m'). bindr (node_at m' k j) (\<lambda>n.
      let l' = lkp_remember l (n_id n)
      in bindr (send_lookup m' (n_addr n) (l_find_id l') (l_lkp_id l')) (\<lambda>m1. Inr (l', m1)))) js (l, m))" for k js
  proof (rule post_fold)
    fix j and s :: "LOOKUP \<times> MAIN"
    assume "case s of (l', m') \<Rightarrow> quiet m m' \<and> l_callback l' = l_callback l"
    then show "post UNIV (\<lambda>(l', m'). quiet m m' \<and> l_callback l' = l_callback l) (case s of (l, m') \<Rightarrow> bindr (node_at m' k j) (\<lambda>n.
        let l' = lkp_remember l (n_id n)
        in bindr (send_lookup m' (n_addr n) (l_find_id l') (l_lkp_id l')) (\<lambda>m1. Inr (l', m1))))"
      unfolding Let_def
      by (cases s) (simp, rule post_value, rule post_bind[OF quiet_step[OF quiet_sends(3)]], simp_all add: lkp_remember_def)
  qed simp
  then show ?thesis unfolding nbhd_lookup_def by (intro post_value) (simp split: option.split)
qed

lemma settles_put: "post UNIV (\<lambda>m'. settles (ctxs callback) m m' \<and> e_called (env m') = e_called (env m)) (lkp_put m find_id callback)"
proof -
  obtain lid m1 where r: "rand_urandom m SHA_DIGEST_LENGTH = (lid, m1)" by fastforce
  let ?l = "\<lparr>l_list = [], l_hash = hash_init 100, l_find_id = find_id, l_lkp_id = lid,
    l_callback = callback, l_time_find = time_add_x_sec m1 5\<rparr>"
  let ?m2 = "m1\<lparr>lkps := store_put (lkps m1) lid ?l\<rparr>"
  have m1: "lkps m1 = lkps m" "e_called (env m1) = e_called (env m)" using r by (auto simp: rand_urandom_def)
  have set: "settles (ctxs callback) m (m3\<lparr>lkps := store_set (lkps m3) (s_new (lkps m)) l'\<rparr>)"
    if "quiet ?m2 m3" "l_callback l' = callback" for l' m3
  proof -
    have m3: "lkps m3 = store_put (lkps m) lid ?l" "e_called (env m3) = e_called (env m)" using that m1 by (simp_all add: quiet_def)
    have "addrs_ok (lkps m) \<Longrightarrow> waiting (store_set (lkps m3) (s_new (lkps m)) l') = waiting (lkps m3)"
      using that(2) unfolding m3 by (intro waiting_set) (auto simp: store_put_def seq_put_def addrs_ok_def)
    then show ?thesis using addrs_put m3 waiting_put[of "lkps m" lid ?l] by (simp add: settles_def)
  qed
  have "post UNIV (\<lambda>m'. settles (ctxs callback) m m' \<and> e_called (env m') = e_called (env m))
      (bindr (nbhd_lookup ?m2 ?l) (\<lambda>(l', m3). Inr (m3\<lparr>lkps := store_set (lkps m3) (s_new (lkps m)) l'\<rparr>)))"
  proof (rule post_bind[OF quiet_nbhd_lookup])
    fix s :: "LOOKUP \<times> MAIN"
    assume "case s of (l', m') \<Rightarrow> quiet ?m2 m' \<and> l_callback l' = l_callback ?l"
    then obtain l' m3 where s: "s = (l', m3)" "quiet ?m2 m3" "l_callback l' = callback" by (cases s) simp
    have "e_called (env m3) = e_called (env m)" using s(2) m1 by (simp add: quiet_def)
    with set[OF s(2,3)] show "post UNIV (\<lambda>m'. settles (ctxs callback) m m' \<and> e_called (env m') = e_called (env m))
        (case s of (l', m3) \<Rightarrow> Inr (m3\<lparr>lkps := store_set (lkps m3) (s_new (lkps m)) l'\<rparr>))" by (simp add: s(1))
  qed
  then show ?thesis unfolding lkp_put_def r by (simp add: Let_def m1)
qed

lemma settles_call_del: "post UNIV (settles {#} m) (bindr (lkp_val m i) (\<lambda>l. lkp_del (call m (l_callback l) nid a) i))"
proof (cases "map_of (s_list (lkps m)) i")
  case (Some l)
  let ?m = "call m (l_callback l) nid a"
  have call: "lkps ?m = lkps m" "\<exists>cs. e_called (env ?m) = e_called (env m) @ cs \<and> mset (map fst cs) = ctxs (l_callback l)"
    by (auto simp: call_def ctxs_def split: option.split)
  have "settles {#} m (?m\<lparr>lkps := store_del (lkps m) (l_lkp_id l) i\<rparr>)"
    using call(2) addrs_del waiting_del[OF _ map_of_SomeD[OF Some]] by (auto simp: settles_def)
  then show ?thesis by (simp add: lkp_val_def lkp_del_def Some call(1))
qed (simp add: lkp_val_def)

lemma settles_success: "post UNIV (settles {#} m) (lkp_success m lid nid a)"
  using settles_call_del settles_refl by (simp add: lkp_success_def split: option.split)

lemma settles_resolve: "post UNIV (settles {#} m) (lkp_resolve m lid nid sa)"
proof (cases "hash_get (s_hash (lkps m)) lid")
  case (Some i)
  show ?thesis
  proof (cases "map_of (s_list (lkps m)) i")
    fix l
    assume l: "map_of (s_list (lkps m)) i = Some l"
    have set: "settles {#} m (m'\<lparr>lkps := store_set (lkps m') i (lkp_remember l nid)\<rparr>)" if "quiet m m'" for m'
    proof -
      have m': "lkps m' = lkps m" "e_called (env m') = e_called (env m)" using that by (simp_all add: quiet_def)
      have "addrs_ok (lkps m) \<Longrightarrow> waiting (store_set (lkps m) i (lkp_remember l nid)) = waiting (lkps m)"
        using addrs_at[OF _ l] by (intro waiting_set) (auto simp: lkp_remember_def)
      then show ?thesis by (simp add: settles_def m')
    qed
    have "post UNIV (settles {#} m) (bindr (if c then send_lookup m sa hid lid else Inr m)
        (\<lambda>m'. Inr (m'\<lparr>lkps := store_set (lkps m') i (lkp_remember l nid)\<rparr>)))" for c hid
      by (rule post_bind[of _ "quiet m"]) (simp_all add: quiet_sends set)
    then show ?thesis by (simp add: lkp_resolve_def lkp_val_def Some l settles_refl)
  qed (simp add: lkp_resolve_def lkp_val_def Some)
qed (simp add: lkp_resolve_def settles_refl)

lemma settles_expire_loop:
  "addrs_ok (lkps m) \<Longrightarrow> set xs \<subseteq> set (s_list (lkps m)) \<Longrightarrow> distinct (map fst xs) \<Longrightarrow>
    post UNIV (settles {#} m) (fold_res (\<lambda>(i, l) m'. if now m' > l_time_find l
      then lkp_del (call m' (l_callback l) (l_find_id l) None) i else Inr m') xs m)"
proof (induction xs arbitrary: m)
  case (Cons p xs)
  obtain i l where p: "p = (i, l)" by (cases p)
  have mem: "(i, l) \<in> set (s_list (lkps m))" "set xs \<subseteq> set (s_list (lkps m))" using Cons.prems(2) p by simp_all
  show ?case
  proof (cases "now m > l_time_find l")
    case True
    let ?m = "(call m (l_callback l) (l_find_id l) None)\<lparr>lkps := store_del (lkps m) (l_lkp_id l) i\<rparr>"
    have "map_of (s_list (lkps m)) i = Some l" using mem(1) Cons.prems(1) by (simp add: addrs_ok_def)
    then have del: "lkp_val m i = Inr l" "lkp_del (call m (l_callback l) (l_find_id l) None) i = Inr ?m"
      by (simp_all add: lkp_val_def lkp_del_def call_def split: option.split)
    then have s: "settles {#} m ?m" using settles_call_del[of m i "l_find_id l" None] by simp
    have "set xs \<subseteq> set (s_list (lkps ?m))"
      using mem(2) Cons.prems(3) p by (force simp: store_del_def seq_del_def)
    from Cons.IH[of ?m, OF _ this] Cons.prems(1,3) addrs_del p have "post UNIV (settles {#} ?m) (fold_res (\<lambda>(i, l) m'.
      if now m' > l_time_find l then lkp_del (call m' (l_callback l) (l_find_id l) None) i else Inr m') xs ?m)" by simp
    from settles_later[OF this s] show ?thesis using True del(2) p by simp
  qed (use Cons mem p in simp)
qed (simp add: settles_refl)

lemma settles_expire: "post UNIV (settles {#} m) (lkp_expire m)"
proof (cases "addrs_ok (lkps m)")
  case True
  then show ?thesis unfolding lkp_expire_def
    by (intro settles_expire_loop) (simp_all add: addrs_ok_def)
next
  case False
  then have "settles {#} m m'" for m' by (simp add: settles_def)
  then show ?thesis by (cases "lkp_expire m") simp_all
qed

section \<open>Datagrams\<close>

lemmas settles_ops = settles_success settles_resolve settles_expire

lemma settles_field: "(\<And>s. post UNIV (settles {#} m) (f s)) \<Longrightarrow> post UNIV (settles {#} m) (with_field check p k m f)"
  unfolding with_field_def by (intro post_value) (simp add: settles_refl post_value)

lemma settles_nodes:
  assumes "\<And>nid sin m. post UNIV (settles {#} m) (visit nid sin m)"
  shows "post UNIV (settles {#} m) (nodes_loop visit items m)"
proof (induction items arbitrary: m)
  case (Cons node items)
  then have "post UNIV (settles {#} m) (bindr (visit nid sin m) (\<lambda>m1. bindr (nbhd_put m1 nid sin) (nodes_loop visit items)))" for nid sin
    by (intro settles_bind assms settles_quiet[OF quiet_nbhd_put])
  then show ?case by (simp add: settles_refl settles_field Let_def)
qed (simp add: settles_refl)

lemma settles_known:
  assumes "\<And>m. post UNIV (settles {#} m) (f m)"
  shows "post UNIV (settles {#} m) (bindr (cache_validate m sid) (\<lambda>(known, m1). if \<not> known then Inr m1 else f m1))"
  by (rule post_pair[OF quiet_cache(2)]) (simp add: quiet_settles settles_step[OF assms])

lemma settles_replies:
  "post UNIV (settles {#} m) (p2p_pong m nid sid sa)" "post UNIV (settles {#} m) (p2p_node_find m p nid sid sa)"
  "post UNIV (settles {#} m) (p2p_node_announce m p nid sid sa)" "post UNIV (settles {#} m) (p2p_node_lookup m p nid sid sa)"
  "post UNIV (settles {#} m) (p2p_value m p nid sid sa)"
proof -
  show "post UNIV (settles {#} m) (p2p_pong m nid sid sa)"
    unfolding p2p_pong_def by (rule settles_known) (rule settles_quiet[OF quiet_pinged(2)])
  show "post UNIV (settles {#} m) (p2p_node_find m p nid sid sa)" unfolding p2p_node_find_def
    by (rule settles_known, rule post_value) (auto simp: settles_refl intro!: post_value settles_nodes)
  have visit: "post UNIV (settles {#} m) (if c then announce_resolve m lid nid sin else Inr m)" for c lid nid sin m
    by (simp add: settles_refl settles_quiet[OF quiet_announce(3)])
  show "post UNIV (settles {#} m) (p2p_node_announce m p nid sid sa)" unfolding p2p_node_announce_def Let_def
    by (rule settles_known, rule post_value)
      (simp add: settles_refl, intro impI settles_field settles_bind visit post_value settles_nodes)
  show "post UNIV (settles {#} m) (p2p_node_lookup m p nid sid sa)" unfolding p2p_node_lookup_def Let_def
    by (rule settles_known, rule post_value)
      (simp add: settles_refl, intro impI settles_field settles_bind settles_resolve post_value settles_nodes)
  show "post UNIV (settles {#} m) (p2p_value m p nid sid sa)" unfolding p2p_value_def
    by (rule settles_known, intro settles_field settles_success)
qed

lemma settles_requests:
  "post UNIV (settles {#} m) (p2p_ping m sid sa)" "post UNIV (settles {#} m) (p2p_find m p sid sa)"
  "post UNIV (settles {#} m) (p2p_announce m p sid sa)" "post UNIV (settles {#} m) (p2p_lookup m p sid sa)"
proof -
  note send = settles_quiet[OF quiet_nbhd_send]
  show "post UNIV (settles {#} m) (p2p_ping m sid sa)" unfolding p2p_ping_def by (rule settles_quiet[OF quiet_sends(5)])
  show "post UNIV (settles {#} m) (p2p_find m p sid sa)" unfolding p2p_find_def by (intro settles_field send)
  show "post UNIV (settles {#} m) (p2p_announce m p sid sa)"
    unfolding p2p_announce_def by (intro settles_field settles_bind send settles_quiet[OF quiet_db_put])
  have "post UNIV (settles {#} m) (bindr (db_send m sa hid lid sid) (\<lambda>(sent, m').
      if \<not> sent then nbhd_send m' sa hid (Some lid) sid Q_nodes_lookup else Inr m'))" for hid lid
    by (rule post_pair[OF quiet_db_send]) (simp add: quiet_settles settles_step[OF send])
  then show "post UNIV (settles {#} m) (p2p_lookup m p sid sa)"
    unfolding p2p_lookup_def by (intro settles_field)
qed

lemma settles_parse: "post UNIV (settles {#} m) (p2p_parse fuel m t code n sa)"
proof -
  have query: "post UNIV (settles {#} m) (p2p_query m p q nid key sa)" for m p q nid key
    by (simp add: p2p_query_def settles_requests settles_replies settles_refl)
  have "post UNIV (settles {#} m) (p2p_packet m p sa)" for m p
    unfolding p2p_packet_def
    by (intro settles_field) (simp add: settles_refl, intro impI settles_field settles_bind settles_quiet[OF quiet_nbhd_put] post_value,
      simp add: settles_refl, intro impI post_value, simp add: settles_refl, intro impI post_value query)
  then have "post UNIV (settles {#} m) (p2p_decode fuel m code n sa)" for m
    unfolding p2p_decode_def by (intro post_value) (simp add: settles_refl split: option.split)
  note decode = settles_step[OF this]
  have "quiet m (m\<lparr>p2p := x\<rparr>)" for x by (simp add: quiet_def)
  then show ?thesis unfolding p2p_parse_def Let_def
    by (simp add: quiet_settles, intro impI post_value) (simp add: quiet_settles decode)
qed

section \<open>Periodic work\<close>

lemma settles_timed:
  assumes "post UNIV (settles {#} m) r" "f = time_add_2_min_approx \<or> f = time_add_5_min_approx"
  shows "post UNIV (settles {#} m) (bindr r (\<lambda>m. Inr (set_timer u (f m))))"
  by (rule settles_bind[OF assms(1)]) (simp add: quiet_settles quiet_set_timer assms(2))

lemma settles_cron:
  "post UNIV (settles {#} m) (cron_expire m)" "post UNIV (settles {#} m) (cron_restart m)"
  "post UNIV (settles {#} m) (cron_split fuel m)" "post UNIV (settles {#} m) (cron_ping m)"
  "post UNIV (settles {#} m) (cron_find m)" "post UNIV (settles {#} m) (cron_maintainance m)"
  "post UNIV (settles {#} m) (cron_announce m)" "post UNIV (settles {#} m) (cron_multicast m)"
proof -
  have two: "settles {#} m (set_timer u (time_add_2_min_approx m))" for u m
    by (simp add: quiet_settles quiet_set_timer)
  note timed = settles_timed[OF settles_quiet]
  show "post UNIV (settles {#} m) (cron_expire m)"
    unfolding cron_expire_def
    by (simp add: settles_refl, intro impI settles_bind settles_expire settles_quiet[OF quiet_announce(2)] settles_quiet[OF quiet_cache(1)]
      settles_quiet[OF quiet_expire] settles_quiet[OF quiet_db_expire]) (simp add: two)
  have "post UNIV (quiet m) (p2p_bootstrap m)"
    by (simp add: p2p_bootstrap_def quiet_fold quiet_sends split: option.split)
  then show "post UNIV (settles {#} m) (cron_restart m)" by (simp add: cron_restart_def settles_refl timed)
  have "settles {#} m (set_timer u (time_add_2_min_approx (m\<lparr>nbhd := l\<rparr>)))" for u l
    using two[of "m\<lparr>nbhd := l\<rparr>" u] by (rule settles_then[rotated]) (simp add: quiet_settles quiet_def)
  then show "post UNIV (settles {#} m) (cron_split fuel m)"
    unfolding cron_split_def by (simp add: settles_refl, intro impI post_value) simp
  show "post UNIV (settles {#} m) (cron_ping m)" "post UNIV (settles {#} m) (cron_find m)"
    "post UNIV (settles {#} m) (cron_maintainance m)"
    by (simp_all add: cron_ping_def cron_find_def cron_maintainance_def settles_refl timed quiet_ops)
  have "post UNIV (quiet m) (p2p_announce_myself m)"
    by (auto simp: p2p_announce_myself_def rand_urandom_def intro!: quiet_step[OF quiet_announce(1)]) (simp add: quiet_def)
  then show "post UNIV (settles {#} m) (cron_announce m)" by (simp add: cron_announce_def settles_refl timed)
  have "post UNIV (quiet m) (udp_multicast m)"
    unfolding udp_multicast_def by (rule post_value) (simp add: quiet_def)
  then show "post UNIV (settles {#} m) (cron_multicast m)" by (simp add: cron_multicast_def settles_refl timed)
qed

lemma settles_tick: "post UNIV (settles {#} m) (p2p_cron fuel m t)"
proof -
  let ?m = "m\<lparr>p2p := (p2p m)\<lparr>time_now := t\<rparr>\<rparr>"
  have "post UNIV (settles {#} ?m) (p2p_cron fuel m t)"
    unfolding p2p_cron_def by (intro settles_bind settles_cron) (simp, intro conjI impI settles_bind settles_cron)
  then show ?thesis by (rule settles_step) (simp add: quiet_def)
qed

section \<open>Events\<close>

text \<open>What an event registers.\<close>

fun registers :: "event \<Rightarrow> nat multiset" where
  "registers (Lookup find_id callback) = ctxs callback"
| "registers _ = {#}"

lemma settles_handle: "post UNIV (settles (registers e) m) (handle fuel e m)"
proof (cases e)
  case (Datagram data src t)
  then show ?thesis by (simp add: settles_parse Let_def)
next
  case (Tick t)
  then show ?thesis by (simp add: settles_tick)
next
  case (Lookup find_id callback)
  from settles_put show ?thesis unfolding Lookup handle.simps registers.simps by (rule post_mono) simp
next
  case (Ping addr kind)
  then show ?thesis by (simp add: settles_quiet quiet_sends)
qed

text \<open>The front ends never call back: their events leave what was called as it is.\<close>

lemma front_calls_none:
  "post UNIV (\<lambda>m'. e_called (env m') = e_called (env m)) (handle fuel (Lookup find_id callback) m)"
  "post UNIV (\<lambda>m'. e_called (env m') = e_called (env m)) (handle fuel (Ping addr kind) m)"
proof -
  from settles_put show "post UNIV (\<lambda>m'. e_called (env m') = e_called (env m)) (handle fuel (Lookup find_id callback) m)"
    unfolding handle.simps by (rule post_mono) simp
  from quiet_sends(1) show "post UNIV (\<lambda>m'. e_called (env m') = e_called (env m)) (handle fuel (Ping addr kind) m)"
    unfolding handle.simps by (rule post_mono) (simp add: quiet_def)
qed

end
