(* ===== verification/Fronts.thy ===== *)
theory Fronts
  imports Waiting Dns Nss Web
begin

text \<open>
  The daemon with its front ends: the loops of \<open>masala-dns.c\<close>, \<open>masala-web.c\<close>, \<open>masala-nss.c\<close> and
  \<open>masala-cmd.c\<close> around the turns of \<open>Dns\<close>, \<open>Web\<close>, \<open>Nss\<close> and \<open>Cmd\<close>, next to the workers, which call back
  \<open>dns_reply\<close> and \<open>web_reply\<close>. Each front end is a thread of its own: it tests \<open>_main->status\<close>, waits in a
  call of the system, serves what that call returns, and tests again. An activity is one such piece of one
  thread; any thread may go next. What happens when threads are interleaved inside an activity is the
  subject of \<open>Threads\<close>. A context is the address of a \<open>struct task\<close> or a \<open>struct request\<close>; both come
  from one \<open>myalloc\<close>, so the counter of addresses is shared (\<open>v_heap\<close>).
\<close>

section \<open>State\<close>

datatype front = F_dns | F_web | F_nss | F_cmd | F_console

text \<open>At the test of the loop, in the system call, or returned.\<close>

datatype phase = Testing | Blocked | Returned

record FRONT =
  v_main :: MAIN
  v_status :: status
  v_phase :: "front \<Rightarrow> phase"
  v_heap :: nat
  v_dns :: DNS
  v_web :: WEB
  v_clientfd :: int
  v_request :: bytes
  v_line :: bytes
  v_sent :: "(IP \<times> bytes) list"
  v_printed :: "(int \<times> bytes) list"

datatype signal = SIGINT | SIGALRM

datatype activity = Core event | Signal signal | Test front
  | Dns_recv int IP bytes int
  | Web_recv int IP bytes int
  | Nss_recv IP bytes
  | Cmd_recv IP bytes "bytes option"
  | Console_select bytes int "bytes option"

section \<open>The loops\<close>

definition set_phase :: "front \<Rightarrow> phase \<Rightarrow> FRONT \<Rightarrow> FRONT" where
  "set_phase f p v = v\<lparr>v_phase := (v_phase v)(f := p)\<rparr>"

text \<open>\<open>while( _main->status == MAIN_ONLINE )\<close>; the web server then closes the connection it has left.\<close>

definition loop_test :: "front \<Rightarrow> FRONT \<Rightarrow> FRONT" where
  "loop_test f v = (if v_status v \<noteq> MAIN_ONLINE then set_phase f Returned v
     else let v = set_phase f Blocked v
       in if f = F_web then v\<lparr>v_web := web_close (v_web v) (v_clientfd v)\<rparr> else v)"

text \<open>The rest of the loop, from the call that waits. The DNS server goes on when \<open>recvfrom\<close> fails.\<close>

definition dns_loop :: "int \<Rightarrow> IP \<Rightarrow> bytes \<Rightarrow> int \<Rightarrow> FRONT \<Rightarrow> FRONT res" where
  "dns_loop sock client buffer rc v = (let v = set_phase F_dns Testing v in if rc < 0 then Inr v
     else bindr (dns_turn (v_main v) ((v_dns v)\<lparr>d_next := v_heap v\<rparr>) sock client buffer rc) (\<lambda>(m, d).
       Inr (v\<lparr>v_main := m, v_dns := d, v_heap := d_next d\<rparr>)))"

definition web_loop :: "(bytes \<Rightarrow> bytes) \<Rightarrow> int \<Rightarrow> IP \<Rightarrow> bytes \<Rightarrow> int \<Rightarrow> FRONT \<Rightarrow> FRONT res" where
  "web_loop ntop clientfd client buffer rc v = (let v = set_phase F_web Testing v
     in bindr (web_serve ntop (v_main v) ((v_web v)\<lparr>w_next := v_heap v\<rparr>) clientfd client buffer rc) (\<lambda>(m, w, clientfd).
       Inr (v\<lparr>v_main := m, v_web := w, v_heap := w_next w, v_clientfd := clientfd\<rparr>)))"

definition nss_loop :: "IP \<Rightarrow> bytes \<Rightarrow> FRONT \<Rightarrow> FRONT res" where
  "nss_loop client request v = (let v = set_phase F_nss Testing v
     in bindr (nss_turn (v_main v) client request) (\<lambda>(m, sent). Inr (v\<lparr>v_main := m, v_sent := v_sent v @ sent\<rparr>)))"

text \<open>\<open>None\<close>: \<open>select\<close> gave no datagram. \<open>stack\<close> is the memory the reply object lies in.\<close>

definition cmd_remote_loop :: "(bytes \<Rightarrow> bytes) \<Rightarrow> resolver \<Rightarrow> IP \<Rightarrow> bytes \<Rightarrow> bytes option \<Rightarrow> FRONT \<Rightarrow> FRONT res" where
  "cmd_remote_loop ntop resolve client stack datagram v = (let v = set_phase F_cmd Testing v
     in case datagram of None \<Rightarrow> Inr v | Some data \<Rightarrow>
       bindr (cmd_turn ntop resolve stack (v_main v) (v_status v) (v_request v) data) (\<lambda>(m, st, request, out).
         Inr (v\<lparr>v_main := m, v_status := st, v_request := request, v_sent := v_sent v @ map (\<lambda>x. (client, x)) out\<rparr>)))"

text \<open>\<open>rc\<close> is what \<open>select\<close> returns, \<open>line\<close> what \<open>fgets\<close> does.\<close>

definition cmd_console_loop :: "(bytes \<Rightarrow> bytes) \<Rightarrow> resolver \<Rightarrow> bytes \<Rightarrow> int \<Rightarrow> bytes option \<Rightarrow> FRONT \<Rightarrow> FRONT res" where
  "cmd_console_loop ntop resolve stack rc line v = (if rc = 0 then Inr (set_phase F_console Testing v)
     else if rc < 0 then Inr (set_phase F_console Returned v)
     else let v = set_phase F_console Testing v
       in bindr (cmd_console_turn ntop resolve stack (v_main v) (v_status v) (v_line v) line) (\<lambda>(m, st, request, rc, out).
         Inr (v\<lparr>v_main := m, v_status := st, v_line := request, v_printed := v_printed v @ [(rc, out)]\<rparr>)))"

text \<open>The handlers that \<open>unix_signal\<close> installs.\<close>

definition unix_sig_stop :: "FRONT \<Rightarrow> FRONT" where
  "unix_sig_stop v = v\<lparr>v_status := MAIN_SHUTDOWN\<rparr>"

definition unix_sig_time :: "FRONT \<Rightarrow> FRONT" where
  "unix_sig_time v = v\<lparr>v_status := MAIN_SHUTDOWN\<rparr>"

section \<open>The workers\<close>

text \<open>The calls that an event of the daemon has made, in their order. A context is the address of the task or
  of the request that was registered with \<open>dns_reply\<close> or \<open>web_reply\<close>; when it is neither, the object is gone.\<close>

fun call_backs :: "(bytes \<Rightarrow> bytes) \<Rightarrow> (nat \<times> bytes \<times> bytes option) list \<Rightarrow> DNS \<times> WEB \<Rightarrow> (DNS \<times> WEB) res" where
  "call_backs ntop [] dw = Inr dw"
| "call_backs ntop ((ctx, nid, address) # cs) (d, w) = (if ctx \<in> fst ` set (d_tasks d)
     then bindr (dns_reply d ctx address) (\<lambda>d. call_backs ntop cs (d, w))
     else bindr (web_reply ntop w ctx address) (\<lambda>w. call_backs ntop cs (d, w)))"

definition core :: "(bytes \<Rightarrow> bytes) \<Rightarrow> nat \<Rightarrow> event \<Rightarrow> FRONT \<Rightarrow> FRONT res" where
  "core ntop fuel e v = bindr (handle fuel e (v_main v)) (\<lambda>m.
     bindr (call_backs ntop (drop (length (e_called (env (v_main v)))) (e_called (env m))) (v_dns v, v_web v)) (\<lambda>(d, w).
       Inr (v\<lparr>v_main := m, v_dns := d, v_web := w\<rparr>)))"

section \<open>Activities\<close>

fun act :: "(bytes \<Rightarrow> bytes) \<Rightarrow> resolver \<Rightarrow> nat \<Rightarrow> activity \<Rightarrow> FRONT \<Rightarrow> FRONT res" where
  "act ntop resolve fuel (Core e) v = core ntop fuel e v"
| "act ntop resolve fuel (Signal s) v = Inr (case s of SIGINT \<Rightarrow> unix_sig_stop v | SIGALRM \<Rightarrow> unix_sig_time v)"
| "act ntop resolve fuel (Test f) v = Inr (loop_test f v)"
| "act ntop resolve fuel (Dns_recv sock client buffer rc) v = dns_loop sock client buffer rc v"
| "act ntop resolve fuel (Web_recv clientfd client buffer rc) v = web_loop ntop clientfd client buffer rc v"
| "act ntop resolve fuel (Nss_recv client request) v = nss_loop client request v"
| "act ntop resolve fuel (Cmd_recv client stack datagram) v = cmd_remote_loop ntop resolve client stack datagram v"
| "act ntop resolve fuel (Console_select stack rc line) v = cmd_console_loop ntop resolve stack rc line v"

text \<open>Which front end serves an input.\<close>

fun serves :: "activity \<Rightarrow> front option" where
  "serves (Dns_recv sock client buffer rc) = Some F_dns"
| "serves (Web_recv clientfd client buffer rc) = Some F_web"
| "serves (Nss_recv client request) = Some F_nss"
| "serves (Cmd_recv client stack datagram) = Some F_cmd"
| "serves (Console_select stack rc line) = Some F_console"
| "serves _ = None"

fun enabled :: "activity \<Rightarrow> FRONT \<Rightarrow> bool" where
  "enabled (Test f) v \<longleftrightarrow> v_phase v f = Testing"
| "enabled a v \<longleftrightarrow> (case serves a of None \<Rightarrow> True | Some f \<Rightarrow> v_phase v f = Blocked)"

text \<open>The events of the workers are datagrams and ticks.\<close>

fun activity_ok :: "activity \<Rightarrow> bool" where
  "activity_ok (Core (Datagram data src t)) \<longleftrightarrow> addr_ok src"
| "activity_ok (Core (Tick t)) \<longleftrightarrow> True"
| "activity_ok (Core _) \<longleftrightarrow> False"
| "activity_ok _ \<longleftrightarrow> True"

definition front_start :: "MAIN \<Rightarrow> bytes \<Rightarrow> bytes \<Rightarrow> FRONT" where
  "front_start m request line = \<lparr>v_main = m, v_status = MAIN_ONLINE, v_phase = (\<lambda>f. Testing), v_heap = 0,
     v_dns = \<lparr>d_tasks = [], d_next = 0, d_sent = []\<rparr>, v_web = \<lparr>w_requests = [], w_next = 0, w_sent = [], w_closed = []\<rparr>,
     v_clientfd = 0, v_request = request, v_line = line, v_sent = [], v_printed = []\<rparr>"

inductive acts :: "(bytes \<Rightarrow> bytes) \<Rightarrow> resolver \<Rightarrow> nat \<Rightarrow> FRONT \<Rightarrow> activity list \<Rightarrow> FRONT \<Rightarrow> bool"
  for ntop resolve fuel v where
  acts_Nil: "acts ntop resolve fuel v [] v"
| acts_snoc: "acts ntop resolve fuel v as v' \<Longrightarrow> enabled a v' \<Longrightarrow> activity_ok a \<Longrightarrow> act ntop resolve fuel a v' = Inr v'' \<Longrightarrow>
    acts ntop resolve fuel v (as @ [a]) v''"

end
