(* ===== verification/FrontProps.thy ===== *)
theory FrontProps
  imports Fronts Udp
begin

text \<open>
  What holds however the front ends and the workers take turns: the whole process is a run of the daemon,
  every context a front end has handed out is called back once and is alive until then, and after a
  shutdown every front end serves at most the input it waits for.
\<close>

section \<open>Operations that touch no object of a callback\<close>

abbreviation lives :: "('a \<Rightarrow> bool) \<Rightarrow> 'a res \<Rightarrow> bool" where
  "lives ok r \<equiv> post (- {UseAfterFree}) ok r"

abbreviation harmless :: "'a res \<Rightarrow> bool" where
  "harmless r \<equiv> lives (\<lambda>_. True) r"

lemma harmless_bind: "harmless r \<Longrightarrow> (\<And>x. r = Inr x \<Longrightarrow> lives ok (f x)) \<Longrightarrow> lives ok (bindr r f)"
  by (cases r) auto

named_theorems harmless_ops

lemma harmless_memory [harmless_ops]: "harmless (rd mem p)" "harmless (rds buf p n)" "harmless (wr buf p xs)"
  by (simp_all add: rd_def rds_def wr_def)

lemma harmless_hostname [harmless_ops]: "harmless (str_isValidHostname s n)"
  by (simp add: str_isValidHostname_iff)

lemma fromHex_length: "post (- {UseAfterFree}) (\<lambda>x. length x = length nid) (fromHex_loop hex i n v nid)"
proof (induction hex i n v nid rule: fromHex_loop.induct)
  case (2 hex i left xv nid)
  then show ?case by (auto intro!: harmless_bind harmless_ops simp: Let_def)
qed simp

text \<open>Every key is an identifier, of whatever name.\<close>

lemma key_is_id: "lives is_id (p2p_compute_id h)"
proof -
  have id: "length x = 20 \<Longrightarrow> is_id x" for x by (simp add: is_id_def SHA_DIGEST_LENGTH_def)
  have "is_id (sha1_hash h)"
    by (rule id) (simp add: sha1_hash_def sha1_def sha1_finish_def Let_def put_state_def PUT_UINT32_BE_def split: prod.split)
  moreover have "lives is_id (fromHex_loop (h @ [0]) 0 40 0 (replicate 20 0))"
    by (rule post_weaken[OF fromHex_length]) (simp_all add: id)
  ultimately show ?thesis
    by (simp add: p2p_compute_id_def str_fromHex_def Let_def str_isHex_iff SHA_DIGEST_LENGTH_def)
qed

lemma harmless_key [harmless_ops]: "harmless (p2p_compute_id h)"
  using key_is_id by (rule post_weaken) simp_all

lemma harmless_bits [harmless_ops]: "harmless (get16bits mem p)" "harmless (put16bits w v)" "harmless (put32bits w u)"
  by (auto simp: get16bits_def put16bits_def put32bits_def intro!: harmless_bind harmless_ops split: prod.split)

lemma harmless_decode_domain: "harmless (decode_domain_loop domain buffer p i sz)"
proof (induction domain buffer p i sz rule: decode_domain_loop.induct)
  case (1 domain buffer p i sz)
  then show ?case
    by (subst decode_domain_loop.simps) (auto intro!: harmless_bind harmless_ops simp: Let_def)
qed

lemma harmless_questions: "harmless (questions_loop n msg buffer p sz)"
  by (induction n msg buffer p sz rule: questions_loop.induct)
    (auto intro!: harmless_bind harmless_ops harmless_decode_domain simp: Let_def dns_decode_domain_def split: option.split)

lemma harmless_query [harmless_ops]: "harmless (dns_decode_query msg buffer sz)"
  by (auto simp: dns_decode_query_def dns_decode_header_def intro!: harmless_bind harmless_ops harmless_questions split: option.split)

lemma harmless_code_domain: "harmless (code_domain_loop w beg)"
proof (induction w beg rule: code_domain_loop.induct)
  case (1 w beg)
  then show ?case
    by (subst code_domain_loop.simps) (auto intro!: harmless_bind harmless_ops simp: Let_def split: prod.split)
qed

lemma harmless_response [harmless_ops]: "harmless (dns_code_response msg w)"
  by (auto simp: dns_code_response_def dns_code_header_def dns_code_domain_def deref_str_def
      intro!: harmless_bind harmless_ops harmless_code_domain split: option.split prod.split)

lemma harmless_strchr [harmless_ops]: "harmless (strchr s c)"
  by (induction s) (auto intro!: harmless_bind)

lemma harmless_id_str [harmless_ops]: "harmless (id_str mem)"
proof -
  have "harmless (id_str_loop mem p n)" for p n
    by (induction mem p n rule: id_str_loop.induct) (auto intro!: harmless_bind harmless_ops)
  then show ?thesis by (simp add: id_str_def)
qed

lemma harmless_reply [harmless_ops]: "harmless (r_init mem)" "harmless (r_printf r s)"
  by (auto simp: r_init_def r_printf_def Let_def intro!: harmless_bind harmless_ops)

lemma harmless_args [harmless_ops]: "harmless (cmd_to_args s slots n)"
proof -
  have "harmless (args_loop slots n s argc)" for s argc
  proof (induction slots n s argc rule: args_loop.induct)
    case (1 slots n s argc)
    then show ?case by (subst args_loop.simps) (auto intro!: harmless_bind simp: Let_def split: list.split)
  qed
  then show ?thesis by (auto simp: cmd_to_args_def strlen_def Let_def intro!: harmless_bind)
qed

lemma harmless_printing [harmless_ops]:
  "harmless (cmd_print_status r m)" "harmless (cmd_print_nodes ntop r m)" "harmless (cmd_print_database ntop r m)"
proof -
  show "harmless (cmd_print_status r m)"
    by (auto simp: cmd_print_status_def intro!: harmless_bind harmless_ops)
  have nodes: "harmless (print_bucket_nodes ntop r ns)" for r ns
    by (induction ns arbitrary: r) (auto intro!: harmless_bind harmless_ops)
  have "harmless (print_buckets ntop r bs)" for r bs
    by (induction bs arbitrary: r) (auto intro!: harmless_bind harmless_ops nodes)
  then show "harmless (cmd_print_nodes ntop r m)"
    by (auto simp: cmd_print_nodes_def intro!: harmless_bind harmless_ops)
  have "harmless (print_hosts ntop r hs)" for r hs
    by (induction hs arbitrary: r) (auto intro!: harmless_bind harmless_ops)
  then show "harmless (cmd_print_database ntop r m)"
    by (auto simp: cmd_print_database_def intro!: harmless_bind harmless_ops)
qed

section \<open>What a front end does to the daemon\<close>

text \<open>\<open>drives fuel A m m'\<close>: a front end takes the daemon from \<open>m\<close> to \<open>m'\<close> and hands out the contexts \<open>A\<close>.\<close>

definition drives :: "nat \<Rightarrow> nat multiset \<Rightarrow> MAIN \<Rightarrow> MAIN \<Rightarrow> bool" where
  "drives fuel A m m' \<longleftrightarrow> (\<exists>es. runs fuel m es m') \<and> e_called (env m') = e_called (env m) \<and> settles A m m'"

lemma drives_refl [simp]: "drives fuel {#} m m"
  unfolding drives_def using runs_Nil settles_refl by blast

lemma drives_then: "drives fuel {#} a b \<Longrightarrow> drives fuel A b c \<Longrightarrow> drives fuel A a c"
  unfolding drives_def using runs_append settles_then by metis

lemma drives_inv: "drives fuel A m m' \<Longrightarrow> main_inv False m \<Longrightarrow> main_inv False m'"
  unfolding drives_def using runs_inv by blast

lemma drives_waiting: "drives fuel A m m' \<Longrightarrow> addrs_ok (lkps m) \<Longrightarrow> waiting (lkps m') = waiting (lkps m) + A"
  by (auto simp: drives_def settles_def)

lemma drives_event:
  assumes "main_inv False m" "event_ok e" "post UNIV (\<lambda>m'. e_called (env m') = e_called (env m)) (handle fuel e m)"
  shows "lives (drives fuel (registers e) m) (handle fuel e m)"
proof (cases "handle fuel e m")
  case (Inl x)
  with handle_inv[OF assms(1,2), of fuel] show ?thesis by auto
next
  case (Inr m')
  have "runs fuel m ([] @ [e]) m'" using assms(2) Inr by (intro runs_snoc[OF runs_Nil]) (simp add: step_simp)
  with settles_handle[of e m fuel] assms(3) Inr show ?thesis unfolding drives_def by auto
qed

lemma drives_put: "main_inv False m \<Longrightarrow> is_id nid \<Longrightarrow> lives (drives fuel (ctxs callback) m) (lkp_put m nid callback)"
  using drives_event[OF _ _ front_calls_none(1), of m nid callback fuel] by simp

lemma drives_ping: "main_inv False m \<Longrightarrow> lives (drives fuel {#} m) (send_ping m addr kind)"
  using drives_event[OF _ _ front_calls_none(2), of m addr kind fuel] by simp

lemma ctxs_simps [simp]: "ctxs None = {#}" "ctxs (Some c) = {#c#}"
  by (simp_all add: ctxs_def)

lemma harmless_address: "main_inv False m \<Longrightarrow> harmless (db_address m nid)"
  using db_address_spec[OF main_inv_parts(6)] by simp

text \<open>A turn of a server with a callback either is done with its context or hands it out.\<close>

lemma dns_reply_lives:
  assumes "ctx \<in> fst ` set (d_tasks d)"
  shows "lives (\<lambda>d'. d_tasks d' = filter (\<lambda>e. fst e \<noteq> ctx) (d_tasks d) \<and> d_next d' = d_next d) (dns_reply d ctx a)"
proof -
  from assms obtain t where "map_of (d_tasks d) ctx = Some t" by (metis map_of_eq_None_iff not_None_eq)
  then show ?thesis
    by (auto simp: dns_reply_def free_task_def Let_def intro!: harmless_bind harmless_ops split: option.split)
qed

lemma web_reply_lives:
  assumes "ctx \<in> fst ` set (w_requests w)"
  shows "lives (\<lambda>w'. w_requests w' = filter (\<lambda>e. fst e \<noteq> ctx) (w_requests w) \<and> w_next w' = w_next w) (web_reply ntop w ctx a)"
proof -
  from assms obtain q where q: "map_of (w_requests w) ctx = Some q" by (metis map_of_eq_None_iff not_None_eq)
  let ?r = "case a of None \<Rightarrow> Inr w
    | Some a \<Rightarrow> bindr (rds a 0 16) (\<lambda>a16. let addrbuf = ntop a16; text = reply_fmt (length addrbuf) addrbuf
        in bindr (wr (replicate 512 0) 0 (text @ [0])) (\<lambda>buffer.
             Inr (w\<lparr>w_sent := w_sent w @ [(q_clientfd q, takeWhile (\<lambda>c. c \<noteq> 0) buffer)]\<rparr>)))"
  have "lives (\<lambda>w'. w_requests w' = w_requests w \<and> w_next w' = w_next w) ?r"
    by (auto simp: Let_def intro!: harmless_bind harmless_ops split: option.split)
  then show ?thesis unfolding web_reply_def q by (simp, intro post_bind) (auto simp: free_request_def)
qed

definition fresh :: "nat \<Rightarrow> (nat \<times> 'a) list \<Rightarrow> bool" where
  "fresh n xs \<longleftrightarrow> (\<forall>c \<in> fst ` set xs. c < n)"

lemma fresh_filter: "fresh n xs \<Longrightarrow> filter (\<lambda>e. fst e \<noteq> n) xs = xs"
  by (auto simp: fresh_def filter_id_conv)

lemma dns_turn_drives:
  assumes m: "main_inv False m" and new: "fresh (d_next d) (d_tasks d)"
  shows "lives (\<lambda>(m', d'). d_next d' = Suc (d_next d) \<and> (d_tasks d' = d_tasks d \<and> m' = m \<or>
      map fst (d_tasks d') = d_next d # map fst (d_tasks d) \<and> drives fuel {#d_next d#} m m')) (dns_turn m d sock client buffer rc)"
    (is "lives ?ok _")
proof -
  have lookup: "lives ?ok (dns_lookup m (d\<lparr>d_tasks := (d_next d, t) # d_tasks d, d_next := Suc (d_next d)\<rparr>) (d_next d) nid)"
    if nid: "is_id nid" for t nid
  proof -
    let ?d = "d\<lparr>d_tasks := (d_next d, t) # d_tasks d, d_next := Suc (d_next d)\<rparr>"
    have reply: "lives ?ok (bindr (dns_reply ?d (d_next d) a) (\<lambda>d'. Inr (m, d')))" for a
      by (rule post_bind[OF dns_reply_lives]) (simp_all add: fresh_filter[OF new])
    have put: "lives ?ok (bindr (lkp_put m nid (Some (d_next d))) (\<lambda>m'. Inr (m', ?d)))"
      by (rule post_bind[OF drives_put[OF m nid]]) simp
    show ?thesis unfolding dns_lookup_def
      by (rule harmless_bind[OF harmless_address[OF m]]) (simp add: reply put split: option.split)
  qed
  have key: "lives ?ok (bindr (p2p_compute_id h) (\<lambda>nid. dns_lookup m (d\<lparr>d_tasks := (d_next d, t nid) # d_tasks d,
      d_next := Suc (d_next d)\<rparr>) (d_next d) nid))" for h t
    by (rule post_bind[OF key_is_id]) (rule lookup)
  show ?thesis unfolding dns_turn_def Let_def
    by (rule harmless_bind[OF harmless_query]) (auto intro!: harmless_bind harmless_ops key split: option.split)
qed

lemma web_serve_drives:
  assumes m: "main_inv False m" and new: "fresh (w_next w) (w_requests w)"
  shows "lives (\<lambda>(m', w', fd). w_next w \<le> w_next w' \<and> (w_requests w' = w_requests w \<and> m' = m \<or>
      w_next w' = Suc (w_next w) \<and>
      map fst (w_requests w') = w_next w # map fst (w_requests w) \<and> drives fuel {#w_next w#} m m'))
    (web_serve ntop m w clientfd client buffer rc)" (is "lives ?ok _")
proof -
  have lookup: "lives ?ok (bindr (web_lookup ntop m (w\<lparr>w_requests := (w_next w, q) # w_requests w, w_next := Suc (w_next w)\<rparr>) (w_next w) nid)
      (\<lambda>(m, w). Inr (m, w, 0)))" if nid: "is_id nid" for q nid
  proof -
    let ?w = "w\<lparr>w_requests := (w_next w, q) # w_requests w, w_next := Suc (w_next w)\<rparr>"
    have reply: "lives (\<lambda>(m', w'). ?ok (m', w', 0)) (bindr (web_reply ntop ?w (w_next w) a) (\<lambda>w'. Inr (m, w')))" for a
      by (rule post_bind[OF web_reply_lives]) (simp_all add: fresh_filter[OF new])
    have put: "lives (\<lambda>(m', w'). ?ok (m', w', 0)) (bindr (lkp_put m nid (Some (w_next w))) (\<lambda>m'. Inr (m', ?w)))"
      by (rule post_bind[OF drives_put[OF m nid]]) simp
    have "lives (\<lambda>(m', w'). ?ok (m', w', 0)) (web_lookup ntop m ?w (w_next w) nid)" unfolding web_lookup_def
      by (rule harmless_bind[OF harmless_address[OF m]]) (use reply put in \<open>simp split: option.split\<close>)
    then show ?thesis by (rule post_bind) (simp split: prod.splits)
  qed
  have key: "lives ?ok (bindr (p2p_compute_id h) (\<lambda>nid. bindr (web_lookup ntop m (w\<lparr>w_requests := (w_next w, q nid) # w_requests w,
      w_next := Suc (w_next w)\<rparr>) (w_next w) nid) (\<lambda>(m, w). Inr (m, w, 0))))" for h q
    by (rule post_bind[OF key_is_id]) (rule lookup)
  show ?thesis unfolding web_serve_def Let_def
    by (auto intro!: harmless_bind harmless_ops key split: option.split)
qed

text \<open>The other front ends hand out no context.\<close>

lemma nss_turn_drives:
  assumes m: "main_inv False m"
  shows "lives (\<lambda>(m', sent). drives fuel {#} m m') (nss_turn m client request)"
proof -
  have put: "lives (\<lambda>(m', sent). drives fuel {#} m m') (bindr (lkp_put m nid None) (\<lambda>m'. Inr (m', [])))" if "is_id nid" for nid
    by (rule post_bind[OF drives_put[OF m that, of fuel None]]) simp
  have "lives (\<lambda>(m', sent). drives fuel {#} m m') (nss_lookup m client nid)" if "is_id nid" for nid
    unfolding nss_lookup_def by (rule harmless_bind[OF harmless_address[OF m]])
      (auto simp: put that nss_reply_def split: option.split)
  then have "lives (\<lambda>(m', sent). drives fuel {#} m m') (bindr (p2p_compute_id h) (nss_lookup m client))" for h
    by (rule post_bind[OF key_is_id])
  then show ?thesis by (auto simp: nss_turn_def Let_def intro!: harmless_bind harmless_ops)
qed

lemma ping_all_drives: "main_inv False m \<Longrightarrow> lives (\<lambda>(r, m'). drives fuel {#} m m') (ping_all ntop r m info)"
proof (induction info arbitrary: r m)
  case (Cons p info)
  have "lives (\<lambda>(r, m'). drives fuel {#} m m') (bindr (send_ping m p kind) (\<lambda>m. ping_all ntop r m info))" for kind r
  proof (rule post_bind[OF drives_ping[OF Cons.prems, of fuel]])
    fix m1
    assume d: "drives fuel {#} m m1"
    from Cons.IH[OF drives_inv[OF d Cons.prems], of r] show "lives (\<lambda>(r, m'). drives fuel {#} m m') (ping_all ntop r m1 info)"
      by (rule post_weaken) (use drives_then[OF d] in auto)
  qed
  then show ?case unfolding ping_all.simps
    by (intro harmless_bind[OF harmless_reply(2)] harmless_bind[OF harmless_memory(1)]) simp
qed simp

lemma cmd_exec_drives:
  assumes m: "main_inv False m"
  shows "lives (\<lambda>(rc, r', m', st'). drives fuel {#} m m') (cmd_exec ntop resolve r m st argv)" (is "lives ?ok _")
proof -
  have same: "lives ?ok (bindr (p :: REPLY res) (\<lambda>r. Inr (rc, r, m, st')))" if "harmless p" for p rc st'
    using that by (rule harmless_bind) simp
  have "lives (\<lambda>(rc, r, m'). drives fuel {#} m m') (cmd_ping ntop resolve r m addr port)" for addr port
    using ping_all_drives[OF m, of fuel ntop r]
    by (auto simp: cmd_ping_def intro!: harmless_bind harmless_ops post_bind[OF ping_all_drives[OF m]] split: sum.split)
  then have ping: "lives ?ok (bindr (cmd_ping ntop resolve r m addr port) (\<lambda>(rc, r, m). Inr (rc, r, m, st)))" for addr port
    by (rule post_bind) auto
  have lookup: "lives ?ok (bindr (p2p_compute_id h) (\<lambda>nid. bindr (db_address m nid) (\<lambda>addr.
      bindr (id_str nid) (\<lambda>hexbuf. bindr (r_printf r (t hexbuf)) (\<lambda>r.
      case addr of Some ip \<Rightarrow> bindr (r_printf r (u ip)) (\<lambda>r. Inr (0, r, m, st))
      | None \<Rightarrow> bindr (r_printf r w) (\<lambda>r. Inr (1, r, m, st)))))))" for h t u w
    by (intro harmless_bind harmless_ops harmless_address[OF m]) (auto intro!: harmless_bind harmless_ops split: option.split)
  have search: "lives ?ok (bindr (p2p_compute_id h) (\<lambda>nid. bindr (lkp_put m nid None) (\<lambda>m.
      bindr (id_str nid) (\<lambda>hexbuf. bindr (r_printf r (t hexbuf)) (\<lambda>r. Inr (0, r, m, st))))))" for h t
  proof (rule post_bind[OF key_is_id])
    fix nid :: bytes
    assume "is_id nid"
    from drives_put[OF m this, of fuel None] show "lives ?ok (bindr (lkp_put m nid None) (\<lambda>m.
        bindr (id_str nid) (\<lambda>hexbuf. bindr (r_printf r (t hexbuf)) (\<lambda>r. Inr (0, r, m, st)))))"
      by (rule post_bind) (auto intro!: harmless_bind harmless_ops)
  qed
  show ?thesis unfolding cmd_exec_def Let_def
    by (simp add: same ping lookup search harmless_ops)
qed

lemma cmd_turn_drives:
  assumes m: "main_inv False m"
  shows "lives (\<lambda>(m', st', rq, out). drives fuel {#} m m') (cmd_turn ntop resolve stack m st request datagram)"
proof -
  have "lives (\<lambda>(m', st', rq, out). drives fuel {#} m m') (bindr (cmd_exec ntop resolve reply m st argv) (\<lambda>(rc, reply, m, st).
      bindr (wr (r_data reply) 0 (if rc = 0 then lit ''0'' else lit ''1'')) (\<lambda>d.
      bindr (rds d 0 (r_size reply)) (\<lambda>out. Inr (m, st, rq, [out])))))" for reply argv rq
    by (rule post_bind[OF cmd_exec_drives[OF m, of fuel]]) (auto intro!: harmless_bind harmless_ops)
  then show ?thesis unfolding cmd_turn_def
    by (simp, intro impI harmless_bind[OF harmless_memory(3)] harmless_bind[OF harmless_reply(1)] harmless_bind[OF harmless_reply(2)]
      harmless_bind[OF harmless_args]) auto
qed

lemma cmd_console_turn_drives:
  assumes m: "main_inv False m"
  shows "lives (\<lambda>(m', st', rq, rc, out). drives fuel {#} m m') (cmd_console_turn ntop resolve stack m st request line)"
proof -
  have "lives (\<lambda>(m', st', rq, rc, out). drives fuel {#} m m') (bindr (cmd_exec ntop resolve reply m st argv) (\<lambda>(rc, reply, m, st).
      Inr (m, st, rq, rc, takeWhile (\<lambda>c. c \<noteq> 0) (take (r_size reply) (r_data reply)))))" for reply argv rq
    by (rule post_bind[OF cmd_exec_drives[OF m, of fuel]]) auto
  note exec = this
  have "harmless (case line of None \<Rightarrow> Inr request | Some s \<Rightarrow> wr request 0 (take 511 s @ [0]))"
    by (simp add: harmless_ops split: option.split)
  then show ?thesis unfolding cmd_console_turn_def
  proof (rule harmless_bind)
    fix rq
    show "lives (\<lambda>(m', st', rq, rc, out). drives fuel {#} m m') (bindr (cmd_to_args rq 16 (16 * 8)) (\<lambda>(request, argv).
        bindr (r_init stack) (\<lambda>reply. bindr (cmd_exec ntop resolve reply m st argv) (\<lambda>(rc, reply, m, st).
          Inr (m, st, request, rc, takeWhile (\<lambda>c. c \<noteq> 0) (take (r_size reply) (r_data reply)))))))"
      by (rule harmless_bind[OF harmless_args]) (auto intro!: harmless_bind[OF harmless_reply(1)] exec)
  qed
qed

section \<open>Calling back\<close>

definition contexts :: "DNS \<Rightarrow> WEB \<Rightarrow> nat list" where
  "contexts d w = map fst (d_tasks d) @ map fst (w_requests w)"

lemma mset_filter_key:
  assumes "distinct (map fst xs)" "c \<in> fst ` set xs"
  shows "mset (map fst (filter (\<lambda>e. fst e \<noteq> c) xs)) + {#c#} = mset (map fst xs)"
proof -
  have "map fst (filter (\<lambda>e. fst e \<noteq> c) xs) = filter (\<lambda>x. x \<noteq> c) (map fst xs)" by (simp add: filter_map o_def)
  also have "\<dots> = remove1 c (map fst xs)" using assms(1) by (simp add: distinct_remove1_removeAll removeAll_filter_not_eq neq_commute)
  finally show ?thesis using assms(2) by simp
qed

text \<open>The calls free the objects they are made with, each of which is there.\<close>

lemma call_backs_lives:
  "distinct (contexts d w) \<Longrightarrow> mset (contexts d w) = A + mset (map fst cs) \<Longrightarrow>
    lives (\<lambda>(d', w'). mset (contexts d' w') = A) (call_backs ntop cs (d, w))"
proof (induction cs arbitrary: d w)
  case (Cons c cs)
  obtain ctx nid a where c: "c = (ctx, nid, a)" by (cases c)
  have keys: "distinct (map fst (d_tasks d))" "distinct (map fst (w_requests w))"
    "set (map fst (d_tasks d)) \<inter> set (map fst (w_requests w)) = {}"
    using Cons.prems(1) by (auto simp: contexts_def)
  have "ctx \<in># mset (contexts d w)" using Cons.prems(2) c by simp
  then have mem: "ctx \<in> set (contexts d w)" by (simp only: set_mset_mset)
  have go_on: "lives (\<lambda>(d', w'). mset (contexts d' w') = A) (call_backs ntop cs (d', w'))"
    if "mset (contexts d' w') + {#ctx#} = mset (contexts d w)" for d' :: DNS and w' :: WEB
  proof (rule Cons.IH)
    show "mset (contexts d' w') = A + mset (map fst cs)" using that Cons.prems(2) c by simp
    from that have "mset (contexts d w) = mset (ctx # contexts d' w')" by simp
    from mset_eq_imp_distinct_iff[OF this] Cons.prems(1) show "distinct (contexts d' w')" by simp
  qed
  show ?case
  proof (cases "ctx \<in> fst ` set (d_tasks d)")
    case True
    have "lives (\<lambda>(d', w'). mset (contexts d' w') = A) (bindr (dns_reply d ctx a) (\<lambda>d. call_backs ntop cs (d, w)))"
    proof (rule post_bind[OF dns_reply_lives[OF True]], rule go_on)
      fix d' :: DNS
      assume "d_tasks d' = filter (\<lambda>e. fst e \<noteq> ctx) (d_tasks d) \<and> d_next d' = d_next d"
      with mset_filter_key[OF keys(1) True] show "mset (contexts d' w) + {#ctx#} = mset (contexts d w)"
        by (simp add: contexts_def)
    qed
    with True c show ?thesis by simp
  next
    case False
    with mem have req: "ctx \<in> fst ` set (w_requests w)" by (auto simp: contexts_def)
    have "lives (\<lambda>(d', w'). mset (contexts d' w') = A) (bindr (web_reply ntop w ctx a) (\<lambda>w. call_backs ntop cs (d, w)))"
    proof (rule post_bind[OF web_reply_lives[OF req]], rule go_on)
      fix w' :: WEB
      assume "w_requests w' = filter (\<lambda>e. fst e \<noteq> ctx) (w_requests w) \<and> w_next w' = w_next w"
      with mset_filter_key[OF keys(2) req] show "mset (contexts d w') + {#ctx#} = mset (contexts d w)"
        by (simp add: contexts_def)
    qed
    with False c show ?thesis by simp
  qed
qed simp

section \<open>The process\<close>

definition handed :: "FRONT \<Rightarrow> nat list" where
  "handed v = map fst (e_called (env (v_main v))) @ contexts (v_dns v) (v_web v)"

definition front_inv :: "FRONT \<Rightarrow> bool" where
  "front_inv v \<longleftrightarrow> main_inv False (v_main v) \<and> mset (contexts (v_dns v) (v_web v)) = waiting (lkps (v_main v)) \<and>
     distinct (handed v) \<and> (\<forall>c \<in> set (handed v). c < v_heap v)"

lemma inv_addrs: "main_inv g m \<Longrightarrow> addrs_ok (lkps m)"
  using lkps_parts(1)[OF main_inv_parts(4)] by (auto simp: addrs_ok_def store_ok_def)

text \<open>\<open>goes fuel v v'\<close>: the invariant holds in \<open>v'\<close>, and the daemon has run from the one to the other.\<close>

definition goes :: "nat \<Rightarrow> FRONT \<Rightarrow> FRONT \<Rightarrow> bool" where
  "goes fuel v v' \<longleftrightarrow> front_inv v' \<and> (\<exists>es. runs fuel (v_main v) es (v_main v'))"

lemma goes_same:
  assumes "front_inv v" "drives fuel {#} (v_main v) (v_main v')" "contexts (v_dns v') (v_web v') = contexts (v_dns v) (v_web v)"
    "v_heap v \<le> v_heap v'"
  shows "goes fuel v v'"
  using assms drives_inv[OF assms(2)] drives_waiting[OF assms(2) inv_addrs]
  by (auto simp: goes_def front_inv_def handed_def drives_def intro: less_le_trans)

lemma goes_new:
  assumes "front_inv v" "drives fuel {#v_heap v#} (v_main v) (v_main v')"
    "mset (contexts (v_dns v') (v_web v')) = mset (v_heap v # contexts (v_dns v) (v_web v))" "v_heap v' = Suc (v_heap v)"
  shows "goes fuel v v'"
proof -
  have m: "main_inv False (v_main v)" using assms(1) by (simp add: front_inv_def)
  have "e_called (env (v_main v')) = e_called (env (v_main v))" using assms(2) by (simp add: drives_def)
  then have "mset (handed v') = mset (v_heap v # handed v)" using assms(3) by (simp add: handed_def)
  from mset_eq_setD[OF this] mset_eq_imp_distinct_iff[OF this] have "distinct (handed v') \<and> (\<forall>c \<in> set (handed v'). c < v_heap v')"
    using assms(1,4) by (auto simp: front_inv_def less_Suc_eq)
  moreover have "mset (contexts (v_dns v') (v_web v')) = waiting (lkps (v_main v'))"
    using assms(1,3) drives_waiting[OF assms(2) inv_addrs[OF m]] by (simp add: front_inv_def)
  ultimately show ?thesis using drives_inv[OF assms(2) m] assms(2) by (simp add: goes_def front_inv_def drives_def)
qed

lemma core_goes:
  assumes inv: "front_inv v" and ok: "event_ok e" "registers e = {#}"
  shows "lives (goes fuel v) (core ntop fuel e v)"
proof -
  have m: "main_inv False (v_main v)" using inv by (simp add: front_inv_def)
  have "lives (\<lambda>m'. handle fuel e (v_main v) = Inr m') (handle fuel e (v_main v))"
    using handle_inv[OF m ok(1), of fuel] by (cases "handle fuel e (v_main v)") auto
  then show ?thesis unfolding core_def
  proof (rule post_bind)
    fix m'
    assume h: "handle fuel e (v_main v) = Inr m'"
    have m': "main_inv False m'" using handle_inv[OF m ok(1), of fuel] h by simp
    obtain cs where cs: "e_called (env m') = e_called (env (v_main v)) @ cs"
      "waiting (lkps m') + mset (map fst cs) = waiting (lkps (v_main v))"
      using settles_handle[of e "v_main v" fuel] inv_addrs[OF m] by (auto simp: h ok(2) settles_def)
    have run: "runs fuel (v_main v) ([] @ [e]) m'" using ok(1) h by (intro runs_snoc[OF runs_Nil]) (simp add: step_simp)
    have mset: "mset (contexts (v_dns v) (v_web v)) = waiting (lkps m') + mset (map fst cs)"
      using inv cs(2) by (simp add: front_inv_def)
    have "distinct (contexts (v_dns v) (v_web v))" using inv by (simp add: front_inv_def handed_def)
    note calls = call_backs_lives[OF this mset, of ntop]
    have "drop (length (e_called (env (v_main v)))) (e_called (env m')) = cs" by (simp add: cs(1))
    moreover have "lives (goes fuel v) (bindr (call_backs ntop cs (v_dns v, v_web v))
        (\<lambda>(d, w). Inr (v\<lparr>v_main := m', v_dns := d, v_web := w\<rparr>)))"
    proof (rule post_bind[OF calls])
      fix s :: "DNS \<times> WEB"
      assume s: "case s of (d', w') \<Rightarrow> mset (contexts d' w') = waiting (lkps m')"
      obtain d w where dw: "s = (d, w)" by (cases s)
      let ?v = "v\<lparr>v_main := m', v_dns := d, v_web := w\<rparr>"
      have "mset (handed ?v) = mset (handed v)" using s dw mset by (simp add: handed_def cs(1))
      from mset_eq_setD[OF this] mset_eq_imp_distinct_iff[OF this] have "front_inv ?v"
        using inv m' s dw by (simp add: front_inv_def)
      with run have "goes fuel v ?v" by (auto simp: goes_def)
      then show "lives (goes fuel v) (case s of (d, w) \<Rightarrow> Inr (v\<lparr>v_main := m', v_dns := d, v_web := w\<rparr>))"
        by (simp add: dw)
    qed
    ultimately show "lives (goes fuel v) (bindr (call_backs ntop (drop (length (e_called (env (v_main v)))) (e_called (env m')))
        (v_dns v, v_web v)) (\<lambda>(d, w). Inr (v\<lparr>v_main := m', v_dns := d, v_web := w\<rparr>)))" by simp
  qed
qed

lemma act_goes:
  assumes inv: "front_inv v" and ok: "activity_ok a"
  shows "lives (goes fuel v) (act ntop resolve fuel a v)"
proof -
  have m: "main_inv False (v_main v)" using inv by (simp add: front_inv_def)
  have fresh: "fresh (v_heap v) (d_tasks (v_dns v))" "fresh (v_heap v) (w_requests (v_web v))"
    using inv by (auto simp: front_inv_def handed_def contexts_def fresh_def)
  note same = goes_same[OF inv]
  have quiet: "goes fuel v v'" if "v_main v' = v_main v" "contexts (v_dns v') (v_web v') = contexts (v_dns v) (v_web v)" "v_heap v' = v_heap v" for v'
    using same[of fuel v'] that by simp
  show ?thesis
  proof (cases a)
    case (Core e)
    with ok have "event_ok e \<and> registers e = {#}" by (cases e) simp_all
    with core_goes[OF inv, of e] Core show ?thesis by simp
  next
    case (Signal s)
    then show ?thesis by (simp add: quiet unix_sig_stop_def unix_sig_time_def split: signal.split)
  next
    case (Test f)
    have "contexts (v_dns (loop_test f v)) (v_web (loop_test f v)) = contexts (v_dns v) (v_web v)"
      by (simp add: loop_test_def set_phase_def web_close_def Let_def contexts_def)
    then show ?thesis using quiet[of "loop_test f v"]
      by (simp add: Test) (simp add: loop_test_def set_phase_def Let_def)
  next
    case (Dns_recv sock client buffer rc)
    have "lives (goes fuel v) (bindr (dns_turn (v_main v) ((v_dns v)\<lparr>d_next := v_heap v\<rparr>) sock client buffer rc)
        (\<lambda>(m, d). Inr (set_phase F_dns Testing v\<lparr>v_main := m, v_dns := d, v_heap := d_next d\<rparr>)))"
    proof (rule post_bind[OF dns_turn_drives[OF m, of "(v_dns v)\<lparr>d_next := v_heap v\<rparr>" fuel]])
      fix s :: "MAIN \<times> DNS"
      assume s: "case s of (m', d') \<Rightarrow> d_next d' = Suc (d_next ((v_dns v)\<lparr>d_next := v_heap v\<rparr>)) \<and>
        (d_tasks d' = d_tasks ((v_dns v)\<lparr>d_next := v_heap v\<rparr>) \<and> m' = v_main v \<or>
        map fst (d_tasks d') = d_next ((v_dns v)\<lparr>d_next := v_heap v\<rparr>) # map fst (d_tasks ((v_dns v)\<lparr>d_next := v_heap v\<rparr>)) \<and>
        drives fuel {#d_next ((v_dns v)\<lparr>d_next := v_heap v\<rparr>)#} (v_main v) m')"
      obtain m' d' where p: "s = (m', d')" by (cases s)
      let ?v = "set_phase F_dns Testing v\<lparr>v_main := m', v_dns := d', v_heap := d_next d'\<rparr>"
      have "goes fuel v ?v"
        using s p same[of fuel ?v] goes_new[OF inv, of fuel ?v] by (auto simp: set_phase_def contexts_def simp del: mset_map)
      then show "lives (goes fuel v) (case s of (m, d) \<Rightarrow>
          Inr (set_phase F_dns Testing v\<lparr>v_main := m, v_dns := d, v_heap := d_next d\<rparr>))" by (simp add: p)
    qed (simp add: fresh)
    then show ?thesis unfolding Dns_recv
      by (simp add: dns_loop_def Let_def quiet set_phase_def)
  next
    case (Web_recv clientfd client buffer rc)
    have "lives (goes fuel v) (bindr (web_serve ntop (v_main v) ((v_web v)\<lparr>w_next := v_heap v\<rparr>) clientfd client buffer rc)
        (\<lambda>(m, w, fd). Inr (set_phase F_web Testing v\<lparr>v_main := m, v_web := w, v_heap := w_next w, v_clientfd := fd\<rparr>)))"
    proof (rule post_bind[OF web_serve_drives[OF m, of "(v_web v)\<lparr>w_next := v_heap v\<rparr>" fuel]])
      fix s :: "MAIN \<times> WEB \<times> int"
      assume s: "case s of (m', w', fd) \<Rightarrow> w_next ((v_web v)\<lparr>w_next := v_heap v\<rparr>) \<le> w_next w' \<and>
        (w_requests w' = w_requests ((v_web v)\<lparr>w_next := v_heap v\<rparr>) \<and> m' = v_main v \<or>
        w_next w' = Suc (w_next ((v_web v)\<lparr>w_next := v_heap v\<rparr>)) \<and>
        map fst (w_requests w') = w_next ((v_web v)\<lparr>w_next := v_heap v\<rparr>) # map fst (w_requests ((v_web v)\<lparr>w_next := v_heap v\<rparr>)) \<and>
        drives fuel {#w_next ((v_web v)\<lparr>w_next := v_heap v\<rparr>)#} (v_main v) m')"
      obtain m' w' fd where p: "s = (m', w', fd)" by (cases s)
      let ?v = "set_phase F_web Testing v\<lparr>v_main := m', v_web := w', v_heap := w_next w', v_clientfd := fd\<rparr>"
      have "goes fuel v ?v"
        using s p same[of fuel ?v] goes_new[OF inv, of fuel ?v] by (auto simp: set_phase_def contexts_def simp del: mset_map)
      then show "lives (goes fuel v) (case s of (m, w, fd) \<Rightarrow>
          Inr (set_phase F_web Testing v\<lparr>v_main := m, v_web := w, v_heap := w_next w, v_clientfd := fd\<rparr>))" by (simp add: p)
    qed (simp add: fresh)
    then show ?thesis unfolding Web_recv by (simp add: web_loop_def Let_def set_phase_def)
  next
    case (Nss_recv client request)
    have "lives (goes fuel v) (nss_loop client request v)" unfolding nss_loop_def Let_def
      by (simp add: set_phase_def, rule post_bind[OF nss_turn_drives[OF m, of fuel]]) (auto intro!: same)
    then show ?thesis unfolding Nss_recv by simp
  next
    case (Cmd_recv client stack datagram)
    have "lives (goes fuel v) (cmd_remote_loop ntop resolve client stack datagram v)"
    proof (cases datagram)
      case (Some data)
      show ?thesis unfolding cmd_remote_loop_def Let_def Some
        by (simp add: set_phase_def, rule post_bind[OF cmd_turn_drives[OF m, of fuel]]) (auto intro!: same)
    qed (simp add: cmd_remote_loop_def quiet set_phase_def)
    then show ?thesis unfolding Cmd_recv by simp
  next
    case (Console_select stack rc line)
    have "lives (goes fuel v) (bindr (cmd_console_turn ntop resolve stack (v_main v) (v_status v) (v_line v) line)
        (\<lambda>(m, st, request, rc, out). Inr (set_phase F_console Testing v\<lparr>v_main := m, v_status := st, v_line := request,
          v_printed := v_printed v @ [(rc, out)]\<rparr>)))"
      by (rule post_bind[OF cmd_console_turn_drives[OF m, of fuel]]) (auto simp: set_phase_def intro!: same)
    then show ?thesis unfolding Console_select
      by (simp add: cmd_console_loop_def Let_def quiet set_phase_def)
  qed
qed

lemma start_inv:
  assumes "main_inv False m" "lkps m = lkp_init" "e_called (env m) = []"
  shows "front_inv (front_start m request line)"
  using assms by (simp add: front_inv_def front_start_def handed_def contexts_def waiting_def lkp_init_def store_init_def map_filter_simps)

lemma acts_goes:
  assumes "acts ntop resolve fuel v as v'" "front_inv v"
  shows "goes fuel v v'"
  using assms
proof (induction rule: acts.induct)
  case acts_Nil
  then show ?case unfolding goes_def using runs_Nil by blast
next
  case (acts_snoc as v' a v'')
  then have "goes fuel v' v''" using act_goes[of v' a fuel ntop resolve] by (simp add: goes_def)
  with acts_snoc show ?case unfolding goes_def using runs_append by blast
qed

text \<open>A request for an unknown host, to a daemon that has just started.\<close>

definition foo_request :: bytes where
  "foo_request = lit ''GET /foo '' @ replicate 1491 9"

lemma acts_foo:
  "\<exists>v. acts ntop resolve fuel (front_start main0 [] []) [Test F_web, Web_recv 7 no_addr foo_request 20] v \<and>
    contexts (v_dns v) (v_web v) = [0]"
proof -
  let ?n = "lit ''foo''" and ?w = "\<lparr>w_requests = [], w_next = 0, w_sent = [], w_closed = []\<rparr> :: WEB"
  have buf: "foo_request = lit ''GET /'' @ ?n @ 32 # replicate 1491 9" by (simp add: foo_request_def lit_def del: replicate.simps)
  have "length foo_request = 1500" by (simp add: foo_request_def lit_def)
  with buf have asks: "asks_for ?n foo_request 20"
    unfolding asks_for_def by (intro conjI exI[of _ "replicate 1491 9"]) (simp_all add: lit_def)
  have w: "requests_ok ?w" and n: "length ?n < 2 ^ 32" by (simp_all add: requests_ok_def lit_def)
  have none: "hosts main0 (host_key ?n) = None" by (simp add: main0_def main_start_def db_init_def)
  have ok: "db_ok (database main0)" by (rule main_inv_parts(6)[OF main_inv_main0[where g = True]])
  from lkp_put_inv[OF main_inv_main0[where g = True] compute_id_key(2)[OF n], of "Some 0"] obtain m' where
    put: "lkp_put main0 (host_key ?n) (Some 0) = Inr m'" by (auto simp: post_def match_faults_def split: sum.splits)
  have "web_turn ntop main0 ?w 7 no_addr foo_request 20
      = Inr (m', ?w\<lparr>w_requests := [(0, \<lparr>q_clientfd = 7, q_clientaddr = no_addr\<rparr>)], w_next := 1\<rparr>)"
    by (simp add: turn_name[OF asks w] compute_id_key(1)[OF n] web_lookup_def db_address_spec[OF ok] none put)
  then obtain w' fd where s: "web_serve ntop main0 ?w 7 no_addr foo_request 20 = Inr (m', w', fd)"
    and c: "web_close w' fd = ?w\<lparr>w_requests := [(0, \<lparr>q_clientfd = 7, q_clientaddr = no_addr\<rparr>)], w_next := 1\<rparr>"
    by (auto simp: web_turn_def bindr_eq_Inr)
  have "w_requests (web_close w' fd) = w_requests w'" by (simp add: web_close_def)
  then have "w_requests w' = [(0, \<lparr>q_clientfd = 7, q_clientaddr = no_addr\<rparr>)]" unfolding c by simp
  then have keys: "map fst (w_requests w') = [0]" by simp
  let ?v1 = "loop_test F_web (front_start main0 [] [])"
  let ?v = "set_phase F_web Testing ?v1\<lparr>v_main := m', v_web := w', v_heap := w_next w', v_clientfd := fd\<rparr>"
  have "acts ntop resolve fuel (front_start main0 [] []) ([] @ [Test F_web]) ?v1"
    by (rule acts_snoc[OF acts_Nil]) (simp_all add: front_start_def)
  then have "acts ntop resolve fuel (front_start main0 [] []) (([] @ [Test F_web]) @ [Web_recv 7 no_addr foo_request 20]) ?v"
  proof (rule acts_snoc)
    show "act ntop resolve fuel (Web_recv 7 no_addr foo_request 20) ?v1 = Inr ?v"
      using s by (simp add: web_loop_def loop_test_def set_phase_def front_start_def web_close_def Let_def)
    show "enabled (Web_recv 7 no_addr foo_request 20) ?v1"
      by (simp add: loop_test_def set_phase_def front_start_def Let_def)
  qed simp
  moreover have "contexts (v_dns ?v) (v_web ?v) = [0]"
    using keys by (simp add: contexts_def loop_test_def set_phase_def front_start_def Let_def)
  ultimately show ?thesis by (intro exI[of _ ?v]) simp
qed

lemma main0_fresh: "lkps main0 = lkp_init" "e_called (env main0) = []"
  by (simp_all add: main0_def main_start_def lkp_init_def)

text \<open>C11: However the workers and the front ends take turns, what happens to the daemon is a run of the
  daemon over datagrams, ticks, lookups and pings: all that holds of runs holds of the whole process, and
  the invariant of all components does.\<close>
theorem front_ends_refine:
  assumes "acts ntop resolve fuel (front_start m request line) as v"
    and "main_inv False m" "lkps m = lkp_init" "e_called (env m) = []"
  shows "(\<exists>es. runs fuel m es (v_main v)) \<and> main_inv False (v_main v)"
  using acts_goes[OF assms(1) start_inv[OF assms(2,3,4)]] by (simp add: goes_def front_inv_def front_start_def)

theorem front_ends_refine_witness:
  "\<exists>v es. acts (\<lambda>a. []) (\<lambda>a p. Inr []) 0 (front_start main0 [] []) [Test F_web, Web_recv 7 no_addr foo_request 20] v \<and>
    runs 0 main0 es (v_main v) \<and> main_inv False (v_main v)"
proof -
  obtain v where v: "acts (\<lambda>a. []) (\<lambda>a p. Inr []) 0 (front_start main0 [] []) [Test F_web, Web_recv 7 no_addr foo_request 20] v"
    using acts_foo by blast
  from front_ends_refine[OF v main_inv_main0 main0_fresh] v show ?thesis by blast
qed



section \<open>Shutdown\<close>

lemma exec_status: "cmd_exec ntop resolve r m st argv = Inr (rc, r', m', st') \<Longrightarrow> st' = st \<or> st' = MAIN_SHUTDOWN"
  by (auto simp: cmd_exec_def Let_def bindr_eq_Inr split: if_splits option.splits)

lemma turn_status:
  "cmd_turn ntop resolve stack m st rq data = Inr (m', st', rq', out) \<Longrightarrow> st' = st \<or> st' = MAIN_SHUTDOWN"
  "cmd_console_turn ntop resolve stack m st rq line = Inr (m', st', rq', rc, txt) \<Longrightarrow> st' = st \<or> st' = MAIN_SHUTDOWN"
  by (auto simp: cmd_turn_def cmd_console_turn_def bindr_eq_Inr dest!: exec_status split: if_splits)

text \<open>What an activity does to the status and the phases.\<close>

lemma act_phase:
  assumes "act ntop resolve fuel a v = Inr v'" "v_status v = MAIN_SHUTDOWN"
  shows "v_status v' = MAIN_SHUTDOWN \<and> (\<exists>p. v_phase v' = (case a of Test f \<Rightarrow> (v_phase v)(f := Returned)
    | _ \<Rightarrow> (case serves a of None \<Rightarrow> v_phase v | Some f \<Rightarrow> (v_phase v)(f := p))) \<and> p \<noteq> Blocked)"
proof (cases a)
  case (Console_select stack rc line)
  with assms show ?thesis
    by (auto simp: cmd_console_loop_def Let_def bindr_eq_Inr set_phase_def split: if_splits dest!: turn_status(2))
next
  case (Cmd_recv client stack datagram)
  with assms show ?thesis
    by (auto simp: cmd_remote_loop_def Let_def bindr_eq_Inr set_phase_def split: option.splits dest!: turn_status(1)
      intro!: exI[of _ Testing])
qed (use assms in \<open>auto simp: core_def unix_sig_stop_def unix_sig_time_def loop_test_def dns_loop_def web_loop_def nss_loop_def Let_def
    bindr_eq_Inr set_phase_def split: if_splits signal.splits intro!: exI[of _ Testing]\<close>)

definition inputs :: "front \<Rightarrow> activity list \<Rightarrow> nat" where
  "inputs f as = length (filter (\<lambda>a. serves a = Some f) as)"

text \<open>After a shutdown, by the command or by a signal, the status stays; every front end serves at most the one
  input it may be waiting for, none if it is not, and the next test of its loop ends it for good.\<close>
lemma shutdown_stops:
  assumes "acts ntop resolve fuel v as v'" "v_status v = MAIN_SHUTDOWN"
  shows "v_status v' = MAIN_SHUTDOWN \<and> inputs f as \<le> (if v_phase v f = Blocked then 1 else 0) \<and>
    (Test f \<in> set as \<longrightarrow> v_phase v' f = Returned)"
proof -
  have "v_status v' = MAIN_SHUTDOWN \<and>
      inputs f as + (if v_phase v' f = Blocked then 1 else 0) \<le> (if v_phase v f = Blocked then 1 else 0) \<and>
      (Test f \<in> set as \<or> v_phase v f = Returned \<longrightarrow> v_phase v' f = Returned)" using assms
  proof (induction rule: acts.induct)
    case (acts_snoc as v' a v'')
    then have st: "v_status v' = MAIN_SHUTDOWN" by simp
    from act_phase[OF acts_snoc.hyps(4) st] obtain p where p: "v_status v'' = MAIN_SHUTDOWN" "p \<noteq> Blocked"
      "v_phase v'' = (case a of Test f \<Rightarrow> (v_phase v')(f := Returned)
        | _ \<Rightarrow> (case serves a of None \<Rightarrow> v_phase v' | Some f \<Rightarrow> (v_phase v')(f := p)))" by blast
    show ?case
      using acts_snoc p by (cases a) (auto simp: inputs_def split: if_splits)
  qed (simp add: inputs_def)
  then show ?thesis by (simp split: if_splits)
qed

lemma shutdown_stops_example:
  "\<exists>v'. acts (\<lambda>a. []) (\<lambda>a p. Inr []) 0 (unix_sig_stop (loop_test F_nss (front_start main0 [] [])))
      [Nss_recv no_addr [], Test F_nss] v' \<and> v_status v' = MAIN_SHUTDOWN \<and> v_phase v' F_nss = Returned"
proof -
  let ?v = "unix_sig_stop (loop_test F_nss (front_start main0 [] []))"
  let ?v1 = "set_phase F_nss Testing ?v" and ?a = "acts (\<lambda>a. []) (\<lambda>a p. Inr []) 0 ?v"
  have "?a ([] @ [Nss_recv no_addr []]) ?v1"
    by (rule acts_snoc[OF acts_Nil])
      (simp_all add: loop_test_def set_phase_def front_start_def unix_sig_stop_def nss_loop_def nss_turn_def Let_def)
  then have "?a (([] @ [Nss_recv no_addr []]) @ [Test F_nss]) (loop_test F_nss ?v1)"
    by (rule acts_snoc) (simp_all add: set_phase_def)
  moreover have "v_status ?v = MAIN_SHUTDOWN" by (simp add: unix_sig_stop_def)
  ultimately show ?thesis using shutdown_stops[of _ _ _ ?v _ "loop_test F_nss ?v1" F_nss] by fastforce
qed

end
