(* ===== verification/Opts.thy ===== *)
theory Opts
  imports Cmd Daemon
begin

text \<open>
  Start-up of the daemon: the configuration (\<open>src/src/conf.c\<close>), the command line
  (\<open>src/src/opts.c\<close>) and their order in \<open>main\<close> (\<open>src/src/main.c\<close>). The result of a function that
  may end the process is \<open>Inl ExitFailure\<close> for \<open>exit( 1 )\<close> (all of \<open>log_err\<close>) and \<open>Inr None\<close> for
  \<open>exit( 0 )\<close>. \<open>urandom\<close> is what \<open>/dev/urandom\<close> delivers and \<open>cpus\<close> what \<open>sysconf\<close> reports. All
  optional interfaces (DNS, WEB, NSS, CMD) are compiled in, as the Makefile does by default.
\<close>

section \<open>The configuration\<close>

datatype mode = CONF_DAEMON | CONF_FOREGROUND
datatype quiet = CONF_BEQUIET | CONF_VERBOSE

record OPTS =
  o_user :: bytes
  o_pid_file :: "bytes option"
  o_hostname :: "bytes option"
  o_node_id :: bytes
  o_host_id :: bytes
  o_bootstrap_node :: bytes
  o_bootstrap_port :: bytes
  o_dns_port :: bytes
  o_dns_addr :: bytes
  o_dns_ifce :: "bytes option"
  o_web_port :: bytes
  o_web_addr :: bytes
  o_web_ifce :: "bytes option"
  o_cores :: int
  o_quiet :: quiet
  o_mode :: mode
  o_port :: bytes
  o_interface :: "bytes option"

definition CONF_CORES :: int where "CONF_CORES = 2"

definition conf_init :: "bytes \<Rightarrow> int \<Rightarrow> OPTS" where
  "conf_init urandom cpus = \<lparr>o_user = lit ''masala'', o_pid_file = None, o_hostname = None,
     o_node_id = urandom, o_host_id = replicate SHA_DIGEST_LENGTH 0,
     o_bootstrap_node = lit ''ff0e::1'', o_bootstrap_port = lit ''8337'',
     o_dns_port = lit ''3444'', o_dns_addr = lit ''::1'', o_dns_ifce = None,
     o_web_port = lit ''8080'', o_web_addr = lit ''::1'', o_web_ifce = None,
     o_cores = (if cpus > 2 then cpus else CONF_CORES), o_quiet = CONF_VERBOSE, o_mode = CONF_FOREGROUND,
     o_port = lit ''8337'', o_interface = None\<rparr>"

text \<open>The checks of \<open>conf_check\<close>; what it logs is left out.\<close>

definition conf_check :: "OPTS \<Rightarrow> unit res" where
  "conf_check c = (if str_isSafePort (o_port c) < 0 then Inl ExitFailure
     else if str_isSafePort (o_bootstrap_port c) < 0 then Inl ExitFailure
     else if o_cores c < 1 \<or> o_cores c > 128 then Inl ExitFailure
     else Inr ())"

section \<open>The command line\<close>

definition match :: "bytes \<Rightarrow> string \<Rightarrow> string \<Rightarrow> bool" where
  "match opt opt1 opt2 \<longleftrightarrow> opt = lit opt1 \<or> opt = lit opt2"

text \<open>\<open>replace\<close>: the new value of a string, or the end of the process when there is none.\<close>

definition replace :: "bytes option \<Rightarrow> bytes res" where
  "replace src = (case src of None \<Rightarrow> Inl ExitFailure | Some s \<Rightarrow> Inr s)"

definition opts_interpreter :: "bytes \<Rightarrow> bytes option \<Rightarrow> OPTS \<Rightarrow> OPTS option res" where
  "opts_interpreter var val c =
    (if match var ''-ba'' ''--bootstrap-addr'' then bindr (replace val) (\<lambda>s. Inr (Some (c\<lparr>o_bootstrap_node := s\<rparr>)))
     else if match var ''-bp'' ''--bootstrap-port'' then bindr (replace val) (\<lambda>s. Inr (Some (c\<lparr>o_bootstrap_port := s\<rparr>)))
     else if match var ''-pf'' ''--pid-file'' then bindr (replace val) (\<lambda>s. Inr (Some (c\<lparr>o_pid_file := Some s\<rparr>)))
     else if match var ''-h'' ''--hostname'' then bindr (replace val) (\<lambda>s. bindr (p2p_compute_id s) (\<lambda>hid.
       Inr (Some (c\<lparr>o_hostname := Some s, o_host_id := hid\<rparr>))))
     else if match var ''-q'' ''--quiet'' then
       (if val \<noteq> None then Inl ExitFailure else Inr (Some (c\<lparr>o_quiet := CONF_BEQUIET\<rparr>)))
     else if match var ''-dp'' ''--dns-port'' then bindr (replace val) (\<lambda>s. Inr (Some (c\<lparr>o_dns_port := s\<rparr>)))
     else if match var ''-da'' ''--dns-addr'' then bindr (replace val) (\<lambda>s. Inr (Some (c\<lparr>o_dns_addr := s\<rparr>)))
     else if match var ''-di'' ''--dns-ifce'' then bindr (replace val) (\<lambda>s. Inr (Some (c\<lparr>o_dns_ifce := Some s\<rparr>)))
     else if match var ''-wp'' ''--web-port'' then bindr (replace val) (\<lambda>s. Inr (Some (c\<lparr>o_web_port := s\<rparr>)))
     else if match var ''-wa'' ''--web-addr'' then bindr (replace val) (\<lambda>s. Inr (Some (c\<lparr>o_web_addr := s\<rparr>)))
     else if match var ''-wi'' ''--web-ifce'' then bindr (replace val) (\<lambda>s. Inr (Some (c\<lparr>o_web_ifce := Some s\<rparr>)))
     else if match var ''-p'' ''--port'' then bindr (replace val) (\<lambda>s. Inr (Some (c\<lparr>o_port := s\<rparr>)))
     else if match var ''-i'' ''--interface'' then bindr (replace val) (\<lambda>s. Inr (Some (c\<lparr>o_interface := Some s\<rparr>)))
     else if match var ''-u'' ''--user'' then bindr (replace val) (\<lambda>s. Inr (Some (c\<lparr>o_user := s\<rparr>)))
     else if match var ''-d'' ''--daemon'' then
       (if val \<noteq> None then Inl ExitFailure else Inr (Some (c\<lparr>o_mode := CONF_DAEMON\<rparr>)))
     else if match var ''--help'' '''' then Inr None
     else Inl ExitFailure)"

text \<open>\<open>argv[i][0] == '-'\<close>\<close>

definition dash :: "bytes \<Rightarrow> bool" where
  "dash s \<longleftrightarrow> s \<noteq> [] \<and> hd s = 45"

text \<open>The loop of \<open>opts_load\<close> over the arguments after the program's name.\<close>

fun opts_loop :: "bytes list \<Rightarrow> OPTS \<Rightarrow> OPTS option res" where
  "opts_loop [] c = Inr (Some c)"
| "opts_loop [a] c = (if dash a then opts_interpreter a None c else Inr (Some c))"
| "opts_loop (a # v # rest) c = (if dash a
     then (if \<not> dash v
       then bindr (opts_interpreter a (Some v) c) (\<lambda>r. case r of None \<Rightarrow> Inr None | Some c' \<Rightarrow> opts_loop rest c')
       else bindr (opts_interpreter a None c) (\<lambda>r. case r of None \<Rightarrow> Inr None | Some c' \<Rightarrow> opts_loop (v # rest) c'))
     else opts_loop (v # rest) c)"

definition opts_load :: "bytes list \<Rightarrow> OPTS \<Rightarrow> OPTS option res" where
  "opts_load argv c = opts_loop (tl argv) c"

text \<open>The part of \<open>main\<close> that decides how the daemon runs: the configuration it starts its servers with.\<close>

definition main_conf :: "bytes \<Rightarrow> int \<Rightarrow> bytes list \<Rightarrow> OPTS option res" where
  "main_conf urandom cpus argv = bindr (opts_load argv (conf_init urandom cpus)) (\<lambda>r. case r of
       None \<Rightarrow> Inr None
     | Some c \<Rightarrow> bindr (conf_check c) (\<lambda>_. Inr (Some c)))"

text \<open>The configuration as the protocol sees it.\<close>

definition proto_conf :: "OPTS \<Rightarrow> CONF" where
  "proto_conf c = \<lparr>conf_node_id = o_node_id c, conf_host_id = o_host_id c, conf_hostname = o_hostname c\<rparr>"

section \<open>What the command line leads to\<close>

text \<open>The host id always belongs to the host name.\<close>

definition opts_ok :: "bytes \<Rightarrow> OPTS \<Rightarrow> bool" where
  "opts_ok node_id c \<longleftrightarrow> o_node_id c = node_id \<and> is_id (o_host_id c) \<and>
     (\<forall>h. o_hostname c = Some h \<longrightarrow> o_host_id c = host_key h)"

lemma conf_init_ok: "opts_ok urandom (conf_init urandom cpus)"
  by (simp add: opts_ok_def conf_init_def is_id_def)

lemma replace_Inr: "replace v = Inr s \<longleftrightarrow> v = Some s"
  by (simp add: replace_def split: option.splits)

lemma interpreter_ok:
  assumes "opts_ok n c" "\<forall>s. val = Some s \<longrightarrow> length s < 2 ^ 32" "opts_interpreter var val c = Inr (Some c')"
  shows "opts_ok n c'" "o_cores c' = o_cores c"
proof -
  have key: "p2p_compute_id s = Inr (host_key s)" "is_id (host_key s)" if "val = Some s" for s
    using compute_id_key[of s] assms(2) that by auto
  show "opts_ok n c'" "o_cores c' = o_cores c"
    using assms(1,3) key by (auto simp: opts_interpreter_def replace_Inr bindr_eq_Inr opts_ok_def split: if_splits)
qed

lemma interpreter_ends:
  assumes "\<forall>s. val = Some s \<longrightarrow> length s < 2 ^ 32"
  shows "opts_interpreter var val c = Inl f \<Longrightarrow> f = ExitFailure"
    "opts_interpreter var val c = Inr None \<Longrightarrow> dash var \<Longrightarrow> var = lit ''--help''"
proof -
  have r: "replace val = Inl f \<Longrightarrow> f = ExitFailure" for f by (auto simp: replace_def split: option.splits)
  have key: "p2p_compute_id s = Inr (host_key s)" if "replace val = Inr s" for s
    using compute_id_key[of s] assms that by (auto simp: replace_Inr)
  show "opts_interpreter var val c = Inl f \<Longrightarrow> f = ExitFailure"
    using r key by (auto simp: opts_interpreter_def bindr_eq_Inl split: if_splits)
  show "opts_interpreter var val c = Inr None \<Longrightarrow> dash var \<Longrightarrow> var = lit ''--help''"
    by (auto simp: opts_interpreter_def bindr_eq_Inr match_def dash_def lit_def split: if_splits)
qed

lemma opts_loop_result:
  "opts_ok n c \<Longrightarrow> \<forall>a \<in> set args. length a < 2 ^ 32 \<Longrightarrow>
    (\<forall>f. opts_loop args c = Inl f \<longrightarrow> f = ExitFailure) \<and>
    (opts_loop args c = Inr None \<longrightarrow> lit ''--help'' \<in> set args) \<and>
    (\<forall>c'. opts_loop args c = Inr (Some c') \<longrightarrow> opts_ok n c' \<and> o_cores c' = o_cores c)"
proof (induction args c rule: opts_loop.induct)
  case (2 a c)
  then show ?case
    using interpreter_ok[of n c None a] interpreter_ends[of None a c] by auto
next
  case (3 a v rest c)
  consider "\<not> dash a" | "dash a" "\<not> dash v" | "dash a" "dash v" by blast
  then show ?case
  proof cases
    case 1
    then show ?thesis using 3 by auto
  next
    case 2
    have v: "\<forall>s. Some v = Some s \<longrightarrow> length s < 2 ^ 32" using 3 by simp
    show ?thesis
    proof (cases "opts_interpreter a (Some v) c")
      case (Inr r)
      then show ?thesis using 2 "3.IH"(1)[OF 2 Inr] "3.prems" interpreter_ok[OF _ v] interpreter_ends[OF v, of a c]
        by (cases r) auto
    qed (use 2 interpreter_ends[OF v, of a c] in auto)
  next
    case 3
    have v: "\<forall>s. None = Some s \<longrightarrow> length s < 2 ^ 32" by simp
    show ?thesis
    proof (cases "opts_interpreter a None c")
      case (Inr r)
      then show ?thesis using 3 "3.IH"(2)[of r] "3.prems" interpreter_ok[OF _ v] interpreter_ends[OF v, of a c]
        by (cases r) auto
    qed (use 3 interpreter_ends[OF v, of a c] in auto)
  qed
qed auto

lemma safe_port_range: "\<not> str_isSafePort s < 0 \<Longrightarrow> 1 \<le> str_isSafePort s \<and> str_isSafePort s \<le> 65535"
  by (auto simp: str_isSafePort_def Let_def CONF_PORTMIN_def CONF_PORTMAX_def split: if_splits)

text \<open>C35: The start of the daemon: a command line either ends the process with exit code 1, or with 0
  when it contains --help, or gives a configuration with two ports between 1 and 65535, between 1
  and 128 workers, the drawn node id, and the host id that belongs to the host name; and the fresh
  daemon with that configuration satisfies the invariant of all components.\<close>
theorem main_conf_starts:
  assumes "is_id urandom" "\<forall>a \<in> set argv. length a < 2 ^ 32"
    and "\<forall>i n. length (e_urandom e i n) = n" "\<forall>x. e_multicast e = Inl x \<longrightarrow> x = ExitFailure"
  shows "case main_conf urandom cpus argv of
      Inl f \<Rightarrow> f = ExitFailure
    | Inr None \<Rightarrow> lit ''--help'' \<in> set argv
    | Inr (Some c) \<Rightarrow> o_node_id c = urandom \<and> (\<forall>h. o_hostname c = Some h \<longrightarrow> o_host_id c = host_key h) \<and>
        str_isSafePort (o_port c) \<in> {1..65535} \<and> str_isSafePort (o_bootstrap_port c) \<in> {1..65535} \<and>
        o_cores c \<in> {2..128} \<and> main_inv gap (main_start (proto_conf c) t0 e)"
proof -
  let ?c0 = "conf_init urandom cpus"
  have tl: "set (tl argv) \<subseteq> set argv" by (cases argv) auto
  then have short: "\<forall>a \<in> set (tl argv). length a < 2 ^ 32" using assms(2) by blast
  have cores: "2 \<le> o_cores ?c0" by (simp add: conf_init_def CONF_CORES_def)
  note res = opts_loop_result[OF conf_init_ok[of urandom cpus] short]
  show ?thesis
  proof (cases "opts_load argv ?c0")
    case (Inl f)
    then show ?thesis using res by (simp add: main_conf_def opts_load_def)
  next
    case (Inr r)
    show ?thesis
    proof (cases r)
      case None
      then show ?thesis using Inr res tl by (auto simp: main_conf_def opts_load_def)
    next
      case (Some c)
      then have c: "opts_ok urandom c" "o_cores c = o_cores ?c0" using Inr res by (simp_all add: opts_load_def)
      have start: "main_inv gap (main_start (proto_conf c) t0 e)"
        by (rule main_inv_start) (use c(1) assms in \<open>simp_all add: proto_conf_def opts_ok_def\<close>)
      show ?thesis
      proof (cases "conf_check c")
        case (Inl f)
        then show ?thesis using Inr Some by (auto simp: main_conf_def conf_check_def split: if_splits)
      next
        case (Inr u)
        then show ?thesis
          using \<open>opts_load argv ?c0 = Inr r\<close> Some c cores start safe_port_range[of "o_port c"] safe_port_range[of "o_bootstrap_port c"]
          by (auto simp: main_conf_def conf_check_def opts_ok_def split: if_splits)
      qed
    qed
  qed
qed

text \<open>The example of the usage text, \<open>masala -h fubar.p2p -k fubar\<close>, and the option \<open>--boostrap-addr\<close> it
  lists are refused.\<close>

lemma interpreter_examples:
  "opts_interpreter (lit ''-h'') (Some s) c
    = bindr (p2p_compute_id s) (\<lambda>hid. Inr (Some (c\<lparr>o_hostname := Some s, o_host_id := hid\<rparr>)))"
  "opts_interpreter (lit ''-k'') v c = Inl ExitFailure"
  "opts_interpreter (lit ''--boostrap-addr'') v c = Inl ExitFailure"
  by (simp_all add: opts_interpreter_def match_def replace_def lit_def)

lemma usage_example_refused:
  "main_conf u cpus [lit ''masala'', lit ''-h'', lit ''fubar.p2p'', lit ''-k'', lit ''fubar''] = Inl ExitFailure"
  "main_conf u cpus [lit ''masala'', lit ''--boostrap-addr'', lit ''::1''] = Inl ExitFailure"
proof -
  have "length (lit ''fubar.p2p'') < 2 ^ 32" by (simp add: lit_def)
  note key = compute_id_key(1)[OF this]
  have d: "dash (lit ''-h'')" "\<not> dash (lit ''fubar.p2p'')" "dash (lit ''-k'')" "\<not> dash (lit ''fubar'')"
    "dash (lit ''--boostrap-addr'')" "\<not> dash (lit ''::1'')" by (simp_all add: dash_def lit_def)
  show "main_conf u cpus [lit ''masala'', lit ''-h'', lit ''fubar.p2p'', lit ''-k'', lit ''fubar''] = Inl ExitFailure"
    "main_conf u cpus [lit ''masala'', lit ''--boostrap-addr'', lit ''::1''] = Inl ExitFailure"
    by (simp_all add: main_conf_def opts_load_def d interpreter_examples key)
qed

theorem main_conf_starts_witness:
  "(case main_conf (replicate 20 1) 4 [lit ''masala''] of
      Inl f \<Rightarrow> f = ExitFailure | Inr None \<Rightarrow> False
    | Inr (Some c) \<Rightarrow> o_cores c \<in> {2..128} \<and> main_inv True (main_start (proto_conf c) 1000 (env main0))) \<and>
   (\<exists>c. main_conf (replicate 20 1) 4 [lit ''masala''] = Inr (Some c))"
proof -
  have port: "str_isSafePort (lit ''8337'') = 8337"
    by (subst str_isSafePort_value) (simp_all add: lit_def schar_def digits_val_def)
  have ok: "\<exists>c. main_conf (replicate 20 1) 4 [lit ''masala''] = Inr (Some c)"
    by (simp add: main_conf_def opts_load_def conf_check_def conf_init_def port)
  have "\<forall>a \<in> set [lit ''masala'']. length a < 2 ^ 32" by (simp add: lit_def)
  note main_conf_starts[OF _ this, of "replicate 20 1" "env main0" True 1000 4]
  then show ?thesis using ok by (auto simp: is_id_def SHA_DIGEST_LENGTH_def main0_def main_start_def)
qed

end
