(* ===== verification/Startup.thy ===== *)
theory Startup
  imports Opts
begin

text \<open>
  The process around the protocol: \<open>main\<close> (\<open>src/src/main.c\<close>), what it asks of the operating system
  (\<open>src/src/unix.c\<close>), the start and the stop of the UDP server (\<open>src/src/udp.c\<close>), and the set-up of
  the four front ends. A process is the list of the system calls it has made with its user and group;
  \<open>pr_os\<close> is the operating system: the result of a call after the calls before it. The only effect
  of a call in the model is that of a successful \<open>setuid\<close> or \<open>setgid\<close>. A computation ends in a value,
  or in the exit code of the process (\<open>log_err\<close> and \<open>log_crit\<close> are \<open>exit( 1 )\<close>), in both cases with
  the process at that time. \<open>getpwnam\<close> is \<open>pr_passwd\<close>, which gives user and group id.
\<close>

section \<open>Processes\<close>

datatype syscall = Sigaction string | Ignore_sigpipe | Fork | Setsid | Umask | Setrlimit int
  | Open bytes | Write_pid | Close string | Getaddrinfo bytes bytes | If_nametoindex bytes | Socket
  | Join_multicast | V6only | Reuseaddr | Timeout_1s | Bind bytes bytes | Bind_device bytes | Listen
  | Fcntl_get | Fcntl_set | Epoll_create | Epoll_add | Setenv_home | Setuid int | Setgid int
  | Worker nat | Interface string | Console | Join nat | Alarm int

record PROC =
  pr_done :: "syscall list"
  pr_uid :: int
  pr_gid :: int
  pr_os :: "syscall list \<Rightarrow> syscall \<Rightarrow> int"
  pr_passwd :: "bytes \<Rightarrow> (int \<times> int) option"

type_synonym 'a prog = "PROC \<Rightarrow> (int + 'a) \<times> PROC"

definition ret :: "'a \<Rightarrow> 'a prog" where
  "ret x p = (Inr x, p)"

definition exit_with :: "int \<Rightarrow> 'a prog" where
  "exit_with code p = (Inl code, p)"

definition bindp :: "'a prog \<Rightarrow> ('a \<Rightarrow> 'b prog) \<Rightarrow> 'b prog" where
  "bindp f g p = (case f p of (Inl code, p') \<Rightarrow> (Inl code, p') | (Inr x, p') \<Rightarrow> g x p')"

definition do_call :: "syscall \<Rightarrow> int prog" where
  "do_call c p = (let r = pr_os p (pr_done p) c; p' = p\<lparr>pr_done := pr_done p @ [c]\<rparr>
     in (Inr r, case c of Setuid u \<Rightarrow> if r = 0 then p'\<lparr>pr_uid := u\<rparr> else p'
       | Setgid g \<Rightarrow> if r = 0 then p'\<lparr>pr_gid := g\<rparr> else p' | _ \<Rightarrow> p'))"

text \<open>The test of the result that the code takes for a failure.\<close>

datatype test = Negative | Nonzero | Zero | Minus_one | Other_than_minus_one | Unchecked

fun failed :: "test \<Rightarrow> int \<Rightarrow> bool" where
  "failed Negative r \<longleftrightarrow> r < 0"
| "failed Nonzero r \<longleftrightarrow> r \<noteq> 0"
| "failed Zero r \<longleftrightarrow> r = 0"
| "failed Minus_one r \<longleftrightarrow> r = - 1"
| "failed Other_than_minus_one r \<longleftrightarrow> r \<noteq> - 1"
| "failed Unchecked r \<longleftrightarrow> False"

text \<open>Calls in a row; the first that fails its test ends the process with code 1.\<close>

fun calls :: "(syscall \<times> test) list \<Rightarrow> unit prog" where
  "calls [] = ret ()"
| "calls ((c, t) # cs) = bindp (do_call c) (\<lambda>r. if failed t r then exit_with 1 else calls cs)"

section \<open>unix.c\<close>

definition unix_signal :: "unit prog" where
  "unix_signal = calls [(Sigaction ''SIGINT'', Nonzero), (Sigaction ''SIGALRM'', Nonzero), (Ignore_sigpipe, Unchecked)]"

text \<open>Nothing calls \<open>unix_set_time\<close>; its timer would end the program by \<open>unix_sig_time\<close>.\<close>

definition unix_set_time :: "int \<Rightarrow> unit prog" where
  "unix_set_time seconds = calls [(Alarm seconds, Unchecked)]"

definition unix_fork :: "OPTS \<Rightarrow> unit prog" where
  "unix_fork c = (if o_mode c = CONF_FOREGROUND then ret ()
     else bindp (do_call Fork) (\<lambda>pid. if pid < 0 then exit_with 1 else if pid \<noteq> 0 then exit_with 0
       else calls [(Setsid, Unchecked), (Umask, Unchecked)]))"

definition UDP_MAX_EVENTS :: int where "UDP_MAX_EVENTS = 32"

definition unix_limits :: "OPTS \<Rightarrow> unit prog" where
  "unix_limits c p = (let guess = 2 * UDP_MAX_EVENTS * o_cores c + 50; limit = (if guess < 4096 then 4096 else guess)
     in (if pr_uid p \<noteq> 0 then ret () else calls [(Setrlimit limit, Minus_one)]) p)"

definition unix_write_pidfile :: "OPTS \<Rightarrow> unit prog" where
  "unix_write_pidfile c = (case o_pid_file c of None \<Rightarrow> ret ()
     | Some f \<Rightarrow> calls [(Open f, Negative), (Write_pid, Negative), (Close ''pid file'', Negative)])"

definition unix_dropuid0 :: "OPTS \<Rightarrow> unit prog" where
  "unix_dropuid0 c p = (if pr_uid p \<noteq> 0 then ret () p
     else case pr_passwd p (o_user c) of None \<Rightarrow> exit_with 1 p
     | Some (pw_uid, pw_gid) \<Rightarrow> calls [(Setenv_home, Nonzero), (Setgid pw_gid, Nonzero), (Setuid pw_uid, Nonzero),
         (Setuid 0, Other_than_minus_one), (Setgid 0, Other_than_minus_one)] p)"

section \<open>udp.c\<close>

text \<open>What \<open>udp_multicast\<close> asks of the system; its effect on the daemon is \<open>udp_multicast\<close> of \<open>P2p\<close>.\<close>

definition multicast_calls :: "OPTS \<Rightarrow> (syscall \<times> test) list" where
  "multicast_calls c = (Getaddrinfo (lit ''ff0e::1'') (o_bootstrap_port c), Nonzero) #
     (case o_interface c of None \<Rightarrow> [] | Some i \<Rightarrow> [(If_nametoindex i, Zero)]) @ [(Join_multicast, Unchecked)]"

definition udp_nonblocking :: "(syscall \<times> test) list" where
  "udp_nonblocking = [(Fcntl_get, Negative), (Fcntl_set, Negative)]"

definition udp_event :: "(syscall \<times> test) list" where
  "udp_event = [(Epoll_create, Minus_one), (Epoll_add, Minus_one)]"

definition udp_pool :: "OPTS \<Rightarrow> unit prog" where
  "udp_pool c = calls (map (\<lambda>i. (Worker i, Nonzero)) [0..<nat (o_cores c)])"

definition device :: "bytes option \<Rightarrow> (syscall \<times> test) list" where
  "device ifce = (case ifce of None \<Rightarrow> [] | Some i \<Rightarrow> [(Bind_device i, Nonzero)])"

definition udp_start :: "OPTS \<Rightarrow> unit prog" where
  "udp_start c = bindp (calls ((Socket, Negative) # multicast_calls c @
       [(V6only, Minus_one), (Bind (lit ''::'') (o_port c), Nonzero)] @ device (o_interface c) @
       udp_nonblocking @ udp_event)) (\<lambda>_. bindp (unix_dropuid0 c) (\<lambda>_. udp_pool c))"

definition udp_stop :: "OPTS \<Rightarrow> unit prog" where
  "udp_stop c = calls (map (\<lambda>i. (Join i, Nonzero)) [0..<nat (o_cores c)] @
     [(Close ''socket'', Nonzero), (Close ''epoll'', Nonzero)])"

section \<open>The front ends\<close>

text \<open>Each creates its thread, or ends the process with \<open>log_crit\<close>.\<close>

definition dns_start :: "unit prog" where
  "dns_start = calls [(Interface ''dns'', Nonzero)]"

definition web_start :: "unit prog" where
  "web_start = calls [(Interface ''web'', Nonzero)]"

definition nss_start :: "unit prog" where
  "nss_start = calls [(Interface ''nss'', Nonzero)]"

definition cmd_remote_start :: "unit prog" where
  "cmd_remote_start = calls [(Interface ''cmd'', Nonzero)]"

lemmas start_defs = dns_start_def web_start_def nss_start_def cmd_remote_start_def

text \<open>The calls the threads make in a row before their loops. The DNS server does not look at the result of setting
  the timeout, the web server not at that of \<open>SO_REUSEADDR\<close> and \<open>listen\<close>.\<close>

definition dns_setup :: "OPTS \<Rightarrow> (syscall \<times> test) list" where
  "dns_setup c = [(Getaddrinfo (o_dns_addr c) (o_dns_port c), Nonzero), (Socket, Negative)] @ device (o_dns_ifce c) @
     [(V6only, Negative), (Timeout_1s, Unchecked), (Bind (o_dns_addr c) (o_dns_port c), Negative)]"

definition web_setup :: "OPTS \<Rightarrow> (syscall \<times> test) list" where
  "web_setup c = [(Getaddrinfo (o_web_addr c) (o_web_port c), Nonzero), (Socket, Negative)] @ device (o_web_ifce c) @
     [(V6only, Negative), (Reuseaddr, Unchecked), (Timeout_1s, Negative),
      (Bind (o_web_addr c) (o_web_port c), Negative), (Listen, Unchecked)]"

definition MASALA_NSS_PORT :: bytes where "MASALA_NSS_PORT = lit ''5555''"

definition nss_setup :: "(syscall \<times> test) list" where
  "nss_setup = [(Getaddrinfo (lit ''::1'') [], Nonzero), (Socket, Negative), (Timeout_1s, Negative),
     (Bind (lit ''::1'') MASALA_NSS_PORT, Negative)]"

definition CONF_CMD_PORT :: bytes where "CONF_CMD_PORT = lit ''4374''"

definition cmd_setup :: "(syscall \<times> test) list" where
  "cmd_setup = [(Getaddrinfo (lit ''::1'') CONF_CMD_PORT, Nonzero), (Socket, Negative), (Timeout_1s, Negative),
     (Bind (lit ''::1'') CONF_CMD_PORT, Negative)]"

section \<open>main.c\<close>

definition of_res :: "'a option res \<Rightarrow> 'a prog" where
  "of_res r = (case r of Inl _ \<Rightarrow> exit_with 1 | Inr None \<Rightarrow> exit_with 0 | Inr (Some x) \<Rightarrow> ret x)"

text \<open>\<open>main\<close>, up to the release of its objects; the console is \<open>cmd_console_loop\<close>.\<close>

definition masala_main :: "bytes \<Rightarrow> int \<Rightarrow> bytes list \<Rightarrow> unit prog" where
  "masala_main urandom cpus argv = bindp (of_res (opts_load argv (conf_init urandom cpus))) (\<lambda>c.
     bindp unix_signal (\<lambda>_. bindp (unix_fork c) (\<lambda>_.
     bindp (of_res (bindr (conf_check c) (\<lambda>_. Inr (Some ())))) (\<lambda>_.
     bindp (unix_limits c) (\<lambda>_. bindp (unix_write_pidfile c) (\<lambda>_. bindp (udp_start c) (\<lambda>_.
     bindp dns_start (\<lambda>_. bindp web_start (\<lambda>_. bindp nss_start (\<lambda>_.
     bindp cmd_remote_start (\<lambda>_.
     bindp (if o_mode c = CONF_FOREGROUND then calls [(Console, Unchecked)] else ret ()) (\<lambda>_. udp_stop c))))))))))))"

section \<open>Before and after the change of user\<close>

lemma bindp_simps [simp]:
  "bindp (ret x) g = g x" "bindp (exit_with code) g = exit_with code" "bindp (bindp f g) h = bindp f (\<lambda>x. bindp (g x) h)"
  by (simp_all add: bindp_def ret_def exit_with_def fun_eq_iff split: prod.splits sum.splits)

fun is_thread :: "syscall \<Rightarrow> bool" where
  "is_thread (Worker i) \<longleftrightarrow> True" | "is_thread (Interface s) \<longleftrightarrow> True" | "is_thread _ \<longleftrightarrow> False"

fun is_ids :: "syscall \<Rightarrow> bool" where
  "is_ids (Setuid u) \<longleftrightarrow> True" | "is_ids (Setgid g) \<longleftrightarrow> True" | "is_ids _ \<longleftrightarrow> False"

text \<open>\<open>within ok f\<close>: \<open>f\<close> makes calls from \<open>ok\<close> only, and none that changes user or group.\<close>

definition within :: "(syscall \<Rightarrow> bool) \<Rightarrow> 'a prog \<Rightarrow> bool" where
  "within ok f \<longleftrightarrow> (\<forall>p. \<exists>cs. snd (f p) = p\<lparr>pr_done := pr_done p @ cs\<rparr> \<and> (\<forall>c \<in> set cs. ok c \<and> \<not> is_ids c))"

named_theorems within_intros

lemma within_ret [within_intros]: "within ok (ret x)"
  unfolding within_def ret_def by (intro allI exI[of _ "[]"]) simp

lemma within_exit [within_intros]: "within ok (exit_with code)"
  unfolding within_def exit_with_def by (intro allI exI[of _ "[]"]) simp

lemma within_bind [within_intros]:
  assumes "within ok f" "\<And>x. within ok (g x)"
  shows "within ok (bindp f g)"
  unfolding within_def
proof
  fix p
  obtain r p1 where f: "f p = (r, p1)" by fastforce
  then obtain cs where cs: "p1 = p\<lparr>pr_done := pr_done p @ cs\<rparr>" "\<forall>c \<in> set cs. ok c \<and> \<not> is_ids c"
    using assms(1) unfolding within_def by (metis snd_conv)
  show "\<exists>cs. snd (bindp f g p) = p\<lparr>pr_done := pr_done p @ cs\<rparr> \<and> (\<forall>c \<in> set cs. ok c \<and> \<not> is_ids c)"
  proof (cases r)
    case (Inl code)
    with f cs show ?thesis by (auto simp: bindp_def)
  next
    case (Inr x)
    obtain cs' where "snd (g x p1) = p1\<lparr>pr_done := pr_done p1 @ cs'\<rparr>" "\<forall>c \<in> set cs'. ok c \<and> \<not> is_ids c"
      using assms(2) unfolding within_def by blast
    with f cs Inr show ?thesis by (intro exI[of _ "cs @ cs'"]) (auto simp: bindp_def)
  qed
qed

lemma within_call:
  assumes "ok c" "\<not> is_ids c"
  shows "within ok (do_call c)"
  unfolding within_def using assms by (intro allI exI[of _ "[c]"]) (cases c; simp add: do_call_def)

lemma within_calls [within_intros]: "\<forall>(c, t) \<in> set cs. ok c \<and> \<not> is_ids c \<Longrightarrow> within ok (calls cs)"
  by (induction cs) (auto intro!: within_intros within_call)

lemma within_at: "(\<And>p. within ok (f p)) \<Longrightarrow> within ok (\<lambda>p. f p p)"
  unfolding within_def by blast

lemma within_of_res [within_intros]: "within ok (of_res r)"
  by (auto simp: of_res_def intro!: within_intros split: sum.split option.split)

lemma within_limits: "within (\<lambda>c. \<not> is_thread c) (unix_limits c)"
  unfolding unix_limits_def[abs_def] Let_def
  by (rule within_at) (auto intro!: within_intros within_call)

text \<open>What \<open>main\<close> does before \<open>unix_dropuid0\<close> creates no thread; what it does after it does not
  change the user again.\<close>

lemma before_drop:
  "within (\<lambda>c. \<not> is_thread c) (of_res (opts_load argv (conf_init urandom cpus)))" "within (\<lambda>c. \<not> is_thread c) unix_signal"
  "within (\<lambda>c. \<not> is_thread c) (unix_fork c)" "within (\<lambda>c. \<not> is_thread c) (unix_write_pidfile c)"
  "within (\<lambda>c. \<not> is_thread c) (calls ((Socket, Negative) # multicast_calls c @
       [(V6only, Minus_one), (Bind (lit ''::'') (o_port c), Nonzero)] @ device (o_interface c) @
       udp_nonblocking @ udp_event))"
  by (auto simp: unix_signal_def unix_fork_def unix_write_pidfile_def multicast_calls_def device_def
      udp_nonblocking_def udp_event_def intro!: within_intros within_call split: option.splits)

lemma after_drop:
  "within (\<lambda>_. True) (udp_pool c)" "within (\<lambda>_. True) dns_start" "within (\<lambda>_. True) web_start"
  "within (\<lambda>_. True) nss_start" "within (\<lambda>_. True) cmd_remote_start"
  "within (\<lambda>_. True) (if o_mode c = CONF_FOREGROUND then calls [(Console, Unchecked)] else ret ())" "within (\<lambda>_. True) (udp_stop c)"
  by (auto simp: udp_pool_def start_defs udp_stop_def intro!: within_intros within_call)

lemma calls_done: "calls cs p = (Inr x, p') \<Longrightarrow> \<forall>(c, t) \<in> set cs. \<not> is_ids c \<Longrightarrow> pr_done p' = pr_done p @ map fst cs"
proof (induction cs arbitrary: p)
  case (Cons ct cs)
  obtain c t where ct: "ct = (c, t)" by fastforce
  have "do_call c p = (Inr (pr_os p (pr_done p) c), p\<lparr>pr_done := pr_done p @ [c]\<rparr>)"
    using Cons.prems(2) ct by (cases c) (simp_all add: do_call_def)
  then show ?case using Cons ct by (auto simp: bindp_def exit_with_def split: if_splits)
qed (simp add: ret_def)

definition prelude :: "bytes \<Rightarrow> int \<Rightarrow> bytes list \<Rightarrow> OPTS prog" where
  "prelude urandom cpus argv = bindp (of_res (opts_load argv (conf_init urandom cpus))) (\<lambda>c.
     bindp unix_signal (\<lambda>_. bindp (unix_fork c) (\<lambda>_.
     bindp (of_res (bindr (conf_check c) (\<lambda>_. Inr (Some ())))) (\<lambda>_.
     bindp (unix_limits c) (\<lambda>_. bindp (unix_write_pidfile c) (\<lambda>_.
     bindp (calls ((Socket, Negative) # multicast_calls c @
       [(V6only, Minus_one), (Bind (lit ''::'') (o_port c), Nonzero)] @ device (o_interface c) @
       udp_nonblocking @ udp_event)) (\<lambda>_. ret c)))))))"

definition servers :: "OPTS \<Rightarrow> unit prog" where
  "servers c = bindp (udp_pool c) (\<lambda>_. bindp dns_start (\<lambda>_. bindp web_start (\<lambda>_.
     bindp nss_start (\<lambda>_. bindp cmd_remote_start (\<lambda>_.
     bindp (if o_mode c = CONF_FOREGROUND then calls [(Console, Unchecked)] else ret ()) (\<lambda>_. udp_stop c))))))"

lemma masala_main_parts: "masala_main urandom cpus argv
    = bindp (prelude urandom cpus argv) (\<lambda>c. bindp (unix_dropuid0 c) (\<lambda>_. servers c))"
  by (simp add: masala_main_def prelude_def servers_def udp_start_def)

lemma prelude_within: "within (\<lambda>c. \<not> is_thread c) (prelude urandom cpus argv)"
  unfolding prelude_def by (intro within_intros before_drop within_limits)

lemma servers_within: "within (\<lambda>_. True) (servers c)"
  unfolding servers_def by (intro within_intros after_drop)

lemma bindp_Inr: "bindp f g p = (Inr y, p') \<longleftrightarrow> (\<exists>x p1. f p = (Inr x, p1) \<and> g x p1 = (Inr y, p'))"
  by (auto simp: bindp_def split: prod.splits sum.splits)

lemma prelude_done:
  assumes "prelude urandom cpus argv p = (Inr c, p')"
  shows "opts_load argv (conf_init urandom cpus) = Inr (Some c) \<and> Bind (lit ''::'') (o_port c) \<in> set (pr_done p')"
proof -
  let ?cs = "\<lambda>c. (Socket, Negative) # multicast_calls c @
       [(V6only, Minus_one), (Bind (lit ''::'') (o_port c), Nonzero)] @ device (o_interface c) @ udp_nonblocking @ udp_event"
  from assms obtain p1 p2 x where "of_res (opts_load argv (conf_init urandom cpus)) p = (Inr c, p1)" "calls (?cs c) p2 = (Inr x, p')"
    unfolding prelude_def bindp_Inr by (auto simp: ret_def)
  moreover have "\<forall>(c, t) \<in> set (?cs c). \<not> is_ids c"
    by (auto simp: multicast_calls_def device_def udp_nonblocking_def udp_event_def split: option.splits)
  ultimately show ?thesis using calls_done[of "?cs c" p2 x p']
    by (auto simp: of_res_def exit_with_def ret_def split: sum.splits option.splits)
qed

text \<open>The user in \<open>p\<close> for a process started as \<open>p0\<close> that made the calls \<open>before\<close> up to the end of
  \<open>unix_dropuid0\<close>: the same, or that of the configured account, with root refused afterwards.\<close>

definition user_dropped :: "OPTS \<Rightarrow> PROC \<Rightarrow> syscall list \<Rightarrow> PROC \<Rightarrow> bool" where
  "user_dropped c p0 before p \<longleftrightarrow> (if pr_uid p0 \<noteq> 0 then pr_uid p = pr_uid p0
     else \<exists>uid gid h. pr_passwd p0 (o_user c) = Some (uid, gid) \<and> pr_uid p = uid \<and> pr_gid p = gid \<and>
       before = h @ [Setenv_home, Setgid gid, Setuid uid, Setuid 0, Setgid 0] \<and>
       pr_os p0 (h @ [Setenv_home, Setgid gid, Setuid uid]) (Setuid 0) = - 1 \<and>
       pr_os p0 (h @ [Setenv_home, Setgid gid, Setuid uid, Setuid 0]) (Setgid 0) = - 1)"

lemma user_dropped_simps [simp]:
  "user_dropped c (p0\<lparr>pr_done := x\<rparr>) before p = user_dropped c p0 before p"
  "user_dropped c p0 before (p\<lparr>pr_done := x\<rparr>) = user_dropped c p0 before p"
  by (simp_all add: user_dropped_def)

lemma dropuid0_calls:
  assumes "unix_dropuid0 c p = (r, p')"
  shows "\<exists>cs. pr_done p' = pr_done p @ cs \<and> (\<forall>x \<in> set cs. \<not> is_thread x) \<and>
    (r = Inr () \<longrightarrow> user_dropped c p (pr_done p') p')"
  using assms
  by (auto simp: user_dropped_def unix_dropuid0_def bindp_def do_call_def ret_def exit_with_def Let_def
      split: if_splits option.splits)

text \<open>C22: No thread runs as root: \<open>main\<close> creates its workers and front ends only after its last change
  of user and group, and after the socket of the daemon is bound. If it was started by root, it then
  has the user and the group of the configured account, and the system has refused to make it root
  again; in every other case it has ended before it creates a thread.\<close>
theorem main_drops_privileges:
  assumes "masala_main urandom cpus argv p0 = (r, p)" "pr_done p0 = []"
  shows "\<exists>before after. pr_done p = before @ after \<and> (\<forall>c \<in> set before. \<not> is_thread c) \<and> (\<forall>c \<in> set after. \<not> is_ids c) \<and>
    (after \<noteq> [] \<longrightarrow> (\<exists>c. opts_load argv (conf_init urandom cpus) = Inr (Some c) \<and>
      Bind (lit ''::'') (o_port c) \<in> set before \<and> user_dropped c p0 before p))"
proof -
  let ?A = "prelude urandom cpus argv"
  obtain ra p1 where A: "?A p0 = (ra, p1)" by fastforce
  obtain cs where cs: "p1 = p0\<lparr>pr_done := cs\<rparr>" "\<forall>c \<in> set cs. \<not> is_thread c"
    using prelude_within[of urandom cpus argv] A assms(2) unfolding within_def by (metis append_Nil snd_conv)
  show ?thesis
  proof (cases ra)
    case (Inl code)
    then have "p = p1" using assms(1) A by (simp add: masala_main_parts bindp_def)
    then show ?thesis using cs by (intro exI[of _ cs] exI[of _ "[]"]) simp
  next
    case (Inr c)
    obtain rd p2 where D: "unix_dropuid0 c p1 = (rd, p2)" by fastforce
    obtain ds where ds: "pr_done p2 = cs @ ds" "\<forall>x \<in> set ds. \<not> is_thread x"
      "rd = Inr () \<Longrightarrow> user_dropped c p0 (cs @ ds) p2"
      using dropuid0_calls[OF D] cs(1) by auto
    show ?thesis
    proof (cases rd)
      case (Inl code)
      then have "p = p2" using assms(1) A Inr D by (simp add: masala_main_parts bindp_def)
      then show ?thesis using cs(2) ds(1,2) by (intro exI[of _ "cs @ ds"] exI[of _ "[]"]) auto
    next
      case dropped: (Inr u)
      then have "servers c p2 = (r, p)" using assms(1) A Inr D by (simp add: masala_main_parts bindp_def)
      then obtain es where es: "p = p2\<lparr>pr_done := pr_done p2 @ es\<rparr>" "\<forall>x \<in> set es. \<not> is_ids x"
        using servers_within[of c] unfolding within_def by (metis snd_conv)
      moreover have "opts_load argv (conf_init urandom cpus) = Inr (Some c)" "Bind (lit ''::'') (o_port c) \<in> set (cs @ ds)"
        using prelude_done[OF A[unfolded Inr]] cs(1) by auto
      ultimately show ?thesis using cs(2) ds dropped
        by (intro exI[of _ "cs @ ds"] exI[of _ es]) auto
    qed
  qed
qed

text \<open>A machine on which everything succeeds and root, once given up, cannot be had again.\<close>

definition root0 :: PROC where
  "root0 = \<lparr>pr_done = [], pr_uid = 0, pr_gid = 0,
     pr_os = (\<lambda>_ c. case c of Setuid u \<Rightarrow> if u = 0 then - 1 else 0 | Setgid g \<Rightarrow> if g = 0 then - 1 else 0 | _ \<Rightarrow> 0),
     pr_passwd = (\<lambda>_. Some (1000, 1000))\<rparr>"

lemma port_8337: "str_isSafePort (lit ''8337'') = 8337"
  by (subst str_isSafePort_value) (simp_all add: lit_def schar_def digits_val_def)

lemma root0_starts: "Worker 0 \<in> set (pr_done (snd (masala_main (replicate 20 1) 2 [lit ''masala''] root0)))"
  by (simp add: masala_main_def of_res_def opts_load_def conf_check_def conf_init_def port_8337 CONF_CORES_def
      unix_signal_def unix_fork_def unix_limits_def unix_write_pidfile_def udp_start_def multicast_calls_def device_def
      udp_nonblocking_def udp_event_def unix_dropuid0_def udp_pool_def start_defs udp_stop_def
      root0_def bindp_def do_call_def ret_def exit_with_def Let_def UDP_MAX_EVENTS_def upt_rec numeral_2_eq_2)

theorem main_drops_privileges_witness:
  "\<exists>before after. pr_done (snd (masala_main (replicate 20 1) 2 [lit ''masala''] root0)) = before @ after \<and>
    Worker 0 \<in> set after \<and> filter is_thread before = [] \<and>
    (\<exists>c. opts_load [lit ''masala''] (conf_init (replicate 20 1) 2) = Inr (Some c) \<and>
      Bind (lit ''::'') (o_port c) \<in> set before \<and>
      user_dropped c root0 before (snd (masala_main (replicate 20 1) 2 [lit ''masala''] root0)))"
proof -
  let ?run = "masala_main (replicate 20 1) 2 [lit ''masala''] root0"
  have "?run = (fst ?run, snd ?run)" "pr_done root0 = []" by (simp_all add: root0_def)
  from main_drops_privileges[OF this] obtain before after where *: "pr_done (snd ?run) = before @ after"
    "\<forall>c \<in> set before. \<not> is_thread c" "after \<noteq> [] \<longrightarrow> (\<exists>c. opts_load [lit ''masala''] (conf_init (replicate 20 1) 2) = Inr (Some c) \<and>
      Bind (lit ''::'') (o_port c) \<in> set before \<and> user_dropped c root0 before (snd ?run))" by blast
  moreover have "Worker 0 \<in> set after" using root0_starts *(1,2) by auto
  ultimately show ?thesis by (intro exI[of _ before] exI[of _ after]) (auto simp: filter_empty_conv)
qed

section \<open>The sockets of the front ends\<close>

text \<open>Calls in a row either all pass their tests, or the process ends with code 1 at the first that fails.\<close>

lemma calls_cases:
  "\<forall>(c, t) \<in> set cs. \<not> is_ids c \<Longrightarrow> calls cs p = (r, p') \<Longrightarrow>
    (r = Inr () \<and> pr_done p' = pr_done p @ map fst cs \<and>
      (\<forall>k < length cs. \<not> failed (snd (cs ! k)) (pr_os p (pr_done p @ map fst (take k cs)) (fst (cs ! k))))) \<or>
    (r = Inl 1 \<and> (\<exists>k < length cs. pr_done p' = pr_done p @ map fst (take (Suc k) cs) \<and>
      failed (snd (cs ! k)) (pr_os p (pr_done p @ map fst (take k cs)) (fst (cs ! k)))))"
proof (induction cs arbitrary: p)
  case (Cons ct cs)
  obtain c t where ct: "ct = (c, t)" by fastforce
  let ?r = "pr_os p (pr_done p) c" and ?p = "p\<lparr>pr_done := pr_done p @ [c]\<rparr>"
  have call: "do_call c p = (Inr ?r, ?p)" using Cons.prems(1) ct by (cases c) (simp_all add: do_call_def)
  show ?case
  proof (cases "failed t ?r")
    case True
    then have "r = Inl 1" "p' = ?p" using Cons.prems(2) call ct by (simp_all add: bindp_def exit_with_def)
    then show ?thesis using True ct by (intro disjI2 conjI exI[of _ 0]) simp_all
  next
    case False
    then have "calls cs ?p = (r, p')" using Cons.prems(2) call ct by (simp add: bindp_def)
    with Cons.IH[of ?p] Cons.prems(1) have "(r = Inr () \<and> pr_done p' = pr_done ?p @ map fst cs \<and>
      (\<forall>k < length cs. \<not> failed (snd (cs ! k)) (pr_os p (pr_done ?p @ map fst (take k cs)) (fst (cs ! k))))) \<or>
    (r = Inl 1 \<and> (\<exists>k < length cs. pr_done p' = pr_done ?p @ map fst (take (Suc k) cs) \<and>
      failed (snd (cs ! k)) (pr_os p (pr_done ?p @ map fst (take k cs)) (fst (cs ! k)))))" by simp
    then show ?thesis
    proof
      assume a: "r = Inr () \<and> pr_done p' = pr_done ?p @ map fst cs \<and>
        (\<forall>k < length cs. \<not> failed (snd (cs ! k)) (pr_os p (pr_done ?p @ map fst (take k cs)) (fst (cs ! k))))"
      have "\<not> failed (snd ((ct # cs) ! k)) (pr_os p (pr_done p @ map fst (take k (ct # cs))) (fst ((ct # cs) ! k)))"
        if "k < length (ct # cs)" for k
        using a that False ct by (cases k) simp_all
      with a ct show ?thesis by simp
    next
      assume "r = Inl 1 \<and> (\<exists>k < length cs. pr_done p' = pr_done ?p @ map fst (take (Suc k) cs) \<and>
        failed (snd (cs ! k)) (pr_os p (pr_done ?p @ map fst (take k cs)) (fst (cs ! k))))"
      then obtain k where "r = Inl 1" "k < length cs" "pr_done p' = pr_done ?p @ map fst (take (Suc k) cs)"
        "failed (snd (cs ! k)) (pr_os p (pr_done ?p @ map fst (take k cs)) (fst (cs ! k)))" by blast
      then show ?thesis using ct by (intro disjI2 conjI exI[of _ "Suc k"]) simp_all
    qed
  qed
qed (simp add: ret_def)

text \<open>A front end that gets through its set-up has bound its own address and port, with a result that
  is not negative; otherwise it has ended the process with code 1.\<close>

lemma setup_binds:
  assumes "(cs, addr, port) \<in> {(dns_setup c, o_dns_addr c, o_dns_port c), (web_setup c, o_web_addr c, o_web_port c),
      (nss_setup, lit ''::1'', MASALA_NSS_PORT), (cmd_setup, lit ''::1'', CONF_CMD_PORT)}"
    and "calls cs p = (r, p')"
  shows "r = Inl 1 \<or> r = Inr () \<and> Bind addr port \<in> set (pr_done p')"
proof -
  have ok: "\<forall>(c, t) \<in> set cs. \<not> is_ids c" and bind: "Bind addr port \<in> set (map fst cs)"
    using assms(1) by (auto simp: dns_setup_def web_setup_def nss_setup_def cmd_setup_def device_def split: option.splits)
  from calls_cases[OF ok assms(2)] show ?thesis
    by (elim disjE conjE) (simp_all add: bind[unfolded set_map])
qed

end
