(* ===== verification/BenSort.thy ===== *)
theory BenSort
  imports P2p Linklist "HOL-Library.List_Lexorder"
begin

text \<open>
  \<open>ben_sort\<close> and \<open>ben_str_compare\<close> of \<open>src/src/ben.c\<close>. The list of a dictionary is here the pointer
  list of \<open>Linklist\<close> with tuples as payload, because the routine depends on how \<open>list_swap\<close> and
  \<open>list_prev\<close> treat the links. No other function calls it.
\<close>

section \<open>Comparison\<close>

text \<open>A string object has one byte more than its length, which is 0.\<close>

definition str_byte :: "bytes \<Rightarrow> nat \<Rightarrow> u8 res" where
  "str_byte s i = (if i < length s then Inr (s ! i) else if i = length s then Inr 0 else Inl OutOfBounds)"

text \<open>The loop from \<open>i\<close> for the remaining \<open>n\<close> indices, and the comparison of the lengths after it.\<close>

fun compare_loop :: "bytes \<Rightarrow> bytes \<Rightarrow> nat \<Rightarrow> nat \<Rightarrow> int res" where
  "compare_loop a b i 0 = Inr (if length a > length b then 1 else if length a < length b then - 1 else 0)"
| "compare_loop a b i (Suc n) = bindr (str_byte a i) (\<lambda>x. bindr (str_byte b i) (\<lambda>y.
     if x > y then Inr 1 else if x < y then Inr (- 1) else compare_loop a b (Suc i) n))"

definition ben_str_compare :: "ben option \<Rightarrow> ben option \<Rightarrow> int res" where
  "ben_str_compare key1 key2 = (if \<not> ben_is_str key1 then Inr (- 1)
     else if \<not> ben_is_str key2 then Inr 1
     else bindr (str_of key1) (\<lambda>a. bindr (str_of key2) (\<lambda>b.
       compare_loop a b 0 (if length a > length b then length a else length b))))"

section \<open>Sorting\<close>

fun t_key :: "obj_tuple \<Rightarrow> ben" where "t_key (Tuple k v) = k"

text \<open>The loop, from \<open>item\<close> with \<open>switchcounter\<close>; each round reads \<open>next\<close>, starts again at the end of
  the list, and compares.\<close>

fun sort_loop :: "nat \<Rightarrow> obj_tuple heap \<Rightarrow> LIST \<Rightarrow> addr option \<Rightarrow> int \<Rightarrow> (obj_tuple heap \<times> LIST) res" where
  "sort_loop 0 h L item switchcounter = Inl OutOfFuel"
| "sort_loop (Suc fuel) h L item switchcounter = bindr (list_next h item) (\<lambda>next.
     if next = None \<and> switchcounter = 0 then Inr (h, L)
     else bindr (if next = None then bindr (list_next h (l_start L)) (\<lambda>n. Inr (l_start L, n, 0))
                 else Inr (item, next, switchcounter)) (\<lambda>(item, next, switchcounter).
       bindr (deref h item) (\<lambda>this_item. bindr (deref h next) (\<lambda>next_item.
       bindr (ben_str_compare (Some (t_key (i_val this_item))) (Some (t_key (i_val next_item)))) (\<lambda>result.
       if result > 0 then bindr (list_swap h L item next) (\<lambda>(h', L').
         bindr (if next \<noteq> None then list_prev h' next else Inr item) (\<lambda>item'.
           sort_loop fuel h' L' item' (switchcounter + 1)))
       else sort_loop fuel h L next switchcounter)))))"

definition ben_sort :: "nat \<Rightarrow> obj_tuple heap \<Rightarrow> LIST \<Rightarrow> (obj_tuple heap \<times> LIST) res" where
  "ben_sort fuel h L = (if sint (l_counter L) < 2 then Inr (h, L) else sort_loop fuel h L (l_start L) 0)"

section \<open>The comparison is the order of strings without 0 bytes\<close>

lemma compare_loop_shift:
  "compare_loop (x # a) (x # b) (Suc i) n = compare_loop a b i n"
proof (induction n arbitrary: i)
  case (Suc n)
  have "str_byte (x # c) (Suc i) = str_byte c i" for c by (simp add: str_byte_def)
  with Suc show ?case by (simp cong: if_cong)
qed simp

lemma compare_loop_order:
  "0 \<notin> set a \<Longrightarrow> 0 \<notin> set b \<Longrightarrow>
    compare_loop a b 0 (max (length a) (length b)) = Inr (if a = b then 0 else if a < b then - 1 else 1)"
proof (induction a arbitrary: b)
  case Nil
  then show ?case by (cases b) (auto simp: str_byte_def word_gt_0)
next
  case (Cons x a)
  show ?case
  proof (cases b)
    case Nil
    then show ?thesis using Cons.prems by (auto simp: str_byte_def word_gt_0)
  next
    case (Cons y c)
    have "0 \<notin> set a" "0 \<notin> set c" using Cons.prems Cons by auto
    then have "compare_loop a c 0 (max (length a) (length c)) = Inr (if a = c then 0 else if a < c then - 1 else 1)"
      by (rule Cons.IH)
    then show ?thesis using Cons compare_loop_shift[of x a c 0] by (auto simp: str_byte_def)
  qed
qed

lemma ben_str_compare_order:
  assumes "0 \<notin> set a" "0 \<notin> set b"
  shows "ben_str_compare (Some (BStr (Some a))) (Some (BStr (Some b))) = Inr (if a = b then 0 else if a < b then - 1 else 1)"
proof -
  have "(if length a > length b then length a else length b) = max (length a) (length b)" by simp
  then show ?thesis using compare_loop_order[OF assms]
    by (simp only: ben_str_compare_def) (simp add: ben_is_str_def str_of_def)
qed

section \<open>What sorting does\<close>

text \<open>Dictionaries whose keys are strings without 0 bytes.\<close>

definition keyed :: "(addr \<times> obj_tuple) list \<Rightarrow> bytes list \<Rightarrow> bool" where
  "keyed xs ks \<longleftrightarrow> map (t_key \<circ> snd) xs = map (\<lambda>k. BStr (Some k)) ks \<and> (\<forall>k \<in> set ks. 0 \<notin> set k)"

lemma keyed_Cons: "keyed (x # xs) ks \<longleftrightarrow> (\<exists>k ks'. ks = k # ks' \<and> t_key (snd x) = BStr (Some k) \<and> 0 \<notin> set k \<and> keyed xs ks')"
  by (cases ks) (auto simp: keyed_def)

text \<open>From an item on, as long as the keys are in order, the loop moves on; at the end it stops, at the
  first inversion it swaps the two items and goes on from NULL.\<close>

declare sort_loop.simps(2) [simp del]

lemma sort_loop_step:
  assumes "h a = Some ia" "i_next ia = Some b" "h b = Some ib"
  shows "sort_loop (Suc n) h L (Some a) sw = bindr (ben_str_compare (Some (t_key (i_val ia))) (Some (t_key (i_val ib)))) (\<lambda>result.
    if result > 0 then bindr (list_swap h L (Some a) (Some b)) (\<lambda>(h', L'). sort_loop n h' L' None (sw + 1))
    else sort_loop n h L (Some b) sw)"
  using assms by (simp add: sort_loop.simps(2) list_next_def list_prev_def deref_def cong: if_cong)

lemma sort_loop_null: "sort_loop (Suc n) h L None sw = Inl NullDeref"
  by (simp add: sort_loop.simps(2) list_next_def deref_def)

lemma sort_loop_from:
  assumes "seg h p (Some a) ((a, t) # xs) q None" "keyed ((a, t) # xs) ks" "Suc (length xs) < fuel" "distinct (a # map fst xs)"
  shows "sort_loop fuel h L (Some a) 0 = (if sorted ks then Inr (h, L) else Inl NullDeref)"
  using assms
proof (induction xs arbitrary: fuel p a t ks)
  case Nil
  then obtain n where "fuel = Suc n" by (cases fuel) auto
  with Nil show ?case by (auto simp: sort_loop.simps(2) list_next_def deref_def keyed_Cons) (auto simp: keyed_def)
next
  case (Cons y xs)
  obtain b u where y: "y = (b, u)" by fastforce
  obtain n where n: "fuel = Suc (Suc n)" "Suc (length xs) < Suc n" using Cons.prems(3) by (cases fuel; cases "fuel - 1") auto
  from Cons.prems(1) obtain ia where ia: "h a = Some ia" "i_val ia = t" "i_next ia = Some b" "seg h (Some a) (Some b) ((b, u) # xs) q None"
    by (auto simp: y)
  then obtain ib where ib: "h b = Some ib" "i_val ib = u" by auto
  from Cons.prems(2) obtain k l ks' where ks: "ks = k # l # ks'" "t_key t = BStr (Some k)" "t_key u = BStr (Some l)"
    "0 \<notin> set k" "0 \<notin> set l" "keyed ((b, u) # xs) (l # ks')"
    by (auto simp: y keyed_Cons)
  note compare = ben_str_compare_order[OF ks(4,5)]
  have ab: "a \<noteq> b" using Cons.prems(4) y by auto
  have step: "sort_loop fuel h L (Some a) 0 = (if k > l then Inl NullDeref else sort_loop (Suc n) h L (Some b) 0)"
  proof -
    obtain h' L' where "list_swap h L (Some a) (Some b) = Inr (h', L')"
      using ia ib ab by (simp add: list_swap_def deref_def set_prev_def set_next_def Let_def)
    then show ?thesis
      unfolding n(1) sort_loop_step[OF ia(1,3) ib(1)] ia(2) ib(2) ks(2,3) compare by (auto simp: sort_loop_null)
  qed
  have "sort_loop (Suc n) h L (Some b) 0 = (if sorted (l # ks') then Inr (h, L) else Inl NullDeref)"
    using Cons.IH[OF ia(4) ks(6) n(2)] Cons.prems(4) y by simp
  then show ?case using step ks(1) by (auto simp: not_less)
qed

text \<open>Sorting returns only dictionaries that are sorted already, unchanged: any other one ends in a NULL
  dereference at its first inversion.\<close>

lemma ben_sort_only_sorted:
  assumes "linked h L xs" "keyed xs ks" "length xs < fuel"
  shows "ben_sort fuel h L = (if sorted ks then Inr (h, L) else Inl NullDeref)"
proof (cases "length xs < 2")
  case True
  then have "sorted ks" using assms(2) by (cases ks; cases "tl ks") (auto simp: keyed_def dest: arg_cong[of _ _ length])
  then show ?thesis using True threaded_counter[OF linked_threaded[OF assms(1)]] by (simp add: ben_sort_def)
next
  case False
  then obtain a t ys where xs: "xs = (a, t) # ys" by (cases xs) auto
  have "l_start L = Some a" "seg h None (Some a) ((a, t) # ys) (l_stop L) None" "distinct (a # map fst ys)"
    using assms(1) by (auto simp: linked_def xs)
  from sort_loop_from[OF this(2) assms(2)[unfolded xs] _ this(3), of fuel L] this(1) assms(3) False
    threaded_counter[OF linked_threaded[OF assms(1)]]
  show ?thesis by (simp add: ben_sort_def xs)
qed

end
