(* ===== verification/BenFree.thy ===== *)
theory BenFree
  imports Ben Linklist
begin

text \<open>
  The release of bencode objects: \<open>ben_free\<close> and the functions it calls, of \<open>src/src/ben.c\<close>. \<open>Ben\<close> has the
  objects as values; here they are records in memory that point to each other, one map per type of record.
  A tree with addresses says where the records of an object are; the theorem is that \<open>ben_free\<close> gives
  back each of them, once, and touches nothing else.
\<close>

section \<open>Objects in memory\<close>

datatype bnode = N_str "addr option" | N_int u64 | N_list "addr option" | N_dict "addr option"

record BHEAP =
  bh_nodes :: "addr \<rightharpoonup> bnode"
  bh_lists :: "addr \<rightharpoonup> LIST"
  bh_items :: "addr option heap"
  bh_tuples :: "addr \<rightharpoonup> addr option \<times> addr option"
  bh_strs :: "addr \<rightharpoonup> addr option \<times> nat"
  bh_chars :: "addr \<rightharpoonup> bytes"

definition load :: "(addr \<rightharpoonup> 'a) \<Rightarrow> addr option \<Rightarrow> 'a res" where
  "load m p = (case p of None \<Rightarrow> Inl NullDeref | Some a \<Rightarrow> (case m a of None \<Rightarrow> Inl UseAfterFree | Some x \<Rightarrow> Inr x))"

text \<open>\<open>myfree\<close>: NULL is left alone, and what is free already must not be freed again.\<close>

definition release :: "(addr \<rightharpoonup> 'a) \<Rightarrow> addr option \<Rightarrow> (addr \<rightharpoonup> 'a) res" where
  "release m p = (case p of None \<Rightarrow> Inr m | Some a \<Rightarrow> if m a = None then Inl UseAfterFree else Inr (m(a := None)))"

definition free_node :: "addr option \<Rightarrow> BHEAP \<Rightarrow> BHEAP res" where
  "free_node p h = bindr (release (bh_nodes h) p) (\<lambda>m. Inr (h\<lparr>bh_nodes := m\<rparr>))"

definition free_tuple :: "addr option \<Rightarrow> BHEAP \<Rightarrow> BHEAP res" where
  "free_tuple p h = bindr (release (bh_tuples h) p) (\<lambda>m. Inr (h\<lparr>bh_tuples := m\<rparr>))"

text \<open>\<open>str_free\<close> and \<open>list_free\<close> on this memory.\<close>

definition free_str :: "addr option \<Rightarrow> BHEAP \<Rightarrow> BHEAP res" where
  "free_str str h = bindr (load (bh_strs h) str) (\<lambda>(s, _).
     bindr (if s \<noteq> None then release (bh_chars h) s else Inr (bh_chars h)) (\<lambda>chars.
     bindr (release (bh_strs h) str) (\<lambda>strs. Inr (h\<lparr>bh_chars := chars, bh_strs := strs\<rparr>))))"

definition free_list :: "nat \<Rightarrow> addr option \<Rightarrow> BHEAP \<Rightarrow> BHEAP res" where
  "free_list fuel p h = (if p = None then Inr h else bindr (load (bh_lists h) p) (\<lambda>L.
     bindr (list_free fuel (bh_items h) L) (\<lambda>items. bindr (release (bh_lists h) p) (\<lambda>lists.
       Inr (h\<lparr>bh_items := items, bh_lists := lists\<rparr>)))))"

text \<open>\<open>item->val = NULL\<close> and \<open>list_del\<close>.\<close>

definition clear_val :: "addr option \<Rightarrow> BHEAP \<Rightarrow> BHEAP res" where
  "clear_val item h = bindr (deref (bh_items h) item) (\<lambda>it.
     Inr (h\<lparr>bh_items := (bh_items h)(the item := Some (it\<lparr>i_val := None\<rparr>))\<rparr>))"

definition del_item :: "addr option \<Rightarrow> addr option \<Rightarrow> BHEAP \<Rightarrow> (addr option \<times> BHEAP) res" where
  "del_item p item h = bindr (load (bh_lists h) p) (\<lambda>L. bindr (list_del (bh_items h) L item) (\<lambda>(items, L', r).
     Inr (r, h\<lparr>bh_items := items, bh_lists := (bh_lists h)(the p := Some L')\<rparr>)))"

section \<open>The functions of ben.c\<close>

text \<open>The list of a dictionary or a list; both are the same member of the union.\<close>

definition v_d :: "bnode \<Rightarrow> addr option" where
  "v_d v = (case v of N_dict d \<Rightarrow> d | N_list l \<Rightarrow> l | _ \<Rightarrow> None)"

text \<open>The functions call each other; \<open>free_r\<close> is \<open>ben_free_r\<close> in those that come before it. \<open>items_loop\<close> is
  \<open>while( node->v.d->counter > 0 && item != NULL )\<close>. Fuel bounds the depth of the recursion and the rounds of
  each loop.\<close>

type_synonym free_fun = "addr option \<Rightarrow> BHEAP \<Rightarrow> BHEAP res"

definition ben_free :: "free_fun \<Rightarrow> free_fun" where
  "ben_free free_r node h = (if node = None then Inr h else bindr (free_r node h) (\<lambda>h. free_node node h))"

definition tuple_free :: "free_fun \<Rightarrow> free_fun" where
  "tuple_free free_r t h = bindr (load (bh_tuples h) t) (\<lambda>(key, _). bindr (ben_free free_r key h) (\<lambda>h.
     bindr (load (bh_tuples h) t) (\<lambda>(_, val). bindr (ben_free free_r val h) (\<lambda>h. free_tuple t h))))"

definition ben_free_item :: "free_fun \<Rightarrow> addr option \<Rightarrow> addr option \<Rightarrow> BHEAP \<Rightarrow> (addr option \<times> BHEAP) res" where
  "ben_free_item free_r node item h = (if node = None \<or> item = None then Inr (None, h)
     else bindr (load (bh_nodes h) node) (\<lambda>v. case v of
         N_dict d \<Rightarrow> if d = None then Inr (None, h) else bindr (deref (bh_items h) item) (\<lambda>it.
           bindr (tuple_free free_r (i_val it) h) (\<lambda>h. bindr (clear_val item h) (\<lambda>h. del_item d item h)))
       | N_list l \<Rightarrow> if l = None then Inr (None, h) else bindr (deref (bh_items h) item) (\<lambda>it.
           bindr (free_r (i_val it) h) (\<lambda>h. bindr (free_node (i_val it) h) (\<lambda>h.
             bindr (clear_val item h) (\<lambda>h. del_item l item h))))
       | _ \<Rightarrow> Inr (None, h)))"

primrec items_loop :: "free_fun \<Rightarrow> nat \<Rightarrow> addr option \<Rightarrow> addr option \<Rightarrow> BHEAP \<Rightarrow> BHEAP res" where
  "items_loop free_r 0 node item h = Inl OutOfFuel"
| "items_loop free_r (Suc n) node item h = bindr (load (bh_nodes h) node) (\<lambda>v. bindr (load (bh_lists h) (v_d v)) (\<lambda>L.
     if sint (l_counter L) > 0 \<and> item \<noteq> None
     then bindr (ben_free_item free_r node item h) (\<lambda>(item, h). items_loop free_r n node item h) else Inr h))"

primrec ben_free_r :: "nat \<Rightarrow> free_fun" where
  "ben_free_r 0 node h = Inl OutOfFuel"
| "ben_free_r (Suc n) node h = (if node = None then Inr h
     else bindr (load (bh_nodes h) node) (\<lambda>v. case v of
         N_dict d \<Rightarrow> if d \<noteq> None then bindr (load (bh_lists h) d) (\<lambda>L.
           bindr (items_loop (ben_free_r n) n node (l_start L) h) (\<lambda>h. free_list n d h)) else Inr h
       | N_list l \<Rightarrow> if l \<noteq> None then bindr (load (bh_lists h) l) (\<lambda>L.
           bindr (items_loop (ben_free_r n) n node (l_start L) h) (\<lambda>h. free_list n l h)) else Inr h
       | N_str s \<Rightarrow> if s \<noteq> None then free_str s h else Inr h
       | N_int _ \<Rightarrow> Inr h))"

section \<open>Where an object is\<close>

datatype btree = T_int addr u64 | T_str addr "(addr \<times> addr \<times> bytes) option" | T_list addr addr blist | T_dict addr addr bdict
  and blist = L_nil | L_cons addr btree blist
  and bdict = D_nil | D_cons addr addr btree btree bdict

datatype cell = C_node addr | C_list addr | C_item addr | C_tuple addr | C_str addr | C_chars addr

primrec root :: "btree \<Rightarrow> addr" where
  "root (T_int a _) = a" | "root (T_str a _) = a" | "root (T_list a _ _) = a" | "root (T_dict a _ _) = a"

text \<open>The records below the first one.\<close>

primrec rest :: "btree \<Rightarrow> cell list" and lcells :: "blist \<Rightarrow> cell list" and dcells :: "bdict \<Rightarrow> cell list" where
  "rest (T_int a _) = []"
| "rest (T_str a s) = (case s of None \<Rightarrow> [] | Some (p, c, _) \<Rightarrow> [C_str p, C_chars c])"
| "rest (T_list a l xs) = C_list l # lcells xs"
| "rest (T_dict a l xs) = C_list l # dcells xs"
| "lcells L_nil = []"
| "lcells (L_cons i t xs) = C_item i # C_node (root t) # rest t @ lcells xs"
| "dcells D_nil = []"
| "dcells (D_cons i u k v xs) = C_item i # C_tuple u # C_node (root k) # rest k @ C_node (root v) # rest v @ dcells xs"

definition cells :: "btree \<Rightarrow> cell list" where "cells t = C_node (root t) # rest t"

primrec lpairs :: "blist \<Rightarrow> (addr \<times> addr option) list" where
  "lpairs L_nil = []" | "lpairs (L_cons i t xs) = (i, Some (root t)) # lpairs xs"

primrec dpairs :: "bdict \<Rightarrow> (addr \<times> addr option) list" where
  "dpairs D_nil = []" | "dpairs (D_cons i u k v xs) = (i, Some u) # dpairs xs"

definition list_at :: "BHEAP \<Rightarrow> addr \<Rightarrow> (addr \<times> addr option) list \<Rightarrow> bool" where
  "list_at h l xs \<longleftrightarrow> (\<exists>L. bh_lists h l = Some L \<and> linked (bh_items h) L xs)"

text \<open>The memory holds the object at these addresses.\<close>

primrec ben_rep :: "BHEAP \<Rightarrow> btree \<Rightarrow> bool" and lrep :: "BHEAP \<Rightarrow> blist \<Rightarrow> bool" and drep :: "BHEAP \<Rightarrow> bdict \<Rightarrow> bool" where
  "ben_rep h (T_int a i) \<longleftrightarrow> bh_nodes h a = Some (N_int i)"
| "ben_rep h (T_str a s) \<longleftrightarrow> bh_nodes h a = Some (N_str (map_option fst s)) \<and>
     (case s of None \<Rightarrow> True | Some (p, c, b) \<Rightarrow> bh_strs h p = Some (Some c, length b) \<and> bh_chars h c = Some (b @ [0]))"
| "ben_rep h (T_list a l xs) \<longleftrightarrow> bh_nodes h a = Some (N_list (Some l)) \<and> list_at h l (lpairs xs) \<and> lrep h xs"
| "ben_rep h (T_dict a l xs) \<longleftrightarrow> bh_nodes h a = Some (N_dict (Some l)) \<and> list_at h l (dpairs xs) \<and> drep h xs"
| "lrep h L_nil \<longleftrightarrow> True"
| "lrep h (L_cons i t xs) \<longleftrightarrow> ben_rep h t \<and> lrep h xs"
| "drep h D_nil \<longleftrightarrow> True"
| "drep h (D_cons i u k v xs) \<longleftrightarrow> bh_tuples h u = Some (Some (root k), Some (root v)) \<and> ben_rep h k \<and> ben_rep h v \<and> drep h xs"

text \<open>The object as \<open>Ben\<close> has it.\<close>

primrec val_of :: "btree \<Rightarrow> ben" and lvals :: "blist \<Rightarrow> ben list" and dvals :: "bdict \<Rightarrow> obj_tuple list" where
  "val_of (T_int a i) = BInt i"
| "val_of (T_str a s) = BStr (map_option (\<lambda>(_, _, b). b) s)"
| "val_of (T_list a l xs) = BList (lvals xs)"
| "val_of (T_dict a l xs) = BDict (dvals xs)"
| "lvals L_nil = []"
| "lvals (L_cons i t xs) = val_of t # lvals xs"
| "dvals D_nil = []"
| "dvals (D_cons i u k v xs) = Tuple (val_of k) (val_of v) # dvals xs"

section \<open>Memory cell by cell\<close>

datatype content = V_node bnode | V_list LIST | V_item "addr option ITEM" | V_tuple "addr option \<times> addr option"
  | V_str "addr option \<times> nat" | V_chars bytes

fun cell_at :: "BHEAP \<Rightarrow> cell \<Rightarrow> content option" where
  "cell_at h (C_node a) = map_option V_node (bh_nodes h a)"
| "cell_at h (C_list a) = map_option V_list (bh_lists h a)"
| "cell_at h (C_item a) = map_option V_item (bh_items h a)"
| "cell_at h (C_tuple a) = map_option V_tuple (bh_tuples h a)"
| "cell_at h (C_str a) = map_option V_str (bh_strs h a)"
| "cell_at h (C_chars a) = map_option V_chars (bh_chars h a)"

lemma map_option_V [simp]:
  "map_option V_node x = map_option V_node y \<longleftrightarrow> x = y" "map_option V_list x1 = map_option V_list y1 \<longleftrightarrow> x1 = y1"
  "map_option V_item x2 = map_option V_item y2 \<longleftrightarrow> x2 = y2" "map_option V_tuple x3 = map_option V_tuple y3 \<longleftrightarrow> x3 = y3"
  "map_option V_str x4 = map_option V_str y4 \<longleftrightarrow> x4 = y4" "map_option V_chars x5 = map_option V_chars y5 \<longleftrightarrow> x5 = y5"
  by (auto simp: map_option_case split: option.splits)

lemma BHEAP_eqI: "(\<And>c. cell_at h c = cell_at h' c) \<Longrightarrow> h = h'"
proof -
  assume *: "\<And>c. cell_at h c = cell_at h' c"
  have "bh_nodes h a = bh_nodes h' a \<and> bh_lists h a = bh_lists h' a \<and> bh_items h a = bh_items h' a \<and>
      bh_tuples h a = bh_tuples h' a \<and> bh_strs h a = bh_strs h' a \<and> bh_chars h a = bh_chars h' a" for a
    using *[of "C_node a"] *[of "C_list a"] *[of "C_item a"] *[of "C_tuple a"] *[of "C_str a"] *[of "C_chars a"] by simp
  then show ?thesis by (intro BHEAP.equality) (auto simp: fun_eq_iff)
qed

lemma seg_cong: "\<forall>a \<in> fst ` set xs. h' a = h a \<Longrightarrow> seg h' p x xs q y = seg h p x xs q y"
  by (induction xs arbitrary: p x) auto

lemma linked_cong: "\<forall>a \<in> fst ` set xs. h' a = h a \<Longrightarrow> linked h' L xs = linked h L xs"
  using seg_cong[of xs h' h] by (simp add: linked_def)

lemma pairs_cells:
  fixes t :: btree
  shows "True" "i \<in> fst ` set (lpairs xs) \<Longrightarrow> C_item i \<in> set (lcells xs)"
    "i \<in> fst ` set (dpairs ys) \<Longrightarrow> C_item i \<in> set (dcells ys)"
  by (induction t and xs and ys) auto

text \<open>The records of the members of a list or a dictionary, without the items that link them.\<close>

primrec lsubs :: "blist \<Rightarrow> cell list" where
  "lsubs L_nil = []" | "lsubs (L_cons i t xs) = cells t @ lsubs xs"

primrec dsubs :: "bdict \<Rightarrow> cell list" where
  "dsubs D_nil = []" | "dsubs (D_cons i u k v xs) = C_tuple u # cells k @ cells v @ dsubs xs"

lemma subs_cells:
  fixes t :: btree
  shows "True" "c \<in> set (lsubs xs) \<Longrightarrow> c \<in> set (lcells xs)" "c \<in> set (dsubs ys) \<Longrightarrow> c \<in> set (dcells ys)"
  by (induction t and xs and ys) (auto simp: cells_def)

lemma items_not_subs:
  fixes t :: btree
  shows "True" "distinct (lcells xs) \<Longrightarrow> i \<in> fst ` set (lpairs xs) \<Longrightarrow> C_item i \<notin> set (lsubs xs)"
    "distinct (dcells ys) \<Longrightarrow> i \<in> fst ` set (dpairs ys) \<Longrightarrow> C_item i \<notin> set (dsubs ys)"
proof (induction t and xs and ys)
  case (L_cons j t xs)
  then show ?case using pairs_cells(2)[of i xs] subs_cells(2)[of "C_item i" xs] by (auto simp: cells_def)
next
  case (D_cons j u k v xs)
  then show ?case using pairs_cells(3)[of i xs] subs_cells(3)[of "C_item i" xs] by (auto simp: cells_def)
qed auto

text \<open>What an object is depends on its own records only.\<close>

lemma list_at_cong:
  assumes "cell_at h' (C_list l) = cell_at h (C_list l)" "\<forall>a \<in> fst ` set xs. cell_at h' (C_item a) = cell_at h (C_item a)"
  shows "list_at h' l xs = list_at h l xs"
  using assms linked_cong[of xs "bh_items h'" "bh_items h"] by (auto simp: list_at_def)

lemma rep_cong:
  "(\<And>c. c \<in> set (cells t) \<Longrightarrow> cell_at h' c = cell_at h c) \<Longrightarrow> ben_rep h t \<Longrightarrow> ben_rep h' t"
  "(\<And>c. c \<in> set (lsubs xs) \<Longrightarrow> cell_at h' c = cell_at h c) \<Longrightarrow> lrep h xs \<Longrightarrow> lrep h' xs"
  "(\<And>c. c \<in> set (dsubs ys) \<Longrightarrow> cell_at h' c = cell_at h c) \<Longrightarrow> drep h ys \<Longrightarrow> drep h' ys"
proof (induction t and xs and ys)
  case (T_int a i)
  then show ?case using T_int(1)[of "C_node a"] by (simp add: cells_def)
next
  case (T_str a s)
  have "bh_nodes h' a = bh_nodes h a" using T_str(1)[of "C_node a"] by (simp add: cells_def)
  moreover have "bh_strs h' p = bh_strs h p \<and> bh_chars h' c = bh_chars h c" if "s = Some (p, c, b)" for p c b
    using T_str(1)[of "C_str p"] T_str(1)[of "C_chars c"] that by (simp add: cells_def)
  ultimately show ?case using T_str(2) by (auto split: option.splits)
next
  case (T_list a l xs)
  have "list_at h' l (lpairs xs) = list_at h l (lpairs xs)"
    using T_list(2) pairs_cells(2)[of _ xs] by (intro list_at_cong) (auto simp: cells_def simp del: cell_at.simps)
  moreover have "lrep h' xs" using T_list subs_cells(2)[of _ xs] by (simp add: cells_def)
  ultimately show ?case using T_list(2)[of "C_node a"] T_list(3) by (simp add: cells_def)
next
  case (T_dict a l xs)
  have "list_at h' l (dpairs xs) = list_at h l (dpairs xs)"
    using T_dict(2) pairs_cells(3)[of _ xs] by (intro list_at_cong) (auto simp: cells_def simp del: cell_at.simps)
  moreover have "drep h' xs" using T_dict subs_cells(3)[of _ xs] by (simp add: cells_def)
  ultimately show ?case using T_dict(2)[of "C_node a"] T_dict(3) by (simp add: cells_def)
next
  case (D_cons i u k v xs)
  then show ?case using D_cons(4)[of "C_tuple u"] by (auto simp: cells_def)
qed (auto simp: cells_def)

section \<open>Single steps\<close>

text \<open>The records of a set are free, the others untouched.\<close>

definition cleared :: "cell set \<Rightarrow> BHEAP \<Rightarrow> BHEAP \<Rightarrow> bool" where
  "cleared C h h' \<longleftrightarrow> (\<forall>c. cell_at h' c = (if c \<in> C then None else cell_at h c))"

lemma cleared_trans: "cleared A h h1 \<Longrightarrow> cleared B h1 h2 \<Longrightarrow> cleared (A \<union> B) h h2"
  by (simp add: cleared_def)

lemma clearedD: "cleared C h h' \<Longrightarrow> c \<notin> C \<Longrightarrow> cell_at h' c = cell_at h c"
  by (simp add: cleared_def)

lemma cell_at_update [simp]:
  "cell_at (h\<lparr>bh_nodes := (bh_nodes h)(a := x)\<rparr>) c = (if c = C_node a then map_option V_node x else cell_at h c)"
  "cell_at (h\<lparr>bh_tuples := (bh_tuples h)(a := y)\<rparr>) c = (if c = C_tuple a then map_option V_tuple y else cell_at h c)"
  "cell_at (h\<lparr>bh_lists := (bh_lists h)(a := z)\<rparr>) c = (if c = C_list a then map_option V_list z else cell_at h c)"
  "cell_at (h\<lparr>bh_items := (bh_items h)(a := w)\<rparr>) c = (if c = C_item a then map_option V_item w else cell_at h c)"
  by (cases c; simp)+

lemma free_node_cleared: "bh_nodes h a \<noteq> None \<Longrightarrow> \<exists>h'. free_node (Some a) h = Inr h' \<and> cleared {C_node a} h h'"
  by (auto simp: free_node_def release_def cleared_def)

lemma free_tuple_cleared: "bh_tuples h a \<noteq> None \<Longrightarrow> \<exists>h'. free_tuple (Some a) h = Inr h' \<and> cleared {C_tuple a} h h'"
  by (auto simp: free_tuple_def release_def cleared_def)

lemma free_str_cleared:
  assumes "bh_strs h p = Some (Some c, n)" "bh_chars h c = Some b"
  shows "\<exists>h'. free_str (Some p) h = Inr h' \<and> cleared {C_str p, C_chars c} h h'"
proof -
  let ?h = "h\<lparr>bh_chars := (bh_chars h)(c := None), bh_strs := (bh_strs h)(p := None)\<rparr>"
  have "free_str (Some p) h = Inr ?h" using assms by (simp add: free_str_def load_def release_def)
  moreover have "cell_at ?h d = (if d \<in> {C_str p, C_chars c} then None else cell_at h d)" for d by (cases d) auto
  ultimately show ?thesis by (auto simp: cleared_def)
qed

lemma free_list_cleared:
  assumes "bh_lists h l = Some L" "l_start L = None" "0 < n"
  shows "\<exists>h'. free_list n (Some l) h = Inr h' \<and> cleared {C_list l} h h'"
  using assms by (cases n) (auto simp: free_list_def load_def release_def cleared_def)

lemma linked_val: "linked h L ((a, v) # xs) \<Longrightarrow> h a = Some it \<Longrightarrow> linked (h(a := Some (it\<lparr>i_val := w\<rparr>))) L ((a, w) # xs)"
  by (auto simp: linked_def)

lemma list_del_first:
  assumes L: "linked h L ((a, v) # xs)"
  shows "\<exists>h' L'. list_del h L (Some a) = Inr (h', L', l_start L') \<and> linked h' L' xs \<and> h' a = None \<and>
    (\<forall>b. b \<noteq> a \<longrightarrow> b \<notin> fst ` set xs \<longrightarrow> h' b = h b)"
proof -
  obtain h' L' where d: "list_del h L (Some a) = Inr (h', L', case xs of [] \<Rightarrow> None | c # _ \<Rightarrow> Some (fst c))"
      "linked h' L' xs" "h' a = None"
    using list_del_linked[of h L "[]" a v xs] L by auto
  have "l_start L' = (case xs of [] \<Rightarrow> None | c # _ \<Rightarrow> Some (fst c))"
    using d(2) by (auto simp: linked_def dest: seg_first)
  moreover obtain it where it: "h a = Some it" "i_prev it = None" "i_next it = (case xs of [] \<Rightarrow> None | c # _ \<Rightarrow> Some (fst c))"
    using L by (auto simp: linked_def dest: seg_first)
  have "h' b = h b" if "b \<noteq> a" "b \<notin> fst ` set xs" for b
    using d(1) it that by (auto simp: list_del_def deref_def set_prev_def Let_def bindr_eq_Inr split: if_splits list.splits option.splits)
  ultimately show ?thesis using d by auto
qed

text \<open>The second half of \<open>ben_free_item\<close>: the item that is first in the list goes.\<close>

lemma del_first:
  assumes L: "bh_lists h l = Some L" "linked (bh_items h) L ((i, p) # xs)"
  shows "\<exists>h' L'. bindr (clear_val (Some i) h) (\<lambda>h. del_item (Some l) (Some i) h) = Inr (l_start L', h') \<and>
    bh_lists h' l = Some L' \<and> linked (bh_items h') L' xs \<and> cell_at h' (C_item i) = None \<and>
    (\<forall>c. c \<noteq> C_list l \<longrightarrow> c \<noteq> C_item i \<longrightarrow> c \<notin> C_item ` fst ` set xs \<longrightarrow> cell_at h' c = cell_at h c)"
proof -
  obtain it where it: "bh_items h i = Some it" using L(2) by (auto simp: linked_def)
  let ?items = "(bh_items h)(i := Some (it\<lparr>i_val := None\<rparr>))"
  obtain h1 L' where d: "list_del ?items L (Some i) = Inr (h1, L', l_start L')" "linked h1 L' xs" "h1 i = None"
      "\<forall>b. b \<noteq> i \<longrightarrow> b \<notin> fst ` set xs \<longrightarrow> h1 b = ?items b"
    using list_del_first[OF linked_val[OF L(2) it]] by blast
  let ?h = "h\<lparr>bh_items := h1, bh_lists := (bh_lists h)(l \<mapsto> L')\<rparr>"
  have "bindr (clear_val (Some i) h) (\<lambda>h. del_item (Some l) (Some i) h) = Inr (l_start L', ?h)"
    using it d(1) L(1) by (simp add: clear_val_def del_item_def deref_def load_def)
  moreover have "cell_at ?h c = cell_at h c" if "c \<noteq> C_list l" "c \<noteq> C_item i" "c \<notin> C_item ` fst ` set xs" for c
    using that d(4) by (cases c) auto
  ultimately show ?thesis using d(2,3) by auto
qed

section \<open>An object is released\<close>

text \<open>Fuel: the depth of the object, and the length of its longest list.\<close>

primrec need :: "btree \<Rightarrow> nat" and lneed :: "blist \<Rightarrow> nat" and dneed :: "bdict \<Rightarrow> nat" where
  "need (T_int a i) = 1"
| "need (T_str a s) = 1"
| "need (T_list a l xs) = Suc (lneed xs)"
| "need (T_dict a l xs) = Suc (dneed xs)"
| "lneed L_nil = 1"
| "lneed (L_cons i t xs) = Suc (max (need t) (lneed xs))"
| "dneed D_nil = 1"
| "dneed (D_cons i u k v xs) = Suc (max (max (need k) (need v)) (dneed xs))"

lemma rep_root: "ben_rep h t \<Longrightarrow> bh_nodes h (root t) \<noteq> None"
  by (cases t) auto

definition frees :: "free_fun \<Rightarrow> btree \<Rightarrow> bool" where
  "frees free_r t \<longleftrightarrow> (\<forall>h. ben_rep h t \<longrightarrow> distinct (cells t) \<longrightarrow>
     (\<exists>h'. free_r (Some (root t)) h = Inr h' \<and> cleared (set (rest t)) h h'))"

lemma frees_node:
  assumes "frees free_r t" "ben_rep h t" "distinct (cells t)"
  shows "\<exists>h'. bindr (free_r (Some (root t)) h) (\<lambda>h. free_node (Some (root t)) h) = Inr h' \<and> cleared (set (cells t)) h h'"
proof -
  obtain h1 where h1: "free_r (Some (root t)) h = Inr h1" "cleared (set (rest t)) h h1"
    using assms by (auto simp: frees_def)
  have "bh_nodes h1 (root t) \<noteq> None"
    using clearedD[OF h1(2), of "C_node (root t)"] rep_root[OF assms(2)] assms(3) by (simp add: cells_def)
  then obtain h2 where h2: "free_node (Some (root t)) h1 = Inr h2" "cleared {C_node (root t)} h1 h2"
    using free_node_cleared by blast
  have "cleared (set (cells t)) h h2" using cleared_trans[OF h1(2) h2(2)] by (simp add: cells_def Un_commute)
  then show ?thesis using h1(1) h2(1) by auto
qed

lemma ben_free_cleared:
  "frees free_r t \<Longrightarrow> ben_rep h t \<Longrightarrow> distinct (cells t) \<Longrightarrow>
    \<exists>h'. ben_free free_r (Some (root t)) h = Inr h' \<and> cleared (set (cells t)) h h'"
  using frees_node[of free_r t h] by (simp add: ben_free_def)

lemma rep_cleared:
  "ben_rep h t \<Longrightarrow> cleared C h h' \<Longrightarrow> set (cells t) \<inter> C = {} \<Longrightarrow> ben_rep h' t"
  by (rule rep_cong(1)[of t h' h]) (auto simp: cleared_def)

lemma tuple_free_cleared:
  assumes f: "frees free_r k" "frees free_r v" and u: "bh_tuples h u = Some (Some (root k), Some (root v))"
    and r: "ben_rep h k" "ben_rep h v" and d: "distinct (C_tuple u # cells k @ cells v)"
  shows "\<exists>h'. tuple_free free_r (Some u) h = Inr h' \<and> cleared (set (C_tuple u # cells k @ cells v)) h h'"
proof -
  obtain h1 where h1: "ben_free free_r (Some (root k)) h = Inr h1" "cleared (set (cells k)) h h1"
    using ben_free_cleared[OF f(1) r(1)] d by auto
  have u1: "bh_tuples h1 u = Some (Some (root k), Some (root v))" using clearedD[OF h1(2), of "C_tuple u"] d u by simp
  have "ben_rep h1 v" using rep_cleared[OF r(2) h1(2)] d by auto
  then obtain h2 where h2: "ben_free free_r (Some (root v)) h1 = Inr h2" "cleared (set (cells v)) h1 h2"
    using ben_free_cleared[OF f(2)] d by auto
  have "bh_tuples h2 u \<noteq> None" using clearedD[OF h2(2), of "C_tuple u"] d u1 by simp
  then obtain h3 where h3: "free_tuple (Some u) h2 = Inr h3" "cleared {C_tuple u} h2 h3"
    using free_tuple_cleared by blast
  have "cleared (set (C_tuple u # cells k @ cells v)) h h3"
    using cleared_trans[OF cleared_trans[OF h1(2) h2(2)] h3(2)] by (simp add: Un_commute)
  then show ?thesis using u u1 h1(1) h2(1) h3(1) by (simp add: tuple_free_def load_def)
qed

text \<open>The state of the loop: \<open>rest_pairs\<close> is what is left of the list \<open>l\<close> of \<open>node\<close>.\<close>

definition looping :: "BHEAP \<Rightarrow> addr \<Rightarrow> bnode \<Rightarrow> addr \<Rightarrow> LIST \<Rightarrow> (addr \<times> addr option) list \<Rightarrow> bool" where
  "looping h node v l L xs \<longleftrightarrow> bh_nodes h node = Some v \<and> v_d v = Some l \<and> bh_lists h l = Some L \<and> linked (bh_items h) L xs"

text \<open>A round of the loop: the payload \<open>p\<close> of the first item has the records \<open>D\<close>.\<close>

lemma loop_round:
  assumes loop: "looping h node v l L ((i, p) # xs)"
    and payload: "cleared D h h1" "D \<inter> ({C_node node, C_list l, C_item i} \<union> C_item ` fst ` set xs) = {}"
    and item: "\<And>it. bh_items h i = Some it \<Longrightarrow> i_val it = p \<Longrightarrow> ben_free_item free_r (Some node) (Some i) h
        = bindr (clear_val (Some i) h1) (\<lambda>h. del_item (Some l) (Some i) h)"
  shows "\<exists>h' L'. items_loop free_r (Suc n) (Some node) (l_start L) h = items_loop free_r n (Some node) (l_start L') h' \<and>
    looping h' node v l L' xs \<and>
    (\<forall>c. c \<noteq> C_list l \<longrightarrow> c \<notin> C_item ` fst ` set xs \<longrightarrow> cell_at h' c = (if c \<in> insert (C_item i) D then None else cell_at h c))"
proof -
  obtain it where it: "bh_items h i = Some it" "i_val it = p" and start: "l_start L = Some i"
    using loop by (auto simp: looping_def linked_def)
  have counter: "sint (l_counter L) > 0"
    using threaded_counter[OF linked_threaded, of "bh_items h" L "(i, p) # xs"] loop by (simp add: looping_def)
  have kept: "cell_at h1 c = cell_at h c" if "c \<in> {C_node node, C_list l, C_item i} \<union> C_item ` fst ` set xs" for c
    using clearedD[OF payload(1), of c] payload(2) that by blast
  have node1: "bh_nodes h1 node = Some v" and list1: "bh_lists h1 l = Some L"
    using kept[of "C_node node"] kept[of "C_list l"] loop by (simp_all add: looping_def)
  have "bh_items h1 a = bh_items h a" if "a = i \<or> a \<in> fst ` set xs" for a using kept[of "C_item a"] that by auto
  then have "\<forall>a \<in> fst ` set ((i, p) # xs). bh_items h1 a = bh_items h a" by auto
  then have "linked (bh_items h1) L ((i, p) # xs)"
    using linked_cong[of "(i, p) # xs" "bh_items h1" "bh_items h" L] loop by (simp add: looping_def)
  from del_first[OF list1 this] obtain h' L' where
    d: "bindr (clear_val (Some i) h1) (\<lambda>h. del_item (Some l) (Some i) h) = Inr (l_start L', h')"
      "bh_lists h' l = Some L'" "linked (bh_items h') L' xs" "cell_at h' (C_item i) = None"
      "\<forall>c. c \<noteq> C_list l \<longrightarrow> c \<noteq> C_item i \<longrightarrow> c \<notin> C_item ` fst ` set xs \<longrightarrow> cell_at h' c = cell_at h1 c" by blast
  have "bh_nodes h' node = Some v" using d(5)[rule_format, of "C_node node"] node1 by auto
  then have "looping h' node v l L' xs" using d(2,3) loop by (simp add: looping_def)
  moreover have "items_loop free_r (Suc n) (Some node) (l_start L) h = items_loop free_r n (Some node) (l_start L') h'"
    using loop counter start item[OF it] d(1) by (simp add: looping_def load_def)
  moreover have "cell_at h' c = (if c \<in> insert (C_item i) D then None else cell_at h c)"
    if "c \<noteq> C_list l" "c \<notin> C_item ` fst ` set xs" for c
    using that d(4,5) payload(1) by (auto simp: cleared_def)
  ultimately show ?thesis by blast
qed

text \<open>What the loop leaves: the list is empty and its members are free.\<close>

definition emptied :: "addr \<Rightarrow> cell list \<Rightarrow> BHEAP \<Rightarrow> BHEAP \<Rightarrow> bool" where
  "emptied l cs h h' \<longleftrightarrow> (\<exists>L. bh_lists h' l = Some L \<and> l_start L = None) \<and>
     (\<forall>c. c \<noteq> C_list l \<longrightarrow> cell_at h' c = (if c \<in> set cs then None else cell_at h c))"

lemma loop_end:
  "looping h node v l L [] \<Longrightarrow> 0 < k \<Longrightarrow>
    \<exists>h'. items_loop free_r k (Some node) (l_start L) h = Inr h' \<and> emptied l [] h h'"
  by (cases k) (auto simp: looping_def load_def linked_def emptied_def)

lemma emptied_step:
  assumes "emptied l cs h1 h'" "items \<subseteq> set cs"
    and "\<forall>c. c \<noteq> C_list l \<longrightarrow> c \<notin> items \<longrightarrow> cell_at h1 c = (if c \<in> insert (C_item i) D then None else cell_at h c)"
    and "set cs' = insert (C_item i) (D \<union> set cs)"
  shows "emptied l cs' h h'"
  using assms unfolding emptied_def by auto

lemma emptied_cleared:
  assumes e: "emptied l cs h h'" and n: "0 < n" and l: "C_list l \<notin> set cs"
  shows "\<exists>h''. free_list n (Some l) h' = Inr h'' \<and> cleared (set (C_list l # cs)) h h''"
proof -
  obtain L where L: "bh_lists h' l = Some L" "l_start L = None" using e by (auto simp: emptied_def)
  obtain h'' where h'': "free_list n (Some l) h' = Inr h''" "cleared {C_list l} h' h''"
    using free_list_cleared[OF L n] by blast
  then show ?thesis using e by (auto simp: emptied_def cleared_def)
qed

lemma released:
  "need t \<le> n \<Longrightarrow> frees (ben_free_r n) t"
  "lneed xs \<le> n \<Longrightarrow> lneed xs \<le> k \<Longrightarrow> looping h node (N_list (Some l)) l L (lpairs xs) \<Longrightarrow> lrep h xs \<Longrightarrow>
    distinct (C_node node # C_list l # lcells xs) \<Longrightarrow>
    \<exists>h'. items_loop (ben_free_r n) k (Some node) (l_start L) h = Inr h' \<and> emptied l (lcells xs) h h'"
  "dneed ys \<le> n \<Longrightarrow> dneed ys \<le> k \<Longrightarrow> looping h node (N_dict (Some l)) l L (dpairs ys) \<Longrightarrow> drep h ys \<Longrightarrow>
    distinct (C_node node # C_list l # dcells ys) \<Longrightarrow>
    \<exists>h'. items_loop (ben_free_r n) k (Some node) (l_start L) h = Inr h' \<and> emptied l (dcells ys) h h'"
proof (induction t and xs and ys arbitrary: n and n k h node l L and n k h node l L)
  case (T_int a i)
  then show ?case by (cases n) (auto simp: frees_def load_def cleared_def)
next
  case (T_str a s)
  show ?case unfolding frees_def
  proof (intro allI impI)
    fix h assume h: "ben_rep h (T_str a s)"
    obtain m where n: "n = Suc m" using T_str by (cases n) auto
    show "\<exists>h'. ben_free_r n (Some (root (T_str a s))) h = Inr h' \<and> cleared (set (rest (T_str a s))) h h'"
    proof (cases s)
      case None
      then show ?thesis using h n by (simp add: load_def cleared_def)
    next
      case (Some q)
      obtain p c b where q: "q = (p, c, b)" by (cases q)
      show ?thesis using h free_str_cleared[of h p c "length b" "b @ [0]"] n Some q by (auto simp: load_def)
    qed
  qed
next
  case (T_list a l xs)
  show ?case unfolding frees_def
  proof (intro allI impI)
    fix h assume h: "ben_rep h (T_list a l xs)" and d: "distinct (cells (T_list a l xs))"
    obtain m where n: "n = Suc m" "lneed xs \<le> m" using T_list(2) by (cases n) auto
    obtain L where L: "bh_lists h l = Some L" "linked (bh_items h) L (lpairs xs)" using h by (auto simp: list_at_def)
    then have loop: "looping h a (N_list (Some l)) l L (lpairs xs)" using h by (simp add: looping_def v_d_def)
    then obtain h1 where h1: "items_loop (ben_free_r m) m (Some a) (l_start L) h = Inr h1" "emptied l (lcells xs) h h1"
      using T_list(1)[OF n(2,2) loop] h d by (auto simp: cells_def)
    have "0 < m" using n(2) by (cases xs) auto
    then show "\<exists>h'. ben_free_r n (Some (root (T_list a l xs))) h = Inr h' \<and> cleared (set (rest (T_list a l xs))) h h'"
      using emptied_cleared[OF h1(2), of m] h d L(1) h1(1) n(1) by (auto simp: cells_def load_def)
  qed
next
  case (T_dict a l xs)
  show ?case unfolding frees_def
  proof (intro allI impI)
    fix h assume h: "ben_rep h (T_dict a l xs)" and d: "distinct (cells (T_dict a l xs))"
    obtain m where n: "n = Suc m" "dneed xs \<le> m" using T_dict(2) by (cases n) auto
    obtain L where L: "bh_lists h l = Some L" "linked (bh_items h) L (dpairs xs)" using h by (auto simp: list_at_def)
    then have loop: "looping h a (N_dict (Some l)) l L (dpairs xs)" using h by (simp add: looping_def v_d_def)
    then obtain h1 where h1: "items_loop (ben_free_r m) m (Some a) (l_start L) h = Inr h1" "emptied l (dcells xs) h h1"
      using T_dict(1)[OF n(2,2) loop] h d by (auto simp: cells_def)
    have "0 < m" using n(2) by (cases xs) auto
    then show "\<exists>h'. ben_free_r n (Some (root (T_dict a l xs))) h = Inr h' \<and> cleared (set (rest (T_dict a l xs))) h h'"
      using emptied_cleared[OF h1(2), of m] h d L(1) h1(1) n(1) by (auto simp: cells_def load_def)
  qed
next
  case (L_cons i t xs)
  obtain j where k: "k = Suc j" "lneed xs \<le> j" using L_cons(4) by (cases k) auto
  have loop: "looping h node (N_list (Some l)) l L ((i, Some (root t)) # lpairs xs)" using L_cons(5) by simp
  have reps: "ben_rep h t" "lrep h xs" and d: "distinct (cells t)" "distinct (C_node node # C_list l # lcells xs)"
    using L_cons(6,7) by (auto simp: cells_def)
  have "frees (ben_free_r n) t" using L_cons(1,3) by simp
  from frees_node[OF this reps(1) d(1)] obtain h0 h1 where
    h1: "ben_free_r n (Some (root t)) h = Inr h0" "free_node (Some (root t)) h0 = Inr h1" "cleared (set (cells t)) h h1"
    by (auto simp: bindr_eq_Inr)
  have "set (cells t) \<inter> ({C_node node, C_list l, C_item i} \<union> C_item ` fst ` set (lpairs xs)) = {}"
    using L_cons(7) pairs_cells(2)[of _ xs] by (auto simp: cells_def)
  from loop_round[OF loop h1(3) this, of "ben_free_r n" j] h1(1,2) loop obtain h2 L2 where
    h2: "items_loop (ben_free_r n) k (Some node) (l_start L) h = items_loop (ben_free_r n) j (Some node) (l_start L2) h2"
      "looping h2 node (N_list (Some l)) l L2 (lpairs xs)"
      "\<forall>c. c \<noteq> C_list l \<longrightarrow> c \<notin> C_item ` fst ` set (lpairs xs) \<longrightarrow>
        cell_at h2 c = (if c \<in> insert (C_item i) (set (cells t)) then None else cell_at h c)"
    unfolding k(1) by (auto simp: ben_free_item_def looping_def load_def deref_def)
  have "lrep h2 xs"
  proof (rule rep_cong(2)[OF _ reps(2)])
    fix c assume c: "c \<in> set (lsubs xs)"
    have "c \<noteq> C_list l" "c \<notin> insert (C_item i) (set (cells t))" using subs_cells(2)[OF c] L_cons(7) by (auto simp: cells_def)
    moreover have "c \<notin> C_item ` fst ` set (lpairs xs)" using items_not_subs(2)[of xs] c d(2) by auto
    ultimately show "cell_at h2 c = cell_at h c" using h2(3) by auto
  qed
  moreover have "lneed xs \<le> n" using L_cons(3) by simp
  ultimately obtain h' where
    h': "items_loop (ben_free_r n) j (Some node) (l_start L2) h2 = Inr h'" "emptied l (lcells xs) h2 h'"
    using L_cons(2)[OF _ k(2) h2(2) _ d(2)] by blast
  have "emptied l (lcells (L_cons i t xs)) h h'"
    using pairs_cells(2)[of _ xs] by (intro emptied_step[OF h'(2) _ h2(3)]) (auto simp: cells_def)
  then show ?case using h2(1) h'(1) by auto
next
  case (D_cons i u a b xs)
  obtain j where k: "k = Suc j" "dneed xs \<le> j" using D_cons(5) by (cases k) auto
  have loop: "looping h node (N_dict (Some l)) l L ((i, Some u) # dpairs xs)" using D_cons(6) by simp
  have reps: "bh_tuples h u = Some (Some (root a), Some (root b))" "ben_rep h a" "ben_rep h b" "drep h xs"
    and d: "distinct (C_tuple u # cells a @ cells b)" "distinct (C_node node # C_list l # dcells xs)"
    using D_cons(7,8) by (auto simp: cells_def)
  have "frees (ben_free_r n) a" "frees (ben_free_r n) b" using D_cons(1,2,4) by simp_all
  from tuple_free_cleared[OF this reps(1-3) d(1)] obtain h1 where
    h1: "tuple_free (ben_free_r n) (Some u) h = Inr h1" "cleared (set (C_tuple u # cells a @ cells b)) h h1" by blast
  have "set (C_tuple u # cells a @ cells b) \<inter> ({C_node node, C_list l, C_item i} \<union> C_item ` fst ` set (dpairs xs)) = {}"
    using D_cons(8) pairs_cells(3)[of _ xs] by (auto simp: cells_def)
  from loop_round[OF loop h1(2) this, of "ben_free_r n" j] h1(1) loop obtain h2 L2 where
    h2: "items_loop (ben_free_r n) k (Some node) (l_start L) h = items_loop (ben_free_r n) j (Some node) (l_start L2) h2"
      "looping h2 node (N_dict (Some l)) l L2 (dpairs xs)"
      "\<forall>c. c \<noteq> C_list l \<longrightarrow> c \<notin> C_item ` fst ` set (dpairs xs) \<longrightarrow>
        cell_at h2 c = (if c \<in> insert (C_item i) (set (C_tuple u # cells a @ cells b)) then None else cell_at h c)"
    unfolding k(1) by (auto simp: ben_free_item_def looping_def load_def deref_def)
  have "drep h2 xs"
  proof (rule rep_cong(3)[OF _ reps(4)])
    fix c assume c: "c \<in> set (dsubs xs)"
    have "c \<noteq> C_list l" "c \<notin> insert (C_item i) (set (C_tuple u # cells a @ cells b))"
      using subs_cells(3)[OF c] D_cons(8) by (auto simp: cells_def)
    moreover have "c \<notin> C_item ` fst ` set (dpairs xs)" using items_not_subs(3)[of xs] c d(2) by auto
    ultimately show "cell_at h2 c = cell_at h c" using h2(3) by auto
  qed
  moreover have "dneed xs \<le> n" using D_cons(4) by simp
  ultimately obtain h' where
    h': "items_loop (ben_free_r n) j (Some node) (l_start L2) h2 = Inr h'" "emptied l (dcells xs) h2 h'"
    using D_cons(3)[OF _ k(2) h2(2) _ d(2)] by blast
  have "emptied l (dcells (D_cons i u a b xs)) h h'"
    using pairs_cells(3)[of _ xs] by (intro emptied_step[OF h'(2) _ h2(3)]) (auto simp: cells_def)
  then show ?case using h2(1) h'(1) by auto
next
  case L_nil
  then show ?case using loop_end[of h node "N_list (Some l)" l L k] by simp
next
  case D_nil
  then show ?case using loop_end[of h node "N_dict (Some l)" l L k] by simp
qed

text \<open>C26: \<open>ben_free\<close> on an object gives back every record of it exactly once and leaves the rest of the
  memory as it was: it does not fault, so nothing is freed twice or used after it was freed, and it returns.
  On NULL it does nothing, and a second \<open>ben_free\<close> of the object is a use after free.\<close>
theorem ben_free_releases:
  assumes "ben_rep h t" "distinct (cells t)" "need t \<le> n"
  shows "\<exists>h'. ben_free (ben_free_r n) (Some (root t)) h = Inr h' \<and>
    (\<forall>c. cell_at h' c = (if c \<in> set (cells t) then None else cell_at h c)) \<and>
    ben_free (ben_free_r n) None h' = Inr h' \<and> ben_free (ben_free_r n) (Some (root t)) h' = Inl UseAfterFree"
proof -
  obtain h' where h': "ben_free (ben_free_r n) (Some (root t)) h = Inr h'" "cleared (set (cells t)) h h'"
    using ben_free_cleared[OF released(1)] assms by blast
  obtain m where n: "n = Suc m" using assms(3) by (cases n; cases t) auto
  have "bh_nodes h' (root t) = None" using h'(2)[unfolded cleared_def, rule_format, of "C_node (root t)"] by (simp add: cells_def)
  then show ?thesis using h' n by (auto simp: cleared_def ben_free_def load_def)
qed

text \<open>The dictionary \<open>d1:qi1ee\<close>.\<close>

definition d_tree :: btree where
  "d_tree = T_dict 1 2 (D_cons 3 4 (T_str 5 (Some (6, 7, [113]))) (T_int 8 1) D_nil)"

definition d_heap :: BHEAP where
  "d_heap = \<lparr>bh_nodes = [1 \<mapsto> N_dict (Some 2), 5 \<mapsto> N_str (Some 6), 8 \<mapsto> N_int 1],
     bh_lists = [2 \<mapsto> \<lparr>l_start = Some 3, l_stop = Some 3, l_counter = 1\<rparr>],
     bh_items = [3 \<mapsto> \<lparr>i_val = Some 4, i_next = None, i_prev = None\<rparr>],
     bh_tuples = [4 \<mapsto> (Some 5, Some 8)], bh_strs = [6 \<mapsto> (Some 7, 1)], bh_chars = [7 \<mapsto> [113, 0]]\<rparr>"

theorem ben_free_releases_witness:
  "ben_rep d_heap d_tree \<and> distinct (cells d_tree) \<and>
   (\<exists>h'. ben_free (ben_free_r 5) (Some 1) d_heap = Inr h' \<and> (\<forall>c. cell_at h' c = None))"
proof -
  have r: "ben_rep d_heap d_tree" "distinct (cells d_tree)"
    by (simp_all add: d_heap_def d_tree_def list_at_def linked_def cells_def)
  obtain h' where h': "ben_free (ben_free_r 5) (Some (root d_tree)) d_heap = Inr h'"
      "\<forall>c. cell_at h' c = (if c \<in> set (cells d_tree) then None else cell_at d_heap c)"
    using ben_free_releases[OF r, of 5] by (auto simp: d_tree_def)
  have "cell_at h' c = None" for c
    using h'(2)[rule_format, of c] by (cases c) (auto simp: d_heap_def d_tree_def cells_def split: if_splits)
  then show ?thesis using r h'(1) by (auto simp: d_tree_def)
qed

end
