(* ===== verification/BenBuild.thy ===== *)
theory BenBuild
  imports BenFree
begin

text \<open>
  The construction of bencode objects in memory: \<open>ben_init\<close>, \<open>ben_str\<close>, \<open>ben_int\<close>, \<open>ben_list\<close>, \<open>ben_dict\<close> and
  \<open>tuple_init\<close> of \<open>src/src/ben.c\<close> on the records of \<open>BenFree\<close>. Each refines the function of the same name
  in \<open>Ben\<close>, where an object is a value. The addresses that \<open>malloc\<close> hands out are arguments, and that they
  are not in use is a hypothesis of the lemmas.
\<close>

section \<open>Operations\<close>

definition ben_init_at :: "ben_type \<Rightarrow> addr \<Rightarrow> addr \<Rightarrow> BHEAP \<Rightarrow> BHEAP" where
  "ben_init_at type a l h = (case type of
       BEN_STR \<Rightarrow> h\<lparr>bh_nodes := (bh_nodes h)(a \<mapsto> N_str None)\<rparr>
     | BEN_INT \<Rightarrow> h\<lparr>bh_nodes := (bh_nodes h)(a \<mapsto> N_int 0)\<rparr>
     | BEN_DICT \<Rightarrow> h\<lparr>bh_nodes := (bh_nodes h)(a \<mapsto> N_dict (Some l)), bh_lists := (bh_lists h)(l \<mapsto> list_init)\<rparr>
     | BEN_LIST \<Rightarrow> h\<lparr>bh_nodes := (bh_nodes h)(a \<mapsto> N_list (Some l)), bh_lists := (bh_lists h)(l \<mapsto> list_init)\<rparr>)"

definition tuple_init :: "addr \<Rightarrow> addr option \<Rightarrow> addr option \<Rightarrow> BHEAP \<Rightarrow> BHEAP" where
  "tuple_init u key val h = h\<lparr>bh_tuples := (bh_tuples h)(u \<mapsto> (key, val))\<rparr>"

definition put_item :: "addr option \<Rightarrow> addr \<Rightarrow> addr option \<Rightarrow> BHEAP \<Rightarrow> (addr option \<times> BHEAP) res" where
  "put_item p i payload h = bindr (load (bh_lists h) p) (\<lambda>L. bindr (list_put (bh_items h) L i payload) (\<lambda>(items, L', r).
     Inr (r, h\<lparr>bh_items := items, bh_lists := (bh_lists h)(the p := Some L')\<rparr>)))"

definition ben_list_at :: "addr option \<Rightarrow> addr option \<Rightarrow> addr \<Rightarrow> BHEAP \<Rightarrow> BHEAP res" where
  "ben_list_at node val i h = (if node = None then Inl ExitFailure
     else bindr (load (bh_nodes h) node) (\<lambda>v. case v of
         N_list l \<Rightarrow> if l = None then Inl ExitFailure else if val = None then Inl ExitFailure
           else bindr (put_item l i val h) (\<lambda>(r, h). if r = None then Inl ExitFailure else Inr h)
       | _ \<Rightarrow> Inl ExitFailure))"

definition ben_dict_at :: "addr option \<Rightarrow> addr option \<Rightarrow> addr option \<Rightarrow> addr \<Rightarrow> addr \<Rightarrow> BHEAP \<Rightarrow> BHEAP res" where
  "ben_dict_at node key val u i h = (if node = None then Inl ExitFailure
     else bindr (load (bh_nodes h) node) (\<lambda>v. case v of
         N_dict d \<Rightarrow> if d = None then Inl ExitFailure else if key = None then Inl ExitFailure
           else bindr (load (bh_nodes h) key) (\<lambda>k. case k of
               N_str _ \<Rightarrow> if val = None then Inl ExitFailure
                 else let h = tuple_init u key val h in
                   bindr (put_item d i (Some u) h) (\<lambda>(r, h). if r = None then Inl ExitFailure else Inr h)
             | _ \<Rightarrow> Inl ExitFailure)
       | _ \<Rightarrow> Inl ExitFailure))"

text \<open>\<open>str_init\<close> copies \<open>len\<close> bytes and leaves a zero behind them. What \<open>v.s\<close> was is overwritten.\<close>

definition ben_str_at :: "addr option \<Rightarrow> bytes option \<Rightarrow> int \<Rightarrow> addr \<Rightarrow> addr \<Rightarrow> BHEAP \<Rightarrow> BHEAP res" where
  "ben_str_at node str len p c h = (if node = None then Inl ExitFailure
     else bindr (load (bh_nodes h) node) (\<lambda>v. case v of
         N_str _ \<Rightarrow> (case str of None \<Rightarrow> Inl ExitFailure | Some s \<Rightarrow> if len \<le> 0 then Inl ExitFailure
           else bindr (rds s 0 (nat len)) (\<lambda>b. Inr (h\<lparr>bh_chars := (bh_chars h)(c \<mapsto> b @ [0]),
             bh_strs := (bh_strs h)(p \<mapsto> (Some c, nat len)), bh_nodes := (bh_nodes h)(the node \<mapsto> N_str (Some p))\<rparr>)))
       | _ \<Rightarrow> Inl ExitFailure))"

definition ben_int_at :: "addr option \<Rightarrow> u64 \<Rightarrow> BHEAP \<Rightarrow> BHEAP res" where
  "ben_int_at node i h = (if node = None then Inl ExitFailure
     else bindr (load (bh_nodes h) node) (\<lambda>v. case v of
         N_int _ \<Rightarrow> Inr (h\<lparr>bh_nodes := (bh_nodes h)(the node \<mapsto> N_int i)\<rparr>) | _ \<Rightarrow> Inl ExitFailure))"

section \<open>New objects\<close>

primrec new_tree :: "ben_type \<Rightarrow> addr \<Rightarrow> addr \<Rightarrow> btree" where
  "new_tree BEN_STR a l = T_str a None"
| "new_tree BEN_INT a l = T_int a 0"
| "new_tree BEN_LIST a l = T_list a l L_nil"
| "new_tree BEN_DICT a l = T_dict a l D_nil"

lemma ben_init_refines:
  "ben_rep (ben_init_at type a l h) (new_tree type a l) \<and> val_of (new_tree type a l) = ben_init type \<and>
    distinct (cells (new_tree type a l)) \<and>
    (\<forall>c. c \<notin> set (cells (new_tree type a l)) \<longrightarrow> cell_at (ben_init_at type a l h) c = cell_at h c)"
proof (cases type)
  case BEN_STR
  then show ?thesis by (simp add: ben_init_at_def ben_init_def cells_def)
next
  case BEN_INT
  then show ?thesis by (simp add: ben_init_at_def ben_init_def cells_def)
next
  case BEN_LIST
  have "cell_at (ben_init_at BEN_LIST a l h) c = cell_at h c" if "c \<noteq> C_node a" "c \<noteq> C_list l" for c
    using that by (cases c) (auto simp: ben_init_at_def)
  then show ?thesis using BEN_LIST by (simp add: ben_init_at_def ben_init_def cells_def list_at_def linked_init)
next
  case BEN_DICT
  have "cell_at (ben_init_at BEN_DICT a l h) c = cell_at h c" if "c \<noteq> C_node a" "c \<noteq> C_list l" for c
    using that by (cases c) (auto simp: ben_init_at_def)
  then show ?thesis using BEN_DICT by (simp add: ben_init_at_def ben_init_def cells_def list_at_def linked_init)
qed

lemma ben_int_refines:
  assumes "ben_rep h (T_int a i)"
  shows "\<exists>h'. ben_int_at (Some a) j h = Inr h' \<and> ben_rep h' (T_int a j) \<and> ben_int (val_of (T_int a i)) j = Inr (val_of (T_int a j)) \<and>
    (\<forall>c. c \<noteq> C_node a \<longrightarrow> cell_at h' c = cell_at h c)"
  using assms by (simp add: ben_int_at_def load_def ben_int_def)

lemma ben_str_refines:
  assumes "ben_rep h (T_str a None)" "0 < n" "n \<le> length s"
  shows "\<exists>h'. ben_str_at (Some a) (Some s) (int n) p c h = Inr h' \<and> ben_rep h' (T_str a (Some (p, c, take n s))) \<and>
    ben_str (val_of (T_str a None)) (take n s) = Inr (val_of (T_str a (Some (p, c, take n s)))) \<and>
    (\<forall>d. d \<notin> {C_node a, C_str p, C_chars c} \<longrightarrow> cell_at h' d = cell_at h d)"
proof -
  let ?h = "h\<lparr>bh_chars := (bh_chars h)(c \<mapsto> take n s @ [0]), bh_strs := (bh_strs h)(p \<mapsto> (Some c, n)),
    bh_nodes := (bh_nodes h)(a \<mapsto> N_str (Some p))\<rparr>"
  have "ben_str_at (Some a) (Some s) (int n) p c h = Inr ?h"
    using assms by (simp add: ben_str_at_def load_def rds_def)
  moreover have "cell_at ?h d = cell_at h d" if "d \<notin> {C_node a, C_str p, C_chars c}" for d using that by (cases d) auto
  ultimately show ?thesis using assms by (auto simp: ben_str_def min_absorb2)
qed

section \<open>Growing a list or a dictionary\<close>

primrec lsnoc :: "blist \<Rightarrow> addr \<Rightarrow> btree \<Rightarrow> blist" where
  "lsnoc L_nil i t = L_cons i t L_nil" | "lsnoc (L_cons j s xs) i t = L_cons j s (lsnoc xs i t)"

primrec dsnoc :: "bdict \<Rightarrow> addr \<Rightarrow> addr \<Rightarrow> btree \<Rightarrow> btree \<Rightarrow> bdict" where
  "dsnoc D_nil i u k v = D_cons i u k v D_nil" | "dsnoc (D_cons j w a b xs) i u k v = D_cons j w a b (dsnoc xs i u k v)"

lemma snoc_simps:
  fixes r :: btree
  shows "True"
    "lpairs (lsnoc xs i t) = lpairs xs @ [(i, Some (root t))] \<and> lvals (lsnoc xs i t) = lvals xs @ [val_of t] \<and>
      (lrep h (lsnoc xs i t) \<longleftrightarrow> lrep h xs \<and> ben_rep h t) \<and> lcells (lsnoc xs i t) = lcells xs @ C_item i # cells t"
    "dpairs (dsnoc ys i u k v) = dpairs ys @ [(i, Some u)] \<and> dvals (dsnoc ys i u k v) = dvals ys @ [Tuple (val_of k) (val_of v)] \<and>
      (drep h (dsnoc ys i u k v) \<longleftrightarrow> drep h ys \<and> bh_tuples h u = Some (Some (root k), Some (root v)) \<and> ben_rep h k \<and> ben_rep h v) \<and>
      dcells (dsnoc ys i u k v) = dcells ys @ C_item i # C_tuple u # cells k @ cells v"
  by (induction r and xs and ys) (auto simp: cells_def)

text \<open>\<open>list_put\<close> writes the new item and the one that was last.\<close>

lemma list_put_frame:
  assumes "linked h L xs" "list_put h L new v = Inr (h', L', r)" "b \<noteq> new" "b \<notin> fst ` set xs"
  shows "h' b = h b"
proof (cases "xs = []")
  case True
  then show ?thesis using assms by (auto simp: list_put_def linked_def split: if_splits)
next
  case False
  then have "l_stop L = Some (fst (last xs))" using assms(1) seg_last by (fastforce simp: linked_def)
  moreover have "b \<noteq> fst (last xs)" using assms(4) False by auto
  ultimately show ?thesis
    using assms(2,3) by (auto simp: list_put_def set_next_def deref_def bindr_eq_Inr split: if_splits option.splits)
qed

lemma put_item_last:
  assumes L: "list_at h l xs" and i: "bh_items h i = None" and room: "length xs < 2 ^ 63 - 1"
  shows "\<exists>h'. put_item (Some l) i p h = Inr (Some i, h') \<and> list_at h' l (xs @ [(i, p)]) \<and>
    (\<forall>c. c \<noteq> C_list l \<longrightarrow> c \<noteq> C_item i \<longrightarrow> c \<notin> C_item ` fst ` set xs \<longrightarrow> cell_at h' c = cell_at h c)"
proof -
  obtain L where L: "bh_lists h l = Some L" "linked (bh_items h) L xs" using L by (auto simp: list_at_def)
  obtain h1 L1 where p: "list_put (bh_items h) L i p = Inr (h1, L1, Some i)" "linked h1 L1 (xs @ [(i, p)])"
    using list_put_linked[OF L(2) i room] by blast
  let ?h = "h\<lparr>bh_items := h1, bh_lists := (bh_lists h)(l \<mapsto> L1)\<rparr>"
  have "cell_at ?h c = cell_at h c" if "c \<noteq> C_list l" "c \<noteq> C_item i" "c \<notin> C_item ` fst ` set xs" for c
  proof (cases c)
    case (C_item b)
    then show ?thesis using that list_put_frame[OF L(2) p(1), of b] by auto
  qed (use that in auto)
  moreover have "put_item (Some l) i p h = Inr (Some i, ?h)" using L(1) p(1) by (simp add: put_item_def load_def)
  ultimately show ?thesis using p(2) by (auto simp: list_at_def)
qed

lemma members_kept:
  assumes c: "\<forall>c. c \<noteq> C_list l \<longrightarrow> c \<noteq> C_item i \<longrightarrow> c \<notin> C_item ` fst ` set xs \<longrightarrow> cell_at h' c = cell_at h c"
    and t: "ben_rep h t" "C_list l \<notin> set (cells t)" "C_item i \<notin> set (cells t)" "C_item ` fst ` set xs \<inter> set (cells t) = {}"
  shows "ben_rep h' t"
proof (rule rep_cong(1)[OF _ t(1)])
  fix d assume d: "d \<in> set (cells t)"
  have "d \<noteq> C_list l" "d \<noteq> C_item i" "d \<notin> C_item ` fst ` set xs" using t(2-4) d by blast+
  then show "cell_at h' d = cell_at h d" using c[rule_format, of d] by simp
qed

text \<open>\<open>ben_list\<close> appends what \<open>Ben\<close> appends.\<close>

lemma ben_list_refines:
  assumes r: "ben_rep h (T_list a l xs)" "ben_rep h t" and d: "distinct (cells (T_list a l xs) @ C_item i # cells t)"
    and i: "bh_items h i = None" and room: "length (lpairs xs) < 2 ^ 63 - 1"
  shows "\<exists>h'. ben_list_at (Some a) (Some (root t)) i h = Inr h' \<and> ben_rep h' (T_list a l (lsnoc xs i t)) \<and>
    ben_list (val_of (T_list a l xs)) (Some (val_of t)) = Inr (val_of (T_list a l (lsnoc xs i t))) \<and>
    cells (T_list a l (lsnoc xs i t)) = cells (T_list a l xs) @ C_item i # cells t \<and>
    (\<forall>c. c \<notin> set (cells (T_list a l (lsnoc xs i t))) \<longrightarrow> cell_at h' c = cell_at h c)"
proof -
  have node: "bh_nodes h a = Some (N_list (Some l))" and l: "list_at h l (lpairs xs)" and m: "lrep h xs" using r(1) by simp_all
  obtain h' where h': "put_item (Some l) i (Some (root t)) h = Inr (Some i, h')" "list_at h' l (lpairs xs @ [(i, Some (root t))])"
      "\<forall>c. c \<noteq> C_list l \<longrightarrow> c \<noteq> C_item i \<longrightarrow> c \<notin> C_item ` fst ` set (lpairs xs) \<longrightarrow> cell_at h' c = cell_at h c"
    using put_item_last[OF l i room] by blast
  have items: "C_item ` fst ` set (lpairs xs) \<subseteq> set (lcells xs)" using pairs_cells(2)[of _ xs] by auto
  have "ben_rep h' t" using d items by (intro members_kept[OF h'(3) r(2)]) (auto simp: cells_def)
  moreover have "lrep h' xs"
  proof (rule rep_cong(2)[OF _ m])
    fix c assume c: "c \<in> set (lsubs xs)"
    have "c \<noteq> C_list l" "c \<noteq> C_item i" using subs_cells(2)[OF c] d by (auto simp: cells_def)
    moreover have "c \<notin> C_item ` fst ` set (lpairs xs)" using items_not_subs(2)[of xs] c d by (auto simp: cells_def)
    ultimately show "cell_at h' c = cell_at h c" using h'(3) by blast
  qed
  moreover have "bh_nodes h' a = Some (N_list (Some l))" using h'(3)[rule_format, of "C_node a"] node by auto
  ultimately have "ben_rep h' (T_list a l (lsnoc xs i t))" using h'(2) by (simp add: snoc_simps(2))
  moreover have cells: "cells (T_list a l (lsnoc xs i t)) = cells (T_list a l xs) @ C_item i # cells t"
    by (simp add: cells_def snoc_simps(2))
  moreover have "cell_at h' c = cell_at h c" if "c \<notin> set (cells (T_list a l (lsnoc xs i t)))" for c
    using that h'(3) items unfolding cells by (auto simp: cells_def)
  moreover have "ben_list_at (Some a) (Some (root t)) i h = Inr h'" using node h'(1) by (simp add: ben_list_at_def load_def)
  ultimately show ?thesis by (auto simp: snoc_simps(2))
qed

text \<open>In memory, \<open>ben_dict\<close> does what \<open>Ben\<close> says: on a dictionary, a key and a value that share no record,
  with a free tuple and item, it does not fault; the dictionary then consists of its old records, the item, the
  tuple and the records of key and value, represents the dictionary with the new pair at its end, and nothing
  else in memory has changed.\<close>

lemma ben_dict_refines:
  assumes r: "ben_rep h (T_dict a l xs)" "ben_rep h (T_str b s)" "ben_rep h t"
    and d: "distinct (cells (T_dict a l xs) @ C_item i # C_tuple u # cells (T_str b s) @ cells t)"
    and i: "bh_items h i = None" and room: "length (dpairs xs) < 2 ^ 63 - 1"
  shows "\<exists>h'. ben_dict_at (Some a) (Some b) (Some (root t)) u i h = Inr h' \<and> ben_rep h' (T_dict a l (dsnoc xs i u (T_str b s) t)) \<and>
    ben_dict (val_of (T_dict a l xs)) (val_of (T_str b s)) (Some (val_of t)) = Inr (val_of (T_dict a l (dsnoc xs i u (T_str b s) t))) \<and>
    cells (T_dict a l (dsnoc xs i u (T_str b s) t)) = cells (T_dict a l xs) @ C_item i # C_tuple u # cells (T_str b s) @ cells t \<and>
    (\<forall>c. c \<notin> set (cells (T_dict a l (dsnoc xs i u (T_str b s) t))) \<longrightarrow> cell_at h' c = cell_at h c)"
proof -
  let ?k = "T_str b s" and ?h = "tuple_init u (Some b) (Some (root t)) h"
  have node: "bh_nodes h a = Some (N_dict (Some l))" and l: "list_at h l (dpairs xs)" and m: "drep h xs" using r(1) by simp_all
  have init: "cell_at ?h c = cell_at h c" if "c \<noteq> C_tuple u" for c using that by (simp add: tuple_init_def)
  have "list_at ?h l (dpairs xs)" "bh_items ?h i = None" using l i by (simp_all add: list_at_def tuple_init_def)
  from put_item_last[OF this room] obtain h' where
    h': "put_item (Some l) i (Some u) ?h = Inr (Some i, h')" "list_at h' l (dpairs xs @ [(i, Some u)])"
      "\<forall>c. c \<noteq> C_list l \<longrightarrow> c \<noteq> C_item i \<longrightarrow> c \<notin> C_item ` fst ` set (dpairs xs) \<longrightarrow> cell_at h' c = cell_at ?h c" by blast
  have items: "C_item ` fst ` set (dpairs xs) \<subseteq> set (dcells xs)" using pairs_cells(3)[of _ xs] by auto
  have kept: "ben_rep h' v" if "ben_rep h v" "C_tuple u \<notin> set (cells v)" "C_list l \<notin> set (cells v)" "C_item i \<notin> set (cells v)"
    "C_item ` fst ` set (dpairs xs) \<inter> set (cells v) = {}" for v
  proof (rule members_kept[OF h'(3) _ that(3-5)])
    show "ben_rep ?h v" by (rule rep_cong(1)[OF _ that(1)]) (use init that(2) in metis)
  qed
  have "ben_rep h' ?k" using d items by (intro kept[OF r(2)]) (auto simp: cells_def simp del: rest.simps(2))
  moreover have "ben_rep h' t" using d items by (intro kept[OF r(3)]) (auto simp: cells_def simp del: rest.simps(2))
  moreover have "drep h' xs"
  proof (rule rep_cong(3)[OF _ m])
    fix c assume c: "c \<in> set (dsubs xs)"
    have "c \<noteq> C_list l" "c \<noteq> C_item i" "c \<noteq> C_tuple u" using subs_cells(3)[OF c] d by (auto simp: cells_def)
    moreover have "c \<notin> C_item ` fst ` set (dpairs xs)" using items_not_subs(3)[of xs] c d by (auto simp: cells_def)
    ultimately show "cell_at h' c = cell_at h c" using h'(3) init by auto
  qed
  moreover have "bh_nodes h' a = Some (N_dict (Some l))" "bh_tuples h' u = Some (Some b, Some (root t))"
    using h'(3)[rule_format, of "C_node a"] h'(3)[rule_format, of "C_tuple u"] node by (auto simp: tuple_init_def)
  ultimately have "ben_rep h' (T_dict a l (dsnoc xs i u ?k t))" using h'(2) by (simp add: snoc_simps(3))
  moreover have cells: "cells (T_dict a l (dsnoc xs i u ?k t)) = cells (T_dict a l xs) @ C_item i # C_tuple u # cells ?k @ cells t"
    by (simp add: cells_def snoc_simps(3))
  moreover have "cell_at h' c = cell_at h c" if "c \<notin> set (cells (T_dict a l (dsnoc xs i u ?k t)))" for c
  proof -
    have c: "c \<noteq> C_list l" "c \<noteq> C_item i" "c \<noteq> C_tuple u" "c \<notin> set (dcells xs)" using that unfolding cells by (simp_all add: cells_def)
    then have "c \<notin> C_item ` fst ` set (dpairs xs)" using items by blast
    then show ?thesis using h'(3)[rule_format, of c] init[of c] c by simp
  qed
  moreover have "ben_dict_at (Some a) (Some b) (Some (root t)) u i h = Inr h'"
    using node r(2) h'(1) by (simp add: ben_dict_at_def load_def)
  ultimately show ?thesis by (auto simp: snoc_simps(3))
qed

definition q_heap :: BHEAP where
  "q_heap = \<lparr>bh_nodes = [1 \<mapsto> N_dict (Some 2), 5 \<mapsto> N_str (Some 6), 8 \<mapsto> N_int 1], bh_lists = [2 \<mapsto> list_init],
     bh_items = (\<lambda>_. None), bh_tuples = (\<lambda>_. None), bh_strs = [6 \<mapsto> (Some 7, 1)], bh_chars = [7 \<mapsto> [113, 0]]\<rparr>"

lemma ben_dict_refines_example:
  "\<exists>h'. ben_dict_at (Some 1) (Some 5) (Some 8) 4 3 q_heap = Inr h' \<and>
    ben_rep h' (T_dict 1 2 (D_cons 3 4 (T_str 5 (Some (6, 7, [113]))) (T_int 8 1) D_nil))"
proof -
  have "ben_rep q_heap (T_dict 1 2 D_nil)" "ben_rep q_heap (T_str 5 (Some (6, 7, [113])))" "ben_rep q_heap (T_int 8 1)"
    by (simp_all add: q_heap_def list_at_def linked_init)
  from ben_dict_refines[OF this, of 3 4] show ?thesis by (auto simp: cells_def q_heap_def)
qed

end
