(* ===== verification/Shutdown.thy ===== *)
theory Shutdown
  imports BenFree
begin

text \<open>
  The end of the daemon: what \<open>main\<close> releases after \<open>udp_stop\<close> (\<open>src/src/main.c\<close>), with the \<open>_free\<close> functions of
  the components, \<open>hash_free\<close> of \<open>src/src/hash.c\<close>, \<open>bckt_free\<close> of \<open>src/src/bucket.c\<close>, \<open>conf_free\<close> of
  \<open>src/src/conf.c\<close> and the objects of \<open>src/src/thrd.c\<close>. Memory maps addresses to what is allocated there;
  only the pointers of a record matter here. The items of lists are those of \<open>Linklist\<close>.
\<close>

section \<open>Records\<close>

record CONFP =
  c_user :: "addr option"
  c_pid_file :: "addr option"
  c_hostname :: "addr option"
  c_bootstrap_node :: "addr option"
  c_bootstrap_port :: "addr option"
  c_dns_port :: "addr option"
  c_dns_addr :: "addr option"
  c_dns_ifce :: "addr option"
  c_web_port :: "addr option"
  c_web_addr :: "addr option"
  c_web_ifce :: "addr option"
  c_port :: "addr option"
  c_interface :: "addr option"

record MAINP =
  m_conf :: "addr option"
  m_udp :: "addr option"
  m_p2p :: "addr option"
  m_cache :: "addr option"
  m_nbhd :: "addr option"
  m_lkps :: "addr option"
  m_database :: "addr option"
  m_announce :: "addr option"
  m_status :: nat

text \<open>\<open>O_store\<close> is the list and the hash of \<open>struct obj_cache\<close>, \<open>obj_database\<close>, \<open>obj_announce\<close> and \<open>LOOKUPS\<close>;
  \<open>O_buckets\<close> holds the \<open>pairs\<close> of an array of \<open>BUCKET\<close>s; \<open>O_buck\<close> is a \<open>BUCK\<close> with its list of nodes;
  \<open>O_block\<close> has no pointer that is followed.\<close>

datatype sobj = O_block | O_list LIST | O_store "addr option" "addr option" | O_hash nat "addr option"
  | O_buckets "addr option list" | O_buck "addr option" | O_p2p "addr option" | O_conf CONFP | O_main MAINP

record SHEAP =
  s_objs :: "addr \<rightharpoonup> sobj"
  s_items :: "addr option heap"

definition myfree_at :: "addr option \<Rightarrow> SHEAP \<Rightarrow> SHEAP res" where
  "myfree_at p h = bindr (release (s_objs h) p) (\<lambda>m. Inr (h\<lparr>s_objs := m\<rparr>))"

primrec myfree_all :: "addr option list \<Rightarrow> SHEAP \<Rightarrow> SHEAP res" where
  "myfree_all [] h = Inr h"
| "myfree_all (p # ps) h = bindr (myfree_at p h) (\<lambda>h. myfree_all ps h)"

text \<open>A record of another kind at an address means that it was freed and used again.\<close>

definition load_list :: "SHEAP \<Rightarrow> addr option \<Rightarrow> LIST res" where
  "load_list h p = bindr (load (s_objs h) p) (\<lambda>x. case x of O_list L \<Rightarrow> Inr L | _ \<Rightarrow> Inl UseAfterFree)"

definition load_main :: "SHEAP \<Rightarrow> addr option \<Rightarrow> MAINP res" where
  "load_main h p = bindr (load (s_objs h) p) (\<lambda>x. case x of O_main m \<Rightarrow> Inr m | _ \<Rightarrow> Inl UseAfterFree)"

section \<open>Semaphores, mutexes and condition variables\<close>

text \<open>\<open>rc\<close> is what the call of the library returns, \<open>a\<close> the address from \<open>myalloc\<close>. The other systems of the
  conditional compilation are left out.\<close>

definition thrd_init :: "int \<Rightarrow> addr \<Rightarrow> SHEAP \<Rightarrow> (addr \<times> SHEAP) res" where
  "thrd_init rc a h = (if rc = - 1 then Inl ExitFailure else Inr (a, h\<lparr>s_objs := (s_objs h)(a \<mapsto> O_block)\<rparr>))"

definition thrd_destroy :: "addr option \<Rightarrow> SHEAP \<Rightarrow> SHEAP res" where
  "thrd_destroy mutex h = (if mutex \<noteq> None then myfree_at mutex h else Inr h)"

definition mutex_init :: "int \<Rightarrow> addr \<Rightarrow> SHEAP \<Rightarrow> (addr \<times> SHEAP) res" where
  "mutex_init rc a h = (if rc \<noteq> 0 then Inl ExitFailure else Inr (a, h\<lparr>s_objs := (s_objs h)(a \<mapsto> O_block)\<rparr>))"

definition mutex_destroy :: "addr option \<Rightarrow> SHEAP \<Rightarrow> SHEAP res" where
  "mutex_destroy mutex h = (if mutex \<noteq> None then myfree_at mutex h else Inr h)"

definition cond_init :: "int \<Rightarrow> addr \<Rightarrow> SHEAP \<Rightarrow> (addr \<times> SHEAP) res" where
  "cond_init rc a h = (if rc \<noteq> 0 then Inl ExitFailure else Inr (a, h\<lparr>s_objs := (s_objs h)(a \<mapsto> O_block)\<rparr>))"

definition cond_destroy :: "addr option \<Rightarrow> SHEAP \<Rightarrow> SHEAP res" where
  "cond_destroy c h = (if c \<noteq> None then myfree_at c h else Inr h)"

section \<open>Lists and hash tables\<close>

definition list_clear_at :: "nat \<Rightarrow> addr option \<Rightarrow> SHEAP \<Rightarrow> SHEAP res" where
  "list_clear_at fuel p h = bindr (load_list h p) (\<lambda>L. bindr (list_clear fuel (s_items h) L) (\<lambda>vs. myfree_all vs h))"

definition list_free_at :: "nat \<Rightarrow> addr option \<Rightarrow> SHEAP \<Rightarrow> SHEAP res" where
  "list_free_at fuel p h = (if p = None then Inr h else bindr (load_list h p) (\<lambda>L.
     bindr (list_free fuel (s_items h) L) (\<lambda>items. myfree_at p (h\<lparr>s_items := items\<rparr>))))"

text \<open>The loop over the array of buckets.\<close>

primrec pairs_loop :: "nat \<Rightarrow> nat \<Rightarrow> addr option \<Rightarrow> SHEAP \<Rightarrow> SHEAP res" where
  "pairs_loop 0 i buckets h = Inr h"
| "pairs_loop (Suc left) i buckets h = bindr (load (s_objs h) buckets) (\<lambda>x. case x of
     O_buckets ps \<Rightarrow> bindr (rd ps i) (\<lambda>p. bindr (myfree_at p h) (\<lambda>h. pairs_loop left (Suc i) buckets h))
   | _ \<Rightarrow> Inl UseAfterFree)"

definition hash_free :: "addr option \<Rightarrow> SHEAP \<Rightarrow> SHEAP res" where
  "hash_free table h = (if table = None then Inr h else bindr (load (s_objs h) table) (\<lambda>x. case x of
     O_hash count buckets \<Rightarrow> bindr (pairs_loop count 0 buckets h) (\<lambda>h.
       bindr (myfree_at buckets h) (\<lambda>h. myfree_at table h))
   | _ \<Rightarrow> Inl UseAfterFree))"

section \<open>The components\<close>

text \<open>The common body of \<open>db_free\<close>, \<open>announce_free\<close>, \<open>lkp_free\<close> and \<open>cache_free\<close>.\<close>

definition store_free :: "nat \<Rightarrow> addr option \<Rightarrow> SHEAP \<Rightarrow> SHEAP res" where
  "store_free fuel p h = bindr (load (s_objs h) p) (\<lambda>x. case x of
     O_store l hash \<Rightarrow> bindr (list_clear_at fuel l h) (\<lambda>h. bindr (list_free_at fuel l h) (\<lambda>h.
       bindr (hash_free hash h) (\<lambda>h. myfree_at p h)))
   | _ \<Rightarrow> Inl UseAfterFree)"

definition db_free :: "nat \<Rightarrow> addr option \<Rightarrow> SHEAP \<Rightarrow> SHEAP res" where
  "db_free fuel main h = bindr (load_main h main) (\<lambda>m. store_free fuel (m_database m) h)"

definition announce_free :: "nat \<Rightarrow> addr option \<Rightarrow> SHEAP \<Rightarrow> SHEAP res" where
  "announce_free fuel main h = bindr (load_main h main) (\<lambda>m. store_free fuel (m_announce m) h)"

definition lkp_free :: "nat \<Rightarrow> addr option \<Rightarrow> SHEAP \<Rightarrow> SHEAP res" where
  "lkp_free fuel main h = bindr (load_main h main) (\<lambda>m. store_free fuel (m_lkps m) h)"

definition cache_free :: "nat \<Rightarrow> addr option \<Rightarrow> SHEAP \<Rightarrow> SHEAP res" where
  "cache_free fuel main h = bindr (load_main h main) (\<lambda>m. store_free fuel (m_cache m) h)"

primrec bckt_loop :: "nat \<Rightarrow> addr option \<Rightarrow> SHEAP \<Rightarrow> SHEAP res" where
  "bckt_loop 0 i h = Inl OutOfFuel"
| "bckt_loop (Suc fuel) i h = (if i = None then Inr h else bindr (deref (s_items h) i) (\<lambda>it.
     bindr (load (s_objs h) (i_val it)) (\<lambda>x. case x of
       O_buck nodes \<Rightarrow> bindr (list_free_at fuel nodes h) (\<lambda>h. bindr (myfree_at (i_val it) h) (\<lambda>h.
         bindr (list_next (s_items h) i) (\<lambda>i. bckt_loop fuel i h)))
     | _ \<Rightarrow> Inl UseAfterFree)))"

definition bckt_free :: "nat \<Rightarrow> addr option \<Rightarrow> SHEAP \<Rightarrow> SHEAP res" where
  "bckt_free fuel thislist h = bindr (load_list h thislist) (\<lambda>L. bindr (bckt_loop fuel (l_start L) h) (\<lambda>h.
     list_free_at fuel thislist h))"

definition nbhd_free :: "nat \<Rightarrow> addr option \<Rightarrow> SHEAP \<Rightarrow> SHEAP res" where
  "nbhd_free fuel main h = bindr (load_main h main) (\<lambda>m. bckt_free fuel (m_nbhd m) h)"

definition p2p_free :: "addr option \<Rightarrow> SHEAP \<Rightarrow> SHEAP res" where
  "p2p_free main h = bindr (load_main h main) (\<lambda>m. bindr (load (s_objs h) (m_p2p m)) (\<lambda>x. case x of
     O_p2p mutex \<Rightarrow> bindr (mutex_destroy mutex h) (\<lambda>h. myfree_at (m_p2p m) h) | _ \<Rightarrow> Inl UseAfterFree))"

definition udp_free :: "addr option \<Rightarrow> SHEAP \<Rightarrow> SHEAP res" where
  "udp_free main h = bindr (load_main h main) (\<lambda>m. myfree_at (m_udp m) h)"

definition conf_free :: "addr option \<Rightarrow> SHEAP \<Rightarrow> SHEAP res" where
  "conf_free main h = bindr (load_main h main) (\<lambda>m. if m_conf m = None then Inr h
     else bindr (load (s_objs h) (m_conf m)) (\<lambda>x. case x of
       O_conf c \<Rightarrow> myfree_all [c_user c, c_pid_file c, c_hostname c, c_bootstrap_node c, c_bootstrap_port c,
         c_dns_port c, c_dns_addr c, c_dns_ifce c, c_web_port c, c_web_addr c, c_web_ifce c, c_port c, c_interface c, m_conf m] h
     | _ \<Rightarrow> Inl UseAfterFree))"

definition main_free :: "addr option \<Rightarrow> SHEAP \<Rightarrow> SHEAP res" where
  "main_free main h = myfree_at main h"

text \<open>The end of \<open>main\<close>.\<close>

definition main_release :: "nat \<Rightarrow> addr option \<Rightarrow> SHEAP \<Rightarrow> SHEAP res" where
  "main_release fuel main h = bindr (db_free fuel main h) (\<lambda>h. bindr (announce_free fuel main h) (\<lambda>h.
     bindr (lkp_free fuel main h) (\<lambda>h. bindr (nbhd_free fuel main h) (\<lambda>h. bindr (cache_free fuel main h) (\<lambda>h.
     bindr (p2p_free main h) (\<lambda>h. bindr (udp_free main h) (\<lambda>h. bindr (conf_free main h) (\<lambda>h. main_free main h))))))))"

text \<open>\<open>main_init\<close>: nothing is there yet, and the daemon is online.\<close>

definition main_init :: MAINP where
  "main_init = \<lparr>m_conf = None, m_udp = None, m_p2p = None, m_cache = None, m_nbhd = None, m_lkps = None,
     m_database = None, m_announce = None, m_status = 0\<rparr>"

text \<open>The test with which the loops of the front ends begin: \<open>_main->status == MAIN_ONLINE\<close>.\<close>

definition front_end_test :: "addr option \<Rightarrow> SHEAP \<Rightarrow> bool res" where
  "front_end_test main h = bindr (load_main h main) (\<lambda>m. Inr (m_status m = 0))"

section \<open>Memory cell by cell\<close>

datatype scell = Obj addr | Item addr

datatype scontent = V_obj sobj | V_link "addr option ITEM"

fun scell_at :: "SHEAP \<Rightarrow> scell \<Rightarrow> scontent option" where
  "scell_at h (Obj a) = map_option V_obj (s_objs h a)"
| "scell_at h (Item a) = map_option V_link (s_items h a)"

lemma scell_at_eq [simp]:
  "map_option V_obj x = map_option V_obj y \<longleftrightarrow> x = y" "map_option V_link x' = map_option V_link y' \<longleftrightarrow> x' = y'"
  by (auto simp: map_option_case split: option.splits)

definition scleared :: "scell set \<Rightarrow> SHEAP \<Rightarrow> SHEAP \<Rightarrow> bool" where
  "scleared C h h' \<longleftrightarrow> (\<forall>c. scell_at h' c = (if c \<in> C then None else scell_at h c))"

lemma scleared_trans: "scleared A h h1 \<Longrightarrow> scleared B h1 h2 \<Longrightarrow> scleared (A \<union> B) h h2"
  by (simp add: scleared_def)

lemma scleared_refl [simp]: "scleared {} h h"
  by (simp add: scleared_def)

lemma scleared_obj: "scleared C h h' \<Longrightarrow> Obj a \<notin> C \<Longrightarrow> s_objs h' a = s_objs h a"
  unfolding scleared_def by (metis scell_at.simps(1) scell_at_eq(1))

lemma scleared_item: "scleared C h h' \<Longrightarrow> Item a \<notin> C \<Longrightarrow> s_items h' a = s_items h a"
  unfolding scleared_def by (metis scell_at.simps(2) scell_at_eq(2))

lemma scleared_objs: "scleared (Obj ` A) h h' \<Longrightarrow> a \<notin> A \<Longrightarrow> s_objs h' a = s_objs h a"
  by (rule scleared_obj) auto

lemma scleared_live:
  assumes "scleared {Obj a} h h'" "a \<notin> B" "\<forall>b \<in> B. s_objs h b \<noteq> None"
  shows "\<forall>b \<in> B. s_objs h' b \<noteq> None"
proof
  fix b assume b: "b \<in> B"
  then have "s_objs h' b = s_objs h b" using assms(2) by (intro scleared_obj[OF assms(1)]) auto
  then show "s_objs h' b \<noteq> None" using assms(3) b by simp
qed

lemma myfree_at_cleared: "s_objs h a \<noteq> None \<Longrightarrow> \<exists>h'. myfree_at (Some a) h = Inr h' \<and> scleared {Obj a} h h'"
proof -
  assume "s_objs h a \<noteq> None"
  moreover have "scell_at (h\<lparr>s_objs := (s_objs h)(a := None)\<rparr>) c = (if c = Obj a then None else scell_at h c)" for c
    by (cases c) auto
  ultimately show ?thesis by (auto simp: myfree_at_def release_def scleared_def)
qed

lemma myfree_at_None [simp]: "myfree_at None h = Inr h"
  by (simp add: myfree_at_def release_def)

text \<open>The addresses of a list of pointers.\<close>

primrec addrs :: "addr option list \<Rightarrow> addr list" where
  "addrs [] = []" | "addrs (p # ps) = (case p of None \<Rightarrow> [] | Some a \<Rightarrow> [a]) @ addrs ps"

lemma addrs_Some [simp]: "addrs (map (\<lambda>x. Some (f x)) xs) = map f xs"
  by (induction xs) auto

lemma myfree_all_cleared:
  "distinct (addrs ps) \<Longrightarrow> \<forall>a \<in> set (addrs ps). s_objs h a \<noteq> None \<Longrightarrow>
    \<exists>h'. myfree_all ps h = Inr h' \<and> scleared (Obj ` set (addrs ps)) h h'"
proof (induction ps arbitrary: h)
  case (Cons p ps)
  show ?case
  proof (cases p)
    case None
    then show ?thesis using Cons by simp
  next
    case (Some a)
    obtain h1 where h1: "myfree_at (Some a) h = Inr h1" "scleared {Obj a} h h1"
      using myfree_at_cleared[of h a] Cons.prems(2) Some by auto
    have "\<forall>b \<in> set (addrs ps). s_objs h1 b \<noteq> None"
      using Cons.prems Some by (intro scleared_live[OF h1(2)]) auto
    then obtain h2 where h2: "myfree_all ps h1 = Inr h2" "scleared (Obj ` set (addrs ps)) h1 h2"
      using Cons.IH[of h1] Cons.prems(1) Some by auto
    show ?thesis using scleared_trans[OF h1(2) h2(2)] h1(1) h2(1) Some by simp
  qed
qed simp

section \<open>Lists and hash tables are released\<close>

lemma list_free_exactly:
  "linked h L xs \<Longrightarrow> length xs < fuel \<Longrightarrow>
    \<exists>h'. list_free fuel h L = Inr h' \<and> (\<forall>a. h' a = (if a \<in> fst ` set xs then None else h a))"
proof (induction xs arbitrary: fuel h L)
  case Nil
  then show ?case by (cases fuel) (auto simp: linked_def)
next
  case (Cons c xs)
  obtain a v where c: "c = (a, v)" by (cases c)
  obtain n where n: "fuel = Suc n" "length xs < n" using Cons.prems(2) by (cases fuel) auto
  obtain h1 L1 where d: "list_del h L (Some a) = Inr (h1, L1, l_start L1)" "linked h1 L1 xs" "h1 a = None"
      "\<forall>b. b \<noteq> a \<longrightarrow> b \<notin> fst ` set xs \<longrightarrow> h1 b = h b"
    using list_del_first[of h L a v xs] Cons.prems(1) c by auto
  obtain h2 where h2: "list_free n h1 L1 = Inr h2" "\<forall>b. h2 b = (if b \<in> fst ` set xs then None else h1 b)"
    using Cons.IH[OF d(2) n(2)] by blast
  have "l_start L = Some a" using Cons.prems(1) by (simp add: linked_def c)
  then have "list_free fuel h L = Inr h2" using d(1) h2(1) n(1) by simp
  moreover have "h2 b = (if b \<in> fst ` set (c # xs) then None else h b)" for b
    using h2(2) d(3,4) by (cases "b = a") (auto simp: c)
  ultimately show ?case by blast
qed

lemma list_free_at_cleared:
  assumes L: "s_objs h l = Some (O_list L)" "linked (s_items h) L xs" "length xs < fuel"
  shows "\<exists>h'. list_free_at fuel (Some l) h = Inr h' \<and> scleared (insert (Obj l) (Item ` fst ` set xs)) h h'"
proof -
  obtain items where items: "list_free fuel (s_items h) L = Inr items" "\<forall>a. items a = (if a \<in> fst ` set xs then None else s_items h a)"
    using list_free_exactly[OF L(2,3)] by blast
  let ?h = "h\<lparr>s_items := items\<rparr>"
  obtain h' where h': "myfree_at (Some l) ?h = Inr h'" "scleared {Obj l} ?h h'"
    using myfree_at_cleared[of ?h l] L(1) by auto
  have "scell_at ?h c = (if c \<in> Item ` fst ` set xs then None else scell_at h c)" for c
    using items(2) by (cases c) (auto simp: image_iff)
  then have "scleared (Item ` fst ` set xs) h ?h" by (simp add: scleared_def)
  from scleared_trans[OF this h'(2)] have "scleared (insert (Obj l) (Item ` fst ` set xs)) h h'" by simp
  moreover have "list_free_at fuel (Some l) h = Inr h'" using L(1) items(1) h'(1) by (simp add: list_free_at_def load_list_def load_def)
  ultimately show ?thesis by blast
qed

lemma list_clear_at_cleared:
  assumes L: "s_objs h l = Some (O_list L)" "linked (s_items h) L xs" "length xs < fuel"
    and vals: "distinct (addrs (map snd xs))" "\<forall>a \<in> set (addrs (map snd xs)). s_objs h a \<noteq> None"
  shows "\<exists>h'. list_clear_at fuel (Some l) h = Inr h' \<and> scleared (Obj ` set (addrs (map snd xs))) h h'"
proof -
  have "list_clear fuel (s_items h) L = Inr (map snd xs)"
    using list_clear_linked[of "s_items h" None "l_start L" xs] L(2,3) by (auto simp: linked_def list_clear_def)
  then show ?thesis using myfree_all_cleared[OF vals] L(1) by (simp add: list_clear_at_def load_list_def load_def)
qed

lemma pairs_loop_cleared:
  "i + left = length ps \<Longrightarrow> s_objs h b = Some (O_buckets ps) \<Longrightarrow> distinct (b # addrs (drop i ps)) \<Longrightarrow>
    \<forall>a \<in> set (addrs (drop i ps)). s_objs h a \<noteq> None \<Longrightarrow>
    \<exists>h'. pairs_loop left i (Some b) h = Inr h' \<and> scleared (Obj ` set (addrs (drop i ps))) h h'"
proof (induction left arbitrary: i h)
  case (Suc left)
  have drop: "drop i ps = ps ! i # drop (Suc i) ps" using Suc.prems(1) by (simp add: Cons_nth_drop_Suc)
  have rd: "rd ps i = Inr (ps ! i)" using Suc.prems(1) by simp
  show ?case
  proof (cases "ps ! i")
    case None
    then show ?thesis using Suc.IH[of "Suc i" h] Suc.prems rd by (simp add: drop load_def)
  next
    case (Some a)
    have a: "s_objs h a \<noteq> None" "a \<noteq> b" "a \<notin> set (addrs (drop (Suc i) ps))" "b \<notin> set (addrs (drop (Suc i) ps))"
      using Suc.prems(3,4) Some by (auto simp: drop)
    obtain h1 where h1: "myfree_at (Some a) h = Inr h1" "scleared {Obj a} h h1" using myfree_at_cleared[OF a(1)] by blast
    have "s_objs h1 b = Some (O_buckets ps)" using scleared_obj[OF h1(2), of b] a(2) Suc.prems(2) by simp
    moreover have "\<forall>c \<in> set (addrs (drop (Suc i) ps)). s_objs h1 c \<noteq> None"
      using a(3) Suc.prems(4) by (intro scleared_live[OF h1(2)]) (auto simp: drop Some)
    ultimately obtain h2 where h2: "pairs_loop left (Suc i) (Some b) h1 = Inr h2" "scleared (Obj ` set (addrs (drop (Suc i) ps))) h1 h2"
      using Suc.IH[of "Suc i" h1] Suc.prems(1,3) by (auto simp: drop Some)
    show ?thesis
      using scleared_trans[OF h1(2) h2(2)] h1(1) h2(1) Some rd Suc.prems(2) by (simp add: drop load_def)
  qed
qed simp

lemma hash_free_cleared:
  assumes m: "s_objs h m = Some (O_hash (length ps) (Some b))" "s_objs h b = Some (O_buckets ps)"
    and ps: "\<forall>a \<in> set (addrs ps). s_objs h a \<noteq> None" "distinct (m # b # addrs ps)"
  shows "\<exists>h'. hash_free (Some m) h = Inr h' \<and> scleared (Obj ` set (m # b # addrs ps)) h h'"
proof -
  obtain h1 where h1: "pairs_loop (length ps) 0 (Some b) h = Inr h1" "scleared (Obj ` set (addrs ps)) h h1"
    using pairs_loop_cleared[of 0 "length ps" ps h b] m(2) ps by auto
  have "s_objs h1 b \<noteq> None" "s_objs h1 m \<noteq> None" using scleared_objs[OF h1(2)] m ps(2) by auto
  moreover from this(1) obtain h2 where h2: "myfree_at (Some b) h1 = Inr h2" "scleared {Obj b} h1 h2" using myfree_at_cleared by blast
  ultimately have "s_objs h2 m \<noteq> None" using scleared_obj[OF h2(2), of m] ps(2) by auto
  then obtain h3 where h3: "myfree_at (Some m) h2 = Inr h3" "scleared {Obj m} h2 h3" using myfree_at_cleared by blast
  have "scleared (Obj ` set (m # b # addrs ps)) h h3"
    using scleared_trans[OF scleared_trans[OF h1(2) h2(2)] h3(2)] by (simp add: insert_commute Un_commute)
  then show ?thesis using m(1) h1(1) h2(1) h3(1) by (simp add: hash_free_def load_def)
qed

section \<open>Components are released\<close>

text \<open>Where the records of a component are: its structure, its list with items and payloads, its hash with the
  array of buckets and their arrays of pairs.\<close>

record STORE =
  st_obj :: addr
  st_list :: addr
  st_items :: "(addr \<times> addr) list"
  st_hash :: addr
  st_buckets :: addr
  st_pairs :: "addr option list"

definition cell_list :: "addr list \<Rightarrow> addr list \<Rightarrow> scell list" where
  "cell_list os is = map Obj os @ map Item is"

lemma cell_list [simp]:
  "Obj a \<in> set (cell_list os is) \<longleftrightarrow> a \<in> set os" "Item a \<in> set (cell_list os is) \<longleftrightarrow> a \<in> set is"
  "distinct (cell_list os is) \<longleftrightarrow> distinct os \<and> distinct is"
  by (auto simp: cell_list_def distinct_map inj_on_def)

definition store_objs :: "STORE \<Rightarrow> addr list" where
  "store_objs s = st_obj s # st_list s # map snd (st_items s) @ st_hash s # st_buckets s # addrs (st_pairs s)"

definition store_cells :: "STORE \<Rightarrow> scell list" where
  "store_cells s = cell_list (store_objs s) (map fst (st_items s))"

definition list_holds :: "SHEAP \<Rightarrow> addr \<Rightarrow> (addr \<times> addr option) list \<Rightarrow> bool" where
  "list_holds h l xs \<longleftrightarrow> (\<exists>L. s_objs h l = Some (O_list L) \<and> linked (s_items h) L xs)"

definition store_rep :: "SHEAP \<Rightarrow> STORE \<Rightarrow> bool" where
  "store_rep h s \<longleftrightarrow> s_objs h (st_obj s) = Some (O_store (Some (st_list s)) (Some (st_hash s))) \<and>
     list_holds h (st_list s) (map (\<lambda>(i, p). (i, Some p)) (st_items s)) \<and> (\<forall>p \<in> snd ` set (st_items s). s_objs h p \<noteq> None) \<and>
     s_objs h (st_hash s) = Some (O_hash (length (st_pairs s)) (Some (st_buckets s))) \<and>
     s_objs h (st_buckets s) = Some (O_buckets (st_pairs s)) \<and> (\<forall>a \<in> set (addrs (st_pairs s)). s_objs h a \<noteq> None)"

definition same_on :: "scell set \<Rightarrow> SHEAP \<Rightarrow> SHEAP \<Rightarrow> bool" where
  "same_on C h h' \<longleftrightarrow> (\<forall>a. Obj a \<in> C \<longrightarrow> s_objs h' a = s_objs h a) \<and> (\<forall>a. Item a \<in> C \<longrightarrow> s_items h' a = s_items h a)"

lemma scleared_same: "scleared D h h' \<Longrightarrow> C \<inter> D = {} \<Longrightarrow> same_on C h h'"
  unfolding same_on_def by (auto intro!: scleared_obj scleared_item)

lemma list_holds_same:
  assumes "same_on C h h'" "Obj l \<in> C" "\<And>a. a \<in> fst ` set xs \<Longrightarrow> Item a \<in> C" "list_holds h l xs"
  shows "list_holds h' l xs"
proof -
  have "\<forall>a \<in> fst ` set xs. s_items h' a = s_items h a" using assms(1,3) by (simp add: same_on_def)
  then show ?thesis using linked_cong[of xs "s_items h'" "s_items h"] assms(1,2,4) by (simp add: list_holds_def same_on_def)
qed

lemma store_rep_same:
  assumes s: "same_on (set (store_cells s)) h h'" and r: "store_rep h s"
  shows "store_rep h' s"
proof -
  have "s_objs h' a = s_objs h a" if "a \<in> set (store_objs s)" for a using s that by (simp add: same_on_def store_cells_def)
  moreover have "list_holds h' (st_list s) (map (\<lambda>(i, p). (i, Some p)) (st_items s))"
    by (rule list_holds_same[OF s]) (use r in \<open>force simp: store_rep_def store_cells_def store_objs_def\<close>)+
  ultimately show ?thesis using r by (simp add: store_rep_def store_objs_def)
qed

text \<open>The payloads of the list are freed first, then its items, then the hash.\<close>

lemma store_free_cleared:
  assumes r: "store_rep h s" and d: "distinct (store_cells s)" and f: "length (st_items s) < fuel"
  shows "\<exists>h'. store_free fuel (Some (st_obj s)) h = Inr h' \<and> scleared (set (store_cells s)) h h'"
proof -
  let ?xs = "map (\<lambda>(i, p). (i, Some p)) (st_items s)" and ?ps = "map snd (st_items s)"
  have vals: "addrs (map snd ?xs) = ?ps" by (simp add: comp_def case_prod_beta')
  have fst: "fst ` set ?xs = fst ` set (st_items s)" by force
  obtain L where L: "s_objs h (st_list s) = Some (O_list L)" "linked (s_items h) L ?xs"
    using r by (auto simp: store_rep_def list_holds_def)
  have dist: "distinct (st_obj s # st_list s # ?ps @ st_hash s # st_buckets s # addrs (st_pairs s))"
    using d by (simp add: store_cells_def store_objs_def)
  have live: "\<forall>p \<in> set ?ps. s_objs h p \<noteq> None" using r by (auto simp: store_rep_def)
  then obtain h1 where h1: "list_clear_at fuel (Some (st_list s)) h = Inr h1" "scleared (Obj ` set ?ps) h h1"
    using list_clear_at_cleared[OF L, of fuel] f dist unfolding vals by auto
  have "s_objs h1 (st_list s) = Some (O_list L)" using scleared_objs[OF h1(2), of "st_list s"] dist L(1) by auto
  moreover have "s_items h1 = s_items h" using scleared_item[OF h1(2)] by (auto simp: fun_eq_iff)
  ultimately obtain h2 where h2: "list_free_at fuel (Some (st_list s)) h1 = Inr h2"
      "scleared (insert (Obj (st_list s)) (Item ` fst ` set ?xs)) h1 h2"
    using list_free_at_cleared[of h1 "st_list s" L ?xs fuel] L(2) f by auto
  have c12: "scleared (Obj ` set ?ps \<union> insert (Obj (st_list s)) (Item ` fst ` set (st_items s))) h h2"
    using scleared_trans[OF h1(2) h2(2)] by (simp only: fst)
  have kept: "s_objs h2 a = s_objs h a" if "a \<notin> set ?ps" "a \<noteq> st_list s" for a
    using that by (intro scleared_obj[OF c12]) auto
  have hash: "s_objs h2 (st_hash s) = Some (O_hash (length (st_pairs s)) (Some (st_buckets s)))"
      "s_objs h2 (st_buckets s) = Some (O_buckets (st_pairs s))"
    using r dist kept[of "st_hash s"] kept[of "st_buckets s"] by (auto simp: store_rep_def)
  have "\<forall>a \<in> set (addrs (st_pairs s)). s_objs h2 a \<noteq> None"
  proof
    fix a assume a: "a \<in> set (addrs (st_pairs s))"
    then have "s_objs h2 a = s_objs h a" using dist by (intro kept) auto
    then show "s_objs h2 a \<noteq> None" using r a by (simp add: store_rep_def)
  qed
  then obtain h3 where h3: "hash_free (Some (st_hash s)) h2 = Inr h3"
      "scleared (Obj ` set (st_hash s # st_buckets s # addrs (st_pairs s))) h2 h3"
    using hash_free_cleared[OF hash] dist by auto
  have "s_objs h3 (st_obj s) \<noteq> None"
    using scleared_objs[OF h3(2), of "st_obj s"] kept[of "st_obj s"] dist r by (auto simp: store_rep_def)
  then obtain h4 where h4: "myfree_at (Some (st_obj s)) h3 = Inr h4" "scleared {Obj (st_obj s)} h3 h4"
    using myfree_at_cleared by blast
  have "set (store_cells s) = Obj ` set ?ps \<union> insert (Obj (st_list s)) (Item ` fst ` set (st_items s)) \<union>
      Obj ` set (st_hash s # st_buckets s # addrs (st_pairs s)) \<union> {Obj (st_obj s)}"
    by (auto simp: store_cells_def store_objs_def cell_list_def)
  then have "scleared (set (store_cells s)) h h4"
    using scleared_trans[OF scleared_trans[OF c12 h3(2)] h4(2)] by simp
  then show ?thesis using r h1(1) h2(1) h3(1) h4(1) by (auto simp: store_free_def load_def store_rep_def)
qed

text \<open>The table of neighbours: its list, and for each bucket the item, the \<open>BUCK\<close>, its list and the items of
  that. The nodes themselves are not among the records that are released.\<close>

record BUCKP =
  b_item :: addr
  b_obj :: addr
  b_list :: addr
  b_items :: "(addr \<times> addr option) list"

definition buck_cells :: "BUCKP \<Rightarrow> scell list" where
  "buck_cells b = cell_list [b_obj b, b_list b] (map fst (b_items b))"

definition nbhd_cells :: "addr \<Rightarrow> BUCKP list \<Rightarrow> scell list" where
  "nbhd_cells l bs = Obj l # map (Item \<circ> b_item) bs @ concat (map buck_cells bs)"

definition buck_rep :: "SHEAP \<Rightarrow> BUCKP \<Rightarrow> bool" where
  "buck_rep h b \<longleftrightarrow> s_objs h (b_obj b) = Some (O_buck (Some (b_list b))) \<and> list_holds h (b_list b) (b_items b)"

definition buck_pairs :: "BUCKP list \<Rightarrow> (addr \<times> addr option) list" where
  "buck_pairs bs = map (\<lambda>b. (b_item b, Some (b_obj b))) bs"

definition nbhd_rep :: "SHEAP \<Rightarrow> addr \<Rightarrow> BUCKP list \<Rightarrow> bool" where
  "nbhd_rep h l bs \<longleftrightarrow> list_holds h l (buck_pairs bs) \<and> (\<forall>b \<in> set bs. buck_rep h b)"

lemma buck_pairs_fst [simp]: "fst ` set (buck_pairs bs) = b_item ` set bs"
  by (auto simp: buck_pairs_def image_image)

lemma buck_rep_same: "same_on (set (buck_cells b)) h h' \<Longrightarrow> buck_rep h b \<Longrightarrow> buck_rep h' b"
  using list_holds_same[of "set (buck_cells b)" h h' "b_list b" "b_items b"]
  by (auto simp: buck_rep_def buck_cells_def same_on_def)

lemma same_on_subset: "same_on C h h' \<Longrightarrow> D \<subseteq> C \<Longrightarrow> same_on D h h'"
  by (auto simp: same_on_def)

lemma nbhd_rep_same:
  assumes s: "same_on (set (nbhd_cells l bs)) h h'" and r: "nbhd_rep h l bs"
  shows "nbhd_rep h' l bs"
  unfolding nbhd_rep_def
proof
  show "list_holds h' l (buck_pairs bs)"
    by (rule list_holds_same[OF s]) (use r in \<open>auto simp: nbhd_rep_def nbhd_cells_def buck_pairs_def\<close>)
  show "\<forall>b \<in> set bs. buck_rep h' b"
  proof
    fix b assume b: "b \<in> set bs"
    have "same_on (set (buck_cells b)) h h'" by (rule same_on_subset[OF s]) (use b in \<open>auto simp: nbhd_cells_def\<close>)
    then show "buck_rep h' b" using r b buck_rep_same by (simp add: nbhd_rep_def)
  qed
qed

lemma buck_freed:
  assumes r: "buck_rep h b" and d: "distinct (buck_cells b)" and f: "length (b_items b) < fuel"
  shows "\<exists>h'. bindr (list_free_at fuel (Some (b_list b)) h) (\<lambda>h. myfree_at (Some (b_obj b)) h) = Inr h' \<and>
    scleared (set (buck_cells b)) h h'"
proof -
  obtain L where L: "s_objs h (b_list b) = Some (O_list L)" "linked (s_items h) L (b_items b)"
    using r by (auto simp: buck_rep_def list_holds_def)
  obtain h1 where h1: "list_free_at fuel (Some (b_list b)) h = Inr h1"
      "scleared (insert (Obj (b_list b)) (Item ` fst ` set (b_items b))) h h1"
    using list_free_at_cleared[OF L f] by blast
  have "s_objs h1 (b_obj b) \<noteq> None"
    using scleared_obj[OF h1(2), of "b_obj b"] r d by (auto simp: buck_rep_def buck_cells_def)
  then obtain h2 where h2: "myfree_at (Some (b_obj b)) h1 = Inr h2" "scleared {Obj (b_obj b)} h1 h2"
    using myfree_at_cleared by blast
  have "set (buck_cells b) = insert (Obj (b_list b)) (Item ` fst ` set (b_items b)) \<union> {Obj (b_obj b)}"
    by (auto simp: buck_cells_def cell_list_def)
  then show ?thesis using scleared_trans[OF h1(2) h2(2)] h1(1) h2(1) by simp
qed

lemma bckt_loop_cleared:
  "seg (s_items h) q x (buck_pairs bs) r None \<Longrightarrow> \<forall>b \<in> set bs. buck_rep h b \<Longrightarrow>
    distinct (map (Item \<circ> b_item) bs @ concat (map buck_cells bs)) \<Longrightarrow>
    \<forall>b \<in> set bs. length bs + length (b_items b) < fuel \<Longrightarrow> 0 < fuel \<Longrightarrow>
    \<exists>h'. bckt_loop fuel x h = Inr h' \<and> scleared (set (concat (map buck_cells bs))) h h'"
proof (induction bs arbitrary: h q x fuel)
  case Nil
  then show ?case by (cases fuel) (auto simp: buck_pairs_def)
next
  case (Cons b bs)
  obtain n where n: "fuel = Suc n" using Cons.prems(5) by (cases fuel) auto
  obtain it where it: "x = Some (b_item b)" "s_items h (b_item b) = Some it" "i_val it = Some (b_obj b)"
      "seg (s_items h) (Some (b_item b)) (i_next it) (buck_pairs bs) r None"
    using Cons.prems(1) by (auto simp: buck_pairs_def)
  have bd: "distinct (buck_cells b)" and disj: "set (buck_cells b) \<inter> set (concat (map buck_cells bs)) = {}"
    using Cons.prems(3) by auto
  obtain h1 where h1: "bindr (list_free_at n (Some (b_list b)) h) (\<lambda>h. myfree_at (Some (b_obj b)) h) = Inr h1"
      "scleared (set (buck_cells b)) h h1"
    using buck_freed[of h b n] Cons.prems(2,4) bd n by auto
  have items: "s_items h1 a = s_items h a" if "a \<in> b_item ` set (b # bs)" for a
    using Cons.prems(3) that by (intro scleared_item[OF h1(2)]) auto
  have "\<forall>a \<in> fst ` set (buck_pairs bs). s_items h1 a = s_items h a" using items by simp
  then have seg1: "seg (s_items h1) (Some (b_item b)) (i_next it) (buck_pairs bs) r None"
    using seg_cong[of "buck_pairs bs" "s_items h1" "s_items h"] it(4) by simp
  have reps1: "\<forall>c \<in> set bs. buck_rep h1 c"
  proof
    fix c assume c: "c \<in> set bs"
    then have "set (buck_cells c) \<inter> set (buck_cells b) = {}" using disj by auto
    from scleared_same[OF h1(2) this] show "buck_rep h1 c" using buck_rep_same Cons.prems(2) c by auto
  qed
  have d1: "distinct (map (Item \<circ> b_item) bs @ concat (map buck_cells bs))" using Cons.prems(3) by (auto simp: comp_def)
  have "\<forall>c \<in> set bs. length bs + length (b_items c) < n" "0 < n" using Cons.prems(4) n by auto
  from Cons.IH[OF seg1 reps1 d1 this] obtain h2 where h2: "bckt_loop n (i_next it) h1 = Inr h2" "scleared (set (concat (map buck_cells bs))) h1 h2"
    by blast
  have "list_next (s_items h1) (Some (b_item b)) = Inr (i_next it)"
    using items[of "b_item b"] it(2) by (simp add: list_next_def deref_def)
  moreover have "s_objs h (b_obj b) = Some (O_buck (Some (b_list b)))" using Cons.prems(2) by (simp add: buck_rep_def)
  ultimately have "bckt_loop fuel x h = Inr h2"
    using it h1(1) h2(1) n by (auto simp: deref_def load_def bindr_eq_Inr)
  then show ?case using scleared_trans[OF h1(2) h2(2)] by simp
qed

lemma bckt_free_cleared:
  assumes r: "nbhd_rep h l bs" and d: "distinct (nbhd_cells l bs)"
    and f: "\<forall>b \<in> set bs. length bs + length (b_items b) < fuel" "length bs < fuel"
  shows "\<exists>h'. bckt_free fuel (Some l) h = Inr h' \<and> scleared (set (nbhd_cells l bs)) h h'"
proof -
  obtain L where L: "s_objs h l = Some (O_list L)" "linked (s_items h) L (buck_pairs bs)"
    using r by (auto simp: nbhd_rep_def list_holds_def)
  obtain h1 where h1: "bckt_loop fuel (l_start L) h = Inr h1" "scleared (set (concat (map buck_cells bs))) h h1"
    using bckt_loop_cleared[of h None "l_start L" bs "l_stop L" fuel] L(2) r d f
    by (auto simp: linked_def nbhd_rep_def nbhd_cells_def)
  have "Obj l \<notin> set (concat (map buck_cells bs))" using d by (auto simp: nbhd_cells_def)
  then have l1: "s_objs h1 l = Some (O_list L)" using scleared_obj[OF h1(2)] L(1) by simp
  have "s_items h1 a = s_items h a" if "a \<in> b_item ` set bs" for a
    using d that by (intro scleared_item[OF h1(2)]) (auto simp: nbhd_cells_def)
  then have "\<forall>a \<in> fst ` set (buck_pairs bs). s_items h1 a = s_items h a" by simp
  then have "linked (s_items h1) L (buck_pairs bs)" using linked_cong[of "buck_pairs bs" "s_items h1" "s_items h"] L(2) by simp
  from list_free_at_cleared[OF l1 this, of fuel] f(2) obtain h2 where
    h2: "list_free_at fuel (Some l) h1 = Inr h2" "scleared (insert (Obj l) (Item ` fst ` set (buck_pairs bs))) h1 h2"
    by (auto simp: buck_pairs_def)
  have "set (nbhd_cells l bs) = set (concat (map buck_cells bs)) \<union> insert (Obj l) (Item ` fst ` set (buck_pairs bs))"
    by (auto simp: nbhd_cells_def image_image)
  then have "scleared (set (nbhd_cells l bs)) h h2" using scleared_trans[OF h1(2) h2(2)] by simp
  then show ?thesis using L(1) h1(1) h2(1) by (auto simp: bckt_free_def load_list_def load_def)
qed

section \<open>The whole of it\<close>

text \<open>\<open>part a m R cs f\<close>: while \<open>_main\<close> is the record \<open>m\<close> at \<open>a\<close>, the function \<open>f\<close> releases exactly the
  records \<open>cs\<close> of a memory with \<open>R\<close>, which depends on these records only.\<close>

definition part :: "addr \<Rightarrow> MAINP \<Rightarrow> (SHEAP \<Rightarrow> bool) \<Rightarrow> scell list \<Rightarrow> (SHEAP \<Rightarrow> SHEAP res) \<Rightarrow> bool" where
  "part a m R cs f \<longleftrightarrow>
     (\<forall>h. s_objs h a = Some (O_main m) \<longrightarrow> R h \<longrightarrow> (\<exists>h'. f h = Inr h' \<and> scleared (set cs) h h')) \<and>
     (\<forall>h h'. R h \<longrightarrow> same_on (set cs) h h' \<longrightarrow> R h')"

lemma part_seq:
  assumes f: "part a m R cs f" and g: "part a m R' cs' g" and d: "set cs \<inter> set cs' = {}" "Obj a \<notin> set cs"
  shows "part a m (\<lambda>h. R h \<and> R' h) (cs @ cs') (\<lambda>h. bindr (f h) g)"
  unfolding part_def
proof (intro conjI allI impI)
  fix h :: SHEAP assume h: "s_objs h a = Some (O_main m)" "R h \<and> R' h"
  obtain h1 where h1: "f h = Inr h1" "scleared (set cs) h h1" using f h by (auto simp: part_def)
  have "s_objs h1 a = Some (O_main m)" using scleared_obj[OF h1(2) d(2)] h(1) by simp
  moreover have "same_on (set cs') h h1" by (rule scleared_same[OF h1(2)]) (use d(1) in auto)
  then have "R' h1" using g h(2) by (auto simp: part_def)
  ultimately obtain h2 where "g h1 = Inr h2" "scleared (set cs') h1 h2" using g by (auto simp: part_def)
  then show "\<exists>h'. bindr (f h) g = Inr h' \<and> scleared (set (cs @ cs')) h h'"
    using scleared_trans[OF h1(2)] h1(1) by auto
next
  fix h h' assume R: "R h \<and> R' h" and s: "same_on (set (cs @ cs')) h h'"
  have "same_on (set cs) h h'" "same_on (set cs') h h'" using s by (auto simp: same_on_def)
  then show "R h'" "R' h'" using f g R by (auto simp: part_def)
qed

lemma part_store:
  assumes "distinct (store_cells s)" "length (st_items s) < fuel"
    and "\<And>h. s_objs h a = Some (O_main m) \<Longrightarrow> f h = store_free fuel (Some (st_obj s)) h"
  shows "part a m (\<lambda>h. store_rep h s) (store_cells s) f"
  using assms store_free_cleared[of _ s fuel] store_rep_same unfolding part_def by auto

lemma load_main_at: "s_objs h a = Some (O_main m) \<Longrightarrow> load_main h (Some a) = Inr m"
  by (simp add: load_main_def load_def)

lemma part_nbhd:
  assumes "m_nbhd m = Some l" "distinct (nbhd_cells l bs)" "\<forall>b \<in> set bs. length bs + length (b_items b) < fuel" "length bs < fuel"
  shows "part a m (\<lambda>h. nbhd_rep h l bs) (nbhd_cells l bs) (nbhd_free fuel (Some a))"
  using assms bckt_free_cleared[of _ l bs fuel] nbhd_rep_same unfolding part_def
  by (auto simp: nbhd_free_def load_main_at)

lemma part_p2p:
  assumes "m_p2p m = Some p" "p \<noteq> x"
  shows "part a m (\<lambda>h. s_objs h p = Some (O_p2p (Some x)) \<and> s_objs h x \<noteq> None) [Obj x, Obj p] (p2p_free (Some a))"
  unfolding part_def
proof (intro conjI allI impI)
  fix h :: SHEAP assume h: "s_objs h a = Some (O_main m)" "s_objs h p = Some (O_p2p (Some x)) \<and> s_objs h x \<noteq> None"
  obtain h1 where h1: "myfree_at (Some x) h = Inr h1" "scleared {Obj x} h h1" using myfree_at_cleared h(2) by blast
  have "s_objs h1 p \<noteq> None" using scleared_obj[OF h1(2), of p] h(2) assms(2) by simp
  then obtain h2 where h2: "myfree_at (Some p) h1 = Inr h2" "scleared {Obj p} h1 h2" using myfree_at_cleared by blast
  have "p2p_free (Some a) h = Inr h2"
    using h h1(1) h2(1) assms(1) by (simp add: p2p_free_def load_main_at load_def mutex_destroy_def)
  moreover have "scleared (set [Obj x, Obj p]) h h2"
    using scleared_trans[OF h1(2) h2(2)] by (simp add: insert_commute)
  ultimately show "\<exists>h'. p2p_free (Some a) h = Inr h' \<and> scleared (set [Obj x, Obj p]) h h'" by blast
qed (auto simp: same_on_def)

lemma part_udp:
  assumes "m_udp m = Some u"
  shows "part a m (\<lambda>h. s_objs h u \<noteq> None) [Obj u] (udp_free (Some a))"
  using assms myfree_at_cleared by (auto simp: part_def udp_free_def load_main_at same_on_def)

definition conf_ptrs :: "CONFP \<Rightarrow> addr option list" where
  "conf_ptrs c = [c_user c, c_pid_file c, c_hostname c, c_bootstrap_node c, c_bootstrap_port c,
     c_dns_port c, c_dns_addr c, c_dns_ifce c, c_web_port c, c_web_addr c, c_web_ifce c, c_port c, c_interface c]"

definition conf_addrs :: "addr \<Rightarrow> CONFP \<Rightarrow> addr list" where
  "conf_addrs b c = addrs (conf_ptrs c @ [Some b])"

lemma part_conf:
  assumes "m_conf m = Some b" "distinct (conf_addrs b c)"
  shows "part a m (\<lambda>h. s_objs h b = Some (O_conf c) \<and> (\<forall>x \<in> set (conf_addrs b c). s_objs h x \<noteq> None))
    (map Obj (conf_addrs b c)) (conf_free (Some a))"
  unfolding part_def
proof (intro conjI allI impI)
  fix h :: SHEAP assume h: "s_objs h a = Some (O_main m)"
    "s_objs h b = Some (O_conf c) \<and> (\<forall>x \<in> set (conf_addrs b c). s_objs h x \<noteq> None)"
  have "conf_free (Some a) h = myfree_all (conf_ptrs c @ [Some b]) h"
    using h assms(1) by (simp add: conf_free_def load_main_at load_def conf_ptrs_def)
  then show "\<exists>h'. conf_free (Some a) h = Inr h' \<and> scleared (set (map Obj (conf_addrs b c))) h h'"
    using myfree_all_cleared[of "conf_ptrs c @ [Some b]" h] assms(2) h(2) by (simp add: conf_addrs_def)
next
  fix h h' :: SHEAP assume h: "s_objs h b = Some (O_conf c) \<and> (\<forall>x \<in> set (conf_addrs b c). s_objs h x \<noteq> None)"
    and s: "same_on (set (map Obj (conf_addrs b c))) h h'"
  have "b \<in> set (conf_addrs b c)" by (simp add: conf_addrs_def conf_ptrs_def)
  then show "s_objs h' b = Some (O_conf c)" "\<forall>x \<in> set (conf_addrs b c). s_objs h' x \<noteq> None"
    using h s by (simp_all add: same_on_def image_iff)
qed

lemma main_init_online:
  assumes "s_objs h a = Some (O_main main_init)"
  shows "front_end_test (Some a) h = Inr True" "conf_free (Some a) h = Inr h"
  using assms by (simp_all add: front_end_test_def conf_free_def load_main_at main_init_def)

lemma part_main: "part a m (\<lambda>h. s_objs h a \<noteq> None) [Obj a] (main_free (Some a))"
  using myfree_at_cleared by (auto simp: part_def main_free_def same_on_def)

record LAYOUT =
  y_main :: addr
  y_m :: MAINP
  y_db :: STORE
  y_announce :: STORE
  y_lkps :: STORE
  y_cache :: STORE
  y_nbhd :: addr
  y_bucks :: "BUCKP list"
  y_p2p :: addr
  y_mutex :: addr
  y_udp :: addr
  y_conf :: addr
  y_c :: CONFP

definition layout_cells :: "LAYOUT \<Rightarrow> scell list" where
  "layout_cells y = store_cells (y_db y) @ store_cells (y_announce y) @ store_cells (y_lkps y) @
     nbhd_cells (y_nbhd y) (y_bucks y) @ store_cells (y_cache y) @ [Obj (y_mutex y), Obj (y_p2p y)] @ [Obj (y_udp y)] @
     map Obj (conf_addrs (y_conf y) (y_c y)) @ [Obj (y_main y)]"

definition main_points :: "MAINP \<Rightarrow> LAYOUT \<Rightarrow> bool" where
  "main_points m y \<longleftrightarrow> m_conf m = Some (y_conf y) \<and> m_udp m = Some (y_udp y) \<and> m_p2p m = Some (y_p2p y) \<and>
     m_cache m = Some (st_obj (y_cache y)) \<and> m_nbhd m = Some (y_nbhd y) \<and> m_lkps m = Some (st_obj (y_lkps y)) \<and>
     m_database m = Some (st_obj (y_db y)) \<and> m_announce m = Some (st_obj (y_announce y))"

definition layout_rep :: "SHEAP \<Rightarrow> LAYOUT \<Rightarrow> bool" where
  "layout_rep h y \<longleftrightarrow> store_rep h (y_db y) \<and> store_rep h (y_announce y) \<and> store_rep h (y_lkps y) \<and>
     nbhd_rep h (y_nbhd y) (y_bucks y) \<and> store_rep h (y_cache y) \<and>
     (s_objs h (y_p2p y) = Some (O_p2p (Some (y_mutex y))) \<and> s_objs h (y_mutex y) \<noteq> None) \<and> s_objs h (y_udp y) \<noteq> None \<and>
     (s_objs h (y_conf y) = Some (O_conf (y_c y)) \<and> (\<forall>x \<in> set (conf_addrs (y_conf y) (y_c y)). s_objs h x \<noteq> None)) \<and>
     s_objs h (y_main y) \<noteq> None"

text \<open>More than the items of any list and the buckets together.\<close>

definition layout_size :: "LAYOUT \<Rightarrow> nat" where
  "layout_size y = length (st_items (y_db y)) + length (st_items (y_announce y)) + length (st_items (y_lkps y)) +
     length (st_items (y_cache y)) + length (y_bucks y) + sum_list (map (length \<circ> b_items) (y_bucks y))"

lemma main_release_part:
  assumes m: "main_points (y_m y) y" and d: "distinct (layout_cells y)" and n: "layout_size y < n"
  shows "part (y_main y) (y_m y) (\<lambda>h. layout_rep h y) (layout_cells y) (main_release n (Some (y_main y)))"
proof -
  let ?part = "part (y_main y) (y_m y)" and ?a = "Some (y_main y)"
  have nbhd: "\<forall>b \<in> set (y_bucks y). length (y_bucks y) + length (b_items b) < n"
  proof
    fix b assume "b \<in> set (y_bucks y)"
    then have "length (b_items b) \<le> sum_list (map (length \<circ> b_items) (y_bucks y))" by (auto intro: member_le_sum_list)
    then show "length (y_bucks y) + length (b_items b) < n" using n by (simp add: layout_size_def)
  qed
  have ds: "distinct (store_cells (y_db y))" "distinct (store_cells (y_announce y))" "distinct (store_cells (y_lkps y))"
    "distinct (nbhd_cells (y_nbhd y) (y_bucks y))" "distinct (store_cells (y_cache y))" "y_p2p y \<noteq> y_mutex y"
    "distinct (conf_addrs (y_conf y) (y_c y))"
    using d by (auto simp: layout_cells_def distinct_map)
  have stores: "?part (\<lambda>h. store_rep h (y_db y)) (store_cells (y_db y)) (db_free n ?a)"
    "?part (\<lambda>h. store_rep h (y_announce y)) (store_cells (y_announce y)) (announce_free n ?a)"
    "?part (\<lambda>h. store_rep h (y_lkps y)) (store_cells (y_lkps y)) (lkp_free n ?a)"
    "?part (\<lambda>h. store_rep h (y_cache y)) (store_cells (y_cache y)) (cache_free n ?a)"
    using n m by (intro part_store[where fuel = n] ds;
      simp add: layout_size_def main_points_def db_free_def announce_free_def lkp_free_def cache_free_def load_main_at)+
  have others: "?part (\<lambda>h. nbhd_rep h (y_nbhd y) (y_bucks y)) (nbhd_cells (y_nbhd y) (y_bucks y)) (nbhd_free n ?a)"
    using part_nbhd[OF _ ds(4) nbhd] n m by (simp add: layout_size_def main_points_def)
  note p2p = part_p2p[of "y_m y" "y_p2p y" "y_mutex y" "y_main y"] and udp = part_udp[of "y_m y" "y_udp y" "y_main y"]
    and conf = part_conf[of "y_m y" "y_conf y" "y_c y" "y_main y"] and main = part_main[of "y_main y" "y_m y"]
  show ?thesis
    unfolding main_release_def layout_rep_def layout_cells_def
    by (intro part_seq stores others p2p udp conf main) (use m ds d in \<open>auto simp: main_points_def layout_cells_def\<close>)
qed

text \<open>C24: the end of \<open>main\<close> gives back what the components own, each record once and without a fault: the
  structures of the daemon, their lists and hashes, the buckets with their lists, the strings of the
  configuration and \<open>_main\<close> itself. Everything else stays allocated: the nodes, the lists of nodes that
  lookups and announcements have asked. A front end that is still running then reads freed memory.\<close>
theorem main_release_all:
  assumes "layout_rep h y" "s_objs h (y_main y) = Some (O_main (y_m y))" "main_points (y_m y) y"
    and "distinct (layout_cells y)" "layout_size y < n"
  shows "\<exists>h'. main_release n (Some (y_main y)) h = Inr h' \<and>
    (\<forall>c. scell_at h' c = (if c \<in> set (layout_cells y) then None else scell_at h c)) \<and>
    front_end_test (Some (y_main y)) h' = Inl UseAfterFree"
proof -
  obtain h' where h': "main_release n (Some (y_main y)) h = Inr h'" "scleared (set (layout_cells y)) h h'"
    using main_release_part[OF assms(3-5)] assms(1,2) by (auto simp: part_def)
  have "scell_at h' (Obj (y_main y)) = None" using h'(2) by (auto simp: scleared_def layout_cells_def simp del: scell_at.simps)
  then show ?thesis using h' by (auto simp: scleared_def front_end_test_def load_main_def load_def)
qed

text \<open>A small daemon: a host in the database, and a bucket with the node at 55.\<close>

definition small :: LAYOUT where
  "small = \<lparr>y_main = 1,
     y_m = \<lparr>m_conf = Some 63, m_udp = Some 62, m_p2p = Some 60, m_cache = Some 40, m_nbhd = Some 50, m_lkps = Some 30,
       m_database = Some 10, m_announce = Some 20, m_status = 1\<rparr>,
     y_db = \<lparr>st_obj = 10, st_list = 11, st_items = [(12, 13)], st_hash = 14, st_buckets = 15, st_pairs = [None, Some 16]\<rparr>,
     y_announce = \<lparr>st_obj = 20, st_list = 21, st_items = [], st_hash = 22, st_buckets = 23, st_pairs = []\<rparr>,
     y_lkps = \<lparr>st_obj = 30, st_list = 31, st_items = [], st_hash = 32, st_buckets = 33, st_pairs = []\<rparr>,
     y_cache = \<lparr>st_obj = 40, st_list = 41, st_items = [], st_hash = 42, st_buckets = 43, st_pairs = []\<rparr>,
     y_nbhd = 50, y_bucks = [\<lparr>b_item = 51, b_obj = 52, b_list = 53, b_items = [(54, Some 55)]\<rparr>],
     y_p2p = 60, y_mutex = 61, y_udp = 62, y_conf = 63,
     y_c = \<lparr>c_user = Some 64, c_pid_file = None, c_hostname = None, c_bootstrap_node = None, c_bootstrap_port = None,
       c_dns_port = None, c_dns_addr = None, c_dns_ifce = None, c_web_port = None, c_web_addr = None, c_web_ifce = None,
       c_port = Some 65, c_interface = None\<rparr>\<rparr>"

definition one_item :: "addr \<Rightarrow> LIST" where
  "one_item a = \<lparr>l_start = Some a, l_stop = Some a, l_counter = 1\<rparr>"

definition small_heap :: SHEAP where
  "small_heap = \<lparr>s_objs = [1 \<mapsto> O_main (y_m small), 10 \<mapsto> O_store (Some 11) (Some 14), 11 \<mapsto> O_list (one_item 12), 13 \<mapsto> O_block,
       14 \<mapsto> O_hash 2 (Some 15), 15 \<mapsto> O_buckets [None, Some 16], 16 \<mapsto> O_block,
       20 \<mapsto> O_store (Some 21) (Some 22), 21 \<mapsto> O_list list_init, 22 \<mapsto> O_hash 0 (Some 23), 23 \<mapsto> O_buckets [],
       30 \<mapsto> O_store (Some 31) (Some 32), 31 \<mapsto> O_list list_init, 32 \<mapsto> O_hash 0 (Some 33), 33 \<mapsto> O_buckets [],
       40 \<mapsto> O_store (Some 41) (Some 42), 41 \<mapsto> O_list list_init, 42 \<mapsto> O_hash 0 (Some 43), 43 \<mapsto> O_buckets [],
       50 \<mapsto> O_list (one_item 51), 52 \<mapsto> O_buck (Some 53), 53 \<mapsto> O_list (one_item 54), 55 \<mapsto> O_block,
       60 \<mapsto> O_p2p (Some 61), 61 \<mapsto> O_block, 62 \<mapsto> O_block, 63 \<mapsto> O_conf (y_c small), 64 \<mapsto> O_block, 65 \<mapsto> O_block],
     s_items = [12 \<mapsto> \<lparr>i_val = Some 13, i_next = None, i_prev = None\<rparr>, 51 \<mapsto> \<lparr>i_val = Some 52, i_next = None, i_prev = None\<rparr>,
       54 \<mapsto> \<lparr>i_val = Some 55, i_next = None, i_prev = None\<rparr>]\<rparr>"

lemma small_cells:
  "layout_cells small = map Obj [10, 11, 13, 14, 15, 16] @ [Item 12] @ map Obj [20, 21, 22, 23, 30, 31, 32, 33] @
     [Obj 50, Item 51, Obj 52, Obj 53, Item 54] @ map Obj [40, 41, 42, 43, 61, 60, 62, 64, 65, 63, 1]"
  by (simp add: small_def layout_cells_def store_cells_def store_objs_def cell_list_def nbhd_cells_def buck_cells_def
      conf_addrs_def conf_ptrs_def)

lemma small_rep: "layout_rep small_heap small" "s_objs small_heap (y_main small) = Some (O_main (y_m small))" "main_points (y_m small) small"
  by (simp_all add: layout_rep_def small_def small_heap_def store_rep_def nbhd_rep_def list_holds_def linked_def list_init_def
      buck_pairs_def buck_rep_def conf_addrs_def conf_ptrs_def main_points_def one_item_def)

theorem main_release_all_witness:
  "\<exists>h'. main_release 5 (Some 1) small_heap = Inr h' \<and> s_objs h' 55 = Some O_block \<and> s_items h' 54 = None \<and>
    front_end_test (Some 1) h' = Inl UseAfterFree"
proof -
  have "distinct (layout_cells small)" unfolding small_cells by simp
  moreover have "layout_size small < 5" by (simp add: layout_size_def small_def)
  ultimately obtain h' where h': "main_release 5 (Some (y_main small)) small_heap = Inr h'"
      "\<forall>c. scell_at h' c = (if c \<in> set (layout_cells small) then None else scell_at small_heap c)"
      "front_end_test (Some (y_main small)) h' = Inl UseAfterFree"
    using main_release_all[OF small_rep] by blast
  have "y_main small = 1" by (simp add: small_def)
  moreover have "s_objs small_heap 55 = Some O_block" by (simp add: small_heap_def)
  ultimately show ?thesis
    using h'(1,3) h'(2)[rule_format, of "Obj 55"] h'(2)[rule_format, of "Item 54"] by (auto simp: small_cells)
qed

end
