(* ===== verification/Memory.thy ===== *)
theory Memory
  imports Str Linklist
begin

text \<open>
  Dynamic memory: the wrappers of \<open>src/src/malloc.c\<close>, and the functions of \<open>src/src/str.c\<close> that own what
  they allocate. The heap maps addresses to blocks; \<open>h_malloc\<close> is \<open>malloc\<close>, which chooses an address from the
  blocks in use and the size, or fails, and \<open>h_fill\<close> is what new memory contains. The other theories
  leave allocation out: there an object is a value, and an allocation never fails.
\<close>

text \<open>\<open>long int\<close> arithmetic.\<close>

definition long :: "int \<Rightarrow> int" where
  "long i = sint (word_of_int i :: u64)"

lemma long_nat [simp]: "n < 2 ^ 63 \<Longrightarrow> long (int n) = int n"
  by (simp add: long_def sint_of_nat_64)

lemma long_eq: "- (2 ^ 63) \<le> i \<Longrightarrow> i < 2 ^ 63 \<Longrightarrow> long i = i"
  by (simp add: long_def signed_of_int signed_take_bit_int_eq_self)

lemma long_Suc: "- (2 ^ 63) \<le> i \<Longrightarrow> i < 2 ^ 63 \<Longrightarrow> 0 < long (i + 1) \<Longrightarrow> long (i + 1) = i + 1 \<and> 0 \<le> i"
  by (cases "i + 1 = 2 ^ 63") (use long_eq[of "i + 1"] in \<open>simp_all add: long_def\<close>)

section \<open>malloc.c\<close>

datatype block = Chars bytes | Obj_str "addr option" int

record HEAP =
  h_blocks :: "addr \<rightharpoonup> block"
  h_malloc :: "(addr \<rightharpoonup> block) \<Rightarrow> nat \<Rightarrow> addr option"
  h_fill :: "nat \<Rightarrow> bytes"

text \<open>The messages of \<open>log_crit\<close> end the process.\<close>

definition myalloc :: "int \<Rightarrow> HEAP \<Rightarrow> (addr \<times> HEAP) res" where
  "myalloc sz h = (if sz = 0 then Inl ExitFailure
     else if sz < 0 then Inl ExitFailure
     else case h_malloc h (h_blocks h) (nat sz) of None \<Rightarrow> Inl ExitFailure
       | Some memory \<Rightarrow> Inr (memory, h\<lparr>h_blocks := (h_blocks h)(memory \<mapsto> Chars (replicate (nat sz) 0))\<rparr>))"

text \<open>\<open>realloc\<close>: the first bytes are those of the old block, the others are new memory; NULL is no block.\<close>

definition old_bytes :: "addr option \<Rightarrow> HEAP \<Rightarrow> bytes res" where
  "old_bytes arg h = (case arg of None \<Rightarrow> Inr []
     | Some a \<Rightarrow> (case h_blocks h a of Some (Chars b) \<Rightarrow> Inr b | _ \<Rightarrow> Inl UseAfterFree))"

definition without :: "addr option \<Rightarrow> (addr \<rightharpoonup> block) \<Rightarrow> (addr \<rightharpoonup> block)" where
  "without arg bs = (case arg of None \<Rightarrow> bs | Some a \<Rightarrow> bs(a := None))"

definition myrealloc :: "addr option \<Rightarrow> int \<Rightarrow> HEAP \<Rightarrow> (addr \<times> HEAP) res" where
  "myrealloc arg sz h = (if sz = 0 then Inl ExitFailure
     else if sz < 0 then Inl ExitFailure
     else bindr (old_bytes arg h) (\<lambda>old. let n = nat sz; bs = without arg (h_blocks h) in
       case h_malloc h bs n of None \<Rightarrow> Inl ExitFailure
       | Some memory \<Rightarrow> Inr (memory,
           h\<lparr>h_blocks := bs(memory \<mapsto> Chars (take n old @ drop (length old) (take n (h_fill h n))))\<rparr>)))"

definition myfree :: "addr option \<Rightarrow> HEAP \<Rightarrow> HEAP res" where
  "myfree arg h = (case arg of None \<Rightarrow> Inr h
     | Some a \<Rightarrow> if h_blocks h a = None then Inl UseAfterFree
         else Inr (h\<lparr>h_blocks := (h_blocks h)(a := None)\<rparr>))"

text \<open>What the C library promises of \<open>malloc\<close>.\<close>

definition allocator :: "HEAP \<Rightarrow> bool" where
  "allocator h \<longleftrightarrow> (\<forall>bs n. length (h_fill h n) = n \<and> (\<forall>a. h_malloc h bs n = Some a \<longrightarrow> bs a = None))"

lemma allocator_blocks [simp]: "allocator (h\<lparr>h_blocks := bs\<rparr>) = allocator h"
  by (simp add: allocator_def)

text \<open>A block of zero bytes that overlaps no other, or the end of the process.\<close>

lemma myalloc_cases:
  assumes "allocator h"
  obtains (exits) "myalloc sz h = Inl ExitFailure" "sz \<le> 0 \<or> h_malloc h (h_blocks h) (nat sz) = None"
  | (fresh) a where "0 < sz" "h_blocks h a = None"
      "myalloc sz h = Inr (a, h\<lparr>h_blocks := (h_blocks h)(a \<mapsto> Chars (replicate (nat sz) 0))\<rparr>)"
proof (cases "0 < sz \<and> h_malloc h (h_blocks h) (nat sz) \<noteq> None")
  case True
  then obtain a where a: "h_malloc h (h_blocks h) (nat sz) = Some a" by blast
  with True assms show thesis by (intro fresh[of a]) (auto simp: myalloc_def allocator_def)
next
  case False
  then show thesis by (intro exits) (auto simp: myalloc_def not_less)
qed

lemma myfree_myalloc:
  "allocator h \<Longrightarrow> myalloc sz h = Inr (a, h') \<Longrightarrow> myfree (Some a) h' = Inr h"
  by (cases rule: myalloc_cases[of h sz]) (auto simp: myfree_def fun_upd_idem)

section \<open>Strings that own their bytes\<close>

definition sizeof_obj_str :: int where "sizeof_obj_str = 16"

text \<open>A write of bytes into a block.\<close>

definition poke :: "addr \<Rightarrow> nat \<Rightarrow> bytes \<Rightarrow> HEAP \<Rightarrow> HEAP res" where
  "poke a i xs h = (case h_blocks h a of Some (Chars b) \<Rightarrow> bindr (wr b i xs) (\<lambda>b'.
       Inr (h\<lparr>h_blocks := (h_blocks h)(a \<mapsto> Chars b')\<rparr>)) | _ \<Rightarrow> Inl UseAfterFree)"

definition str_init :: "bytes \<Rightarrow> int \<Rightarrow> HEAP \<Rightarrow> (addr \<times> HEAP) res" where
  "str_init buf len h = bindr (myalloc sizeof_obj_str h) (\<lambda>(str, h). bindr (myalloc (long (len + 1)) h) (\<lambda>(s, h).
     bindr (rds buf 0 (nat len)) (\<lambda>xs. bindr (poke s 0 xs h) (\<lambda>h.
       Inr (str, h\<lparr>h_blocks := (h_blocks h)(str \<mapsto> Obj_str (Some s) len)\<rparr>)))))"

definition str_free :: "addr \<Rightarrow> HEAP \<Rightarrow> HEAP res" where
  "str_free str h = (case h_blocks h str of Some (Obj_str s i) \<Rightarrow>
       bindr (if s \<noteq> None then myfree s h else Inr h) (\<lambda>h. myfree (Some str) h)
     | _ \<Rightarrow> Inl UseAfterFree)"

text \<open>\<open>strncat\<close> reads until a zero byte or \<open>n\<close> bytes.\<close>

definition strncat :: "addr \<Rightarrow> bytes \<Rightarrow> nat \<Rightarrow> HEAP \<Rightarrow> HEAP res" where
  "strncat dest src n h = (case h_blocks h dest of Some (Chars b) \<Rightarrow> bindr (if 0 \<in> set b
         then Inr (length (takeWhile (\<lambda>c. c \<noteq> 0) b)) else Inl OutOfBounds) (\<lambda>end_of.
       if length src < n \<and> 0 \<notin> set src then Inl OutOfBounds
       else poke dest end_of (takeWhile (\<lambda>c. c \<noteq> 0) (take n src) @ [0]) h) | _ \<Rightarrow> Inl UseAfterFree)"

text \<open>The sum of two sizes that are not negative is not positive only when it wraps.\<close>

definition str_append :: "addr option \<Rightarrow> int \<Rightarrow> bytes option \<Rightarrow> int \<Rightarrow> HEAP \<Rightarrow> (addr option \<times> HEAP) res" where
  "str_append buf1 size1 buf2 size2 h = (if buf1 = None then Inl ExitFailure
     else case buf2 of None \<Rightarrow> Inl ExitFailure | Some src \<Rightarrow>
       if size1 < 0 then Inl ExitFailure
       else if size2 < 0 then Inl ExitFailure
       else if size2 = 0 then Inr (buf1, h)
       else let sum = long (size1 + size2) in
         if sum \<le> 0 then Inl ExitFailure
         else bindr (myrealloc buf1 (long (sum + 1)) h) (\<lambda>(b, h). bindr (strncat b src (nat size2) h) (\<lambda>h.
           bindr (poke b (nat sum) [0] h) (\<lambda>h. Inr (Some b, h)))))"

lemma myalloc_Inr:
  "allocator h \<Longrightarrow> myalloc sz h = Inr (a, h') \<Longrightarrow> 0 < sz \<and> h_blocks h a = None \<and>
    h' = h\<lparr>h_blocks := (h_blocks h)(a \<mapsto> Chars (replicate (nat sz) 0))\<rparr>"
  by (cases rule: myalloc_cases[of h sz]) auto

text \<open>A string holds a copy of its bytes, with a zero behind them, and freeing it gives the heap back.\<close>

lemma str_init_free:
  assumes h: "allocator h" and len: "- (2 ^ 63) \<le> len" "len < 2 ^ 63" and i: "str_init buf len h = Inr (str, h')"
  shows "\<exists>s. h_blocks h str = None \<and> h_blocks h s = None \<and> h_blocks h' str = Some (Obj_str (Some s) len) \<and>
    h_blocks h' s = Some (Chars (take (nat len) buf @ [0])) \<and> str_free str h' = Inr h"
proof -
  obtain h1 s h2 xs h3 where *: "myalloc sizeof_obj_str h = Inr (str, h1)" "myalloc (long (len + 1)) h1 = Inr (s, h2)"
    "rds buf 0 (nat len) = Inr xs" "poke s 0 xs h2 = Inr h3" "h' = h3\<lparr>h_blocks := (h_blocks h3)(str \<mapsto> Obj_str (Some s) len)\<rparr>"
    using i by (auto simp: str_init_def bindr_eq_Inr)
  note a = myalloc_Inr[OF h *(1)]
  have "allocator h1" using a h by simp
  note b = myalloc_Inr[OF this *(2)]
  have s: "h_blocks h s = None" "s \<noteq> str" using a b by (auto split: if_splits)
  have xs: "xs = take (nat len) buf" "length xs = nat len" using *(3) by (auto simp: rds_def split: if_splits)
  have "0 \<le> len" "nat (long (len + 1)) = Suc (nat len)" using b long_Suc[OF len] by auto
  then have h3: "h3 = h2\<lparr>h_blocks := (h_blocks h2)(s \<mapsto> Chars (xs @ [0]))\<rparr>"
    using *(4) b xs(2) by (auto simp: poke_def wr_def simp del: replicate_Suc) simp
  have "h_blocks h' str = Some (Obj_str (Some s) len)" "h_blocks h' s = Some (Chars (xs @ [0]))"
    using *(5) h3 s(2) by simp_all
  moreover have "str_free str h' = Inr h"
    using *(5) h3 a b s by (auto simp: str_free_def myfree_def fun_eq_iff intro!: HEAP.equality)
  ultimately show ?thesis using a s(1) xs(1) by blast
qed

lemma str_append_joins:
  assumes h: "allocator h" and b: "h_blocks h a = Some (Chars (s @ [0]))" "0 \<notin> set s"
    and t: "n \<le> length t" "0 \<notin> set (take n t)" "0 < n" "Suc (length s + n) < 2 ^ 63"
  shows "str_append (Some a) (int (length s)) (Some t) (int n) h = Inl ExitFailure \<or>
    (\<exists>a' h'. str_append (Some a) (int (length s)) (Some t) (int n) h = Inr (Some a', h') \<and>
      h_blocks h' = (h_blocks h)(a := None, a' \<mapsto> Chars (s @ take n t @ [0])))"
proof -
  have sum: "long (int (length s) + int n) = int (length s + n)" "long (int (length s + n) + 1) = int (Suc (length s + n))"
    using long_nat[of "length s + n"] long_nat[of "Suc (length s + n)"] t(4) by (simp_all add: add.commute)
  let ?bs = "(h_blocks h)(a := None)" and ?k = "Suc (length s + n)"
  show ?thesis
  proof (cases "h_malloc h ?bs ?k")
    case None
    then show ?thesis
      using sum b t by (simp add: str_append_def myrealloc_def old_bytes_def without_def Let_def nat_add_distrib)
  next
    case (Some a')
    have fill: "length (h_fill h ?k) = ?k" using h by (simp add: allocator_def)
    let ?old = "s @ 0 # drop (Suc (length s)) (h_fill h ?k)"
    let ?h = "h\<lparr>h_blocks := ?bs(a' \<mapsto> Chars ?old)\<rparr>"
    have re: "myrealloc (Some a) (int (Suc (length s + n))) h = Inr (a', ?h)"
      using Some b t(3) fill by (simp add: myrealloc_def old_bytes_def without_def Let_def nat_add_distrib)
    have tw: "takeWhile (\<lambda>c. c \<noteq> 0) (take n t) = take n t" "takeWhile (\<lambda>c. c \<noteq> 0) ?old = s"
      using t(2) b(2) by (auto simp: takeWhile_eq_all_conv takeWhile_append)
    have cat: "strncat a' t n ?h = Inr (h\<lparr>h_blocks := ?bs(a' \<mapsto> Chars (s @ take n t @ [0]))\<rparr>)"
      using t(1) fill by (simp add: strncat_def poke_def wr_def tw del: takeWhile_eq_all_conv)
    have "poke a' (length s + n) [0] (h\<lparr>h_blocks := ?bs(a' \<mapsto> Chars (s @ take n t @ [0]))\<rparr>)
        = Inr (h\<lparr>h_blocks := ?bs(a' \<mapsto> Chars (s @ take n t @ [0]))\<rparr>)"
      using t(1) by (simp add: poke_def wr_def)
    with re cat sum t(3) show ?thesis by (simp add: str_append_def Let_def nat_add_distrib)
  qed
qed

end
