(* ===== verification/Files.thy ===== *)
theory Files
  imports Memory Cmd
begin

text \<open>
  Files, \<open>src/src/file.c\<close>, over a file system that is a list of paths with what is at each. A path is a byte
  string, and the entries of a directory are the paths that extend it by a slash and a name. \<open>fs_deny\<close>
  says which call fails on which path for a reason of the system (permissions, an input or output error),
  \<open>fs_room\<close> how many bytes can still be written to a file, \<open>fs_limit\<close> how many streams a process may hold
  open and \<open>fs_streams\<close> how many it holds.
\<close>

section \<open>The system\<close>

datatype inode = Reg bytes int | Dir int | Lnk bytes int | Other bytes int

datatype fs_call = Fopen | Fseek | Fclose | Mkdir | Unlink | Rmdir | Opendir | Closedir

record FS =
  fs_nodes :: "(bytes \<times> inode) list"
  fs_deny :: "fs_call \<Rightarrow> bytes \<Rightarrow> bool"
  fs_room :: "bytes \<Rightarrow> nat"
  fs_dirsize :: "bytes \<Rightarrow> nat"
  fs_limit :: nat
  fs_streams :: nat
  fs_now :: int

definition CH_slash :: u8 where "CH_slash = 47"

definition lstat :: "bytes \<Rightarrow> FS \<Rightarrow> inode option" where
  "lstat p fs = map_of (fs_nodes fs) p"

definition st_mtime :: "inode \<Rightarrow> int" where
  "st_mtime i = (case i of Reg _ t \<Rightarrow> t | Dir t \<Rightarrow> t | Lnk _ t \<Rightarrow> t | Other _ t \<Rightarrow> t)"

definition path :: "bytes \<Rightarrow> bytes \<Rightarrow> bytes" where "path p d = p @ CH_slash # d"

definition beneath :: "bytes \<Rightarrow> bytes \<Rightarrow> bool" where
  "beneath p q \<longleftrightarrow> take (Suc (length p)) q = p @ [CH_slash]"

definition names_in :: "bytes \<Rightarrow> FS \<Rightarrow> bytes list" where
  "names_in p fs = filter (\<lambda>d. CH_slash \<notin> set d)
     (map (drop (Suc (length p))) (filter (beneath p) (map fst (fs_nodes fs))))"

definition dirname :: "bytes \<Rightarrow> bytes option" where
  "dirname p = (if CH_slash \<in> set p then Some (rev (tl (dropWhile (\<lambda>c. c \<noteq> CH_slash) (rev p)))) else None)"

definition put_inode :: "bytes \<Rightarrow> inode \<Rightarrow> FS \<Rightarrow> FS" where
  "put_inode p i fs = fs\<lparr>fs_nodes := (p, i) # filter (\<lambda>(q, _). q \<noteq> p) (fs_nodes fs)\<rparr>"

definition drop_nodes :: "(bytes \<Rightarrow> bool) \<Rightarrow> FS \<Rightarrow> FS" where
  "drop_nodes gone fs = fs\<lparr>fs_nodes := filter (\<lambda>(q, _). \<not> gone q) (fs_nodes fs)\<rparr>"

text \<open>The root and the working directory exist.\<close>

definition has_parent :: "bytes \<Rightarrow> FS \<Rightarrow> bool" where
  "has_parent p fs = (case dirname p of None \<Rightarrow> True | Some r \<Rightarrow> r = [] \<or> (case lstat r fs of Some (Dir _) \<Rightarrow> True | _ \<Rightarrow> False))"

definition mkdir :: "bytes \<Rightarrow> FS \<Rightarrow> bool \<times> FS" where
  "mkdir p fs = (if fs_deny fs Mkdir p \<or> lstat p fs \<noteq> None \<or> \<not> has_parent p fs then (False, fs)
     else (True, put_inode p (Dir (fs_now fs)) fs))"

text \<open>\<open>open\<close> follows symbolic links, at most 40 of them. A link holds the path it leads to.\<close>

definition MAXSYMLINKS :: nat where "MAXSYMLINKS = 40"

primrec resolve :: "nat \<Rightarrow> bytes \<Rightarrow> FS \<Rightarrow> bytes option" where
  "resolve 0 p fs = None"
| "resolve (Suc n) p fs = (case lstat p fs of Some (Lnk t _) \<Rightarrow> resolve n t fs | _ \<Rightarrow> Some p)"

datatype fmode = Mode_rb | Mode_wb | Mode_ab

definition fopen :: "bytes \<Rightarrow> fmode \<Rightarrow> FS \<Rightarrow> bytes option \<times> FS" where
  "fopen p mode fs = (if fs_deny fs Fopen p \<or> fs_limit fs \<le> fs_streams fs then (None, fs)
     else case resolve MAXSYMLINKS p fs of None \<Rightarrow> (None, fs)
     | Some q \<Rightarrow> let got = fs\<lparr>fs_streams := Suc (fs_streams fs)\<rparr> in case lstat q fs of
         None \<Rightarrow> if mode = Mode_rb \<or> \<not> has_parent q fs then (None, fs) else (Some q, put_inode q (Reg [] (fs_now fs)) got)
       | Some (Reg b t) \<Rightarrow> (Some q, if mode = Mode_wb then put_inode q (Reg [] (fs_now fs)) got else got)
       | Some (Dir _) \<Rightarrow> if mode = Mode_rb then (Some q, got) else (None, fs)
       | Some _ \<Rightarrow> (Some q, got))"

definition fclose :: "bytes \<Rightarrow> FS \<Rightarrow> bool \<times> FS" where
  "fclose q fs = (\<not> fs_deny fs Fclose q, fs\<lparr>fs_streams := fs_streams fs - 1\<rparr>)"

definition fread :: "bytes \<Rightarrow> nat \<Rightarrow> nat \<Rightarrow> FS \<Rightarrow> bytes" where
  "fread q offset n fs = (case lstat q fs of Some (Reg b _) \<Rightarrow> take n (drop offset b)
     | Some (Other b _) \<Rightarrow> take n b | _ \<Rightarrow> [])"

text \<open>The number of bytes that were written.\<close>

definition fwrite :: "bytes \<Rightarrow> bytes \<Rightarrow> FS \<Rightarrow> nat \<times> FS" where
  "fwrite q xs fs = (let ys = take (fs_room fs q) xs in (length ys, case lstat q fs of
       Some (Reg b _) \<Rightarrow> put_inode q (Reg (b @ ys) (fs_now fs)) fs | _ \<Rightarrow> fs))"

definition unlink :: "bytes \<Rightarrow> FS \<Rightarrow> bool \<times> FS" where
  "unlink p fs = (case lstat p fs of None \<Rightarrow> (False, fs) | Some (Dir _) \<Rightarrow> (False, fs)
     | Some _ \<Rightarrow> if fs_deny fs Unlink p then (False, fs) else (True, drop_nodes (\<lambda>q. q = p) fs))"

definition rmdir :: "bytes \<Rightarrow> FS \<Rightarrow> bool \<times> FS" where
  "rmdir p fs = (case lstat p fs of Some (Dir _) \<Rightarrow>
       if fs_deny fs Rmdir p \<or> names_in p fs \<noteq> [] then (False, fs) else (True, drop_nodes (\<lambda>q. q = p) fs)
     | _ \<Rightarrow> (False, fs))"

definition opendir :: "bytes \<Rightarrow> FS \<Rightarrow> bytes list option \<times> FS" where
  "opendir p fs = (case lstat p fs of Some (Dir _) \<Rightarrow>
       if fs_deny fs Opendir p \<or> fs_limit fs \<le> fs_streams fs then (None, fs)
       else (Some ([46] # [46, 46] # names_in p fs), fs\<lparr>fs_streams := Suc (fs_streams fs)\<rparr>)
     | _ \<Rightarrow> (None, fs))"

definition closedir :: "bytes \<Rightarrow> FS \<Rightarrow> bool \<times> FS" where
  "closedir p fs = (\<not> fs_deny fs Closedir p, fs\<lparr>fs_streams := fs_streams fs - 1\<rparr>)"

section \<open>file.c\<close>

definition file_isdir :: "bytes \<Rightarrow> FS \<Rightarrow> bool" where
  "file_isdir p fs = (case lstat p fs of Some (Dir _) \<Rightarrow> True | _ \<Rightarrow> False)"

definition file_isreg :: "bytes \<Rightarrow> FS \<Rightarrow> bool" where
  "file_isreg p fs = (case lstat p fs of Some (Reg _ _) \<Rightarrow> True | _ \<Rightarrow> False)"

definition file_islink :: "bytes \<Rightarrow> FS \<Rightarrow> bool" where
  "file_islink p fs = (case lstat p fs of Some (Lnk _ _) \<Rightarrow> True | _ \<Rightarrow> False)"

definition file_mkdir :: "bytes \<Rightarrow> FS \<Rightarrow> bool \<times> FS" where
  "file_mkdir p fs = (if \<not> file_isdir p fs then mkdir p fs else (True, fs))"

definition file_size :: "bytes \<Rightarrow> FS \<Rightarrow> nat" where
  "file_size p fs = (case lstat p fs of None \<Rightarrow> 0 | Some (Reg b _) \<Rightarrow> length b
     | Some (Lnk t _) \<Rightarrow> length t | Some _ \<Rightarrow> fs_dirsize fs p)"

definition file_mod :: "bytes \<Rightarrow> FS \<Rightarrow> int" where
  "file_mod p fs = (case lstat p fs of Some i \<Rightarrow> st_mtime i | None \<Rightarrow> - 1)"

text \<open>\<open>myalloc\<close> ends the process when \<open>size + 1\<close> is no positive \<open>long int\<close>. The buffer is \<open>size + 1\<close> bytes.\<close>

definition file_load :: "bytes \<Rightarrow> int \<Rightarrow> nat \<Rightarrow> FS \<Rightarrow> (bytes option \<times> FS) res" where
  "file_load p offset n fs = (case fopen p Mode_rb fs of (None, fs) \<Rightarrow> Inr (None, fs)
     | (Some fh, fs) \<Rightarrow> if offset < 0 \<or> fs_deny fs Fseek fh then Inr (None, fs)
       else if long (int n + 1) \<le> 0 then Inl ExitFailure
       else let buffer = fread fh (nat offset) n fs in if n \<noteq> length buffer then Inr (None, fs)
         else case fclose fh fs of (closed, fs) \<Rightarrow> if \<not> closed then Inr (None, fs) else Inr (Some (buffer @ [0]), fs))"

definition file_write :: "bytes \<Rightarrow> bytes \<Rightarrow> nat \<Rightarrow> FS \<Rightarrow> (int \<times> FS) res" where
  "file_write p buffer n fs = (case fopen p Mode_wb fs of (None, fs) \<Rightarrow> Inr (- 1, fs)
     | (Some fh, fs) \<Rightarrow> bindr (rds buffer 0 n) (\<lambda>xs. case fwrite fh xs fs of (k, fs) \<Rightarrow>
         if n \<noteq> k then Inr (- 2, fs)
         else case fclose fh fs of (closed, fs) \<Rightarrow> if \<not> closed then Inr (- 3, fs)
           else Inr (sint (word_of_int (int n) :: 32 word), fs)))"

text \<open>Here the type of the result is \<open>size_t\<close>.\<close>

definition file_append :: "bytes \<Rightarrow> bytes \<Rightarrow> nat \<Rightarrow> FS \<Rightarrow> (u64 \<times> FS) res" where
  "file_append p buffer n fs = (case fopen p Mode_ab fs of (None, fs) \<Rightarrow> Inr (- 1, fs)
     | (Some fh, fs) \<Rightarrow> bindr (rds buffer 0 n) (\<lambda>xs. case fwrite fh xs fs of (k, fs) \<Rightarrow>
         if n \<noteq> k then Inr (- 2, fs)
         else case fclose fh fs of (closed, fs) \<Rightarrow> if \<not> closed then Inr (- 3, fs) else Inr (of_nat n, fs)))"

definition file_rm :: "bytes \<Rightarrow> FS \<Rightarrow> bool \<times> FS" where
  "file_rm p fs = (case unlink p fs of (done, fs) \<Rightarrow> if \<not> done then (False, fs) else (True, fs))"

definition file_rmdir :: "bytes \<Rightarrow> FS \<Rightarrow> bool \<times> FS" where
  "file_rmdir p fs = (case rmdir p fs of (done, fs) \<Rightarrow> if done then (True, fs) else (False, fs))"

definition MAIN_BUF :: nat where "MAIN_BUF = 1023"

text \<open>The loop over the entries of a directory; \<open>rmrf\<close> is the recursive call.\<close>

primrec rmrf_loop :: "(bytes \<Rightarrow> FS \<Rightarrow> (bool \<times> FS) res) \<Rightarrow> bytes \<Rightarrow> bytes list \<Rightarrow> FS \<Rightarrow> (bool \<times> FS) res" where
  "rmrf_loop rmrf p [] fs = Inr (True, fs)"
| "rmrf_loop rmrf p (d # ds) fs = (if d \<noteq> [46] \<and> d \<noteq> [46, 46]
     then bindr (rmrf (take MAIN_BUF (path p d)) fs) (\<lambda>(ok, fs). if \<not> ok then Inr (False, fs) else rmrf_loop rmrf p ds fs)
     else rmrf_loop rmrf p ds fs)"

text \<open>A directory whose removal fails on the way stays open.\<close>

primrec file_rmrf :: "nat \<Rightarrow> bytes \<Rightarrow> FS \<Rightarrow> (bool \<times> FS) res" where
  "file_rmrf 0 p fs = Inl OutOfFuel"
| "file_rmrf (Suc n) p fs = (if file_isreg p fs
     then (case file_rm p fs of (ok, fs) \<Rightarrow> if \<not> ok then Inr (False, fs) else Inr (True, fs))
     else if file_isdir p fs then (case opendir p fs of (None, fs) \<Rightarrow> Inr (False, fs)
       | (Some entries, fs) \<Rightarrow> bindr (rmrf_loop (file_rmrf n) p entries fs) (\<lambda>(ok, fs). if \<not> ok then Inr (False, fs)
           else case closedir p fs of (closed, fs) \<Rightarrow> if \<not> closed then Inr (False, fs)
             else case file_rmdir p fs of (ok, fs) \<Rightarrow> if \<not> ok then Inr (False, fs) else Inr (True, fs)))
     else Inr (False, fs))"

section \<open>Lookups\<close>

lemma map_of_filter: "map_of (filter (\<lambda>(q, _). keep q) xs) p = (if keep p then map_of xs p else None)"
  by (induction xs) auto

lemma lstat_put [simp]: "lstat q (put_inode p i fs) = (if q = p then Some i else lstat q fs)"
  by (auto simp: lstat_def put_inode_def map_of_filter)

lemma lstat_drop [simp]: "lstat q (drop_nodes gone fs) = (if gone q then None else lstat q fs)"
  unfolding lstat_def drop_nodes_def by (simp add: map_of_filter[of "\<lambda>q. \<not> gone q"])

lemma lstat_streams [simp]: "lstat q (fs\<lparr>fs_streams := n\<rparr>) = lstat q fs"
  by (simp add: lstat_def)

lemma node_fields [simp]:
  "fs_deny (put_inode p i fs) = fs_deny fs" "fs_room (put_inode p i fs) = fs_room fs"
  "fs_limit (put_inode p i fs) = fs_limit fs" "fs_streams (put_inode p i fs) = fs_streams fs" "fs_now (put_inode p i fs) = fs_now fs"
  "fs_deny (drop_nodes gone fs) = fs_deny fs" "fs_limit (drop_nodes gone fs) = fs_limit fs"
  "fs_streams (drop_nodes gone fs) = fs_streams fs"
  by (simp_all add: put_inode_def drop_nodes_def)

lemma is_streams [simp]:
  "file_isreg p (fs\<lparr>fs_streams := n\<rparr>) = file_isreg p fs" "file_isdir p (fs\<lparr>fs_streams := n\<rparr>) = file_isdir p fs"
  by (simp_all add: file_isreg_def file_isdir_def)

lemma is_drop [simp]:
  "file_isreg p (drop_nodes gone fs) \<longleftrightarrow> \<not> gone p \<and> file_isreg p fs"
  "file_isdir p (drop_nodes gone fs) \<longleftrightarrow> \<not> gone p \<and> file_isdir p fs"
  by (simp_all add: file_isreg_def file_isdir_def)

lemma lstat_dom: "lstat p fs \<noteq> None \<longleftrightarrow> p \<in> fst ` set (fs_nodes fs)"
  by (simp add: lstat_def map_of_eq_None_iff)

section \<open>Reading and writing\<close>

lemma put_put [simp]: "put_inode p i (put_inode p j fs) = put_inode p i fs"
  by (simp add: put_inode_def)

lemma put_streams [simp]: "put_inode p i (fs\<lparr>fs_streams := n\<rparr>) = (put_inode p i fs)\<lparr>fs_streams := n\<rparr>"
  by (simp add: put_inode_def)

lemma streams_same [simp]: "fs_streams fs = n \<Longrightarrow> fs\<lparr>fs_streams := n\<rparr> = fs"
  by auto

lemma resolve_plain: "\<not> file_islink p fs \<Longrightarrow> resolve MAXSYMLINKS p fs = Some p"
proof -
  have "\<not> file_islink p fs \<Longrightarrow> resolve (Suc n) p fs = Some p" for n
    by (auto simp: file_islink_def split: option.splits inode.splits)
  moreover have "MAXSYMLINKS = Suc 39" by (simp add: MAXSYMLINKS_def)
  ultimately show "\<not> file_islink p fs \<Longrightarrow> ?thesis" by metis
qed

lemma fopen_rb: "fopen p Mode_rb fs = (r, fs') \<Longrightarrow> fs' = (if r = None then fs else fs\<lparr>fs_streams := Suc (fs_streams fs)\<rparr>)"
proof -
  have "fopen p Mode_rb fs = (if fs_deny fs Fopen p \<or> fs_limit fs \<le> fs_streams fs then (None, fs)
      else case resolve MAXSYMLINKS p fs of None \<Rightarrow> (None, fs)
      | Some q \<Rightarrow> if lstat q fs = None then (None, fs) else (Some q, fs\<lparr>fs_streams := Suc (fs_streams fs)\<rparr>))"
    by (simp add: fopen_def Let_def split: option.split inode.split)
  then show "fopen p Mode_rb fs = (r, fs') \<Longrightarrow> ?thesis" by (simp split: if_splits option.splits) auto
qed

lemma fopen_reg:
  "lstat p fs = Some (Reg b t) \<Longrightarrow> \<not> fs_deny fs Fopen p \<Longrightarrow> fs_streams fs < fs_limit fs \<Longrightarrow>
    fopen p Mode_rb fs = (Some p, fs\<lparr>fs_streams := Suc (fs_streams fs)\<rparr>)"
  using resolve_plain[of p fs] by (simp add: fopen_def file_islink_def)

lemma fopen_wb:
  "file_isreg p fs \<or> lstat p fs = None \<and> has_parent p fs \<Longrightarrow> \<not> fs_deny fs Fopen p \<Longrightarrow> fs_streams fs < fs_limit fs \<Longrightarrow>
    fopen p Mode_wb fs = (Some p, (put_inode p (Reg [] (fs_now fs)) fs)\<lparr>fs_streams := Suc (fs_streams fs)\<rparr>)"
  using resolve_plain[of p fs] by (auto simp: fopen_def file_islink_def file_isreg_def split: option.splits inode.splits)

text \<open>What is written is what a later read of the whole file returns, with a zero behind it.\<close>

lemma file_write_load:
  assumes room: "n \<le> fs_room fs p" and n: "n \<le> length b" "int n < 2 ^ 31"
    and at: "file_isreg p fs \<or> lstat p fs = None \<and> has_parent p fs" and streams: "fs_streams fs < fs_limit fs"
    and allowed: "\<And>c. \<not> fs_deny fs c p"
  shows "\<exists>fs'. file_write p b n fs = Inr (int n, fs') \<and> fs_streams fs' = fs_streams fs \<and>
    file_load p 0 n fs' = Inr (Some (take n b @ [0]), fs')"
proof -
  let ?fs = "put_inode p (Reg (take n b) (fs_now fs)) fs"
  have n32: "sint (of_nat n :: 32 word) = int n"
    using n(2) by (simp add: signed_of_nat signed_take_bit_int_eq_self)
  have "rds b 0 n = Inr (take n b)" using n(1) by (simp add: rds_def)
  moreover have "fwrite p (take n b) ((put_inode p (Reg [] (fs_now fs)) fs)\<lparr>fs_streams := Suc (fs_streams fs)\<rparr>)
      = (n, ?fs\<lparr>fs_streams := Suc (fs_streams fs)\<rparr>)"
    using room n(1) by (simp add: fwrite_def Let_def min_absorb1)
  ultimately have "file_write p b n fs = Inr (int n, ?fs)"
    using fopen_wb[OF at] allowed streams n32 by (simp add: file_write_def fclose_def)
  moreover have "file_load p 0 n ?fs = Inr (Some (take n b @ [0]), ?fs)"
    using fopen_reg[of p ?fs] allowed streams n long_nat[of "Suc n"]
    by (simp add: file_load_def fclose_def fread_def Let_def add.commute)
  ultimately show ?thesis by auto
qed

text \<open>A read that fails after the file was opened keeps the stream, except when \<open>fclose\<close> failed.\<close>

lemma file_load_streams:
  assumes open_: "fopen p Mode_rb fs = (Some fh, fs1)" and load: "file_load p offset n fs = Inr (r, fs')"
  shows "fs_streams fs' = (if 0 \<le> offset \<and> \<not> fs_deny fs Fseek fh \<and> length (fread fh (nat offset) n fs) = n
    then fs_streams fs else Suc (fs_streams fs))"
  using load fopen_rb[OF open_] open_ unfolding file_load_def
  by (auto simp: fclose_def fread_def Let_def split: if_splits)

section \<open>Random bytes\<close>

text \<open>\<open>rand_urandom\<close> of \<open>src/src/random.c\<close> in full: the other theories take what it reads from the environment.
  \<open>memcpy\<close> reads \<open>size\<close> bytes of the buffer.\<close>

definition rand_urandom_file :: "nat \<Rightarrow> FS \<Rightarrow> (bytes \<times> FS) res" where
  "rand_urandom_file sz fs = bindr (file_load (lit ''/dev/urandom'') 0 sz fs) (\<lambda>(random, fs). case random of
     None \<Rightarrow> Inl ExitFailure | Some buffer \<Rightarrow> bindr (rds buffer 0 sz) (\<lambda>xs. Inr (xs, fs)))"

lemma rand_urandom_reads:
  assumes dev: "lstat (lit ''/dev/urandom'') fs = Some (Other b t)" "sz \<le> length b" "int sz + 1 < 2 ^ 63"
    and ok: "\<And>c. \<not> fs_deny fs c (lit ''/dev/urandom'')" "fs_streams fs < fs_limit fs"
  shows "rand_urandom_file sz fs = Inr (take sz b, fs)"
proof -
  have "fopen (lit ''/dev/urandom'') Mode_rb fs = (Some (lit ''/dev/urandom''), fs\<lparr>fs_streams := Suc (fs_streams fs)\<rparr>)"
    using resolve_plain[of "lit ''/dev/urandom''" fs] dev(1) ok by (simp add: fopen_def file_islink_def)
  then have "file_load (lit ''/dev/urandom'') 0 sz fs = Inr (Some (take sz b @ [0]), fs)"
    using dev ok long_nat[of "Suc sz"] by (simp add: file_load_def fclose_def fread_def Let_def add.commute min_absorb1)
  then show ?thesis using dev(2) by (simp add: rand_urandom_file_def rds_def)
qed

section \<open>Removing a directory with all it holds\<close>

abbreviation inside :: "bytes \<Rightarrow> bytes \<Rightarrow> bool" where "inside p q \<equiv> q = p \<or> beneath p q"

lemma beneath_iff: "beneath p q \<longleftrightarrow> (\<exists>r. q = path p r)"
proof
  assume *: "beneath p q"
  then have "q = (p @ [CH_slash]) @ drop (Suc (length p)) q" unfolding beneath_def by (metis append_take_drop_id)
  then show "\<exists>r. q = path p r" by (auto simp: path_def)
qed (auto simp: beneath_def path_def)

lemma path_inj [simp]: "path p d = path p e \<longleftrightarrow> d = e"
  by (simp add: path_def)

text \<open>A path splits into its directory and its last name in one way.\<close>

lemma path_split:
  assumes "path p d = path q e" "CH_slash \<notin> set d" "CH_slash \<notin> set e"
  shows "p = q \<and> d = e"
  using assms
proof (induction d arbitrary: e rule: rev_induct)
  case Nil
  then show ?case by (cases e rule: rev_cases) (auto simp: path_def)
next
  case (snoc c d)
  then show ?case by (cases e rule: rev_cases) (auto simp: path_def)
qed

text \<open>What \<open>file_rmrf\<close> needs of what is beneath a path: files and directories only, each in a directory,
  with names and lengths it can handle, and no call that fails.\<close>

definition removable :: "bytes \<Rightarrow> FS \<Rightarrow> bool" where
  "removable p fs \<longleftrightarrow> distinct (map fst (fs_nodes fs)) \<and> (file_isreg p fs \<or> file_isdir p fs) \<and>
    (\<forall>q \<in> fst ` set (fs_nodes fs). inside p q \<longrightarrow>
       length q \<le> MAIN_BUF \<and> (file_isreg q fs \<or> file_isdir q fs) \<and> (\<forall>c. \<not> fs_deny fs c q)) \<and>
    (\<forall>q \<in> fst ` set (fs_nodes fs). beneath p q \<longrightarrow>
       (\<exists>r d. q = path r d \<and> CH_slash \<notin> set d \<and> d \<noteq> [46] \<and> d \<noteq> [46, 46] \<and> file_isdir r fs))"

lemma beneath_path: "beneath p (path r d) \<Longrightarrow> CH_slash \<notin> set d \<Longrightarrow> inside p r"
proof -
  assume "beneath p (path r d)" and d: "CH_slash \<notin> set d"
  then obtain e where e: "path r d = path p e" by (auto simp: beneath_iff)
  show "inside p r"
  proof (cases "CH_slash \<in> set e")
    case True
    then obtain e1 e2 where "e = e1 @ CH_slash # e2" "CH_slash \<notin> set e2" by (meson split_list_last)
    with e have "path r d = path (path p e1) e2" by (simp add: path_def)
    with path_split[OF this d] \<open>CH_slash \<notin> set e2\<close> show ?thesis by (auto simp: beneath_iff)
  qed (use path_split[OF e d] in auto)
qed

lemma under_trans: "inside p q \<Longrightarrow> inside q r \<Longrightarrow> inside p r"
  by (auto simp: beneath_iff path_def)

lemma beneath_length: "beneath p q \<Longrightarrow> length p < length q"
  by (auto simp: beneath_iff path_def)

text \<open>Below different entries of a directory there is nothing in common.\<close>

lemma under_entries:
  assumes "inside (path p d) q" "inside (path p e) q" "CH_slash \<notin> set d" "CH_slash \<notin> set e"
  shows "d = e"
proof -
  have "\<exists>t. q = path p (d @ t) \<and> (t = [] \<or> hd t = CH_slash)" "\<exists>t. q = path p (e @ t) \<and> (t = [] \<or> hd t = CH_slash)"
    using assms(1,2) by (force simp: beneath_iff path_def)+
  then obtain t u where *: "d @ t = e @ u" "t = [] \<or> hd t = CH_slash" "u = [] \<or> hd u = CH_slash" by (metis path_inj)
  from *(1) obtain v where v: "d = e @ v \<and> v @ t = u \<or> d @ v = e \<and> t = v @ u" by (auto simp: append_eq_append_conv2)
  have "v = []" using v *(2,3) assms(3,4) by (cases v) auto
  with v show ?thesis by auto
qed

text \<open>Something is beneath a directory only if it is at or beneath one of its entries.\<close>

lemma beneath_entry:
  assumes r: "removable p fs"
  shows "q \<in> fst ` set (fs_nodes fs) \<Longrightarrow> beneath p q \<Longrightarrow> file_isdir p fs \<and>
    (\<exists>d. path p d \<in> fst ` set (fs_nodes fs) \<and> CH_slash \<notin> set d \<and> d \<noteq> [46] \<and> d \<noteq> [46, 46] \<and> inside (path p d) q)"
proof (induction "length q" arbitrary: q rule: less_induct)
  case less
  then obtain s d where q: "q = path s d" "CH_slash \<notin> set d" "d \<noteq> [46]" "d \<noteq> [46, 46]" "file_isdir s fs"
    using r unfolding removable_def by blast
  have "inside p s" using beneath_path less.prems(2) q(1,2) by blast
  then show ?case
  proof
    assume "s = p"
    then show ?thesis using q less.prems(1) by blast
  next
    assume "beneath p s"
    moreover have "s \<in> fst ` set (fs_nodes fs)"
      using q(5) lstat_dom[of s fs] by (auto simp: file_isdir_def split: option.splits)
    moreover have "length s < length q" using q(1) by (simp add: path_def)
    moreover have "beneath s q" using q(1) by (auto simp: beneath_iff)
    ultimately show ?thesis using less.hyps[of s] under_trans by blast
  qed
qed

lemma nodes_drop [simp]: "fst ` set (fs_nodes (drop_nodes gone fs)) = {q \<in> fst ` set (fs_nodes fs). \<not> gone q}"
  by (force simp: drop_nodes_def)

lemma distinct_drop: "distinct (map fst (fs_nodes fs)) \<Longrightarrow> distinct (map fst (fs_nodes (drop_nodes gone fs)))"
  by (simp add: drop_nodes_def distinct_map_filter)

lemma drop_drop: "drop_nodes gone (drop_nodes gone' fs) = drop_nodes (\<lambda>q. gone' q \<or> gone q) fs"
  by (simp add: drop_nodes_def case_prod_beta' conj_commute)

lemma names_in_iff: "set (names_in p fs) = {d. CH_slash \<notin> set d \<and> path p d \<in> fst ` set (fs_nodes fs)}"
  by (force simp: names_in_def beneath_iff path_def)

lemma distinct_names_in:
  assumes "distinct (map fst (fs_nodes fs))"
  shows "distinct (names_in p fs)"
proof -
  have "inj_on (drop (Suc (length p))) (set (filter (beneath p) (map fst (fs_nodes fs))))"
    by (intro inj_onI) (auto simp: beneath_iff path_def)
  with assms show ?thesis unfolding names_in_def by (auto simp: distinct_map simp del: filter_map)
qed

lemma removableI:
  assumes "distinct (map fst (fs_nodes fs))" "file_isreg p fs \<or> file_isdir p fs"
    "\<And>q. q \<in> fst ` set (fs_nodes fs) \<Longrightarrow> inside p q \<Longrightarrow>
      length q \<le> MAIN_BUF \<and> (file_isreg q fs \<or> file_isdir q fs) \<and> (\<forall>c. \<not> fs_deny fs c q)"
    "\<And>q. q \<in> fst ` set (fs_nodes fs) \<Longrightarrow> beneath p q \<Longrightarrow>
      \<exists>r d. q = path r d \<and> CH_slash \<notin> set d \<and> d \<noteq> [46] \<and> d \<noteq> [46, 46] \<and> file_isdir r fs"
  shows "removable p fs"
  unfolding removable_def by (intro conjI ballI impI) (fact assms(1,2) | simp add: assms(3) | erule (1) assms(4))+

lemma removable_node:
  assumes "removable p fs" "q \<in> fst ` set (fs_nodes fs)" "inside p q"
  shows "length q \<le> MAIN_BUF" "file_isreg q fs \<or> file_isdir q fs" "\<not> fs_deny fs c q"
  using assms unfolding removable_def by blast+

lemma removable_parent:
  assumes "removable p fs" "q \<in> fst ` set (fs_nodes fs)" "beneath p q"
  obtains r d where "q = path r d" "CH_slash \<notin> set d" "d \<noteq> [46]" "d \<noteq> [46, 46]" "file_isdir r fs"
  using assms unfolding removable_def by blast

lemma removable_entry:
  assumes r: "removable p fs" "path p d \<in> fst ` set (fs_nodes fs)"
  shows "removable (path p d) fs"
proof (rule removableI)
  have b: "beneath p q" if "inside (path p d) q" for q using that by (auto simp: beneath_iff path_def)
  show "distinct (map fst (fs_nodes fs))" using r(1) by (simp add: removable_def)
  show "file_isreg (path p d) fs \<or> file_isdir (path p d) fs" using removable_node(2)[OF r] b by blast
  fix q assume q: "q \<in> fst ` set (fs_nodes fs)"
  show "length q \<le> MAIN_BUF \<and> (file_isreg q fs \<or> file_isdir q fs) \<and> (\<forall>c. \<not> fs_deny fs c q)" if "inside (path p d) q"
    using removable_node[OF r(1) q] b[OF that] by blast
  show "\<exists>r e. q = path r e \<and> CH_slash \<notin> set e \<and> e \<noteq> [46] \<and> e \<noteq> [46, 46] \<and> file_isdir r fs" if "beneath (path p d) q"
    by (rule removable_parent[OF r(1) q]) (use b that in blast)+
qed

lemma removable_drop_entry:
  assumes r: "removable p fs" "file_isdir p fs"
  shows "removable p (drop_nodes (inside (path p d)) fs)" (is "removable p ?fs")
proof (rule removableI)
  have p: "\<not> inside (path p d) p" using beneath_length[of "path p d" p] by (auto simp: path_def)
  show "distinct (map fst (fs_nodes ?fs))" using r(1) by (intro distinct_drop) (simp add: removable_def)
  show "file_isreg p ?fs \<or> file_isdir p ?fs" using r(2) p by simp
  show "length q \<le> MAIN_BUF \<and> (file_isreg q ?fs \<or> file_isdir q ?fs) \<and> (\<forall>c. \<not> fs_deny ?fs c q)"
    if "q \<in> fst ` set (fs_nodes ?fs)" "inside p q" for q
    using that removable_node[OF r(1), of q] by simp
  show "\<exists>s e. q = path s e \<and> CH_slash \<notin> set e \<and> e \<noteq> [46] \<and> e \<noteq> [46, 46] \<and> file_isdir s ?fs"
    if q: "q \<in> fst ` set (fs_nodes ?fs)" "beneath p q" for q
  proof -
    have q': "q \<in> fst ` set (fs_nodes fs)" "\<not> inside (path p d) q" using q(1) by simp_all
    obtain s e where s: "q = path s e" "CH_slash \<notin> set e" "e \<noteq> [46]" "e \<noteq> [46, 46]" "file_isdir s fs"
      by (rule removable_parent[OF r(1) q'(1) q(2)])
    have "inside s q" using s(1) by (auto simp: beneath_iff)
    with q'(2) have "\<not> inside (path p d) s" using under_trans by blast
    with s show ?thesis by auto
  qed
qed

lemma rmrf_entries:
  assumes rmrf: "\<And>q fs'. removable q fs' \<Longrightarrow> length p < length q \<Longrightarrow> fs_streams fs' = fs_streams fs \<Longrightarrow>
      fs_limit fs' = fs_limit fs \<Longrightarrow> rmrf q fs' = Inr (True, drop_nodes (inside q) fs')"
    and "removable p fs" "file_isdir p fs" "distinct ds"
    and "\<forall>d \<in> set ds. path p d \<in> fst ` set (fs_nodes fs) \<and> CH_slash \<notin> set d \<and> d \<noteq> [46] \<and> d \<noteq> [46, 46]"
  shows "rmrf_loop rmrf p ds fs = Inr (True, drop_nodes (\<lambda>q. \<exists>d \<in> set ds. inside (path p d) q) fs)"
  using assms
proof (induction ds arbitrary: fs)
  case Nil
  then show ?case by (simp add: drop_nodes_def)
next
  case (Cons d ds)
  let ?fs = "drop_nodes (inside (path p d)) fs"
  have d: "path p d \<in> fst ` set (fs_nodes fs)" "CH_slash \<notin> set d" "d \<noteq> [46]" "d \<noteq> [46, 46]" using Cons.prems(5) by auto
  have "take MAIN_BUF (path p d) = path p d"
    using removable_node(1)[OF Cons.prems(2) d(1)] by (auto simp: beneath_iff)
  moreover have "rmrf (path p d) fs = Inr (True, ?fs)"
    using Cons.prems(1)[OF removable_entry[OF Cons.prems(2) d(1)]] by (simp add: path_def)
  moreover have "rmrf_loop rmrf p ds ?fs = Inr (True, drop_nodes (\<lambda>q. \<exists>d \<in> set ds. inside (path p d) q) ?fs)"
  proof (rule Cons.IH)
    show "removable p ?fs" by (rule removable_drop_entry[OF Cons.prems(2,3)])
    show "file_isdir p ?fs" using Cons.prems(3) beneath_length[of "path p d" p] by (auto simp: path_def)
    have "\<not> inside (path p d) (path p e)" if "e \<in> set ds" for e
      using that Cons.prems(4,5) d(2) under_entries[where p = p and d = d and e = e and q = "path p e"] by auto
    then show "\<forall>e \<in> set ds. path p e \<in> fst ` set (fs_nodes ?fs) \<and> CH_slash \<notin> set e \<and> e \<noteq> [46] \<and> e \<noteq> [46, 46]"
      using Cons.prems(5) by simp
  qed (use Cons.prems in simp_all)
  ultimately show ?case using d(3,4) by (simp add: drop_drop disj_ac)
qed

lemma names_in_streams [simp]: "names_in p (fs\<lparr>fs_streams := n\<rparr>) = names_in p fs"
  by (simp add: names_in_def)

lemma drop_streams [simp]: "drop_nodes gone (fs\<lparr>fs_streams := n\<rparr>) = (drop_nodes gone fs)\<lparr>fs_streams := n\<rparr>"
  by (simp add: drop_nodes_def)

lemma removable_streams [simp]: "removable p (fs\<lparr>fs_streams := n\<rparr>) = removable p fs"
  by (simp add: removable_def)

lemma drop_nodes_cong:
  "(\<And>q. q \<in> fst ` set (fs_nodes fs) \<Longrightarrow> gone q = gone' q) \<Longrightarrow> drop_nodes gone fs = drop_nodes gone' fs"
  by (force simp: drop_nodes_def intro!: arg_cong[where f = "\<lambda>xs. fs\<lparr>fs_nodes := xs\<rparr>"] filter_cong)

lemma not_inside_path [simp]: "\<not> inside (path p d) p"
  by (auto simp: beneath_iff path_def)

lemma rm_reg: "file_isreg p fs \<Longrightarrow> \<not> fs_deny fs Unlink p \<Longrightarrow> file_rm p fs = (True, drop_nodes (\<lambda>q. q = p) fs)"
  by (auto simp: file_rm_def unlink_def file_isreg_def split: option.splits inode.splits)

lemma rmdir_empty:
  "file_isdir p fs \<Longrightarrow> names_in p fs = [] \<Longrightarrow> \<not> fs_deny fs Rmdir p \<Longrightarrow> file_rmdir p fs = (True, drop_nodes (\<lambda>q. q = p) fs)"
  by (auto simp: file_rmdir_def rmdir_def file_isdir_def split: option.splits inode.splits)

lemma opendir_dir:
  "file_isdir p fs \<Longrightarrow> \<not> fs_deny fs Opendir p \<Longrightarrow> fs_streams fs < fs_limit fs \<Longrightarrow>
    opendir p fs = (Some ([46] # [46, 46] # names_in p fs), fs\<lparr>fs_streams := Suc (fs_streams fs)\<rparr>)"
  by (auto simp: opendir_def file_isdir_def split: option.splits inode.splits)

lemma opendir_cases:
  "opendir p fs = (None, fs) \<or>
    (\<exists>ds. opendir p fs = (Some ds, fs\<lparr>fs_streams := Suc (fs_streams fs)\<rparr>) \<and> fs_streams fs < fs_limit fs)"
  by (auto simp: opendir_def not_le split: option.split inode.split)

lemma reg_not_dir: "file_isreg p fs \<Longrightarrow> \<not> file_isdir p fs"
  by (auto simp: file_isreg_def file_isdir_def split: option.splits inode.splits)

lemma removable_known: "removable p fs \<Longrightarrow> p \<in> fst ` set (fs_nodes fs)"
  using lstat_dom[of p fs] by (auto simp: removable_def file_isreg_def file_isdir_def split: option.splits)

lemma removable_names:
  assumes r: "removable p fs" and "d \<in> set (names_in p fs)"
  shows "path p d \<in> fst ` set (fs_nodes fs) \<and> CH_slash \<notin> set d \<and> d \<noteq> [46] \<and> d \<noteq> [46, 46]"
proof -
  have d: "path p d \<in> fst ` set (fs_nodes fs)" "CH_slash \<notin> set d" using assms(2) by (simp_all add: names_in_iff)
  then obtain s e where "path p d = path s e" "CH_slash \<notin> set e" "e \<noteq> [46]" "e \<noteq> [46, 46]"
    by (metis beneath_iff removable_parent[OF r])
  with path_split[of p d s e] d show ?thesis by simp
qed

text \<open>Once what is at or beneath the entries of a directory is gone, the directory is empty and the last to go.\<close>

lemma entries_gone:
  assumes r: "removable p fs"
  defines "fs' \<equiv> drop_nodes (\<lambda>q. \<exists>d \<in> set (names_in p fs). inside (path p d) q) fs"
  shows "names_in p fs' = []" "drop_nodes (\<lambda>q. q = p) fs' = drop_nodes (inside p) fs"
proof -
  show "names_in p fs' = []"
    using names_in_iff[of p fs'] by (auto simp: fs'_def names_in_iff simp flip: set_empty)
  have "inside p q \<longleftrightarrow> (\<exists>d \<in> set (names_in p fs). inside (path p d) q) \<or> q = p" if "q \<in> fst ` set (fs_nodes fs)" for q
    using beneath_entry[OF r that] by (auto simp: names_in_iff beneath_iff path_def)
  then show "drop_nodes (\<lambda>q. q = p) fs' = drop_nodes (inside p) fs"
    unfolding fs'_def drop_drop by (intro drop_nodes_cong) blast
qed

text \<open>A tree that can be removed is removed, and nothing else. Fuel: a path has at most 1023 characters and
  the path of a call is longer than that of its caller.\<close>

lemma file_rmrf_removes:
  assumes "removable p fs" "Suc MAIN_BUF - length p \<le> n" "fs_streams fs + (Suc MAIN_BUF - length p) \<le> fs_limit fs"
  shows "file_rmrf n p fs = Inr (True, drop_nodes (inside p) fs)"
  using assms
proof (induction n arbitrary: p fs)
  case 0
  then show ?case using removable_node(1)[OF 0(1) removable_known[OF 0(1)]] by simp
next
  case (Suc n)
  note p = removable_node[OF Suc.prems(1) removable_known[OF Suc.prems(1)]]
  show ?case
  proof (cases "file_isreg p fs")
    case True
    have "drop_nodes (\<lambda>q. q = p) fs = drop_nodes (inside p) fs"
      using beneath_entry[OF Suc.prems(1)] reg_not_dir[OF True] by (intro drop_nodes_cong) blast
    then show ?thesis using True rm_reg[OF True] p(3) by simp
  next
    case False
    then have dir: "file_isdir p fs" using p(2) by simp
    let ?fs = "fs\<lparr>fs_streams := Suc (fs_streams fs)\<rparr>" and ?ds = "names_in p fs"
    let ?gone = "drop_nodes (\<lambda>q. \<exists>d \<in> set ?ds. inside (path p d) q)"
    have "rmrf_loop (file_rmrf n) p ?ds ?fs = Inr (True, ?gone ?fs)"
    proof (rule rmrf_entries)
      fix q fs' assume "removable q fs'" "length p < length q" "fs_streams fs' = fs_streams ?fs" "fs_limit fs' = fs_limit ?fs"
      then show "file_rmrf n q fs' = Inr (True, drop_nodes (inside q) fs')"
        using Suc.prems(2,3) p(1) by (intro Suc.IH) simp_all
    qed (use Suc.prems(1) dir removable_names[OF Suc.prems(1)] distinct_names_in[of fs] in \<open>auto simp: removable_def\<close>)
    moreover have "file_rmdir p (?gone fs) = (True, drop_nodes (inside p) fs)"
      using rmdir_empty[of p "?gone fs"] dir p(3) entries_gone[OF Suc.prems(1)] by simp
    ultimately show ?thesis
      using False dir p Suc.prems(3) opendir_dir[OF dir] by (simp add: closedir_def)
  qed
qed

text \<open>\<open>file_rmrf\<close> returns on every file system: each of the calls that are active holds a directory open.\<close>

lemma rmrf_loop_returns:
  assumes "\<And>q fs'. fs_limit fs' = fs_limit fs \<Longrightarrow> fs_streams fs \<le> fs_streams fs' \<Longrightarrow>
      \<exists>ok fs''. rmrf q fs' = Inr (ok, fs'') \<and> fs_limit fs'' = fs_limit fs \<and> fs_streams fs' \<le> fs_streams fs''"
  shows "\<exists>ok fs''. rmrf_loop rmrf p ds fs = Inr (ok, fs'') \<and> fs_limit fs'' = fs_limit fs \<and> fs_streams fs \<le> fs_streams fs''"
  using assms
proof (induction ds arbitrary: fs)
  case (Cons d ds)
  obtain ok fs1 where 1: "rmrf (take MAIN_BUF (path p d)) fs = Inr (ok, fs1)" "fs_limit fs1 = fs_limit fs" "fs_streams fs \<le> fs_streams fs1"
    using Cons.prems[of fs "take MAIN_BUF (path p d)"] by auto
  have "\<exists>ok fs''. rmrf_loop rmrf p ds fs1 = Inr (ok, fs'') \<and> fs_limit fs'' = fs_limit fs1 \<and> fs_streams fs1 \<le> fs_streams fs''"
    using 1(2,3) Cons.prems by (intro Cons.IH) (metis order_trans)
  moreover have "\<exists>ok fs''. rmrf_loop rmrf p ds fs = Inr (ok, fs'') \<and> fs_limit fs'' = fs_limit fs \<and> fs_streams fs \<le> fs_streams fs''"
    using Cons.prems by (rule Cons.IH)
  ultimately show ?case using 1 by (auto intro: order_trans)
qed (simp, blast)

lemma rm_streams:
  "file_rm p fs = (ok, fs') \<Longrightarrow> fs_limit fs' = fs_limit fs \<and> fs_streams fs' = fs_streams fs"
  "file_rmdir p fs = (ok, fs') \<Longrightarrow> fs_limit fs' = fs_limit fs \<and> fs_streams fs' = fs_streams fs"
  by (auto simp: file_rm_def unlink_def file_rmdir_def rmdir_def split: option.splits inode.splits if_splits)

lemma file_rmrf_returns:
  "fs_limit fs - fs_streams fs < n \<Longrightarrow>
    \<exists>ok fs'. file_rmrf n p fs = Inr (ok, fs') \<and> fs_limit fs' = fs_limit fs \<and> fs_streams fs \<le> fs_streams fs'"
proof (induction n arbitrary: p fs)
  case (Suc n)
  consider (none) "opendir p fs = (None, fs)"
    | (some) ds where "opendir p fs = (Some ds, fs\<lparr>fs_streams := Suc (fs_streams fs)\<rparr>)" "fs_streams fs < fs_limit fs"
    using opendir_cases by blast
  then show ?case
  proof cases
    case none
    then show ?thesis using rm_streams(1)[of p fs] by (auto split: prod.split)
  next
    case some
    obtain ok fs1 where 1: "rmrf_loop (file_rmrf n) p ds (fs\<lparr>fs_streams := Suc (fs_streams fs)\<rparr>) = Inr (ok, fs1)"
        "fs_limit fs1 = fs_limit fs" "Suc (fs_streams fs) \<le> fs_streams fs1"
      using rmrf_loop_returns[of "fs\<lparr>fs_streams := Suc (fs_streams fs)\<rparr>" "file_rmrf n" p ds] Suc some(2) by force
    obtain b fs2 where 2: "closedir p fs1 = (b, fs2)" "fs_limit fs2 = fs_limit fs" "fs_streams fs \<le> fs_streams fs2"
      using 1(2,3) by (simp add: closedir_def)
    show ?thesis using some 1 2 rm_streams(1)[of p fs] rm_streams(2)[of p fs2] by (auto split: prod.split)
  qed
qed simp

text \<open>Below a path of 1023 characters the name of an entry is cut off: the call is for the directory itself, again
  and again, until no stream is left to the process; none of them is closed.\<close>

lemma file_rmrf_exhausts:
  assumes p: "length p = MAIN_BUF" and ok: "\<not> fs_deny fs Opendir p"
  shows "file_isdir p fs \<Longrightarrow> names_in p fs = d # ds \<Longrightarrow> d \<noteq> [46] \<Longrightarrow> d \<noteq> [46, 46] \<Longrightarrow> fs_streams fs \<le> fs_limit fs \<Longrightarrow>
    fs_limit fs - fs_streams fs < n \<Longrightarrow> file_rmrf n p fs = Inr (False, fs\<lparr>fs_streams := fs_limit fs\<rparr>)"
  using ok
proof (induction n arbitrary: fs)
  case (Suc n)
  have reg: "\<not> file_isreg p fs" using Suc.prems(1) reg_not_dir by blast
  show ?case
  proof (cases "fs_streams fs < fs_limit fs")
    case True
    have "take MAIN_BUF (path p d) = p" using p by (simp add: path_def)
    moreover have "file_rmrf n p (fs\<lparr>fs_streams := Suc (fs_streams fs)\<rparr>) = Inr (False, fs\<lparr>fs_streams := fs_limit fs\<rparr>)"
      using Suc.IH[of "fs\<lparr>fs_streams := Suc (fs_streams fs)\<rparr>"] Suc.prems True by simp
    ultimately show ?thesis using reg Suc.prems opendir_dir[of p fs] True by simp
  next
    case False
    then have "opendir p fs = (None, fs)" by (auto simp: opendir_def split: option.splits inode.splits)
    then show ?thesis using reg Suc.prems(5) False by simp
  qed
qed simp

end
