(* ===== verification/Log.thy ===== *)
theory Log
  imports Opts Files
begin

text \<open>
  What the daemon writes for its user: \<open>_log\<close> of \<open>src/src/log.c\<close> and the times and sizes of
  \<open>src/src/str.c\<close>. In the other theories a call of \<open>log_err\<close> or \<open>log_crit\<close> is the fault \<open>ExitFailure\<close>;
  here is when it is. The text of a message is what \<open>vsnprintf\<close> makes of the format and the arguments.
\<close>

section \<open>Messages\<close>

datatype priority = LOG_CRIT | LOG_ERR | LOG_WARNING | LOG_INFO | LOG_DEBUG

datatype sink = Stderr bytes | Syslog priority bytes

text \<open>\<open>_main\<close> is NULL before \<open>main_init\<close> returns, and \<open>_main->conf\<close> before \<open>conf_init\<close> does.\<close>

type_synonym main_conf_ptr = "OPTS option option"

definition the_conf :: "main_conf_ptr \<Rightarrow> OPTS res" where
  "the_conf m = (case m of Some (Some c) \<Rightarrow> Inr c | _ \<Rightarrow> Inl NullDeref)"

definition print_d :: "int \<Rightarrow> bytes" where
  "print_d i = (if i < 0 then CH_minus # dec_digits (nat (- i)) else dec_digits (nat i))"

text \<open>\<open>vsnprintf( buffer, MAIN_BUF, ... )\<close> keeps a byte for the zero.\<close>

definition log_message :: "bytes option \<Rightarrow> int \<Rightarrow> bytes \<Rightarrow> bytes" where
  "log_message filename line text = (let buffer = take (MAIN_BUF - 1) text in case filename of
       Some f \<Rightarrow> lit ''('' @ f @ lit '':'' @ print_d line @ lit '') '' @ buffer | None \<Rightarrow> buffer)"

text \<open>What was written, and how the call ends.\<close>

definition log_write :: "main_conf_ptr \<Rightarrow> bytes option \<Rightarrow> int \<Rightarrow> priority \<Rightarrow> bytes \<Rightarrow> sink option \<times> unit res" where
  "log_write m filename line priority text =
    (case (if priority = LOG_INFO \<or> priority = LOG_DEBUG
           then bindr (the_conf m) (\<lambda>c. Inr (o_quiet c = CONF_BEQUIET)) else Inr False) of
       Inl e \<Rightarrow> (None, Inl e)
     | Inr True \<Rightarrow> (None, Inr ())
     | Inr False \<Rightarrow> (case the_conf m of Inl e \<Rightarrow> (None, Inl e)
         | Inr c \<Rightarrow> let msg = log_message filename line text in
             (Some (if o_mode c = CONF_FOREGROUND then Stderr (msg @ NL) else Syslog priority msg),
              if priority = LOG_CRIT \<or> priority = LOG_ERR then Inl ExitFailure else Inr ())))"

text \<open>The macros of \<open>log.h\<close>.\<close>

definition log_crit :: "main_conf_ptr \<Rightarrow> bytes \<Rightarrow> sink option \<times> unit res" where
  "log_crit m text = log_write m None 0 LOG_CRIT text"

definition log_err :: "main_conf_ptr \<Rightarrow> bytes \<Rightarrow> sink option \<times> unit res" where
  "log_err m text = log_write m None 0 LOG_ERR text"

definition log_info :: "main_conf_ptr \<Rightarrow> bytes \<Rightarrow> sink option \<times> unit res" where
  "log_info m text = log_write m None 0 LOG_INFO text"

definition log_warn :: "main_conf_ptr \<Rightarrow> bytes \<Rightarrow> sink option \<times> unit res" where
  "log_warn m text = log_write m None 0 LOG_WARNING text"

definition log_debug :: "main_conf_ptr \<Rightarrow> bytes \<Rightarrow> sink option \<times> unit res" where
  "log_debug m text = log_write m None 0 LOG_DEBUG text"

text \<open>Once there is a configuration, an error is reported whatever it says and ends the process.\<close>

lemma log_err_exits:
  "log_err (Some (Some c)) text =
    (Some (if o_mode c = CONF_FOREGROUND then Stderr (take (MAIN_BUF - 1) text @ NL) else Syslog LOG_ERR (take (MAIN_BUF - 1) text)),
     Inl ExitFailure)"
  "log_crit (Some (Some c)) text =
    (Some (if o_mode c = CONF_FOREGROUND then Stderr (take (MAIN_BUF - 1) text @ NL) else Syslog LOG_CRIT (take (MAIN_BUF - 1) text)),
     Inl ExitFailure)"
  by (simp_all add: log_err_def log_crit_def log_write_def the_conf_def log_message_def)

lemma log_info_quiet:
  "fst (log_info (Some (Some c)) text) = None \<longleftrightarrow> o_quiet c = CONF_BEQUIET"
  "snd (log_info (Some (Some c)) text) = Inr ()"
  by (simp_all add: log_info_def log_write_def the_conf_def Let_def split: bool.split)

lemma log_warn_written: "fst (log_warn (Some (Some c)) text) \<noteq> None" "snd (log_warn (Some (Some c)) text) = Inr ()"
  by (simp_all add: log_warn_def log_write_def the_conf_def Let_def)

text \<open>Before, the process ends in a NULL dereference, and no message says why: so when the first allocations
  fail, or \<open>conf_init\<close> cannot read \<open>/dev/urandom\<close>.\<close>

lemma log_before_conf:
  "m = None \<or> m = Some None \<Longrightarrow> log_write m filename line priority text = (None, Inl NullDeref)"
  by (auto simp: log_write_def the_conf_def)

section \<open>Sizes\<close>

text \<open>The string left in a buffer of \<open>n\<close> bytes. \<open>snprintf\<close> keeps a byte for the zero.\<close>

definition str_prettySize :: "nat \<Rightarrow> u64 \<Rightarrow> bytes" where
  "str_prettySize n filesize = take (n - 1)
    (if filesize > 1073741824 then dec_digits (unat (filesize div 1073741824)) @ lit '' GiB''
     else if filesize > 1048576 then dec_digits (unat (filesize div 1048576)) @ lit '' MiB''
     else if filesize > 1024 then dec_digits (unat (filesize div 1024)) @ lit '' KiB''
     else dec_digits (unat filesize) @ lit '' B'')"

text \<open>A number is followed by its unit, and is the size in that unit rounded down.\<close>

lemma str_prettySize_rounds:
  "\<exists>k u s. (u, s) \<in> {(1073741824, '' GiB''), (1048576, '' MiB''), (1024, '' KiB''), (1, '' B'')} \<and>
    str_prettySize n filesize = take (n - 1) (dec_digits k @ lit s) \<and> k * u \<le> unat filesize \<and> unat filesize < (k + 1) * u"
proof -
  have div: "unat (filesize div w) * unat w \<le> unat filesize \<and> unat filesize < (unat (filesize div w) + 1) * unat w"
    if "0 < unat w" for w :: u64
    using that by (simp add: unat_div dividend_less_div_times add.commute)
  consider "filesize > 1073741824" | "\<not> filesize > 1073741824" "filesize > 1048576"
    | "\<not> filesize > 1073741824" "\<not> filesize > 1048576" "filesize > 1024"
    | "\<not> filesize > 1073741824" "\<not> filesize > 1048576" "\<not> filesize > 1024" by blast
  then show ?thesis
  proof cases
    case 1
    then show ?thesis using div[of 1073741824] unfolding str_prettySize_def
      by (intro exI[of _ "unat (filesize div 1073741824)"] exI[of _ 1073741824] exI[of _ "'' GiB''"]) simp
  next
    case 2
    then show ?thesis using div[of 1048576] unfolding str_prettySize_def
      by (intro exI[of _ "unat (filesize div 1048576)"] exI[of _ 1048576] exI[of _ "'' MiB''"]) simp
  next
    case 3
    then show ?thesis using div[of 1024] unfolding str_prettySize_def
      by (intro exI[of _ "unat (filesize div 1024)"] exI[of _ 1024] exI[of _ "'' KiB''"]) simp
  next
    case 4
    then show ?thesis unfolding str_prettySize_def
      by (intro exI[of _ "unat filesize"] exI[of _ 1] exI[of _ "'' B''"]) simp
  qed
qed

section \<open>Times\<close>

text \<open>\<open>gmtime\<close> and \<open>render\<close> are \<open>gmtime_r\<close> and what \<open>strftime\<close> makes of its result with the format of the
  code; \<open>strftime\<close> returns 0 when that does not fit the size it is given. \<open>buffer\<close> is the caller's.\<close>

definition fallback :: bytes where "fallback = lit ''Thu, 01 Jan 1970 00:00:00 GMT''"

definition strncpy :: "bytes \<Rightarrow> bytes \<Rightarrow> nat \<Rightarrow> bytes res" where
  "strncpy mem src n = wr mem 0 (take n (src @ replicate n 0))"

definition str_gmttime :: "(int \<Rightarrow> 'tm option) \<Rightarrow> ('tm \<Rightarrow> bytes) \<Rightarrow> bytes \<Rightarrow> nat \<Rightarrow> int \<Rightarrow> bytes res" where
  "str_gmttime gmtime render buffer n timestamp = bindr (wr buffer 0 (replicate n 0)) (\<lambda>b. case gmtime timestamp of
       Some date \<Rightarrow> (let s = render date in if s = [] \<or> length s \<ge> MAIN_BUF + 1 then strncpy b fallback (n - 1) else wr b 0 (s @ [0]))
     | None \<Rightarrow> strncpy b fallback (n - 1))"

definition str_GMTtime :: "(int \<Rightarrow> 'tm option) \<Rightarrow> ('tm \<Rightarrow> bytes) \<Rightarrow> int \<Rightarrow> bytes \<Rightarrow> nat \<Rightarrow> bytes res" where
  "str_GMTtime gmtime render clock buffer n = (if clock > 0 then str_gmttime gmtime render buffer n clock
     else if n = 0 then Inr buffer else wr buffer 0 (take (n - 1) fallback @ [0]))"

text \<open>A buffer that the text fits holds it with zeros behind. \<open>strftime\<close> is told a size of 1024 whatever
  the buffer has, so a smaller one is written past its end.\<close>

lemma str_gmttime_fits:
  assumes "gmtime t = Some date" "render date \<noteq> []" "length (render date) < n" "n \<le> MAIN_BUF + 1" "length buffer = n"
  shows "str_gmttime gmtime render buffer n t = Inr (render date @ replicate (n - length (render date)) 0)"
proof -
  have "replicate (n - length (render date)) (0 :: u8) = 0 # replicate (n - Suc (length (render date))) 0"
    using assms(3) by (simp add: replicate_Suc[symmetric] Suc_diff_Suc del: replicate_Suc)
  then show ?thesis using assms by (simp add: str_gmttime_def wr_def Let_def)
qed

lemma str_gmttime_overruns:
  assumes "gmtime t = Some date" "render date \<noteq> []" "n \<le> length (render date)" "length (render date) \<le> MAIN_BUF" "length buffer = n"
  shows "str_gmttime gmtime render buffer n t = Inl OutOfBounds"
  using assms by (simp add: str_gmttime_def wr_def Let_def)

end
