(* ===== verification/Spec2Isabelle.thy ===== *)
theory Spec2Isabelle
  imports BenRoundTrip BucketHeap DaemonProps Spread DnsProps NssProps Web Ctl Threads Races Udp FrontProps Startup BenSort BenBuild Shutdown Log
begin

text \<open>
  Masala (\<open>src/src/*.c\<close>) is a peer-to-peer name resolution daemon. Nodes keep a Kademlia-like table of
  other nodes, announce host names under their SHA-1 digest, and look up the IPv6 address of a host by
  asking nodes that are closer and closer to its digest; the messages are bencoded dictionaries in UDP
  datagrams. Local programs ask the daemon over DNS, HTTP, a name service plug-in or a control socket.

  \<^bold>\<open>The program and the theories.\<close> A function of the source is the Isabelle function of the same name
  (a suffix or a prefix where the name is taken). Bytes are \<open>8 word\<close>, C strings are byte lists without
  their terminator, sizes and counters are \<open>nat\<close> or \<open>int\<close> where the source bounds them and words where
  they can wrap. A computation that can go wrong returns \<open>'a res\<close>, a fault (\<open>NullDeref\<close>, \<open>OutOfBounds\<close>,
  \<open>UseAfterFree\<close>, \<open>ExitFailure\<close> for \<open>log_err\<close> and \<open>log_crit\<close>, \<open>OutOfFuel\<close> for a loop that does not end) or a value.

  \<^item> \<open>Prelude\<close>: faults, \<open>bindr\<close>, reading and writing of buffers, lemma collections.
  \<^item> \<open>Linklist\<close> (\<open>list.c\<close>): the doubly linked list over an explicit heap, and what each operation does to the
    sequence it represents. \<open>Races\<close>: \<open>list_put\<close> statement by statement against a concurrent \<open>list_del\<close>.
  \<^item> \<open>Hashmap\<close> (\<open>hash.c\<close>): buckets of pairs; a locale of finite maps is interpreted on it.
    \<open>Store\<close>: the list with an index by hash that every component uses, over that locale.
  \<^item> \<open>Ben\<close>, \<open>BenValidate\<close>, \<open>BenDecode\<close>, \<open>BenRoundTrip\<close>, \<open>BenSort\<close> (\<open>ben.c\<close>): objects, encoder, validator, decoder,
    their round trip, and the routine that sorts a dictionary. \<open>BenFree\<close>, \<open>BenBuild\<close>: the same objects as records in
    memory that point to each other, how they are released, and that building them does what \<open>Ben\<close> says.
  \<^item> \<open>Memory\<close> (\<open>malloc.c\<close>), \<open>Files\<close> (\<open>file.c\<close>), \<open>Log\<close> (\<open>log.c\<close>): allocation, files and messages; strings that own
    their bytes, sizes and times of \<open>str.c\<close>.
  \<^item> \<open>Bucket\<close>, \<open>BucketId\<close>, \<open>BucketInv\<close>, \<open>BucketSplit\<close>, \<open>BucketHeap\<close> (\<open>bucket.c\<close>): the table of nodes, its invariant, the
    splitting of buckets, and the refinement of the list of buckets by the pointer list.
  \<^item> \<open>Masala\<close> (\<open>main.h\<close>, \<open>time.c\<close>, \<open>random.c\<close>): the state \<open>MAIN\<close> of the daemon, one field for each object that
    \<open>_main\<close> points to, and the environment \<open>env\<close>: drawn randomness, the bootstrap addresses, the outbox
    of datagrams (\<open>e_sent\<close>) and of callbacks (\<open>e_called\<close>).
  \<^item> \<open>Cache\<close> (\<open>cache.c\<close>), \<open>Send\<close> (\<open>send_p2p.c\<close>), \<open>Nbhd\<close> and \<open>NbhdExpire\<close> (\<open>neighborhood.c\<close>), \<open>Database\<close>
    (\<open>database.c\<close>), \<open>Lookup\<close> (\<open>lookup.c\<close>, \<open>announce.c\<close>), \<open>P2p\<close> (\<open>p2p.c\<close>, the receive loop of \<open>udp.c\<close>): the operations of the
    daemon. \<open>Invariant\<close>, \<open>P2pInv\<close>, \<open>Cron\<close>: the invariant \<open>main_inv\<close> of all components, handler by handler.
    \<open>CountedLoop\<close>: loops over a list whose counter shrinks while they run.
  \<^item> \<open>Daemon\<close>, \<open>DaemonProps\<close>, \<open>Exchange\<close>: the daemon as a transition system, what its reachable states satisfy,
    and exchanges of messages between two daemons. \<open>Reply\<close>: how many nodes fit into a reply. \<open>Contact\<close>, \<open>Search\<close>,
    \<open>Spread\<close>: a lookup across three daemons, and an announcement from its daemon to the database of another.
  \<^item> \<open>Mutex\<close> (\<open>thrd.c\<close>), \<open>Threads\<close>, \<open>Udp\<close> (\<open>udp.c\<close>): threads over one mutex, as a locale that is interpreted on the
    workers and the front ends; a worker thread as a run of the transition system.
  \<^item> \<open>Sha1\<close>, \<open>Sha1Correct\<close> (\<open>sha1.c\<close>), \<open>Str\<close> (\<open>str.c\<close>, \<open>log.c\<close>): digests, strings, identifiers of names.
  \<^item> \<open>Dns\<close>, \<open>DnsProps\<close> (\<open>masala-dns.c\<close>), \<open>Nss\<close>, \<open>NssProps\<close> (\<open>masala-nss.c\<close>, \<open>masala-libnss.c\<close>), \<open>Cmd\<close>, \<open>CmdProps\<close>
    (\<open>masala-cmd.c\<close>), \<open>Web\<close> (\<open>masala-web.c\<close>): one turn of the loop of each front end, with what it does to \<open>MAIN\<close>.
    \<open>Ctl\<close> (\<open>masala-ctl.c\<close>): the client of the remote control, and the two together.
  \<^item> \<open>Fronts\<close>, \<open>FrontProps\<close>: the loops of the front ends around these turns, the workers that call back \<open>dns_reply\<close> and
    \<open>web_reply\<close>, the handlers of the signals (\<open>unix.c\<close>), and the process they make up. \<open>Waiting\<close>: which contexts the
    lookups of the daemon still have to call, and that every event accounts for each of them.
  \<^item> \<open>Opts\<close> (\<open>opts.c\<close>, \<open>conf.c\<close>), \<open>Startup\<close> (\<open>main.c\<close>, \<open>unix.c\<close>, \<open>udp.c\<close>): configuration, command line, and the system
    calls of the process up to its end. \<open>Shutdown\<close> (\<open>main.c\<close>, \<open>thrd.c\<close>, the \<open>_free\<close> functions): what is released then.

  \<^bold>\<open>What is shown.\<close> Data: the bencode round trip and the totality of its validator, the map laws of the
  hash table, the refinement of lists and buckets by their pointer structures, SHA-1 against its
  definition on whole messages, names and their keys. The daemon: every reachable state satisfies
  \<open>main_inv\<close> and only three faults are left; PING and PONG between two daemons; an announcement is stored by
  the daemons it is sent to, and a lookup finds it across a third; a lookup asks each node once and reports once; sessions are used once; replies without a session change nothing.
  The threads: all of this under every interleaving, no deadlock, and where the code leaves the mutex
  too early. The front ends: what their clients are answered, and the sizes from which a buffer overflows; in
  whatever order they and the workers act, the process is a run of the daemon, each task and request is called back
  once and is alive until then, and after a shutdown each loop serves at most the input it waits for.
  The process: no thread runs with the rights of root; at its end each record of the components is released once,
  and so is each record of a bencode object that is freed. Files: what is written is read back, and a tree is removed whole. The faults that remain are real: theorems give the
  datagrams, tables, schedules and commands that lead to them.

  \<^bold>\<open>Bounds and fuel.\<close> A packet of \<open>n\<close> bytes is validated and decoded with fuel \<open>2 * n + 1\<close>: each unit of recursion
  consumes a byte or closes a container. \<open>nbhd_split\<close> gets any fuel; 161 is enough where it ends at all,
  because each split deepens the bucket of the own identifier by one of its 160 bits. \<open>ben_free_r\<close> needs the depth of the object and the
  length of its lists; \<open>file_rmrf\<close> needs one unit per character that a path may still grow, and returns with one per
  stream the process may still open, as every active call holds one. Buffers have the
  sizes of the source: 1460 bytes for a datagram of the protocol, 1500 for DNS, web and control requests,
  512 for replies, 256 for names.

  \<^bold>\<open>Parameters.\<close> What the program asks of others is an argument: \<open>inet_ntop\<close> and \<open>getaddrinfo\<close> in the control
  commands, the exchange of datagrams between plug-in and server and between \<open>masala-ctl\<close> and the daemon, the operating system of \<open>Startup\<close>.

  \<^bold>\<open>Not modelled.\<close> What is said in the log, other than in \<open>Log\<close>; allocations that fail, other than in \<open>Memory\<close>,
  and the release of memory while the daemon runs, other than where a list or a bencode object is concerned;
  the unused \<open>unix_environment\<close>, a log line; \<open>raw_init\<close> and \<open>raw_free\<close>, the buffer of encoder and decoder, which \<open>Ben\<close> has
  as a byte list; data races inside a step, other than the one of \<open>Races\<close>, and inside an activity of \<open>Fronts\<close>, other
  than those of \<open>Threads\<close>; packaging. \<open>long int\<close> counters of lists are taken
  not to reach their bound outside \<open>Linklist\<close>.
\<close>

end
